(* ===== verification/Skp_Prelude.thy ===== *)
theory Skp_Prelude
  imports Main "HOL-Library.Word" "HOL-Library.Multiset"
begin

text \<open>
  Shared vocabulary of the development: the machine types of the modelled target (LP64, so that
  \<open>unsigned long\<close> is a 64-bit word), the error codes the sources return, the collections of
  facts the component theories feed, and generic lemmas on words, lists and functions.
\<close>

unbundle bit_operations_syntax

section \<open>Machine types\<close>

type_synonym u8 = "8 word"
type_synonym u16 = "16 word"
type_synonym u32 = "32 word"
type_synonym u64 = "64 word"

text \<open>A C array of \<open>unsigned long\<close>, read from the address it starts at.\<close>

type_synonym ulongs = "nat \<Rightarrow> u64"

text \<open>The error codes of \<open>errno.h\<close> that the modelled functions return negated.\<close>

datatype errno = EINVAL | ENOMEM | ENOENT | ENOSPC | EEXIST | EPERM | EFAULT | ENODATA | ERANGE

section \<open>Fact collections\<close>

named_theorems bit_spec \<open>what an operation does to each single bit\<close>
named_theorems frame_spec \<open>what an operation leaves unchanged\<close>
named_theorems inv_intros \<open>operations that keep the component invariants\<close>

section \<open>Words\<close>

lemma bit_word_iff_ex: "(w :: 'a::len word) \<noteq> 0 \<longleftrightarrow> (\<exists>n < LENGTH('a). bit w n)"
  by (auto simp: bit_eq_iff dest: bit_imp_le_length)

lemma unat_lt_2p: "unat (w :: 'a::len word) < 2 ^ LENGTH('a)"
  by (rule unsigned_less)

lemma unset_bit_eq_0D:
  assumes "unset_bit k (w :: 'a::len word) = 0" and "bit w k"
  shows "w = push_bit k 1"
proof (rule bit_eqI)
  fix j
  assume "possible_bit TYPE('a word) j"
  have "bit (unset_bit k w) j = bit (0 :: 'a word) j" by (simp only: assms(1))
  then show "bit w j = bit (push_bit k 1 :: 'a word) j"
    using assms(2) bit_imp_le_length [OF assms(2)] by (auto simp: bit_simps)
qed

lemma unat_div_pow2: "unat (drop_bit k (w :: 'a::len word)) = unat w div 2 ^ k"
  by (metis drop_bit_eq_div unat_drop_bit_eq)

lemma unat_mask_eq: "unat (w AND mask k :: 'a::len word) = unat w mod 2 ^ k"
  by (metis take_bit_eq_mask take_bit_eq_mod unsigned_take_bit_eq)

lemma bit_ge_pow2: "bit (w :: 'a::len word) k \<Longrightarrow> 2 ^ k \<le> unat w"
proof -
  assume b: "bit w k"
  then have "bit (unat w) k"
    by (simp add: bit_unsigned_iff)
  then have "odd (unat w div 2 ^ k)"
    by (simp add: bit_iff_odd)
  then have "unat w div 2 ^ k \<noteq> 0"
    by (metis even_zero)
  then show ?thesis
    by (simp add: div_eq_0_iff not_less)
qed

lemma no_bit_less_pow2: "(\<And>j. k \<le> j \<Longrightarrow> \<not> bit (w :: 'a::len word) j) \<Longrightarrow> unat w < 2 ^ k"
proof -
  assume nb: "\<And>j. k \<le> j \<Longrightarrow> \<not> bit w j"
  have "take_bit k w = w"
    by (rule bit_eqI) (use nb not_le_imp_less in \<open>auto simp: bit_take_bit_iff\<close>)
  then have "unat w = unat w mod 2 ^ k"
    by (metis take_bit_eq_mod unsigned_take_bit_eq)
  then show ?thesis
    by (metis mod_less_divisor zero_less_numeral zero_less_power)
qed

lemma unat_pow2: "k < LENGTH('a) \<Longrightarrow> unat (push_bit k 1 :: 'a::len word) = 2 ^ k"
  by (simp add: unsigned_push_bit_eq take_bit_nat_eq_self_iff del: push_bit_of_1)

lemma word_pred_bits:
  assumes "bit (n :: 'a::len word) k" and "\<And>j. j < k \<Longrightarrow> \<not> bit n j"
  shows "n AND (n - 1) = unset_bit k n"
proof -
  have k: "k < LENGTH('a)" using assms(1) by (rule bit_imp_le_length)
  have "n = unset_bit k n OR push_bit k 1"
    by (rule bit_eqI) (use assms in \<open>auto simp: bit_simps\<close>)
  also have "\<dots> = unset_bit k n + push_bit k 1"
    by (rule disjunctive_add_eq_or [symmetric], rule bit_eqI) (auto simp: bit_simps)
  finally have "n - 1 = unset_bit k n + mask k"
    by (simp add: mask_eq_exp_minus_1)
  also have "\<dots> = unset_bit k n OR mask k"
    by (rule disjunctive_add_eq_or, rule bit_eqI) (use assms(2) in \<open>auto simp: bit_simps\<close>)
  finally have "n - 1 = unset_bit k n OR mask k" .
  then show ?thesis
    by simp (rule bit_eqI, use assms in \<open>auto simp: bit_simps\<close>)
qed

end
