(* ===== verification/Bitops.thy ===== *)
theory Bitops
  imports Skp_Prelude
begin

text \<open>
  \<open>include/skp/utils/bitops.h\<close>: rotations, byte swaps, single-bit operations on arrays of
  \<open>unsigned long\<close>, and the integer logarithms and powers of two built on the compiler's
  count-leading-zeros, count-trailing-zeros and population-count builtins.
  A leading \<open>__\<close> of a C name is written \<open>u_\<close> here and in every other theory.
\<close>

section \<open>Compiler builtins\<close>

fun clz_from :: "'a::len word \<Rightarrow> nat \<Rightarrow> nat" where
  "clz_from w 0 = 0"
| "clz_from w (Suc n) = (if bit w n then 0 else Suc (clz_from w n))"

definition builtin_clz :: "'a::len word \<Rightarrow> nat" where
  "builtin_clz (w :: 'a word) = clz_from w LENGTH('a)"

fun ctz_from :: "'a::len word \<Rightarrow> nat \<Rightarrow> nat \<Rightarrow> nat" where
  "ctz_from w i 0 = 0"
| "ctz_from w i (Suc n) = (if bit w i then 0 else Suc (ctz_from w (Suc i) n))"

definition builtin_ctz :: "'a::len word \<Rightarrow> nat" where
  "builtin_ctz (w :: 'a word) = ctz_from w 0 LENGTH('a)"

definition builtin_popcount :: "'a::len word \<Rightarrow> nat" where
  "builtin_popcount (w :: 'a word) = length (filter (bit w) [0..<LENGTH('a)])"

section \<open>Alignment arithmetic\<close>

definition BITS_PER_LONG :: nat where
  "BITS_PER_LONG = 64"

definition BITS_TO_LONGS :: "nat \<Rightarrow> nat" where
  "BITS_TO_LONGS nr = (nr + 8 * 8 - 1) div (8 * 8)"

definition BIT_WORD :: "nat \<Rightarrow> nat" where
  "BIT_WORD nr = nr div BITS_PER_LONG"

definition ALIGN :: "u64 \<Rightarrow> u64 \<Rightarrow> u64" where
  "ALIGN x a = (let mask = a - 1 in (x + mask) AND NOT mask)"

definition DIV_ROUND_UP :: "nat \<Rightarrow> nat \<Rightarrow> nat" where
  "DIV_ROUND_UP n d = (n + d - 1) div d"

text \<open>The same macro on \<open>unsigned int\<close> operands.\<close>

definition DIV_ROUND_UP_u32 :: "nat \<Rightarrow> nat \<Rightarrow> nat" where
  "DIV_ROUND_UP_u32 n d = (n + d - 1) mod 2 ^ 32 div d"

section \<open>Rotations and byte order\<close>

definition rol32 :: "u32 \<Rightarrow> nat \<Rightarrow> u32" where
  "rol32 word shift = push_bit shift word OR drop_bit (32 - shift) word"

definition ror32 :: "u32 \<Rightarrow> nat \<Rightarrow> u32" where
  "ror32 word shift = drop_bit shift word OR push_bit (32 - shift) word"

definition rol64 :: "u64 \<Rightarrow> nat \<Rightarrow> u64" where
  "rol64 word shift = push_bit shift word OR drop_bit (64 - shift) word"

definition ror64 :: "u64 \<Rightarrow> nat \<Rightarrow> u64" where
  "ror64 word shift = drop_bit shift word OR push_bit (64 - shift) word"

definition SWAP_2BYTES :: "u16 \<Rightarrow> u16" where
  "SWAP_2BYTES v = drop_bit 8 (v AND 0xff00) OR push_bit 8 (v AND 0x00ff)"

definition SWAP_4BYTES :: "u32 \<Rightarrow> u32" where
  "SWAP_4BYTES v =
     drop_bit 24 (v AND 0xff000000) OR drop_bit 8 (v AND 0x00ff0000) OR
     push_bit 8 (v AND 0x0000ff00) OR push_bit 24 (v AND 0x000000ff)"

definition SWAP_8BYTES :: "u64 \<Rightarrow> u64" where
  "SWAP_8BYTES v =
     drop_bit 56 (v AND 0xff00000000000000) OR
     drop_bit 40 (v AND 0x00ff000000000000) OR
     drop_bit 24 (v AND 0x0000ff0000000000) OR
     drop_bit 8 (v AND 0x000000ff00000000) OR
     push_bit 8 (v AND 0x00000000ff000000) OR
     push_bit 24 (v AND 0x0000000000ff0000) OR
     push_bit 40 (v AND 0x000000000000ff00) OR
     push_bit 56 (v AND 0x00000000000000ff)"

text \<open>The 64-bit conversions test only whether the macro \<open>__BIG_ENDIAN\<close> is defined, which the headers
  of the host decide: the parameter \<open>be\<close> says that it is.\<close>

definition htonll :: "bool \<Rightarrow> u64 \<Rightarrow> u64" where
  "htonll be v = (if be then v else SWAP_8BYTES v)"

definition ntohll :: "bool \<Rightarrow> u64 \<Rightarrow> u64" where
  "ntohll be v = (if be then v else SWAP_8BYTES v)"

section \<open>Single bits of an array of unsigned longs\<close>

text \<open>
  The \<open>bts\<close>, \<open>btr\<close>, \<open>btc\<close> and \<open>bt\<close> instructions with a memory operand address bit \<open>nr\<close> of
  the array that starts at \<open>addr\<close>; the \<open>lock\<close>-prefixed forms do the same as one atomic step.
\<close>

definition set_bit_at :: "nat \<Rightarrow> ulongs \<Rightarrow> ulongs" where
  "set_bit_at nr addr = addr(nr div 64 := set_bit (nr mod 64) (addr (nr div 64)))"

definition clear_bit_at :: "nat \<Rightarrow> ulongs \<Rightarrow> ulongs" where
  "clear_bit_at nr addr = addr(nr div 64 := unset_bit (nr mod 64) (addr (nr div 64)))"

definition change_bit_at :: "nat \<Rightarrow> ulongs \<Rightarrow> ulongs" where
  "change_bit_at nr addr = addr(nr div 64 := flip_bit (nr mod 64) (addr (nr div 64)))"

definition variable_test_bit :: "nat \<Rightarrow> ulongs \<Rightarrow> bool" where
  "variable_test_bit nr addr = bit (addr (nr div 64)) (nr mod 64)"

definition constant_test_bit :: "nat \<Rightarrow> ulongs \<Rightarrow> bool" where
  "constant_test_bit nr addr = ((push_bit (nr mod 64) 1 AND addr (drop_bit 6 nr)) \<noteq> 0)"

definition test_and_set_bit :: "nat \<Rightarrow> ulongs \<Rightarrow> bool \<times> ulongs" where
  "test_and_set_bit nr addr = (variable_test_bit nr addr, set_bit_at nr addr)"

definition test_and_clear_bit :: "nat \<Rightarrow> ulongs \<Rightarrow> bool \<times> ulongs" where
  "test_and_clear_bit nr addr = (variable_test_bit nr addr, clear_bit_at nr addr)"

definition test_and_change_bit :: "nat \<Rightarrow> ulongs \<Rightarrow> bool \<times> ulongs" where
  "test_and_change_bit nr addr = (variable_test_bit nr addr, change_bit_at nr addr)"

section \<open>Counting and locating bits\<close>

definition fls :: "u32 \<Rightarrow> nat" where
  "fls x = (if x \<noteq> 0 then 4 * 8 - builtin_clz x else 0)"

definition flsl :: "u64 \<Rightarrow> nat" where
  "flsl x = (if x \<noteq> 0 then 8 * 8 - builtin_clz x else 0)"

definition u_flsl :: "u64 \<Rightarrow> nat" where
  "u_flsl x = 8 * 8 - 1 - builtin_clz x"

definition u_ffsl :: "u64 \<Rightarrow> nat" where
  "u_ffsl x = builtin_ctz x"

definition ffzl :: "u64 \<Rightarrow> nat" where
  "ffzl x = u_ffsl (NOT x)"

definition hweight32 :: "u32 \<Rightarrow> nat" where
  "hweight32 w = builtin_popcount w"

definition hweight64 :: "u64 \<Rightarrow> nat" where
  "hweight64 w = builtin_popcount w"

definition hweight_long :: "u64 \<Rightarrow> nat" where
  "hweight_long w = hweight64 w"

section \<open>Powers of two\<close>

definition get_count_order :: "u32 \<Rightarrow> int" where
  "get_count_order v =
     (if v = 0 then -1
      else if v AND (v - 1) \<noteq> 0 then int (fls v)
      else int (fls v) - 1)"

definition get_count_order_long :: "u64 \<Rightarrow> int" where
  "get_count_order_long v =
     (if v = 0 then -1
      else if v AND (v - 1) \<noteq> 0 then int (flsl v)
      else int (flsl v) - 1)"

definition u_ilog2_u32 :: "u32 \<Rightarrow> int" where
  "u_ilog2_u32 v = int (fls v) - 1"

definition u_ilog2_u64 :: "u64 \<Rightarrow> int" where
  "u_ilog2_u64 v = int (flsl v) - 1"

definition is_power_of_2 :: "u64 \<Rightarrow> bool" where
  "is_power_of_2 n = (n \<noteq> 0 \<and> n AND (n - 1) = 0)"

definition u_roundup_pow_of_two :: "u64 \<Rightarrow> u64" where
  "u_roundup_pow_of_two n = push_bit (flsl (n - 1)) 1"

definition u_rounddown_pow_of_two :: "u64 \<Rightarrow> u64" where
  "u_rounddown_pow_of_two n = push_bit (flsl n - 1) 1"

text \<open>The chain of tests of \<open>ilog2_const\<close>, from bit 63 down to bit 2, with 1 as the last answer.\<close>

fun ilog2_chain :: "u64 \<Rightarrow> nat \<Rightarrow> nat" where
  "ilog2_chain n k =
     (if k < 2 then 1 else if n AND push_bit k 1 \<noteq> 0 then k else ilog2_chain n (k - 1))"

definition ilog2_const :: "u64 \<Rightarrow> nat" where
  "ilog2_const n = (if n < 2 then 0 else ilog2_chain n 63)"

definition u_order_base_2 :: "u64 \<Rightarrow> int" where
  "u_order_base_2 n = (if n > 1 then u_ilog2_u64 (n - 1) + 1 else 0)"

definition order_base_2_const :: "u64 \<Rightarrow> nat" where
  "order_base_2_const n = (if n = 0 \<or> n = 1 then 0 else ilog2_const (n - 1) + 1)"

declare ilog2_chain.simps [simp del]

section \<open>Locating the highest and the lowest set bit\<close>

lemma clz_from_le: "clz_from w n \<le> n"
  by (induction n) auto

lemma clz_from_top:
  "clz_from w n < n \<Longrightarrow> bit w (n - Suc (clz_from w n))"
  by (induction n) (auto split: if_splits)

lemma clz_from_above:
  "n - clz_from w n \<le> j \<Longrightarrow> j < n \<Longrightarrow> \<not> bit w j"
  by (induction n) (auto split: if_splits simp: less_Suc_eq)

lemma clz_from_less: "i < n \<Longrightarrow> bit w i \<Longrightarrow> clz_from w n < n"
  by (induction n) (auto simp: less_Suc_eq)

lemma builtin_clz_less: "(w :: 'a::len word) \<noteq> 0 \<Longrightarrow> builtin_clz w < LENGTH('a)"
  by (auto simp: builtin_clz_def bit_word_iff_ex intro: clz_from_less)

lemma builtin_clz_top: "(w :: 'a::len word) \<noteq> 0 \<Longrightarrow> bit w (LENGTH('a) - 1 - builtin_clz w)"
  using clz_from_top [of w "LENGTH('a)"] builtin_clz_less [of w] by (simp add: builtin_clz_def)

lemma builtin_clz_above: "LENGTH('a) - builtin_clz w \<le> j \<Longrightarrow> \<not> bit (w :: 'a::len word) j"
  using clz_from_above [of "LENGTH('a)" w j] bit_imp_le_length [of w j]
  by (auto simp: builtin_clz_def)

lemma ctz_from_spec:
  "(\<exists>j. i \<le> j \<and> j < i + n \<and> bit w j) \<Longrightarrow>
     ctz_from w i n < n \<and> bit w (i + ctz_from w i n) \<and> (\<forall>j. i \<le> j \<and> j < i + ctz_from w i n \<longrightarrow> \<not> bit w j)"
proof (induction n arbitrary: i)
  case 0
  then show ?case by auto
next
  case (Suc n)
  show ?case
  proof (cases "bit w i")
    case True
    then show ?thesis by auto
  next
    case False
    with Suc.prems have "\<exists>j. Suc i \<le> j \<and> j < Suc i + n \<and> bit w j"
      by (metis add_Suc_right add_Suc le_antisym not_less_eq_eq)
    from Suc.IH [OF this] False show ?thesis
      by (auto simp: Suc_le_eq) (metis le_neq_implies_less)
  qed
qed

lemma builtin_ctz_spec:
  assumes "(w :: 'a::len word) \<noteq> 0"
  shows "builtin_ctz w < LENGTH('a)" and "bit w (builtin_ctz w)"
    and "j < builtin_ctz w \<Longrightarrow> \<not> bit w j"
  using ctz_from_spec [of 0 "LENGTH('a)" w] assms by (auto simp: builtin_ctz_def bit_word_iff_ex)

lemma builtin_ctz_unique:
  "bit (w :: 'a::len word) k \<Longrightarrow> (\<And>j. j < k \<Longrightarrow> \<not> bit w j) \<Longrightarrow> builtin_ctz w = k"
  by (metis bit_0_eq bot_fun_def bot_bool_def builtin_ctz_spec(2,3) linorder_neqE_nat)

lemmas u_ffsl_spec = builtin_ctz_spec [where 'a = 64, simplified, folded u_ffsl_def]

text \<open>The value bracket of a word by its highest set bit, shared by the 32- and 64-bit versions.\<close>

lemma unat_less_pow_clz: "unat (w :: 'a::len word) < 2 ^ (LENGTH('a) - builtin_clz w)"
  by (rule no_bit_less_pow2) (rule builtin_clz_above)

lemma pow_clz_le_unat: "(w :: 'a::len word) \<noteq> 0 \<Longrightarrow> 2 ^ (LENGTH('a) - 1 - builtin_clz w) \<le> unat w"
  by (rule bit_ge_pow2) (rule builtin_clz_top)

lemma flsl_upper: "unat x < 2 ^ flsl x"
  using unat_less_pow_clz [of x] by (simp add: flsl_def)

lemma flsl_lower: "x \<noteq> 0 \<Longrightarrow> 2 ^ (flsl x - 1) \<le> unat x"
  using pow_clz_le_unat [of x] by (simp add: flsl_def)

lemma flsl_pos: "x \<noteq> 0 \<Longrightarrow> 0 < flsl x"
  using builtin_clz_less [of x] by (simp add: flsl_def)

lemma flsl_le: "flsl x \<le> 64"
  by (simp add: flsl_def)

lemma fls_upper: "unat x < 2 ^ fls x"
  using unat_less_pow_clz [of x] by (simp add: fls_def)

lemma fls_lower: "x \<noteq> 0 \<Longrightarrow> 2 ^ (fls x - 1) \<le> unat x"
  using pow_clz_le_unat [of x] by (simp add: fls_def)

lemma fls_pos: "x \<noteq> 0 \<Longrightarrow> 0 < fls x"
  using builtin_clz_less [of x] by (simp add: fls_def)

lemma pow2_bracket_unique:
  "2 ^ (a - 1) \<le> (n::nat) \<Longrightarrow> n < 2 ^ a \<Longrightarrow> 2 ^ (b - 1) \<le> n \<Longrightarrow> n < 2 ^ b \<Longrightarrow> 0 < a \<Longrightarrow> 0 < b \<Longrightarrow> a = b"
proof (rule ccontr)
  assume h: "2 ^ (a - 1) \<le> n" "n < 2 ^ a" "2 ^ (b - 1) \<le> n" "n < 2 ^ b" "0 < a" "0 < b" "a \<noteq> b"
  consider "a \<le> b - 1" | "b \<le> a - 1" using h by linarith
  then show False
  proof cases
    case 1
    then have "(2::nat) ^ a \<le> 2 ^ (b - 1)" by simp
    with h show False by linarith
  next
    case 2
    then have "(2::nat) ^ b \<le> 2 ^ (a - 1)" by simp
    with h show False by linarith
  qed
qed

lemma flsl_unique: "2 ^ k \<le> unat x \<Longrightarrow> unat x < 2 ^ Suc k \<Longrightarrow> flsl x = Suc k"
proof -
  assume h: "2 ^ k \<le> unat x" "unat x < 2 ^ Suc k"
  then have "x \<noteq> 0" by auto
  then show "flsl x = Suc k"
    by (rule pow2_bracket_unique [OF flsl_lower flsl_upper]) (use h \<open>x \<noteq> 0\<close> in \<open>auto intro: flsl_pos\<close>)
qed

section \<open>Powers of two\<close>

lemma is_power_of_2_iff_shift: "is_power_of_2 n \<longleftrightarrow> (\<exists>k < 64. n = push_bit k 1)"
proof (cases "n = 0")
  case True
  then show ?thesis by (auto simp: is_power_of_2_def bit_eq_iff bit_simps)
next
  case False
  define k where "k = builtin_ctz n"
  have k: "k < 64" "bit n k" "\<And>j. j < k \<Longrightarrow> \<not> bit n j"
    using builtin_ctz_spec [OF False] by (auto simp: k_def)
  have and_eq: "n AND (n - 1) = unset_bit k n"
    using k(2,3) by (rule word_pred_bits)
  show ?thesis
  proof
    assume "is_power_of_2 n"
    then have "unset_bit k n = 0" by (simp add: is_power_of_2_def and_eq)
    then have "n = push_bit k 1"
      using k(2) by (rule unset_bit_eq_0D)
    with k(1) show "\<exists>k < 64. n = push_bit k 1" by blast
  next
    assume "\<exists>k < 64. n = push_bit k 1"
    then obtain i where "i < 64" "n = push_bit i 1" by blast
    moreover from this k(2) have "i = k" by (auto simp: bit_simps)
    ultimately have "unset_bit k n = 0" by (auto simp: bit_eq_iff bit_simps)
    with False show "is_power_of_2 n" by (simp add: is_power_of_2_def and_eq)
  qed
qed

lemma is_power_of_2_unat: "is_power_of_2 n \<longleftrightarrow> (\<exists>k. unat n = 2 ^ k)"
proof
  assume "is_power_of_2 n"
  then show "\<exists>k. unat n = 2 ^ k"
    using unat_pow2 [where 'a = 64] by (auto simp: is_power_of_2_iff_shift simp del: push_bit_of_1)
next
  assume "\<exists>k. unat n = 2 ^ k"
  then obtain k where k: "unat n = 2 ^ k" by blast
  have "(2::nat) ^ k < 2 ^ 64" using unat_lt_2p [of n] k by simp
  then have "k < 64" by (rule power_less_imp_less_exp [rotated]) simp
  then have "n = push_bit k 1"
    using k \<open>k < 64\<close> unat_pow2 [of k, where 'a = 64] by (simp add: word_unat_eq_iff)
  with \<open>k < 64\<close> show "is_power_of_2 n" by (auto simp: is_power_of_2_iff_shift)
qed

lemma roundup_pow_of_two_bracket:
  assumes "1 \<le> unat n" and "unat n \<le> 2 ^ 63"
  shows "\<exists>k \<le> 63. unat (u_roundup_pow_of_two n) = 2 ^ k \<and> unat n \<le> 2 ^ k \<and> 2 ^ k < 2 * unat n"
proof -
  have pred: "unat (n - 1) = unat n - 1"
    using assms(1) by (simp add: unat_minus_one word_neq_0_conv unat_gt_0 Suc_le_eq)
  show ?thesis
  proof (cases "n - 1 = 0")
    case True
    then have "unat n = 1" using pred assms(1) by simp
    then show ?thesis using True
      by (intro exI [of _ 0]) (simp add: u_roundup_pow_of_two_def flsl_def)
  next
    case False
    define k where "k = flsl (n - 1)"
    have lo: "2 ^ (k - 1) \<le> unat n - 1" and hi: "unat n - 1 < 2 ^ k" and "0 < k"
      using flsl_lower [OF False] flsl_upper [of "n - 1"] flsl_pos [OF False] pred
      by (simp_all add: k_def)
    have "(2::nat) ^ (k - 1) < 2 ^ 63" using lo assms by linarith
    then have "k - 1 < 63" by (rule power_less_imp_less_exp [rotated]) simp
    then have k: "k \<le> 63" by simp
    have "(2::nat) ^ k = 2 * 2 ^ (k - 1)"
      using \<open>0 < k\<close> by (metis Suc_pred power_Suc One_nat_def)
    then have "2 ^ k < 2 * unat n" using lo assms(1) by linarith
    moreover have "unat (u_roundup_pow_of_two n) = 2 ^ k"
      using unat_pow2 [of k, where 'a = 64] k by (simp add: u_roundup_pow_of_two_def k_def)
    ultimately show ?thesis using k hi by (intro exI [of _ k]) simp
  qed
qed

lemma ilog2_chain_eq:
  "2 \<le> unat n \<Longrightarrow> (\<And>j. k < j \<Longrightarrow> \<not> bit n j) \<Longrightarrow> k < 64 \<Longrightarrow> Suc (ilog2_chain n k) = flsl n"
proof (induction n k rule: ilog2_chain.induct)
  case (1 n k)
  have test: "(n AND push_bit k 1 \<noteq> 0) = bit n k"
    by (simp only: bit_iff_and_push_bit_not_eq_0)
  have below: "unat n < 2 ^ Suc k"
    by (rule no_bit_less_pow2) (use "1.prems"(2) Suc_le_lessD in blast)
  show ?case
  proof (cases "k < 2")
    case True
    then have "k = 1"
      using below "1.prems"(1) by (cases "k = 0") auto
    then show ?thesis
      using "1.prems"(1) below flsl_unique [of 1 n] by (simp add: ilog2_chain.simps)
  next
    case nlt: False
    show ?thesis
    proof (cases "bit n k")
      case True
      then show ?thesis
        using nlt test flsl_unique [OF bit_ge_pow2 below] by (simp add: ilog2_chain.simps [of n k])
    next
      case False
      have "\<not> bit n j" if "k - 1 < j" for j
        using that False "1.prems"(2) [of j] nlt by (cases "j = k") auto
      then show ?thesis
        using "1.IH" [OF nlt] False test nlt "1.prems" by (simp add: ilog2_chain.simps [of n k])
    qed
  qed
qed

lemma ilog2_const_eq: "2 \<le> unat n \<Longrightarrow> Suc (ilog2_const n) = flsl n"
proof -
  assume n: "2 \<le> unat n"
  then have "\<not> n < 2" by (simp add: word_less_nat_alt)
  moreover have "Suc (ilog2_chain n 63) = flsl n"
    using n by (intro ilog2_chain_eq) (auto dest: bit_imp_le_length)
  ultimately show ?thesis by (simp add: ilog2_const_def)
qed

section \<open>Bit arrays\<close>

lemma variable_test_bit_set [bit_spec]:
  "variable_test_bit j (set_bit_at i m) = (j = i \<or> variable_test_bit j m)"
  by (auto simp: variable_test_bit_def set_bit_at_def bit_simps)
     (metis div_mult_mod_eq)+

lemma variable_test_bit_clear [bit_spec]:
  "variable_test_bit j (clear_bit_at i m) = (j \<noteq> i \<and> variable_test_bit j m)"
  by (auto simp: variable_test_bit_def clear_bit_at_def bit_simps)
     (metis div_mult_mod_eq)+

lemma variable_test_bit_change [bit_spec]:
  "variable_test_bit j (change_bit_at i m) = (if j = i then \<not> variable_test_bit j m else variable_test_bit j m)"
  by (auto simp: variable_test_bit_def change_bit_at_def bit_simps)
     (metis div_mult_mod_eq)+

lemma constant_test_bit_eq: "constant_test_bit nr m = variable_test_bit nr m"
  by (simp add: constant_test_bit_def variable_test_bit_def bit_iff_and_push_bit_not_eq_0
      drop_bit_eq_div and.commute)

lemma ulongs_eqI: "(\<And>j. variable_test_bit j m = variable_test_bit j m') \<Longrightarrow> m = m'"
proof (rule ext, rule bit_eqI)
  fix k n
  assume h: "\<And>j. variable_test_bit j m = variable_test_bit j m'" and "possible_bit TYPE(u64) n"
  then have "n < 64" by simp
  then show "bit (m k) n = bit (m' k) n"
    using h [of "k * 64 + n"] by (simp add: variable_test_bit_def)
qed

section \<open>Rotations\<close>

lemma bit_rol32:
  "s < 32 \<Longrightarrow> n < 32 \<Longrightarrow> bit (rol32 w s) n = bit w (if s \<le> n then n - s else 32 - s + n)"
  by (auto simp: rol32_def bit_simps dest: bit_imp_le_length)

lemma bit_ror32:
  "s < 32 \<Longrightarrow> n < 32 \<Longrightarrow> bit (ror32 w s) n = bit w (if s + n < 32 then s + n else n - (32 - s))"
  by (auto simp: ror32_def bit_simps dest: bit_imp_le_length)

lemma ror32_rol32: "s < 32 \<Longrightarrow> ror32 (rol32 w s) s = w"
  by (rule bit_word_eqI) (auto simp: bit_ror32 bit_rol32)

lemma rol32_ror32: "s < 32 \<Longrightarrow> rol32 (ror32 w s) s = w"
  by (rule bit_word_eqI) (auto simp: bit_ror32 bit_rol32)

section \<open>Byte order\<close>

lemma byte_masks:
  "0xff = (mask 8 :: 'a::len word)" "0xff00 = push_bit 8 (mask 8 :: 'a::len word)"
  "0xff0000 = push_bit 16 (mask 8 :: 'a::len word)" "0xff000000 = push_bit 24 (mask 8 :: 'a::len word)"
  "0xff00000000 = push_bit 32 (mask 8 :: 'a::len word)" "0xff0000000000 = push_bit 40 (mask 8 :: 'a::len word)"
  "0xff000000000000 = push_bit 48 (mask 8 :: 'a::len word)" "0xff00000000000000 = push_bit 56 (mask 8 :: 'a::len word)"
  by (simp_all add: mask_eq_exp_minus_1 push_bit_eq_mult)

lemma bit_SWAP_2BYTES: "n < 16 \<Longrightarrow> bit (SWAP_2BYTES v) n = bit v (if n < 8 then n + 8 else n - 8)"
  unfolding SWAP_2BYTES_def byte_masks
  by (auto simp: bit_simps ac_simps)

lemma bit_SWAP_4BYTES: "n < 32 \<Longrightarrow> bit (SWAP_4BYTES v) n =
   bit v (if n < 8 then n + 24 else if n < 16 then n + 8 else if n < 24 then n - 8 else n - 24)"
  unfolding SWAP_4BYTES_def byte_masks
  by (auto simp: bit_simps ac_simps)

lemma bit_SWAP_8BYTES_all: "\<forall>n\<in>{..<64}. bit (SWAP_8BYTES v) n = bit v (8 * (7 - n div 8) + n mod 8)"
  unfolding SWAP_8BYTES_def byte_masks
  by (simp add: lessThan_nat_numeral lessThan_Suc bit_simps) (simp add: numeral_2_eq_2)

lemma bit_SWAP_8BYTES: "n < 64 \<Longrightarrow> bit (SWAP_8BYTES v) n = bit v (8 * (7 - n div 8) + n mod 8)"
  using bit_SWAP_8BYTES_all by simp

lemma SWAP_2BYTES_twice: "SWAP_2BYTES (SWAP_2BYTES v) = v"
  by (rule bit_word_eqI) (auto simp: bit_SWAP_2BYTES)

lemma SWAP_4BYTES_twice: "SWAP_4BYTES (SWAP_4BYTES v) = v"
  by (rule bit_word_eqI) (auto simp: bit_SWAP_4BYTES)

lemma SWAP_8BYTES_twice: "SWAP_8BYTES (SWAP_8BYTES v) = v"
proof (rule bit_word_eqI)
  fix n
  assume "n < LENGTH(64)"
  then have n: "n < 64" by simp
  then have "8 * (7 - n div 8) + n mod 8 < 64" by auto
  then show "bit (SWAP_8BYTES (SWAP_8BYTES v)) n = bit v n"
    using n by (simp add: bit_SWAP_8BYTES)
qed

end
