(* ===== verification/Bitmap.thy ===== *)
theory Bitmap
  imports Bitops
begin

text \<open>
  \<open>include/skp/utils/bitmap.h\<close> and \<open>src/utils/bitmap.c\<close>: bitmaps stored in arrays of
  \<open>unsigned long\<close>. An array is a function from word indices, so that an access past the words
  of the map is visible: the frame lemmas say which words an operation may touch.

  The inline wrappers of the header choose between a one-word version and the out-of-line
  function by \<open>small_const_nbits\<close>, which asks the compiler whether \<open>nbits\<close> is a constant of at
  most 64. The answer is the argument \<open>const\<close> of the models.
\<close>

section \<open>Masks\<close>

definition BITMAP_FIRST_WORD_MASK :: "nat \<Rightarrow> u64" where
  "BITMAP_FIRST_WORD_MASK start = push_bit (start mod BITS_PER_LONG) (-1)"

definition BITMAP_LAST_WORD_MASK :: "nat \<Rightarrow> u64" where
  "BITMAP_LAST_WORD_MASK nbits = NOT (BITMAP_FIRST_WORD_MASK nbits)"

definition small_const_nbits :: "bool \<Rightarrow> nat \<Rightarrow> bool" where
  "small_const_nbits const nbits = (const \<and> nbits \<le> BITS_PER_LONG)"

text \<open>
  \<open>for (k = 0; k < lim; k++) dst[k] = f(k)\<close>, and \<open>memset\<close> or \<open>memcpy\<close> over whole words.
\<close>

definition for_words :: "nat \<Rightarrow> (nat \<Rightarrow> u64) \<Rightarrow> ulongs \<Rightarrow> ulongs" where
  "for_words lim f dst = fold (\<lambda>k d. d(k := f k)) [0..<lim] dst"

section \<open>Initialisation\<close>

definition bitmap_zero :: "bool \<Rightarrow> ulongs \<Rightarrow> nat \<Rightarrow> ulongs" where
  "bitmap_zero const dst nbits =
     (if small_const_nbits const nbits then dst(0 := 0)
      else for_words (BITS_TO_LONGS nbits) (\<lambda>_. 0) dst)"

definition bitmap_fill :: "bool \<Rightarrow> ulongs \<Rightarrow> nat \<Rightarrow> ulongs" where
  "bitmap_fill const dst nbits =
     (if small_const_nbits const nbits then dst(0 := -1)
      else for_words (BITS_TO_LONGS nbits) (\<lambda>_. -1) dst)"

definition bitmap_copy :: "bool \<Rightarrow> ulongs \<Rightarrow> ulongs \<Rightarrow> nat \<Rightarrow> ulongs" where
  "bitmap_copy const dst src nbits =
     (if small_const_nbits const nbits then dst(0 := src 0)
      else for_words (BITS_TO_LONGS nbits) src dst)"

definition bitmap_copy_clear_tail :: "bool \<Rightarrow> ulongs \<Rightarrow> ulongs \<Rightarrow> nat \<Rightarrow> ulongs" where
  "bitmap_copy_clear_tail const dst src nbits =
     (let dst = bitmap_copy const dst src nbits in
      if nbits mod BITS_PER_LONG \<noteq> 0
      then dst(nbits div BITS_PER_LONG := dst (nbits div BITS_PER_LONG) AND BITMAP_LAST_WORD_MASK nbits)
      else dst)"

section \<open>Searching\<close>

definition fetch_word :: "ulongs \<Rightarrow> ulongs option \<Rightarrow> u64 \<Rightarrow> nat \<Rightarrow> u64" where
  "fetch_word addr1 addr2 invert i =
     (case addr2 of None \<Rightarrow> addr1 i | Some a2 \<Rightarrow> addr1 i AND a2 i) XOR invert"

function find_next_loop :: "(nat \<Rightarrow> u64) \<Rightarrow> nat \<Rightarrow> nat \<Rightarrow> u64 \<Rightarrow> nat" where
  "find_next_loop fetch nbits start tmp =
     (if tmp \<noteq> 0 then min (start + u_ffsl tmp) nbits
      else let start = start + BITS_PER_LONG in
        if start \<ge> nbits then nbits
        else find_next_loop fetch nbits start (fetch (start div BITS_PER_LONG)))"
  by pat_completeness auto
termination
  by (relation "measure (\<lambda>(fetch, nbits, start, tmp). nbits - start)") (auto simp: BITS_PER_LONG_def)

definition u_find_next_bit :: "ulongs \<Rightarrow> ulongs option \<Rightarrow> nat \<Rightarrow> nat \<Rightarrow> u64 \<Rightarrow> nat" where
  "u_find_next_bit addr1 addr2 nbits start invert =
     (if start \<ge> nbits then nbits
      else
        let tmp = fetch_word addr1 addr2 invert (start div BITS_PER_LONG);
            tmp = tmp AND BITMAP_FIRST_WORD_MASK start;
            start = start div BITS_PER_LONG * BITS_PER_LONG
        in find_next_loop (fetch_word addr1 addr2 invert) nbits start tmp)"

definition find_next_bit :: "ulongs \<Rightarrow> nat \<Rightarrow> nat \<Rightarrow> nat" where
  "find_next_bit addr nbits offset = u_find_next_bit addr None nbits offset 0"

definition find_next_and_bit :: "ulongs \<Rightarrow> ulongs \<Rightarrow> nat \<Rightarrow> nat \<Rightarrow> nat" where
  "find_next_and_bit addr1 addr2 nbits offset = u_find_next_bit addr1 (Some addr2) nbits offset 0"

definition find_next_zero_bit :: "ulongs \<Rightarrow> nat \<Rightarrow> nat \<Rightarrow> nat" where
  "find_next_zero_bit addr nbits offset = u_find_next_bit addr None nbits offset (-1)"

function find_first_loop :: "ulongs \<Rightarrow> nat \<Rightarrow> nat \<Rightarrow> nat" where
  "find_first_loop addr sz idx =
     (if idx * BITS_PER_LONG < sz then
        (if addr idx \<noteq> 0 then min (idx * BITS_PER_LONG + u_ffsl (addr idx)) sz
         else find_first_loop addr sz (Suc idx))
      else sz)"
  by pat_completeness auto
termination
  by (relation "measure (\<lambda>(addr, sz, idx). sz - idx * BITS_PER_LONG)") (auto simp: BITS_PER_LONG_def)

definition find_first_bit :: "ulongs \<Rightarrow> nat \<Rightarrow> nat" where
  "find_first_bit addr sz = find_first_loop addr sz 0"

function find_first_zero_loop :: "ulongs \<Rightarrow> nat \<Rightarrow> nat \<Rightarrow> nat" where
  "find_first_zero_loop addr sz idx =
     (if idx * BITS_PER_LONG < sz then
        (if addr idx \<noteq> -1 then min (idx * BITS_PER_LONG + ffzl (addr idx)) sz
         else find_first_zero_loop addr sz (Suc idx))
      else sz)"
  by pat_completeness auto
termination
  by (relation "measure (\<lambda>(addr, sz, idx). sz - idx * BITS_PER_LONG)") (auto simp: BITS_PER_LONG_def)

definition find_first_zero_bit :: "ulongs \<Rightarrow> nat \<Rightarrow> nat" where
  "find_first_zero_bit addr sz = find_first_zero_loop addr sz 0"

fun find_last_loop :: "ulongs \<Rightarrow> nat \<Rightarrow> u64 \<Rightarrow> nat option" where
  "find_last_loop addr idx val =
     (let val = val AND addr idx in
      if val \<noteq> 0 then Some (idx * BITS_PER_LONG + u_flsl val)
      else if idx \<noteq> 0 then find_last_loop addr (idx - 1) (-1)
      else None)"

definition find_last_bit :: "ulongs \<Rightarrow> nat \<Rightarrow> nat" where
  "find_last_bit addr sz =
     (if sz \<noteq> 0 then
        (case find_last_loop addr ((sz - 1) div BITS_PER_LONG) (BITMAP_LAST_WORD_MASK sz) of
           Some r \<Rightarrow> r
         | None \<Rightarrow> sz)
      else sz)"

section \<open>Whole-map operations\<close>

text \<open>\<open>bits\<close> is an \<open>unsigned long\<close>; the number of words and the sum are \<open>unsigned int\<close>s.\<close>

definition u_bitmap_weight :: "ulongs \<Rightarrow> nat \<Rightarrow> u32" where
  "u_bitmap_weight bitmap bits =
     (let lim = bits div BITS_PER_LONG mod 2 ^ 32;
          w = fold (\<lambda>k w. w + of_nat (hweight64 (bitmap k))) [0..<lim] 0
      in if bits mod BITS_PER_LONG \<noteq> 0
         then w + of_nat (hweight64 (bitmap lim AND BITMAP_LAST_WORD_MASK bits)) else w)"

definition u_bitmap_equal :: "ulongs \<Rightarrow> ulongs \<Rightarrow> nat \<Rightarrow> bool" where
  "u_bitmap_equal bitmap1 bitmap2 bits =
     (let lim = bits div BITS_PER_LONG in
      if list_ex (\<lambda>k. bitmap1 k \<noteq> bitmap2 k) [0..<lim] then False
      else if bits mod BITS_PER_LONG \<noteq> 0 \<and>
        (bitmap1 lim XOR bitmap2 lim) AND BITMAP_LAST_WORD_MASK bits \<noteq> 0 then False
      else True)"

definition u_bitmap_complement :: "ulongs \<Rightarrow> ulongs \<Rightarrow> nat \<Rightarrow> ulongs" where
  "u_bitmap_complement dst src bits =
     (let lim = bits div BITS_PER_LONG; dst = for_words lim (\<lambda>k. NOT (src k)) dst
      in if bits mod BITS_PER_LONG \<noteq> 0 then dst(lim := NOT (src lim)) else dst)"

definition u_bitmap_and :: "ulongs \<Rightarrow> ulongs \<Rightarrow> ulongs \<Rightarrow> nat \<Rightarrow> bool \<times> ulongs" where
  "u_bitmap_and dst bitmap1 bitmap2 bits =
     (let lim = bits div BITS_PER_LONG;
          dst = for_words lim (\<lambda>k. bitmap1 k AND bitmap2 k) dst;
          result = fold (\<lambda>k r. r OR dst k) [0..<lim] 0
      in if bits mod BITS_PER_LONG \<noteq> 0
         then let v = bitmap1 lim AND bitmap2 lim AND BITMAP_LAST_WORD_MASK bits
              in (result OR v \<noteq> 0, dst(lim := v))
         else (result \<noteq> 0, dst))"

definition u_bitmap_or :: "ulongs \<Rightarrow> ulongs \<Rightarrow> ulongs \<Rightarrow> nat \<Rightarrow> ulongs" where
  "u_bitmap_or dst bitmap1 bitmap2 bits =
     for_words (BITS_TO_LONGS bits) (\<lambda>k. bitmap1 k OR bitmap2 k) dst"

definition u_bitmap_xor :: "ulongs \<Rightarrow> ulongs \<Rightarrow> ulongs \<Rightarrow> nat \<Rightarrow> ulongs" where
  "u_bitmap_xor dst bitmap1 bitmap2 bits =
     for_words (BITS_TO_LONGS bits) (\<lambda>k. bitmap1 k XOR bitmap2 k) dst"

definition u_bitmap_andnot :: "ulongs \<Rightarrow> ulongs \<Rightarrow> ulongs \<Rightarrow> nat \<Rightarrow> bool \<times> ulongs" where
  "u_bitmap_andnot dst bitmap1 bitmap2 bits =
     (let lim = bits div BITS_PER_LONG;
          dst = for_words lim (\<lambda>k. bitmap1 k AND NOT (bitmap2 k)) dst;
          result = fold (\<lambda>k r. r OR dst k) [0..<lim] 0
      in if bits mod BITS_PER_LONG \<noteq> 0
         then let v = bitmap1 lim AND NOT (bitmap2 lim) AND BITMAP_LAST_WORD_MASK bits
              in (result OR v \<noteq> 0, dst(lim := v))
         else (result \<noteq> 0, dst))"

definition u_bitmap_intersects :: "ulongs \<Rightarrow> ulongs \<Rightarrow> nat \<Rightarrow> bool" where
  "u_bitmap_intersects bitmap1 bitmap2 bits =
     (let lim = bits div BITS_PER_LONG in
      if list_ex (\<lambda>k. bitmap1 k AND bitmap2 k \<noteq> 0) [0..<lim] then True
      else if bits mod BITS_PER_LONG \<noteq> 0 \<and>
        bitmap1 lim AND bitmap2 lim AND BITMAP_LAST_WORD_MASK bits \<noteq> 0 then True
      else False)"

definition u_bitmap_subset :: "ulongs \<Rightarrow> ulongs \<Rightarrow> nat \<Rightarrow> bool" where
  "u_bitmap_subset bitmap1 bitmap2 bits =
     (let lim = bits div BITS_PER_LONG in
      if list_ex (\<lambda>k. bitmap1 k AND NOT (bitmap2 k) \<noteq> 0) [0..<lim] then False
      else if bits mod BITS_PER_LONG \<noteq> 0 \<and>
        bitmap1 lim AND NOT (bitmap2 lim) AND BITMAP_LAST_WORD_MASK bits \<noteq> 0 then False
      else True)"

section \<open>Ranges\<close>

text \<open>The loop returns the map, the word it stopped at, the bits that are left and the mask;
  \<open>bits_to_set\<close> is never 0, which the guard repeats so that the loop visibly ends.\<close>

function bitmap_set_loop :: "ulongs \<Rightarrow> nat \<Rightarrow> nat \<Rightarrow> nat \<Rightarrow> u64 \<Rightarrow> ulongs \<times> nat \<times> nat \<times> u64" where
  "bitmap_set_loop bm p len bits_to_set mask_to_set =
     (if 0 < bits_to_set \<and> bits_to_set \<le> len
      then bitmap_set_loop (bm(p := bm p OR mask_to_set)) (Suc p) (len - bits_to_set) BITS_PER_LONG (-1)
      else (bm, p, len, mask_to_set))"
  by pat_completeness auto
termination
  by (relation "measure (\<lambda>(bm, p, len, b, m). len)") auto

definition u_bitmap_set :: "ulongs \<Rightarrow> nat \<Rightarrow> nat \<Rightarrow> ulongs" where
  "u_bitmap_set bm start len =
     (let (bm, p, rest, mask_to_set) =
        bitmap_set_loop bm (BIT_WORD start) len (BITS_PER_LONG - start mod BITS_PER_LONG)
          (BITMAP_FIRST_WORD_MASK start)
      in if rest \<noteq> 0
         then bm(p := bm p OR (mask_to_set AND BITMAP_LAST_WORD_MASK (start + len)))
         else bm)"

function bitmap_clear_loop :: "ulongs \<Rightarrow> nat \<Rightarrow> nat \<Rightarrow> nat \<Rightarrow> u64 \<Rightarrow> ulongs \<times> nat \<times> nat \<times> u64" where
  "bitmap_clear_loop bm p len bits_to_clear mask_to_clear =
     (if 0 < bits_to_clear \<and> bits_to_clear \<le> len
      then bitmap_clear_loop (bm(p := bm p AND NOT mask_to_clear)) (Suc p) (len - bits_to_clear) BITS_PER_LONG (-1)
      else (bm, p, len, mask_to_clear))"
  by pat_completeness auto
termination
  by (relation "measure (\<lambda>(bm, p, len, b, m). len)") auto

definition u_bitmap_clear :: "ulongs \<Rightarrow> nat \<Rightarrow> nat \<Rightarrow> ulongs" where
  "u_bitmap_clear bm start len =
     (let (bm, p, rest, mask_to_clear) =
        bitmap_clear_loop bm (BIT_WORD start) len (BITS_PER_LONG - start mod BITS_PER_LONG)
          (BITMAP_FIRST_WORD_MASK start)
      in if rest \<noteq> 0
         then bm(p := bm p AND NOT (mask_to_clear AND BITMAP_LAST_WORD_MASK (start + len)))
         else bm)"

section \<open>Shifts\<close>

definition u_bitmap_shift_right :: "ulongs \<Rightarrow> ulongs \<Rightarrow> nat \<Rightarrow> nat \<Rightarrow> ulongs" where
  "u_bitmap_shift_right dst src shift nbits =
     (let lim = BITS_TO_LONGS nbits; off = shift div BITS_PER_LONG; rem = shift mod BITS_PER_LONG;
          mask = BITMAP_LAST_WORD_MASK nbits;
          dst = for_words (lim - off)
            (\<lambda>k. let upper = (if rem = 0 \<or> off + k + 1 \<ge> lim then 0
                              else push_bit (BITS_PER_LONG - rem)
                                (if off + k + 1 = lim - 1 then src (off + k + 1) AND mask else src (off + k + 1)));
                     lower = (if off + k = lim - 1 then src (off + k) AND mask else src (off + k))
                 in drop_bit rem lower OR upper) dst
      in if off \<noteq> 0 then (\<lambda>k. if lim - off \<le> k \<and> k < lim - off + off then 0 else dst k) else dst)"

definition u_bitmap_shift_left :: "ulongs \<Rightarrow> ulongs \<Rightarrow> nat \<Rightarrow> nat \<Rightarrow> ulongs" where
  "u_bitmap_shift_left dst src shift nbits =
     (let lim = BITS_TO_LONGS nbits; off = shift div BITS_PER_LONG; rem = shift mod BITS_PER_LONG;
          dst = fold (\<lambda>k d. d(k + off :=
              (if rem \<noteq> 0 \<and> k > 0 then drop_bit (BITS_PER_LONG - rem) (src (k - 1)) else 0)
              OR push_bit rem (src k))) (rev [0..<lim - off]) dst
      in if off \<noteq> 0 then (\<lambda>k. if k < off then 0 else dst k) else dst)"

section \<open>Arrays of 32-bit words\<close>

text \<open>\<open>nbits\<close> and \<open>halfwords\<close> are \<open>unsigned int\<close>s, so rounding up and \<open>halfwords - 1\<close> wrap.\<close>

function from_arr32_loop :: "(nat \<Rightarrow> u32) \<Rightarrow> nat \<Rightarrow> nat \<Rightarrow> ulongs \<Rightarrow> ulongs" where
  "from_arr32_loop buf halfwords i bitmap =
     (if i < halfwords then
        let bitmap = bitmap(i div 2 := ucast (buf i)); i = Suc i;
            bitmap = (if i < halfwords
                      then bitmap(i div 2 := bitmap (i div 2) OR push_bit 32 (ucast (buf i))) else bitmap)
        in from_arr32_loop buf halfwords (Suc i) bitmap
      else bitmap)"
  by pat_completeness auto
termination
  by (relation "measure (\<lambda>(buf, halfwords, i, bitmap). halfwords - i)") auto

definition bitmap_from_arr32 :: "ulongs \<Rightarrow> (nat \<Rightarrow> u32) \<Rightarrow> nat \<Rightarrow> ulongs" where
  "bitmap_from_arr32 bitmap buf nbits =
     (if nbits = 0 then bitmap
      else
        let halfwords = DIV_ROUND_UP_u32 nbits 32;
            bitmap = from_arr32_loop buf halfwords 0 bitmap;
            lst = (halfwords + (2 ^ 32 - 1)) mod 2 ^ 32 div 2
        in if nbits mod BITS_PER_LONG \<noteq> 0
           then bitmap(lst := bitmap lst AND BITMAP_LAST_WORD_MASK nbits) else bitmap)"

function to_arr32_loop :: "ulongs \<Rightarrow> nat \<Rightarrow> nat \<Rightarrow> (nat \<Rightarrow> u32) \<Rightarrow> (nat \<Rightarrow> u32)" where
  "to_arr32_loop bitmap halfwords i buf =
     (if i < halfwords then
        let buf = buf(i := ucast (bitmap (i div 2) AND 0xffffffff)); i = Suc i;
            buf = (if i < halfwords then buf(i := ucast (drop_bit 32 (bitmap (i div 2)))) else buf)
        in to_arr32_loop bitmap halfwords (Suc i) buf
      else buf)"
  by pat_completeness auto
termination
  by (relation "measure (\<lambda>(bitmap, halfwords, i, buf). halfwords - i)") auto

definition bitmap_to_arr32 :: "(nat \<Rightarrow> u32) \<Rightarrow> ulongs \<Rightarrow> nat \<Rightarrow> (nat \<Rightarrow> u32)" where
  "bitmap_to_arr32 buf bitmap nbits =
     (if nbits = 0 then buf
      else
        let halfwords = DIV_ROUND_UP_u32 nbits 32;
            buf = to_arr32_loop bitmap halfwords 0 buf;
            lst = (halfwords + (2 ^ 32 - 1)) mod 2 ^ 32
        in if nbits mod BITS_PER_LONG \<noteq> 0
           then buf(lst := buf lst AND drop_bit (unat ((- of_nat nbits :: u32) AND 31)) 0xffffffff)
           else buf)"

section \<open>The inline wrappers\<close>

definition bitmap_weight :: "bool \<Rightarrow> ulongs \<Rightarrow> nat \<Rightarrow> int" where
  "bitmap_weight const src nbits =
     (if small_const_nbits const nbits then int (hweight_long (src 0 AND BITMAP_LAST_WORD_MASK nbits))
      else sint (u_bitmap_weight src nbits))"

definition bitmap_and :: "bool \<Rightarrow> ulongs \<Rightarrow> ulongs \<Rightarrow> ulongs \<Rightarrow> nat \<Rightarrow> bool \<times> ulongs" where
  "bitmap_and const dst src1 src2 nbits =
     (if small_const_nbits const nbits
      then let v = src1 0 AND src2 0 AND BITMAP_LAST_WORD_MASK nbits in (v \<noteq> 0, dst(0 := v))
      else u_bitmap_and dst src1 src2 nbits)"

definition bitmap_subset :: "bool \<Rightarrow> ulongs \<Rightarrow> ulongs \<Rightarrow> nat \<Rightarrow> bool" where
  "bitmap_subset const src1 src2 nbits =
     (if small_const_nbits const nbits
      then src1 0 AND NOT (src2 0) AND BITMAP_LAST_WORD_MASK nbits = 0
      else u_bitmap_subset src1 src2 nbits)"

definition bitmap_empty :: "bool \<Rightarrow> ulongs \<Rightarrow> nat \<Rightarrow> bool" where
  "bitmap_empty const src nbits =
     (if small_const_nbits const nbits then src 0 AND BITMAP_LAST_WORD_MASK nbits = 0
      else find_first_bit src nbits = nbits)"

definition bitmap_full :: "bool \<Rightarrow> ulongs \<Rightarrow> nat \<Rightarrow> bool" where
  "bitmap_full const src nbits =
     (if small_const_nbits const nbits then NOT (src 0) AND BITMAP_LAST_WORD_MASK nbits = 0
      else find_first_zero_bit src nbits = nbits)"

section \<open>Vocabulary of the specifications\<close>

abbreviation test_bit :: "nat \<Rightarrow> ulongs \<Rightarrow> bool" where
  "test_bit nr m \<equiv> variable_test_bit nr m"

definition bits_below :: "ulongs \<Rightarrow> nat \<Rightarrow> nat set" where
  "bits_below m nbits = {j. j < nbits \<and> test_bit j m}"

text \<open>What a search from \<open>s\<close> for a bit with property \<open>P\<close> below \<open>n\<close> returns.\<close>

definition next_such :: "(nat \<Rightarrow> bool) \<Rightarrow> nat \<Rightarrow> nat \<Rightarrow> nat \<Rightarrow> bool" where
  "next_such P n s r \<longleftrightarrow> min s n \<le> r \<and> r \<le> n \<and> (r < n \<longrightarrow> P r) \<and> (\<forall>j. s \<le> j \<and> j < r \<longrightarrow> \<not> P j)"

declare find_next_loop.simps [simp del] find_first_loop.simps [simp del]
  find_first_zero_loop.simps [simp del] find_last_loop.simps [simp del] bitmap_set_loop.simps [simp del]
  bitmap_clear_loop.simps [simp del] from_arr32_loop.simps [simp del] to_arr32_loop.simps [simp del]

section \<open>Words of a map\<close>

lemma for_words_apply [simp]: "for_words lim f dst k = (if k < lim then f k else dst k)"
  by (induction lim) (auto simp: for_words_def)

lemma bit_FIRST_WORD_MASK [bit_spec]:
  "bit (BITMAP_FIRST_WORD_MASK start) n \<longleftrightarrow> start mod 64 \<le> n \<and> n < 64"
  by (auto simp: BITMAP_FIRST_WORD_MASK_def BITS_PER_LONG_def bit_simps)

lemma bit_LAST_WORD_MASK [bit_spec]:
  "bit (BITMAP_LAST_WORD_MASK nbits) n \<longleftrightarrow> n < nbits mod 64"
  by (auto simp: BITMAP_LAST_WORD_MASK_def bit_simps bit_FIRST_WORD_MASK)

lemma LAST_WORD_MASK_aligned: "nbits mod 64 = 0 \<Longrightarrow> BITMAP_LAST_WORD_MASK nbits = 0"
  by (auto simp: BITMAP_LAST_WORD_MASK_def BITMAP_FIRST_WORD_MASK_def BITS_PER_LONG_def)

lemma test_bit_in_word: "n < 64 \<Longrightarrow> test_bit (64 * k + n) m = bit (m k) n"
  by (simp add: variable_test_bit_def)

lemma word_zero_iff: "m k = 0 \<longleftrightarrow> (\<forall>j. j div 64 = k \<longrightarrow> \<not> test_bit j m)"
proof
  assume "\<forall>j. j div 64 = k \<longrightarrow> \<not> test_bit j m"
  then have "\<not> bit (m k) n" if "n < 64" for n
    using that test_bit_in_word [OF that, of k m] by auto
  then show "m k = 0" by (auto intro: bit_word_eqI)
qed (auto simp: variable_test_bit_def)

section \<open>Searching finds the next bit\<close>

lemma test_bit_fetch:
  "test_bit j (fetch_word addr1 addr2 invert) \<longleftrightarrow>
     ((test_bit j addr1 \<and> (\<forall>a2. addr2 = Some a2 \<longrightarrow> test_bit j a2)) \<noteq> bit invert (j mod 64))"
  by (auto simp: variable_test_bit_def fetch_word_def bit_simps split: option.splits)

lemma find_next_loop_spec:
  assumes "start mod 64 = 0" and "start < nbits"
    and "\<And>n. n < 64 \<Longrightarrow> bit tmp n \<Longrightarrow> test_bit (start + n) fetch"
    and "\<And>n. n < 64 \<Longrightarrow> s \<le> start + n \<Longrightarrow> test_bit (start + n) fetch \<Longrightarrow> bit tmp n"
    and "\<And>j. s \<le> j \<Longrightarrow> j < start \<Longrightarrow> \<not> test_bit j fetch"
    and "\<And>n. n < 64 \<Longrightarrow> bit tmp n \<Longrightarrow> s \<le> start + n"
    and "s < start + 64" and "s < nbits"
  shows "let r = find_next_loop fetch nbits start tmp in
    s \<le> r \<and> r \<le> nbits \<and> (r < nbits \<longrightarrow> test_bit r fetch) \<and> (\<forall>j. s \<le> j \<and> j < r \<longrightarrow> \<not> test_bit j fetch)"
  using assms
proof (induction fetch nbits start tmp rule: find_next_loop.induct)
  case (1 fetch nbits start tmp)
  show ?case
  proof (cases "tmp = 0")
    case False
    define n where "n = u_ffsl tmp"
    have n: "n < 64" "bit tmp n" "\<And>j. j < n \<Longrightarrow> \<not> bit tmp j"
      using u_ffsl_spec [OF False] by (auto simp: n_def)
    have "\<not> test_bit j fetch" if "s \<le> j" "j < start + n" for j
    proof (cases "j < start")
      case True
      with that "1.prems"(5) show ?thesis by blast
    next
      case ge: False
      then have "j - start < n" "start + (j - start) = j" using that by auto
      with n "1.prems"(4) [of "j - start"] that show ?thesis by fastforce
    qed
    moreover have "s \<le> start + n" "test_bit (start + n) fetch"
      using n "1.prems"(3,6) by auto
    ultimately show ?thesis
      using False \<open>s < nbits\<close> by (simp add: find_next_loop.simps [of fetch nbits start tmp] Let_def n_def min_def)
  next
    case True
    have none: "\<not> test_bit j fetch" if "s \<le> j" "j < start + 64" for j
    proof (cases "j < start")
      case True
      with that "1.prems"(5) show ?thesis by blast
    next
      case ge: False
      then have "j - start < 64" "start + (j - start) = j" using that by auto
      with "1.prems"(4) [of "j - start"] that True show ?thesis by fastforce
    qed
    show ?thesis
    proof (cases "start + 64 \<ge> nbits")
      case True
      have "find_next_loop fetch nbits start tmp = nbits"
        using \<open>tmp = 0\<close> True
        by (subst find_next_loop.simps) (simp add: Let_def BITS_PER_LONG_def)
      with True none \<open>s < nbits\<close> show ?thesis by (simp add: Let_def)
    next
      case False
      have step: "find_next_loop fetch nbits start tmp =
          find_next_loop fetch nbits (start + 64) (fetch ((start + 64) div 64))"
        using \<open>tmp = 0\<close> False
        by (subst find_next_loop.simps) (simp add: Let_def BITS_PER_LONG_def)
      have word: "bit (fetch ((start + 64) div 64)) n = test_bit (start + 64 + n) fetch" if "n < 64" for n
      proof -
        have "start + 64 + n = 64 * ((start + 64) div 64) + n"
          using "1.prems"(1) by (simp add: mod_eq_0_iff_dvd)
        then show ?thesis using test_bit_in_word [OF that] by metis
      qed
      show ?thesis
        unfolding step
        by (rule "1.IH" [unfolded BITS_PER_LONG_def])
           (use \<open>tmp = 0\<close> False "1.prems" none word in \<open>auto simp: mod_add_self2\<close>)
    qed
  qed
qed

lemma next_such_unique: "next_such P n s r \<Longrightarrow> next_such P n s r' \<Longrightarrow> r = r'"
  unfolding next_such_def by (metis linorder_neqE_nat min_def order_less_le_trans order_trans not_le)

lemma next_such_none: "next_such P n s r \<Longrightarrow> r = n \<longleftrightarrow> (\<forall>j. s \<le> j \<and> j < n \<longrightarrow> \<not> P j)"
  unfolding next_such_def by (auto simp: min_def split: if_splits)

lemma find_next_spec:
  "next_such (\<lambda>j. test_bit j (fetch_word addr1 addr2 invert)) nbits start
     (u_find_next_bit addr1 addr2 nbits start invert)"
proof (cases "start < nbits")
  case False
  then show ?thesis by (auto simp: u_find_next_bit_def next_such_def)
next
  case True
  let ?f = "fetch_word addr1 addr2 invert"
  let ?s = "start div 64 * 64"
  have word: "bit (?f (start div 64)) n = test_bit (?s + n) ?f" if "n < 64" for n
    using test_bit_in_word [OF that, of "start div 64" ?f] by (simp add: mult.commute)
  have "let r = find_next_loop ?f nbits ?s (?f (start div 64) AND BITMAP_FIRST_WORD_MASK start) in
    start \<le> r \<and> r \<le> nbits \<and> (r < nbits \<longrightarrow> test_bit r ?f) \<and> (\<forall>j. start \<le> j \<and> j < r \<longrightarrow> \<not> test_bit j ?f)"
  proof (rule find_next_loop_spec)
    fix n :: nat
    assume n: "n < 64"
    have split: "start = ?s + start mod 64" by simp
    show "test_bit (?s + n) ?f" if "bit (?f (start div 64) AND BITMAP_FIRST_WORD_MASK start) n"
      using that word [OF n] by (simp add: bit_simps)
    show "start \<le> ?s + n" if "bit (?f (start div 64) AND BITMAP_FIRST_WORD_MASK start) n"
    proof -
      have "start mod 64 \<le> n" using that by (simp add: bit_simps bit_FIRST_WORD_MASK)
      then show ?thesis using split by linarith
    qed
    show "bit (?f (start div 64) AND BITMAP_FIRST_WORD_MASK start) n"
      if "start \<le> ?s + n" "test_bit (?s + n) ?f"
    proof -
      have "start mod 64 \<le> n" using that(1) split by linarith
      then show ?thesis using that(2) word [OF n] n by (simp add: bit_simps bit_FIRST_WORD_MASK)
    qed
  next
    show "?s < nbits" using True by (meson div_times_less_eq_dividend le_less_trans)
    show "start < ?s + 64" using div_mult_mod_eq [of start 64] mod_less_divisor [of 64 start] by linarith
  qed (use True in auto)
  with True show ?thesis
    by (simp add: u_find_next_bit_def next_such_def Let_def BITS_PER_LONG_def)
qed

lemma find_next_bit_spec: "next_such (\<lambda>j. test_bit j addr) nbits start (find_next_bit addr nbits start)"
  using find_next_spec [of addr None 0 nbits start] by (simp add: find_next_bit_def test_bit_fetch)

lemma find_next_and_bit_spec:
  "next_such (\<lambda>j. test_bit j addr1 \<and> test_bit j addr2) nbits start (find_next_and_bit addr1 addr2 nbits start)"
  using find_next_spec [of addr1 "Some addr2" 0 nbits start] by (simp add: find_next_and_bit_def test_bit_fetch)

lemma find_next_zero_bit_spec:
  "next_such (\<lambda>j. \<not> test_bit j addr) nbits start (find_next_zero_bit addr nbits start)"
  using find_next_spec [of addr None "-1" nbits start] by (simp add: find_next_zero_bit_def test_bit_fetch)

lemma find_first_loop_eq:
  "(\<And>j. j < idx * 64 \<Longrightarrow> \<not> test_bit j addr) \<Longrightarrow>
     next_such (\<lambda>j. test_bit j addr) sz 0 (find_first_loop addr sz idx)"
proof (induction addr sz idx rule: find_first_loop.induct)
  case (1 addr sz idx)
  note unfold = find_first_loop.simps [of addr sz idx]
  show ?case
  proof (cases "idx * 64 < sz")
    case False
    with "1.prems" show ?thesis by (auto simp: unfold next_such_def BITS_PER_LONG_def)
  next
    case lt: True
    show ?thesis
    proof (cases "addr idx = 0")
      case True
      have "\<not> test_bit j addr" if "j < Suc idx * 64" for j
        using that "1.prems" [of j] True word_zero_iff [of addr idx]
        by (metis add.commute div_less_iff_less_mult less_Suc_eq mult_Suc not_less zero_less_numeral div_le_mono
            le_antisym less_mult_imp_div_less mult_le_mono1 div_mult_self_is_m)
      with "1.IH" lt True show ?thesis by (simp add: unfold BITS_PER_LONG_def)
    next
      case False
      note n = u_ffsl_spec [OF False]
      have at: "test_bit (idx * 64 + k) addr = bit (addr idx) k" if "k < 64" for k
        using test_bit_in_word [OF that, of idx addr] by (simp add: mult.commute)
      have "\<not> test_bit j addr" if "j < idx * 64 + u_ffsl (addr idx)" for j
      proof (cases "j < idx * 64")
        case False
        then have "j - idx * 64 < u_ffsl (addr idx)" "idx * 64 + (j - idx * 64) = j" using that by auto
        with n(1,3) at [of "j - idx * 64"] show ?thesis by fastforce
      qed (use "1.prems" in blast)
      with lt False at [OF n(1)] n(2) show ?thesis
        by (auto simp: unfold next_such_def BITS_PER_LONG_def min_def)
    qed
  qed
qed

lemma find_first_bit_spec: "next_such (\<lambda>j. test_bit j addr) sz 0 (find_first_bit addr sz)"
  unfolding find_first_bit_def by (rule find_first_loop_eq) simp

text \<open>Searching for a clear bit is searching for a set bit in the complement.\<close>

lemma find_first_zero_loop_eq:
  "find_first_zero_loop addr sz idx = find_first_loop (\<lambda>k. NOT (addr k)) sz idx"
proof (induction addr sz idx rule: find_first_zero_loop.induct)
  case (1 addr sz idx)
  have "NOT (addr idx) \<noteq> 0 \<longleftrightarrow> addr idx \<noteq> -1"
    by (metis bit.compl_zero bit.double_compl)
  with 1 show ?case
    by (simp add: find_first_zero_loop.simps [of addr sz idx] find_first_loop.simps [of _ sz idx] ffzl_def)
qed

lemma test_bit_NOT: "test_bit j (\<lambda>k. NOT (addr k)) \<longleftrightarrow> \<not> test_bit j addr"
  by (simp add: variable_test_bit_def bit_simps)

lemma find_first_zero_bit_spec: "next_such (\<lambda>j. \<not> test_bit j addr) sz 0 (find_first_zero_bit addr sz)"
  using find_first_bit_spec [of "\<lambda>k. NOT (addr k)" sz]
  by (simp add: find_first_zero_bit_def find_first_bit_def find_first_zero_loop_eq test_bit_NOT)

section \<open>Ranges are set and cleared exactly\<close>

lemma test_bit_upd_or:
  "test_bit j (m(p := m p OR w)) \<longleftrightarrow> test_bit j m \<or> j div 64 = p \<and> bit w (j mod 64)"
  by (auto simp: variable_test_bit_def bit_simps)

lemma FIRST_WORD_MASK_0 [simp]: "s mod 64 = 0 \<Longrightarrow> BITMAP_FIRST_WORD_MASK s = -1"
  by (simp add: BITMAP_FIRST_WORD_MASK_def BITS_PER_LONG_def)

lemma split64:
  obtains q r where "s = 64 * q + r" "r < 64" "s div 64 = q" "s mod 64 = (r :: nat)"
  using mod_less_divisor [of 64 s] mult_div_mod_eq [of 64 s] by (metis zero_less_numeral)

lemma next_word_start: "s + (64 - s mod 64) = 64 * Suc (s div 64)" for s :: nat
  by (rule split64 [of s]) simp

lemma in_word_iff: "j div 64 = s div 64 \<and> s mod 64 \<le> j mod 64 \<and> j mod 64 < s mod 64 + n \<longleftrightarrow> s \<le> j \<and> j < s + n"
  if "n \<le> 64 - s mod 64" for j s n :: nat
proof -
  obtain q r q' r' where qr: "s = 64 * q + r" "r < 64" "j = 64 * q' + r'" "r' < 64"
    using mod_less_divisor [of 64] mult_div_mod_eq [of 64] by (metis zero_less_numeral)
  then have n: "n \<le> 64 - r" using that by simp
  have "(q' = q \<and> r \<le> r' \<and> r' < r + n) = (s \<le> j \<and> j < s + n)"
    using qr n by (cases q' q rule: linorder_cases) auto
  then show ?thesis using qr by simp
qed

lemma in_word_tail_iff: "j div 64 = s div 64 \<and> s mod 64 \<le> j mod 64 \<longleftrightarrow> s \<le> j \<and> j < s + (64 - s mod 64)"
  for j s :: nat
  using in_word_iff [of "64 - s mod 64" s j] by auto

lemma bitmap_set_loop_spec:
  assumes "bitmap_set_loop bm p len b mk = (bm', p', rest, mk')"
    and "p = s div 64" "b = 64 - s mod 64" "mk = BITMAP_FIRST_WORD_MASK s"
  shows "\<exists>s'. s \<le> s' \<and> s' + rest = s + len \<and> p' = s' div 64 \<and> mk' = BITMAP_FIRST_WORD_MASK s' \<and>
    rest < 64 - s' mod 64 \<and> (\<forall>j. test_bit j bm' \<longleftrightarrow> test_bit j bm \<or> s \<le> j \<and> j < s')"
  using assms
proof (induction bm p len b mk arbitrary: s rule: bitmap_set_loop.induct)
  case (1 bm p len b mk)
  have b: "0 < b" by (simp add: "1.prems")
  show ?case
  proof (cases "b \<le> len")
    case False
    with "1.prems" b show ?thesis
      by (intro exI [of _ s]) (subst (asm) bitmap_set_loop.simps, auto)
  next
    case True
    let ?bm = "bm(p := bm p OR mk)"
    have al: "(s + b) mod 64 = 0" "(s + b) div 64 = Suc p"
    proof -
      have "s + b = 64 * Suc (s div 64)"
        unfolding "1.prems"(3) by (rule next_word_start)
      then show "(s + b) mod 64 = 0" "(s + b) div 64 = Suc p" by (auto simp: "1.prems"(2))
    qed
    have run: "bitmap_set_loop ?bm (Suc p) (len - b) BITS_PER_LONG (-1) = (bm', p', rest, mk')"
      using "1.prems"(1) True b by (subst (asm) bitmap_set_loop.simps) simp
    obtain s' where s': "s + b \<le> s'" "s' + rest = s + b + (len - b)" "p' = s' div 64"
        "mk' = BITMAP_FIRST_WORD_MASK s'" "rest < 64 - s' mod 64"
        "\<forall>j. test_bit j bm' \<longleftrightarrow> test_bit j ?bm \<or> s + b \<le> j \<and> j < s'"
      using "1.IH" [OF _ run, of "s + b"] True b al unfolding BITS_PER_LONG_def
      by (metis FIRST_WORD_MASK_0 diff_zero)
    have upd: "test_bit j ?bm \<longleftrightarrow> test_bit j bm \<or> s \<le> j \<and> j < s + b" for j
      using in_word_tail_iff [of j s] by (auto simp: test_bit_upd_or "1.prems" bit_FIRST_WORD_MASK)
    have "test_bit j bm' \<longleftrightarrow> test_bit j bm \<or> s \<le> j \<and> j < s'" for j
      using s'(1) spec [OF s'(6), of j] upd [of j] by linarith
    moreover have "s \<le> s'" "s' + rest = s + len" using s'(1,2) True by linarith+
    ultimately show ?thesis using s'(3,4,5) by blast
  qed
qed

lemma last_part_iff:
  fixes j s :: nat
  assumes "rest < 64 - s mod 64" "0 < rest"
  shows "j div 64 = s div 64 \<and> s mod 64 \<le> j mod 64 \<and> j mod 64 < (s + rest) mod 64 \<longleftrightarrow> s \<le> j \<and> j < s + rest"
proof -
  have "(s + rest) mod 64 = (s mod 64 + rest) mod 64" by (simp add: mod_add_left_eq)
  then have "(s + rest) mod 64 = s mod 64 + rest" using assms by simp
  then show ?thesis using in_word_iff [of rest s j] assms by simp
qed

lemma test_bit_u_bitmap_set [bit_spec]:
  "test_bit j (u_bitmap_set bm start len) \<longleftrightarrow> test_bit j bm \<or> start \<le> j \<and> j < start + len"
proof -
  obtain bm' p' rest mk' where loop:
    "bitmap_set_loop bm (start div 64) len (64 - start mod 64) (BITMAP_FIRST_WORD_MASK start) = (bm', p', rest, mk')"
    by (metis prod_cases4)
  from bitmap_set_loop_spec [OF this refl refl refl] obtain s' where s': "start \<le> s'" "s' + rest = start + len"
      "p' = s' div 64" "mk' = BITMAP_FIRST_WORD_MASK s'" "rest < 64 - s' mod 64"
      "\<And>j. test_bit j bm' \<longleftrightarrow> test_bit j bm \<or> start \<le> j \<and> j < s'"
    by blast
  note lst = last_part_iff [OF s'(5), of j, unfolded s'(2)]
  have "test_bit j (bm'(p' := bm' p' OR (mk' AND BITMAP_LAST_WORD_MASK (start + len)))) \<longleftrightarrow>
    test_bit j bm' \<or> s' \<le> j \<and> j < start + len" if "rest \<noteq> 0"
    unfolding s'(3,4) test_bit_upd_or bit_and_iff bit_FIRST_WORD_MASK bit_LAST_WORD_MASK
    using lst that by simp
  then have "test_bit j (u_bitmap_set bm start len) \<longleftrightarrow> test_bit j bm' \<or> s' \<le> j \<and> j < start + len"
    using s'(2) by (simp add: u_bitmap_set_def BIT_WORD_def BITS_PER_LONG_def loop del: fun_upd_apply) auto
  then show ?thesis using s'(1,2) s'(6) [of j] by linarith
qed

text \<open>Clearing is setting in the complement.\<close>

lemma bitmap_clear_loop_eq:
  "bitmap_clear_loop bm p len b mk =
     (case bitmap_set_loop (\<lambda>k. NOT (bm k)) p len b mk of (bm', r) \<Rightarrow> ((\<lambda>k. NOT (bm' k)), r))"
proof (induction bm p len b mk rule: bitmap_clear_loop.induct)
  case (1 bm p len b mk)
  have "(\<lambda>k. NOT ((bm(p := bm p AND NOT mk)) k)) = (\<lambda>k. NOT (bm k))(p := NOT (bm p) OR mk)"
    by (auto simp: bit.de_Morgan_conj)
  with 1 show ?case
    by (auto simp: bitmap_clear_loop.simps [of bm] bitmap_set_loop.simps [of "\<lambda>k. NOT (bm k)"] simp del: fun_upd_apply)
qed

lemma u_bitmap_clear_eq: "u_bitmap_clear bm start len = (\<lambda>k. NOT (u_bitmap_set (\<lambda>k. NOT (bm k)) start len k))"
  unfolding u_bitmap_clear_def u_bitmap_set_def bitmap_clear_loop_eq
  by (auto simp: Let_def fun_eq_iff bit.de_Morgan_disj bit.de_Morgan_conj split: prod.splits)

lemma test_bit_u_bitmap_clear [bit_spec]:
  "test_bit j (u_bitmap_clear bm start len) \<longleftrightarrow> test_bit j bm \<and> \<not> (start \<le> j \<and> j < start + len)"
  by (auto simp: u_bitmap_clear_eq test_bit_NOT test_bit_u_bitmap_set)

section \<open>Whole-map operations act bit by bit\<close>

text \<open>The words of a map of \<open>bits\<close> bits: \<open>bits div 64\<close> full ones and the start of one more.\<close>

lemma all_bits_split:
  "(\<forall>j < (bits :: nat). P j) \<longleftrightarrow>
     (\<forall>k < bits div 64. \<forall>n < 64. P (64 * k + n)) \<and> (\<forall>n < bits mod 64. P (64 * (bits div 64) + n))"
    (is "?l \<longleftrightarrow> ?r")
proof
  assume l: ?l
  show ?r
  proof (intro conjI allI impI)
    fix k n :: nat
    assume "k < bits div 64" "n < 64"
    then have "64 * k + n < 64 * (bits div 64)" by simp
    also have "\<dots> \<le> bits" by simp
    finally show "P (64 * k + n)" using l by blast
  next
    fix n assume "n < bits mod 64"
    then have "64 * (bits div 64) + n < bits" by (metis add_less_cancel_left mult_div_mod_eq)
    then show "P (64 * (bits div 64) + n)" using l by blast
  qed
next
  assume r: ?r
  show ?l
  proof (intro allI impI)
    fix j assume j: "j < bits"
    then have le: "j div 64 \<le> bits div 64" by (simp add: div_le_mono)
    have eq: "j = 64 * (j div 64) + j mod 64" by simp
    show "P j"
    proof (cases "j div 64 = bits div 64")
      case True
      then have "j mod 64 < bits mod 64" using j by (metis add_less_cancel_left mult_div_mod_eq)
      then show ?thesis using r True by (metis mult_div_mod_eq)
    next
      case False
      with le r eq show ?thesis by (metis le_neq_implies_less mod_less_divisor zero_less_numeral)
    qed
  qed
qed

lemma word_eq_0_iff_bits: "(w :: u64) = 0 \<longleftrightarrow> (\<forall>n < 64. \<not> bit w n)"
  using bit_word_iff_ex [of w] by auto

lemma masked_eq_0_iff: "w AND BITMAP_LAST_WORD_MASK bits = 0 \<longleftrightarrow> (\<forall>n < bits mod 64. \<not> bit w n)"
proof -
  have "n < 64" if "n < bits mod 64" for n using that by (rule less_trans) simp
  then show ?thesis
    unfolding word_eq_0_iff_bits by (auto simp: bit_simps bit_LAST_WORD_MASK)
qed

lemma words_zero_iff:
  "(\<forall>k < bits div 64. f k = 0) \<and> (bits mod 64 \<noteq> 0 \<longrightarrow> f (bits div 64) AND BITMAP_LAST_WORD_MASK bits = 0) \<longleftrightarrow>
     (\<forall>j < bits. \<not> test_bit j f)"
proof -
  have "n < 64" if "n < bits mod 64" for n using that by (rule less_trans) simp
  then show ?thesis
    unfolding all_bits_split [where P = "\<lambda>j. \<not> test_bit j f"] masked_eq_0_iff
    unfolding word_eq_0_iff_bits
    by (auto simp: test_bit_in_word)
qed

lemma xor_eq_0_iff_eq: "(a XOR b :: u64) = 0 \<longleftrightarrow> a = b"
  by (metis bit.xor_self bit.xor_left_self xor.right_neutral)

lemma u_bitmap_equal_iff: "u_bitmap_equal b1 b2 bits \<longleftrightarrow> (\<forall>j < bits. test_bit j b1 = test_bit j b2)"
proof -
  have "u_bitmap_equal b1 b2 bits \<longleftrightarrow> (\<forall>k < bits div 64. (b1 k XOR b2 k) = 0) \<and>
    (bits mod 64 \<noteq> 0 \<longrightarrow> (b1 (bits div 64) XOR b2 (bits div 64)) AND BITMAP_LAST_WORD_MASK bits = 0)"
    by (auto simp: u_bitmap_equal_def Let_def BITS_PER_LONG_def list_ex_iff xor_eq_0_iff_eq)
  also have "\<dots> \<longleftrightarrow> (\<forall>j < bits. \<not> test_bit j (\<lambda>k. b1 k XOR b2 k))"
    by (rule words_zero_iff)
  finally show ?thesis by (simp add: variable_test_bit_def bit_simps)
qed

lemma u_bitmap_intersects_iff:
  "u_bitmap_intersects b1 b2 bits \<longleftrightarrow> (\<exists>j < bits. test_bit j b1 \<and> test_bit j b2)"
proof -
  have "\<not> u_bitmap_intersects b1 b2 bits \<longleftrightarrow> (\<forall>k < bits div 64. (b1 k AND b2 k) = 0) \<and>
    (bits mod 64 \<noteq> 0 \<longrightarrow> (b1 (bits div 64) AND b2 (bits div 64)) AND BITMAP_LAST_WORD_MASK bits = 0)"
    by (auto simp: u_bitmap_intersects_def Let_def BITS_PER_LONG_def list_ex_iff and.assoc)
  also have "\<dots> \<longleftrightarrow> (\<forall>j < bits. \<not> test_bit j (\<lambda>k. b1 k AND b2 k))"
    by (rule words_zero_iff)
  finally show ?thesis by (auto simp: variable_test_bit_def bit_simps)
qed

lemma u_bitmap_subset_iff:
  "u_bitmap_subset b1 b2 bits \<longleftrightarrow> (\<forall>j < bits. test_bit j b1 \<longrightarrow> test_bit j b2)"
proof -
  have "u_bitmap_subset b1 b2 bits \<longleftrightarrow> (\<forall>k < bits div 64. (b1 k AND NOT (b2 k)) = 0) \<and>
    (bits mod 64 \<noteq> 0 \<longrightarrow> (b1 (bits div 64) AND NOT (b2 (bits div 64))) AND BITMAP_LAST_WORD_MASK bits = 0)"
    by (auto simp: u_bitmap_subset_def Let_def BITS_PER_LONG_def list_ex_iff and.assoc)
  also have "\<dots> \<longleftrightarrow> (\<forall>j < bits. \<not> test_bit j (\<lambda>k. b1 k AND NOT (b2 k)))"
    by (rule words_zero_iff)
  finally show ?thesis by (simp add: variable_test_bit_def bit_simps)
qed

lemma fold_or_eq_0: "fold (\<lambda>k r. r OR f k) ks (a :: u64) = 0 \<longleftrightarrow> a = 0 \<and> (\<forall>k \<in> set ks. f k = 0)"
proof (induction ks arbitrary: a)
  case (Cons k ks)
  have "a OR f k = 0 \<longleftrightarrow> a = 0 \<and> f k = 0" by (metis or_eq_0_iff)
  with Cons show ?case by auto
qed simp

text \<open>A word loop followed by a masked last word, the shape of the two-operand operations.\<close>

lemma masked_words:
  assumes "res = (let lim = bits div 64; dst = for_words lim f dst; result = fold (\<lambda>k r. r OR dst k) [0..<lim] 0
      in if bits mod 64 \<noteq> 0
         then let v = f lim AND BITMAP_LAST_WORD_MASK bits in (result OR v \<noteq> 0, dst(lim := v))
         else (result \<noteq> 0, dst))"
  shows "fst res \<longleftrightarrow> (\<exists>j < bits. test_bit j f)"
    and "test_bit j (snd res) \<longleftrightarrow> (if j < 64 * BITS_TO_LONGS bits then j < bits \<and> test_bit j f else test_bit j dst)"
proof -
  have "\<not> fst res \<longleftrightarrow> (\<forall>k < bits div 64. f k = 0) \<and>
      (bits mod 64 \<noteq> 0 \<longrightarrow> f (bits div 64) AND BITMAP_LAST_WORD_MASK bits = 0)"
    by (auto simp: assms Let_def fold_or_eq_0 or_eq_0_iff)
  then show "fst res \<longleftrightarrow> (\<exists>j < bits. test_bit j f)"
    unfolding words_zero_iff by blast
  obtain q r where qr: "bits = 64 * q + r" "r < 64" "bits div 64 = q" "bits mod 64 = r" by (rule split64)
  obtain q' r' where j: "j = 64 * q' + r'" "r' < 64" "j div 64 = q'" "j mod 64 = r'" by (rule split64)
  have lim: "BITS_TO_LONGS (64 * q + r) = (if r = 0 then q else Suc q)"
    using qr(2) by (simp add: BITS_TO_LONGS_def div_nat_eqI)
  have snd: "snd res k = (if k < q then f k else if r \<noteq> 0 \<and> k = q then f q AND BITMAP_LAST_WORD_MASK bits else dst k)" for k
    by (simp add: assms Let_def qr(3,4))
  show "test_bit j (snd res) \<longleftrightarrow> (if j < 64 * BITS_TO_LONGS bits then j < bits \<and> test_bit j f else test_bit j dst)"
    using j(2) qr(2) unfolding variable_test_bit_def j(3,4) snd
    by (cases q' q rule: linorder_cases) (auto simp: bit_simps bit_LAST_WORD_MASK lim qr(1) j(1))
qed


lemma u_bitmap_and_spec:
  "fst (u_bitmap_and dst b1 b2 bits) \<longleftrightarrow> (\<exists>j < bits. test_bit j b1 \<and> test_bit j b2)"
  "test_bit j (snd (u_bitmap_and dst b1 b2 bits)) \<longleftrightarrow>
     (if j < 64 * BITS_TO_LONGS bits then j < bits \<and> test_bit j b1 \<and> test_bit j b2 else test_bit j dst)"
proof -
  have f: "test_bit j (\<lambda>k. b1 k AND b2 k) \<longleftrightarrow> test_bit j b1 \<and> test_bit j b2" for j
    by (simp add: variable_test_bit_def bit_simps)
  note m = masked_words [of "u_bitmap_and dst b1 b2 bits" bits "\<lambda>k. b1 k AND b2 k" dst, unfolded f]
  have "u_bitmap_and dst b1 b2 bits = (let lim = bits div 64; dst = for_words lim (\<lambda>k. b1 k AND b2 k) dst;
      result = fold (\<lambda>k r. r OR dst k) [0..<lim] 0
      in if bits mod 64 \<noteq> 0
         then let v = (b1 lim AND b2 lim) AND BITMAP_LAST_WORD_MASK bits in (result OR v \<noteq> 0, dst(lim := v))
         else (result \<noteq> 0, dst))"
    by (simp add: u_bitmap_and_def BITS_PER_LONG_def Let_def and.assoc)
  from m [OF this] show
    "fst (u_bitmap_and dst b1 b2 bits) \<longleftrightarrow> (\<exists>j < bits. test_bit j b1 \<and> test_bit j b2)"
    "test_bit j (snd (u_bitmap_and dst b1 b2 bits)) \<longleftrightarrow>
     (if j < 64 * BITS_TO_LONGS bits then j < bits \<and> test_bit j b1 \<and> test_bit j b2 else test_bit j dst)" by this+
qed

lemma u_bitmap_andnot_spec:
  "fst (u_bitmap_andnot dst b1 b2 bits) \<longleftrightarrow> (\<exists>j < bits. test_bit j b1 \<and> \<not> test_bit j b2)"
  "test_bit j (snd (u_bitmap_andnot dst b1 b2 bits)) \<longleftrightarrow>
     (if j < 64 * BITS_TO_LONGS bits then j < bits \<and> test_bit j b1 \<and> \<not> test_bit j b2 else test_bit j dst)"
proof -
  have f: "test_bit j (\<lambda>k. b1 k AND NOT (b2 k)) \<longleftrightarrow> test_bit j b1 \<and> \<not> test_bit j b2" for j
    by (simp add: variable_test_bit_def bit_simps)
  note m = masked_words [of "u_bitmap_andnot dst b1 b2 bits" bits "\<lambda>k. b1 k AND NOT (b2 k)" dst, unfolded f]
  have "u_bitmap_andnot dst b1 b2 bits = (let lim = bits div 64; dst = for_words lim (\<lambda>k. b1 k AND NOT (b2 k)) dst;
      result = fold (\<lambda>k r. r OR dst k) [0..<lim] 0
      in if bits mod 64 \<noteq> 0
         then let v = (b1 lim AND NOT (b2 lim)) AND BITMAP_LAST_WORD_MASK bits in (result OR v \<noteq> 0, dst(lim := v))
         else (result \<noteq> 0, dst))"
    by (simp add: u_bitmap_andnot_def BITS_PER_LONG_def Let_def and.assoc)
  from m [OF this] show
    "fst (u_bitmap_andnot dst b1 b2 bits) \<longleftrightarrow> (\<exists>j < bits. test_bit j b1 \<and> \<not> test_bit j b2)"
    "test_bit j (snd (u_bitmap_andnot dst b1 b2 bits)) \<longleftrightarrow>
     (if j < 64 * BITS_TO_LONGS bits then j < bits \<and> test_bit j b1 \<and> \<not> test_bit j b2 else test_bit j dst)" by this+
qed

lemma div64_less_iff: "j div 64 < k \<longleftrightarrow> j < 64 * k" for j k :: nat
  by (metis div_less_iff_less_mult mult.commute zero_less_numeral)

lemma u_bitmap_or_spec:
  "test_bit j (u_bitmap_or dst b1 b2 bits) \<longleftrightarrow>
     (if j < 64 * BITS_TO_LONGS bits then test_bit j b1 \<or> test_bit j b2 else test_bit j dst)"
  by (simp add: u_bitmap_or_def variable_test_bit_def bit_simps div64_less_iff)

lemma u_bitmap_xor_spec:
  "test_bit j (u_bitmap_xor dst b1 b2 bits) \<longleftrightarrow>
     (if j < 64 * BITS_TO_LONGS bits then test_bit j b1 \<noteq> test_bit j b2 else test_bit j dst)"
  by (simp add: u_bitmap_xor_def variable_test_bit_def bit_simps div64_less_iff)

lemma BITS_TO_LONGS_eq: "BITS_TO_LONGS bits = (if bits mod 64 = 0 then bits div 64 else Suc (bits div 64))"
proof -
  obtain q r where qr: "bits = 64 * q + r" "r < 64" "bits div 64 = q" "bits mod 64 = r" by (rule split64)
  have "BITS_TO_LONGS (64 * q + r) = (if r = 0 then q else Suc q)"
    using qr(2) by (simp add: BITS_TO_LONGS_def div_nat_eqI)
  with qr show ?thesis by simp
qed

lemma BITS_TO_LONGS_covers: "bits \<le> 64 * BITS_TO_LONGS bits"
proof -
  obtain q r where qr: "bits = 64 * q + r" "r < 64" "bits div 64 = q" "bits mod 64 = r" by (rule split64)
  then show ?thesis by (simp add: BITS_TO_LONGS_eq)
qed

lemma u_bitmap_complement_spec:
  "test_bit j (u_bitmap_complement dst src bits) \<longleftrightarrow>
     (if j < 64 * BITS_TO_LONGS bits then \<not> test_bit j src else test_bit j dst)"
proof -
  have "u_bitmap_complement dst src bits = for_words (BITS_TO_LONGS bits) (\<lambda>k. NOT (src k)) dst"
    by (auto simp: u_bitmap_complement_def Let_def BITS_TO_LONGS_eq BITS_PER_LONG_def fun_eq_iff less_Suc_eq)
  then show ?thesis
    by (simp add: variable_test_bit_def bit_simps div64_less_iff)
qed

section \<open>The weight counts the set bits\<close>

lemma popcount_card: "builtin_popcount (w :: u64) = card {n. n < 64 \<and> bit w n}"
proof -
  have "builtin_popcount w = card (set (filter (bit w) [0..<64]))"
    unfolding builtin_popcount_def by (subst distinct_card) auto
  also have "set (filter (bit w) [0..<64]) = {n. n < 64 \<and> bit w n}" by auto
  finally show ?thesis .
qed

lemma bits_below_split: "bits_below m (64 * q + r) = bits_below m (64 * q) \<union> (+) (64 * q) ` {n. n < r \<and> bit (m q) n}"
  if "r \<le> 64"
proof (rule set_eqI)
  fix j :: nat
  obtain a b where j: "j = 64 * a + b" "b < 64" by (rule split64)
  show "j \<in> bits_below m (64 * q + r) \<longleftrightarrow> j \<in> bits_below m (64 * q) \<union> (+) (64 * q) ` {n. n < r \<and> bit (m q) n}"
    using that j(2) unfolding j(1)
    by (cases a q rule: linorder_cases) (auto simp: bits_below_def test_bit_in_word image_iff)
qed

lemma finite_bits_below [simp]: "finite (bits_below m n)"
  by (simp add: bits_below_def)

lemma card_bits_below_split:
  "card (bits_below m (64 * q + r)) = card (bits_below m (64 * q)) + card {n. n < r \<and> bit (m q) n}" if "r \<le> 64"
proof -
  have "card (bits_below m (64 * q + r)) =
      card (bits_below m (64 * q)) + card ((+) (64 * q) ` {n. n < r \<and> bit (m q) n})"
    unfolding bits_below_split [OF that] by (rule card_Un_disjoint) (auto simp: bits_below_def)
  then show ?thesis by (simp add: card_image)
qed

lemma fold_weight: "fold (\<lambda>k w. w + of_nat (hweight64 (m k))) [0..<q] 0 = (of_nat (card (bits_below m (64 * q))) :: u32)"
proof (induction q)
  case 0
  then show ?case by (simp add: bits_below_def)
next
  case (Suc q)
  with card_bits_below_split [of 64 m q] show ?case
    by (simp add: hweight64_def popcount_card add.commute)
qed

lemma u_bitmap_weight_card:
  assumes "bits < 2 ^ 38"
  shows "u_bitmap_weight m bits = of_nat (card (bits_below m bits))"
proof -
  obtain q r where qr: "bits = 64 * q + r" "r < 64" "bits div 64 = q" "bits mod 64 = r" by (rule split64)
  have "{n. n < 64 \<and> bit (m q AND BITMAP_LAST_WORD_MASK bits) n} = {n. n < r \<and> bit (m q) n}"
    using qr(2) by (auto simp: bit_simps bit_LAST_WORD_MASK qr(4))
  moreover have "q < 2 ^ 32" using assms qr(1) by simp
  then have "q mod 2 ^ 32 = q" by (rule mod_less)
  ultimately show ?thesis
    using card_bits_below_split [of r m q] qr
    by (simp add: u_bitmap_weight_def Let_def BITS_PER_LONG_def fold_weight) (simp add: hweight64_def popcount_card)
qed

lemma card_bits_below_le: "card (bits_below m bits) \<le> bits"
proof -
  have "card (bits_below m bits) \<le> card {..<bits}" by (rule card_mono) (auto simp: bits_below_def)
  then show ?thesis by simp
qed

lemma u_bitmap_weight_nat:
  assumes "bits < 2 ^ 32"
  shows "unat (u_bitmap_weight m bits) = card (bits_below m bits)"
proof -
  have "card (bits_below m bits) < 2 ^ 32" using card_bits_below_le assms by (rule le_less_trans)
  moreover have "u_bitmap_weight m bits = of_nat (card (bits_below m bits))" by (rule u_bitmap_weight_card) (use assms in simp)
  ultimately show ?thesis by (simp add: unat_of_nat take_bit_nat_eq_self)
qed

section \<open>Shifts move every bit\<close>

lemma fold_upd_rev:
  "fold (\<lambda>k d. d(k + off := g k)) (rev [0..<n]) dst i = (if off \<le> i \<and> i < off + n then g (i - off) else dst i)"
  by (induction n arbitrary: dst) auto

lemma shift_left_word:
  assumes "k < BITS_TO_LONGS nbits"
  shows "u_bitmap_shift_left dst src shift nbits k =
    (if k < shift div 64 then 0
     else (if shift mod 64 \<noteq> 0 \<and> k > shift div 64 then drop_bit (64 - shift mod 64) (src (k - shift div 64 - 1)) else 0)
       OR push_bit (shift mod 64) (src (k - shift div 64)))"
  using assms unfolding u_bitmap_shift_left_def Let_def fold_upd_rev by (auto simp: BITS_PER_LONG_def)

lemma u_bitmap_shift_left_spec:
  assumes "j < 64 * BITS_TO_LONGS nbits"
  shows "test_bit j (u_bitmap_shift_left dst src shift nbits) \<longleftrightarrow> shift \<le> j \<and> test_bit (j - shift) src"
proof -
  obtain q r where j: "j = 64 * q + r" "r < 64" by (rule split64)
  obtain a b where s: "shift = 64 * a + b" "b < 64" "shift div 64 = a" "shift mod 64 = b" by (rule split64)
  have q: "q < BITS_TO_LONGS nbits" using assms j by simp
  note word = shift_left_word [OF q, of dst src shift, unfolded s(3,4)]
  have t: "test_bit j (u_bitmap_shift_left dst src shift nbits) = bit (u_bitmap_shift_left dst src shift nbits q) r"
    unfolding j(1) using j(2) by (rule test_bit_in_word)
  show ?thesis
  proof (cases "q < a")
    case True
    with j s(1) show ?thesis unfolding t word by simp
  next
    case qa: False
    show ?thesis
    proof (cases "b \<le> r")
      case True
      then have d: "j - shift = 64 * (q - a) + (r - b)" "shift \<le> j" using j s(1) qa by auto
      have "bit (u_bitmap_shift_left dst src shift nbits q) r = bit (src (q - a)) (r - b)"
        using True j(2) qa unfolding word by (auto simp: bit_simps dest: bit_imp_le_length)
      then show ?thesis using j(2) unfolding t d(1) by (simp add: d(2) test_bit_in_word)
    next
      case False
      then have "bit (u_bitmap_shift_left dst src shift nbits q) r \<longleftrightarrow> a < q \<and> bit (src (q - a - 1)) (64 - b + r)"
        using j(2) qa by (auto simp: word bit_simps)
      moreover have "test_bit (j - shift) src = bit (src (q - a - 1)) (64 - b + r) \<and> shift \<le> j" if "a < q"
      proof -
        have "j - shift = 64 * (q - a - 1) + (64 - b + r)" "shift \<le> j" "64 - b + r < 64"
          using that False j s(1,2) by auto
        then show ?thesis using test_bit_in_word by metis
      qed
      moreover have "\<not> shift \<le> j" if "\<not> a < q" using that qa False j s(1) by auto
      ultimately show ?thesis unfolding t by blast
    qed
  qed
qed

text \<open>The right shift clears the bits of the last word of the source beyond the size.  When the size is a multiple of 64 the mask is 0, and the
  whole last word is cleared.\<close>

definition shift_right_size :: "nat \<Rightarrow> nat" where
  "shift_right_size nbits = (if nbits mod 64 = 0 then nbits - 64 else nbits)"

definition masked_last :: "ulongs \<Rightarrow> nat \<Rightarrow> ulongs" where
  "masked_last src nbits = (\<lambda>i. if i = BITS_TO_LONGS nbits - 1 then src i AND BITMAP_LAST_WORD_MASK nbits else src i)"

lemma shift_right_word:
  assumes "k < BITS_TO_LONGS nbits" "shift div 64 \<le> BITS_TO_LONGS nbits"
  shows "u_bitmap_shift_right dst src shift nbits k =
    (if k + shift div 64 < BITS_TO_LONGS nbits
     then drop_bit (shift mod 64) (masked_last src nbits (shift div 64 + k)) OR
       (if shift mod 64 = 0 \<or> shift div 64 + k + 1 \<ge> BITS_TO_LONGS nbits then 0
        else push_bit (64 - shift mod 64) (masked_last src nbits (shift div 64 + k + 1)))
     else 0)"
proof -
  have lt: "k < BITS_TO_LONGS nbits - shift div 64 \<longleftrightarrow> k + shift div 64 < BITS_TO_LONGS nbits" by linarith
  have zero: "BITS_TO_LONGS nbits - shift div 64 \<le> k \<and> k < BITS_TO_LONGS nbits - shift div 64 + shift div 64 \<longleftrightarrow>
      \<not> k + shift div 64 < BITS_TO_LONGS nbits"
    using assms(1,2) by linarith
  show ?thesis
    unfolding u_bitmap_shift_right_def Let_def BITS_PER_LONG_def masked_last_def
    by (simp only: for_words_apply lt zero if_distrib [of "\<lambda>f. f k"]) (use assms(1) in auto)
qed

lemma bit_masked_last:
  assumes "i < BITS_TO_LONGS nbits" "k < 64"
  shows "bit (masked_last src nbits i) k \<longleftrightarrow> 64 * i + k < shift_right_size nbits \<and> bit (src i) k"
proof -
  obtain n m where n: "nbits = 64 * n + m" "m < 64" "nbits div 64 = n" "nbits mod 64 = m" by (rule split64)
  show ?thesis
  proof (cases "m = 0")
    case True
    then have "BITS_TO_LONGS nbits = n" "BITMAP_LAST_WORD_MASK nbits = 0"
      using n LAST_WORD_MASK_aligned by (simp_all add: BITS_TO_LONGS_eq)
    then show ?thesis using assms True n(1,4) by (auto simp: masked_last_def shift_right_size_def)
  next
    case False
    then have "BITS_TO_LONGS nbits = Suc n" using n by (simp add: BITS_TO_LONGS_eq)
    then show ?thesis using assms False n by (auto simp: masked_last_def shift_right_size_def bit_simps bit_LAST_WORD_MASK)
  qed
qed

lemma u_bitmap_shift_right_spec:
  assumes "j < 64 * BITS_TO_LONGS nbits" "shift div 64 \<le> BITS_TO_LONGS nbits"
  shows "test_bit j (u_bitmap_shift_right dst src shift nbits) \<longleftrightarrow> j + shift < shift_right_size nbits \<and> test_bit (j + shift) src"
proof -
  let ?lim = "BITS_TO_LONGS nbits" and ?s = "masked_last src nbits"
  obtain q r where j: "j = 64 * q + r" "r < 64" by (rule split64)
  obtain a b where s: "shift = 64 * a + b" "b < 64" "shift div 64 = a" "shift mod 64 = b" by (rule split64)
  have q: "q < ?lim" using assms j by simp
  note word = shift_right_word [OF q assms(2), of dst src, unfolded s(3,4)]
  have w: "bit (u_bitmap_shift_right dst src shift nbits q) r \<longleftrightarrow> q + a < ?lim \<and>
      (if r + b < 64 then bit (?s (a + q)) (b + r)
       else b \<noteq> 0 \<and> a + q + 1 < ?lim \<and> bit (?s (a + q + 1)) (b + r - 64))"
  proof -
    have up: "bit (push_bit (64 - b) w) r \<longleftrightarrow> 64 \<le> r + b \<and> bit w (b + r - 64)" for w :: u64
      using j(2) s(2) by (auto simp: bit_simps add.commute)
    have down: "bit (drop_bit b w) r \<longleftrightarrow> r + b < 64 \<and> bit w (b + r)" for w :: u64
      by (auto simp: bit_simps dest: bit_imp_le_length)
    show ?thesis
      using j(2) unfolding word by (auto simp: bit_or_iff up down)
  qed
  have t: "test_bit j (u_bitmap_shift_right dst src shift nbits) = bit (u_bitmap_shift_right dst src shift nbits q) r"
    unfolding j(1) using j(2) by (rule test_bit_in_word)
  have src: "x < shift_right_size nbits \<and> test_bit x src \<longleftrightarrow> i < ?lim \<and> bit (?s i) k" if x: "x = 64 * i + k" "k < 64" for x i k
  proof (cases "i < ?lim")
    case True then show ?thesis using bit_masked_last [OF True x(2)] x test_bit_in_word [OF x(2), of i src] by auto
  next
    case False
    have "nbits \<le> x" using False BITS_TO_LONGS_covers [of nbits] x(1) by linarith
    then show ?thesis using False by (auto simp: shift_right_size_def)
  qed
  show ?thesis
  proof (cases "r + b < 64")
    case True
    then have "j + shift = 64 * (a + q) + (b + r)" using j s(1) by simp
    from src [OF this] True show ?thesis unfolding t w by (simp add: add.commute)
  next
    case False
    then have "j + shift = 64 * (a + q + 1) + (b + r - 64)" "b \<noteq> 0" "b + r - 64 < 64"
      using j s(1,2) by auto
    from src [OF this(1,3)] this(2) False show ?thesis unfolding t w by auto
  qed
qed

section \<open>Arrays of 32-bit words\<close>

lemma from_arr32_loop_word:
  assumes "even i"
  shows "from_arr32_loop buf halfwords i bitmap k =
    (if i \<le> 2 * k \<and> 2 * k < halfwords
     then ucast (buf (2 * k)) OR (if Suc (2 * k) < halfwords then push_bit 32 (ucast (buf (Suc (2 * k)))) else 0)
     else bitmap k)"
  using assms
proof (induction buf halfwords i bitmap rule: from_arr32_loop.induct)
  case (1 buf halfwords i bitmap)
  note unfold = from_arr32_loop.simps [of buf halfwords i bitmap]
  show ?case
  proof (cases "i < halfwords")
    case False
    then show ?thesis by (auto simp: unfold)
  next
    case True
    from "1.prems" obtain m where m: "i = 2 * m" by (elim evenE)
    have d: "i div 2 = m" "Suc i div 2 = m" using m by auto
    let ?b = "bitmap(m := ucast (buf i))"
    let ?b2 = "if Suc i < halfwords then ?b(m := ?b m OR push_bit 32 (ucast (buf (Suc i)))) else ?b"
    have "from_arr32_loop buf halfwords i bitmap = from_arr32_loop buf halfwords (Suc (Suc i)) ?b2"
      using True by (simp add: unfold Let_def d)
    moreover have "from_arr32_loop buf halfwords (Suc (Suc i)) ?b2 k =
        (if Suc (Suc i) \<le> 2 * k \<and> 2 * k < halfwords
         then ucast (buf (2 * k)) OR (if Suc (2 * k) < halfwords then push_bit 32 (ucast (buf (Suc (2 * k)))) else 0)
         else ?b2 k)"
      by (rule "1.IH" [OF True refl refl, unfolded d]) (use "1.prems" in auto)
    moreover have "Suc (Suc i) \<le> 2 * k \<longleftrightarrow> i \<le> 2 * k \<and> k \<noteq> m" using m by linarith
    ultimately show ?thesis using True m by auto
  qed
qed

lemma to_arr32_loop_apply:
  assumes "even i"
  shows "to_arr32_loop bitmap halfwords i buf k =
    (if i \<le> k \<and> k < halfwords
     then (if even k then ucast (bitmap (k div 2)) else ucast (drop_bit 32 (bitmap (k div 2))))
     else buf k)"
  using assms
proof (induction bitmap halfwords i buf rule: to_arr32_loop.induct)
  case (1 bitmap halfwords i buf)
  note unfold = to_arr32_loop.simps [of bitmap halfwords i buf]
  show ?case
  proof (cases "i < halfwords")
    case False
    then show ?thesis by (auto simp: unfold)
  next
    case True
    let ?b = "buf(i := ucast (bitmap (i div 2) AND 0xffffffff))"
    let ?b2 = "if Suc i < halfwords then ?b(Suc i := ucast (drop_bit 32 (bitmap (Suc i div 2)))) else ?b"
    have low: "(ucast (w AND 0xffffffff) :: u32) = ucast w" for w :: u64
    proof -
      have "(0xffffffff :: u64) = mask 32" by (simp add: mask_eq_exp_minus_1)
      then have "w AND 0xffffffff = take_bit 32 w" by (simp only: take_bit_eq_mask)
      then show ?thesis by (auto simp: bit_simps intro!: bit_word_eqI)
    qed
    have "to_arr32_loop bitmap halfwords i buf = to_arr32_loop bitmap halfwords (Suc (Suc i)) ?b2"
      using True by (simp add: unfold Let_def)
    moreover have "to_arr32_loop bitmap halfwords (Suc (Suc i)) ?b2 k =
        (if Suc (Suc i) \<le> k \<and> k < halfwords
         then (if even k then ucast (bitmap (k div 2)) else ucast (drop_bit 32 (bitmap (k div 2)))) else ?b2 k)"
      by (rule "1.IH" [OF True refl refl]) (use "1.prems" in auto)
    moreover have "Suc (Suc i) \<le> k \<longleftrightarrow> i \<le> k \<and> k \<noteq> i \<and> k \<noteq> Suc i" by linarith
    ultimately show ?thesis using True "1.prems" low by auto
  qed
qed


lemma div_mod_unique: "j = d * q + r \<Longrightarrow> r < d \<Longrightarrow> j div d = q \<and> j mod d = r" for j d q r :: nat
  by simp

lemma arr32_word_split:
  fixes j :: nat
  obtains q r where "j div 64 = q" "j mod 64 = r" "r < 64" "j div 32 = (if r < 32 then 2 * q else Suc (2 * q))"
    "j mod 32 = (if r < 32 then r else r - 32)" "j = 64 * q + r"
proof -
  obtain q r where qr: "j = 64 * q + r" "r < 64" "j div 64 = q" "j mod 64 = r" by (rule split64)
  show thesis
  proof (cases "r < 32")
    case True
    with div_mod_unique [of j 32 "2 * q" r] qr show thesis by (intro that [of q r]) auto
  next
    case False
    with div_mod_unique [of j 32 "Suc (2 * q)" "r - 32"] qr show thesis by (intro that [of q r]) auto
  qed
qed

lemma halfwords_bounds:
  "2 * q < DIV_ROUND_UP nbits 32 \<longleftrightarrow> 64 * q < nbits" "Suc (2 * q) < DIV_ROUND_UP nbits 32 \<longleftrightarrow> 32 + 64 * q < nbits"
proof -
  have "k < DIV_ROUND_UP nbits 32 \<longleftrightarrow> 32 * k < nbits" for k
    unfolding DIV_ROUND_UP_def Suc_le_eq [symmetric] by (simp add: less_eq_div_iff_mult_less_eq) linarith
  from this [of "2 * q"] this [of "Suc (2 * q)"]
  show "2 * q < DIV_ROUND_UP nbits 32 \<longleftrightarrow> 64 * q < nbits"
    "Suc (2 * q) < DIV_ROUND_UP nbits 32 \<longleftrightarrow> 32 + 64 * q < nbits" by simp_all
qed

lemma less_BITS_TO_LONGS_iff: "q < BITS_TO_LONGS nbits \<longleftrightarrow> 64 * q < nbits"
  unfolding BITS_TO_LONGS_def Suc_le_eq [symmetric] by (simp add: less_eq_div_iff_mult_less_eq) linarith

lemma from_arr32_word_bit:
  assumes "r < 64" and "64 * q + r < 64 * BITS_TO_LONGS nbits"
  shows "bit (from_arr32_loop buf (DIV_ROUND_UP nbits 32) 0 bitmap q) r \<longleftrightarrow>
    (if r < 32 then bit (buf (2 * q)) r else 32 + 64 * q < nbits \<and> bit (buf (Suc (2 * q))) (r - 32))"
proof -
  have "q < BITS_TO_LONGS nbits" using assms by linarith
  then have "64 * q < nbits" by (simp add: less_BITS_TO_LONGS_iff)
  then show ?thesis
    using assms(1) by (auto simp: from_arr32_loop_word halfwords_bounds bit_simps dest: bit_imp_le_length)
qed

text \<open>The size of the array fits 32 bits unless the size of the map is within 32 of \<open>2\<^sup>3\<^sup>2\<close>.\<close>

lemma halfwords_u32:
  assumes "nbits \<le> 2 ^ 32 - 32"
  shows "DIV_ROUND_UP_u32 nbits 32 = DIV_ROUND_UP nbits 32"
    and "nbits \<noteq> 0 \<Longrightarrow> (DIV_ROUND_UP nbits 32 + (2 ^ 32 - 1)) mod 2 ^ 32 = DIV_ROUND_UP nbits 32 - 1"
proof -
  have "nbits + 32 - 1 < 2 ^ 32" using assms by simp
  then show "DIV_ROUND_UP_u32 nbits 32 = DIV_ROUND_UP nbits 32" by (simp add: DIV_ROUND_UP_u32_def DIV_ROUND_UP_def)
  show "(DIV_ROUND_UP nbits 32 + (2 ^ 32 - 1)) mod 2 ^ 32 = DIV_ROUND_UP nbits 32 - 1" if "nbits \<noteq> 0"
  proof -
    have h: "0 < DIV_ROUND_UP nbits 32" "DIV_ROUND_UP nbits 32 \<le> 2 ^ 32"
      using that assms by (auto simp: DIV_ROUND_UP_def div_greater_zero_iff intro!: order.trans [OF div_le_dividend])
    then have e: "DIV_ROUND_UP nbits 32 + (2 ^ 32 - 1) = DIV_ROUND_UP nbits 32 - 1 + 2 ^ 32" by simp
    show ?thesis unfolding e mod_add_self2 using h by (intro mod_less) linarith
  qed
qed

lemma bitmap_from_arr32_spec:
  assumes "j < 64 * BITS_TO_LONGS nbits" and u: "nbits \<le> 2 ^ 32 - 32"
  shows "test_bit j (bitmap_from_arr32 bitmap buf nbits) \<longleftrightarrow> j < nbits \<and> bit (buf (j div 32)) (j mod 32)"
proof -
  obtain q r where j: "j div 64 = q" "j mod 64 = r" "r < 64" "j div 32 = (if r < 32 then 2 * q else Suc (2 * q))"
      "j mod 32 = (if r < 32 then r else r - 32)" "j = 64 * q + r"
    by (rule arr32_word_split)
  obtain n m where n: "nbits = 64 * n + m" "m < 64" "nbits div 64 = n" "nbits mod 64 = m" by (rule split64)
  let ?b = "from_arr32_loop buf (DIV_ROUND_UP nbits 32) 0 bitmap"
  have nz: "nbits \<noteq> 0" using assms by (cases "nbits = 0") (simp_all add: BITS_TO_LONGS_def)
  moreover have "(DIV_ROUND_UP nbits 32 - 1) div 2 = n" if "m \<noteq> 0"
  proof (rule div_nat_eqI)
    show "2 * n \<le> DIV_ROUND_UP nbits 32 - 1" "DIV_ROUND_UP nbits 32 - 1 < 2 * Suc n"
      using halfwords_bounds [of n nbits] halfwords_bounds(1) [of "Suc n" nbits] n(1,2) that by auto
  qed
  ultimately have w: "bitmap_from_arr32 bitmap buf nbits q =
      (if m \<noteq> 0 \<and> q = n then ?b q AND BITMAP_LAST_WORD_MASK nbits else ?b q)"
    unfolding bitmap_from_arr32_def Let_def halfwords_u32(1) [OF u] halfwords_u32(2) [OF u nz] by (auto simp: BITS_PER_LONG_def n(4))
  have "q \<le> n" "m = 0 \<longrightarrow> q < n"
    using assms j(3,6) n(2) by (auto simp: BITS_TO_LONGS_eq n(3,4) split: if_splits)
  moreover have lt: "j < nbits \<longleftrightarrow> q < n \<or> q = n \<and> r < m"
    using \<open>q \<le> n\<close> j(3,6) n(1,2) by auto
  moreover have "bit (?b q) r \<longleftrightarrow> bit (buf (j div 32)) (j mod 32)" if "j < nbits"
  proof -
    have "64 * q + r < 64 * BITS_TO_LONGS nbits" using assms j(6) by simp
    from from_arr32_word_bit [OF j(3) this, of buf bitmap] that j(3,6) show ?thesis
      unfolding j(4,5) by auto
  qed
  ultimately show ?thesis
    unfolding variable_test_bit_def j(1,2) w
    by (cases "q = n") (auto simp: bit_and_iff bit_LAST_WORD_MASK n(4))
qed

lemma mod_32_complement:
  "(c + m) mod 32 = 0 \<Longrightarrow> c < 32 \<Longrightarrow> m < 32 \<Longrightarrow> c = (if m = 0 then 0 else 32 - m)" for c m :: nat
  by (cases "c + m < 32") (auto simp: le_mod_geq)

lemma neg_and_31:
  "unat ((- of_nat n :: u32) AND 31) = (if n mod 32 = 0 then 0 else 32 - n mod 32)"
proof -
  let ?w = "of_nat n :: u32"
  have "(31 :: u32) = mask 5" by (simp add: mask_eq_exp_minus_1)
  then have c: "unat (- ?w AND 31) = unat (- ?w) mod 32" using unat_mask_eq [of "- ?w" 5] by simp
  have w: "unat ?w mod 32 = n mod 32"
    by (simp add: unsigned_of_nat take_bit_eq_mod mod_mod_cancel)
  have "unat (- ?w + ?w) = 0" by simp
  then have "(unat (- ?w) + unat ?w) mod 2 ^ 32 = 0" unfolding unat_word_ariths by simp
  then have "(unat (- ?w) + unat ?w) mod 32 = 0"
    using mod_mod_cancel [of 32 "2 ^ 32" "unat (- ?w) + unat ?w"] by simp
  then have "(unat (- ?w) mod 32 + n mod 32) mod 32 = 0" using w by (metis mod_add_eq)
  moreover have "unat (- ?w) mod 32 < 32" "n mod 32 < 32" by auto
  ultimately show ?thesis unfolding c by (rule mod_32_complement)
qed

lemma bit_allones: "bit (0xffffffff :: u32) n \<longleftrightarrow> n < 32"
proof -
  have "(0xffffffff :: u32) = -1" by simp
  then show ?thesis unfolding \<open>0xffffffff = -1\<close> by simp
qed

lemma bitmap_to_arr32_spec:
  assumes "j < nbits" and u: "nbits \<le> 2 ^ 32 - 32"
  shows "bit (bitmap_to_arr32 buf bitmap nbits (j div 32)) (j mod 32) \<longleftrightarrow> test_bit j bitmap"
proof -
  obtain q r where j: "j div 64 = q" "j mod 64 = r" "r < 64" "j div 32 = (if r < 32 then 2 * q else Suc (2 * q))"
      "j mod 32 = (if r < 32 then r else r - 32)" "j = 64 * q + r"
    by (rule arr32_word_split)
  let ?h = "DIV_ROUND_UP nbits 32"
  let ?b = "to_arr32_loop bitmap ?h 0 buf"
  have h: "j div 32 < ?h" using halfwords_bounds [of q nbits] assms j by auto
  have b: "bit (?b (j div 32)) (j mod 32) = test_bit j bitmap"
    using h j(3) unfolding variable_test_bit_def to_arr32_loop_apply [OF even_zero] j(1,2,4,5)
    by (auto simp: bit_simps)
  have "bit (drop_bit (unat ((- of_nat nbits :: u32) AND 31)) (0xffffffff :: u32)) (j mod 32)" if "j div 32 = ?h - 1"
  proof -
    have "j mod 32 < nbits mod 32" if "nbits mod 32 \<noteq> 0"
    proof -
      obtain p m where pm: "nbits = 32 * p + m" "m < 32" "nbits mod 32 = m"
        using mult_div_mod_eq [of 32 nbits] by (metis mod_less_divisor zero_less_numeral)
      obtain a b where ab: "j = 32 * a + b" "b < 32" "j div 32 = a" "j mod 32 = b"
        using mult_div_mod_eq [of 32 j] by (metis mod_less_divisor zero_less_numeral)
      have "?h = Suc p" using pm that unfolding DIV_ROUND_UP_def by (auto intro!: div_nat_eqI)
      with \<open>j div 32 = ?h - 1\<close> ab have "a = p" by simp
      then show ?thesis using assms pm ab by simp
    qed
    then show ?thesis using neg_and_31 [of nbits] unfolding bit_drop_bit_eq comp_def bit_allones by auto
  qed
  then show ?thesis
    using b assms(1) halfwords_u32(2) [OF u] unfolding bitmap_to_arr32_def Let_def halfwords_u32(1) [OF u] by (auto simp: bit_simps)
qed

lemma bitmap_to_arr32_wrapped:
  assumes "2 ^ 32 - 32 < nbits" "nbits < 2 ^ 32" "k \<noteq> 2 ^ 32 - 1"
  shows "bitmap_to_arr32 buf bitmap nbits k = buf k"
proof -
  have n: "nbits + 32 - 1 = (nbits + 31 - 2 ^ 32) + 2 ^ 32" "nbits + 31 - 2 ^ 32 < 32" using assms(1,2) by simp_all
  have "(nbits + 32 - 1) mod 2 ^ 32 = nbits + 31 - 2 ^ 32" unfolding n(1) mod_add_self2 using n(2) by (intro mod_less) simp
  then have "DIV_ROUND_UP_u32 nbits 32 = 0" using n(2) by (simp add: DIV_ROUND_UP_u32_def)
  moreover have "to_arr32_loop bitmap 0 0 buf = buf" by (simp add: to_arr32_loop.simps)
  ultimately show ?thesis using assms(3) by (simp add: bitmap_to_arr32_def)
qed

lemma bitmap_arr32_inverse:
  "nbits \<le> 2 ^ 32 - 32 \<Longrightarrow>
    u_bitmap_equal (bitmap_from_arr32 bitmap' (bitmap_to_arr32 buf bitmap nbits) nbits) bitmap nbits"
  using less_le_trans [OF _ BITS_TO_LONGS_covers, of _ nbits]
  by (simp add: u_bitmap_equal_iff bitmap_from_arr32_spec bitmap_to_arr32_spec)

section \<open>The last set bit\<close>

lemma u_flsl_spec:
  assumes "x \<noteq> 0"
  shows "u_flsl x < 64" "bit x (u_flsl x)" "u_flsl x < j \<Longrightarrow> \<not> bit x j"
  using builtin_clz_top [OF assms] builtin_clz_less [OF assms] builtin_clz_above [of x j]
  by (auto simp: u_flsl_def)

lemma find_last_loop_spec:
  "case find_last_loop addr idx val of
     None \<Rightarrow> (\<forall>j < 64 * idx. \<not> test_bit j addr) \<and> val AND addr idx = 0
   | Some r \<Rightarrow> test_bit r addr \<and> (\<forall>j. r < j \<longrightarrow> j < 64 * idx \<longrightarrow> \<not> test_bit j addr) \<and> r < 64 * Suc idx \<and>
       (\<forall>n < 64. bit (val AND addr idx) n \<longrightarrow> 64 * idx + n \<le> r) \<and> (64 * idx \<le> r \<longrightarrow> bit val (r - 64 * idx))"
proof (induction addr idx val rule: find_last_loop.induct)
  case (1 addr idx val)
  note unfold = find_last_loop.simps [of addr idx val]
  show ?case
  proof (cases "val AND addr idx = 0")
    case False
    note f = u_flsl_spec [OF False]
    have "n \<le> u_flsl (val AND addr idx)" if "bit (val AND addr idx) n" for n
      using that f(3) by (meson not_less)
    moreover have "test_bit (idx * 64 + u_flsl (val AND addr idx)) addr"
      using test_bit_in_word [OF f(1), of idx addr] f(2) by (simp add: mult.commute bit_and_iff)
    ultimately show ?thesis using False f
      by (auto simp: unfold Let_def BITS_PER_LONG_def bit_and_iff)
  next
    case True
    show ?thesis
    proof (cases idx)
      case 0
      with True show ?thesis by (simp add: find_last_loop.simps)
    next
      case (Suc i)
      have eq: "find_last_loop addr idx val = find_last_loop addr i (-1)"
        unfolding unfold using True Suc by simp
      have ih: "case find_last_loop addr i (-1) of
          None \<Rightarrow> (\<forall>j < 64 * i. \<not> test_bit j addr) \<and> (-1) AND addr i = 0
        | Some r \<Rightarrow> test_bit r addr \<and> (\<forall>j. r < j \<longrightarrow> j < 64 * i \<longrightarrow> \<not> test_bit j addr) \<and> r < 64 * Suc i \<and>
          (\<forall>n < 64. bit ((-1) AND addr i) n \<longrightarrow> 64 * i + n \<le> r) \<and> (64 * i \<le> r \<longrightarrow> bit (-1 :: u64) (r - 64 * i))"
        using "1.IH" [OF refl, unfolded Suc diff_Suc_1] True Suc by blast
      have w: "\<not> test_bit j addr" if "64 * i + n = j" "n < 64" "\<not> bit (addr i) n" for j n
        using test_bit_in_word [OF that(2), of i addr] that by auto
      show ?thesis
      proof (cases "find_last_loop addr i (-1)")
        case None
        have "\<not> test_bit j addr" if "j < 64 * Suc i" for j
          using ih that w [of "j - 64 * i" j] None by (cases "j < 64 * i") auto
        with None True Suc show ?thesis unfolding eq by simp
      next
        case (Some r)
        have "\<not> test_bit j addr" if "r < j" "j < 64 * Suc i" for j
        proof (cases "j < 64 * i")
          case False
          then have d: "64 * i + (j - 64 * i) = j" "j - 64 * i < 64" using that by auto
          moreover have "\<not> bit (addr i) (j - 64 * i)"
            using ih Some d that(1) by (auto dest!: spec [of _ "j - 64 * i"])
          ultimately show ?thesis by (rule w)
        qed (use ih Some that in auto)
        with ih Some True Suc show ?thesis unfolding eq by auto
      qed
    qed
  qed
qed


text \<open>Away from multiples of 64 the search finds the last bit; on them the mask of the last word is
  empty and the last word is skipped.\<close>

lemma find_last_bit_spec:
  assumes "sz mod 64 \<noteq> 0"
  shows "find_last_bit addr sz = (if bits_below addr sz = {} then sz else Max (bits_below addr sz))"
proof -
  obtain q r where sz: "sz = 64 * q + r" "r < 64" "sz div 64 = q" "sz mod 64 = r" by (rule split64)
  have r: "r \<noteq> 0" using assms sz by simp
  have idx: "(sz - 1) div 64 = q" using sz(1,2) r by (auto intro!: div_nat_eqI)
  have val: "bit (BITMAP_LAST_WORD_MASK sz AND addr q) n \<longleftrightarrow> n < r \<and> bit (addr q) n" for n
    by (auto simp: bit_and_iff bit_LAST_WORD_MASK sz(4))
  let ?l = "find_last_loop addr q (BITMAP_LAST_WORD_MASK sz)"
  note spec = find_last_loop_spec [of q addr "BITMAP_LAST_WORD_MASK sz"]
  have bb: "j \<in> bits_below addr sz \<longleftrightarrow> j < 64 * q \<and> test_bit j addr \<or> (\<exists>n < r. j = 64 * q + n \<and> bit (addr q) n)" for j
    using bits_below_split [of r addr q] sz(1,2) by (auto simp: bits_below_def)
  have eq: "find_last_bit addr sz = (case ?l of Some r \<Rightarrow> r | None \<Rightarrow> sz)"
    unfolding find_last_bit_def BITS_PER_LONG_def idx using assms by (cases "sz = 0") simp_all
  show ?thesis
  proof (cases ?l)
    case None
    then have "bits_below addr sz = {}"
      using spec val by (auto simp: bb)
    then show ?thesis using None eq by simp
  next
    case (Some m)
    then have m: "test_bit m addr" "\<And>j. m < j \<Longrightarrow> j < 64 * q \<Longrightarrow> \<not> test_bit j addr" "m < 64 * Suc q"
        "\<And>n. n < 64 \<Longrightarrow> n < r \<Longrightarrow> bit (addr q) n \<Longrightarrow> 64 * q + n \<le> m" "64 * q \<le> m \<Longrightarrow> m - 64 * q < r"
      using spec val by (auto simp: bit_LAST_WORD_MASK sz(4))
    have "m \<in> bits_below addr sz" using m(1,5) sz(1,2) by (cases "64 * q \<le> m") (auto simp: bits_below_def)
    moreover have "j \<le> m" if "j \<in> bits_below addr sz" for j
      using that m(2,4) sz(2) by (auto simp: bb) (meson not_less)
    ultimately have "Max (bits_below addr sz) = m" "bits_below addr sz \<noteq> {}" by (auto intro: Max_eqI)
    then show ?thesis using Some eq by simp
  qed
qed

lemma find_last_bit_aligned_misses: "find_last_bit (\<lambda>k. if k = 0 then 1 else 0) 64 = 64"
  by (simp add: find_last_bit_def BITS_PER_LONG_def LAST_WORD_MASK_aligned find_last_loop.simps)

section \<open>Properties\<close>

text \<open>C19: every bit search returns the first index from its start on whose bit is set (set in both
  maps, or clear), and the size of the map exactly when there is none.\<close>

theorem bit_search_finds_next:
  "next_such (\<lambda>j. test_bit j addr) nbits start (find_next_bit addr nbits start) \<and>
   next_such (\<lambda>j. test_bit j addr \<and> test_bit j addr2) nbits start (find_next_and_bit addr addr2 nbits start) \<and>
   next_such (\<lambda>j. \<not> test_bit j addr) nbits start (find_next_zero_bit addr nbits start) \<and>
   next_such (\<lambda>j. test_bit j addr) nbits 0 (find_first_bit addr nbits) \<and>
   next_such (\<lambda>j. \<not> test_bit j addr) nbits 0 (find_first_zero_bit addr nbits)"
  by (intro conjI find_next_bit_spec find_next_and_bit_spec find_next_zero_bit_spec
      find_first_bit_spec find_first_zero_bit_spec)

text \<open>C20: \<open>__bitmap_set\<close> and \<open>__bitmap_clear\<close> change exactly the bits of the range, in whatever
  words it starts, ends and crosses.\<close>

theorem bitmap_range_exact:
  "(test_bit j (u_bitmap_set bm start len) \<longleftrightarrow> test_bit j bm \<or> start \<le> j \<and> j < start + len) \<and>
   (test_bit j (u_bitmap_clear bm start len) \<longleftrightarrow> test_bit j bm \<and> \<not> (start \<le> j \<and> j < start + len))"
  by (simp add: test_bit_u_bitmap_set test_bit_u_bitmap_clear)

text \<open>C21: unpacking a map into 32-bit words and packing it again gives the same first \<open>nbits\<close> bits, and
  packing leaves no stray bit in the last word, for every size up to \<open>2\<^sup>3\<^sup>2 - 32\<close>.  For the 31 larger sizes an
  \<open>unsigned int\<close> can hold, the number of words wraps to 0 and unpacking does nothing but mask word
  \<open>2\<^sup>3\<^sup>2 - 1\<close>, far outside the array.\<close>

theorem bitmap_arr32_round_trip:
  "(nbits \<le> 2 ^ 32 - 32 \<longrightarrow>
     u_bitmap_equal (bitmap_from_arr32 bitmap' (bitmap_to_arr32 buf bitmap nbits) nbits) bitmap nbits \<and>
     bits_below (bitmap_from_arr32 bitmap' arr nbits) (64 * BITS_TO_LONGS nbits) =
       bits_below (bitmap_from_arr32 bitmap' arr nbits) nbits) \<and>
   (2 ^ 32 - 32 < nbits \<and> nbits < 2 ^ 32 \<longrightarrow> (\<forall>k. k \<noteq> 2 ^ 32 - 1 \<longrightarrow> bitmap_to_arr32 buf bitmap nbits k = buf k))"
proof (intro conjI impI)
  assume u: "nbits \<le> 2 ^ 32 - 32"
  show "bits_below (bitmap_from_arr32 bitmap' arr nbits) (64 * BITS_TO_LONGS nbits) =
     bits_below (bitmap_from_arr32 bitmap' arr nbits) nbits"
    using less_le_trans [OF _ BITS_TO_LONGS_covers, of _ nbits] u
    by (auto simp: bits_below_def bitmap_from_arr32_spec)
qed (simp_all add: bitmap_arr32_inverse bitmap_to_arr32_wrapped)

theorem bitmap_arr32_round_trip_witness:
  "u_bitmap_equal (bitmap_from_arr32 (\<lambda>_. 7) (bitmap_to_arr32 (\<lambda>_. 9) (\<lambda>k. of_nat k) 100) 100) (\<lambda>k. of_nat k) 100 \<and>
   bitmap_to_arr32 (\<lambda>_. 9) (\<lambda>_. 1) (2 ^ 32 - 1) 0 = 9"
  using bitmap_arr32_round_trip [of 100 "\<lambda>_. 7" "\<lambda>_. 9" "\<lambda>k. of_nat k"]
    bitmap_arr32_round_trip [of "2 ^ 32 - 1" "\<lambda>_. 7" "\<lambda>_. 9" "\<lambda>_. 1"] by simp

text \<open>C18: the weight of a map is the number of its set bits, and intersection, difference, equality
  and inclusion decide the corresponding relations between the sets of set bits, for every size an
  \<open>unsigned int\<close> can hold.  The weight takes an \<open>unsigned long\<close>; below \<open>2\<^sup>3\<^sup>8\<close> bits it is the number of
  set bits modulo \<open>2\<^sup>3\<^sup>2\<close>.\<close>

theorem bitmap_ops_are_set_ops:
  "(bits < 2 ^ 38 \<longrightarrow> u_bitmap_weight b1 bits = of_nat (card (bits_below b1 bits))) \<and>
   (bits < 2 ^ 32 \<longrightarrow>
     unat (u_bitmap_weight b1 bits) = card (bits_below b1 bits) \<and>
     (u_bitmap_equal b1 b2 bits \<longleftrightarrow> bits_below b1 bits = bits_below b2 bits) \<and>
     (u_bitmap_subset b1 b2 bits \<longleftrightarrow> bits_below b1 bits \<subseteq> bits_below b2 bits) \<and>
     (u_bitmap_intersects b1 b2 bits \<longleftrightarrow> bits_below b1 bits \<inter> bits_below b2 bits \<noteq> {}) \<and>
     bits_below (snd (u_bitmap_and dst b1 b2 bits)) bits = bits_below b1 bits \<inter> bits_below b2 bits \<and>
     bits_below (u_bitmap_or dst b1 b2 bits) bits = bits_below b1 bits \<union> bits_below b2 bits \<and>
     bits_below (snd (u_bitmap_andnot dst b1 b2 bits)) bits = bits_below b1 bits - bits_below b2 bits \<and>
     bits_below (u_bitmap_complement dst b1 bits) bits = {..<bits} - bits_below b1 bits)"
  using less_le_trans [OF _ BITS_TO_LONGS_covers, of _ bits]
  by (intro conjI impI u_bitmap_weight_card u_bitmap_weight_nat)
    (auto simp: u_bitmap_equal_iff u_bitmap_subset_iff u_bitmap_intersects_iff
      u_bitmap_and_spec u_bitmap_or_spec u_bitmap_andnot_spec u_bitmap_complement_spec bits_below_def)

theorem bitmap_ops_are_set_ops_witness:
  "unat (u_bitmap_weight (\<lambda>_. 5) 67) = card (bits_below (\<lambda>_. 5) 67) \<and> u_bitmap_weight (\<lambda>_. -1) (2 ^ 32) = of_nat (card (bits_below (\<lambda>_. -1) (2 ^ 32)))"
proof
  show "unat (u_bitmap_weight (\<lambda>_. 5) 67) = card (bits_below (\<lambda>_. 5) 67)"
    using bitmap_ops_are_set_ops [THEN conjunct2, THEN mp, THEN conjunct1, of 67 "\<lambda>_. 5"] by simp
  show "u_bitmap_weight (\<lambda>_. -1) (2 ^ 32) = of_nat (card (bits_below (\<lambda>_. -1) (2 ^ 32)))"
    using bitmap_ops_are_set_ops [THEN conjunct1, THEN mp, of "2 ^ 32" "\<lambda>_. -1"] by simp
qed

text \<open>C22: shifting by an amount up to the size moves every bit by the distance and shifts in zeros, on every
  size, except that the right shift of a map whose size is a multiple of 64 first loses the last word of the
  source.\<close>

theorem bitmap_shifts_move_bits:
  assumes "j < nbits" and "shift \<le> nbits"
  shows "(nbits mod 64 \<noteq> 0 \<longrightarrow>
      (test_bit j (u_bitmap_shift_right dst src shift nbits) \<longleftrightarrow> j + shift < nbits \<and> test_bit (j + shift) src)) \<and>
    (nbits mod 64 = 0 \<longrightarrow>
      (test_bit j (u_bitmap_shift_right dst src shift nbits) \<longleftrightarrow> j + shift < nbits - 64 \<and> test_bit (j + shift) src)) \<and>
    (test_bit j (u_bitmap_shift_left dst src shift nbits) \<longleftrightarrow> shift \<le> j \<and> test_bit (j - shift) src)"
proof -
  have "j < 64 * BITS_TO_LONGS nbits" using assms(1) BITS_TO_LONGS_covers [of nbits] by simp
  moreover have "shift div 64 \<le> BITS_TO_LONGS nbits"
    using div_le_mono [OF assms(2), of 64] by (simp add: BITS_TO_LONGS_eq)
  ultimately show ?thesis
    by (simp add: u_bitmap_shift_right_spec u_bitmap_shift_left_spec shift_right_size_def)
qed

theorem bitmap_shifts_move_bits_witness:
  "test_bit 1 (u_bitmap_shift_right (\<lambda>_. 0) (\<lambda>k. if k = 1 then 4 else 0) 65 100) \<and>
   \<not> test_bit 1 (u_bitmap_shift_right (\<lambda>_. 0) (\<lambda>k. if k = 1 then 4 else 0) 65 128) \<and>
   test_bit 67 (u_bitmap_shift_left (\<lambda>_. 0) (\<lambda>k. if k = 0 then 4 else 0) 65 128)"
  using bitmap_shifts_move_bits [of 1 100 65 "\<lambda>_. 0" "\<lambda>k. if k = 1 then 4 else 0"]
    bitmap_shifts_move_bits [of 1 128 65 "\<lambda>_. 0" "\<lambda>k. if k = 1 then 4 else 0"]
    bitmap_shifts_move_bits [of 67 128 65 "\<lambda>_. 0" "\<lambda>k. if k = 0 then 4 else 0"]
  by (simp add: variable_test_bit_def BITS_PER_LONG_def bit_numeral_Bit0_iff bit_1_iff)

text \<open>\<open>find_last_bit\<close> returns the greatest set bit when the size is not a multiple of 64. On a
  multiple of 64 the mask of the last word is empty, so a bit set only in the last word is missed.\<close>

lemma find_last_bit_partial:
  "(nbits mod 64 \<noteq> 0 \<longrightarrow>
     find_last_bit addr nbits = (if bits_below addr nbits = {} then nbits else Max (bits_below addr nbits))) \<and>
   find_last_bit (\<lambda>k. if k = 0 then 1 else 0) 64 = 64"
  by (simp add: find_last_bit_spec find_last_bit_aligned_misses)

lemma find_last_bit_partial_witness: "find_last_bit (\<lambda>_. 5) 3 = 2"
proof -
  have "bits_below (\<lambda>_. 5) 3 = {0, 2}"
    by (auto simp: bits_below_def variable_test_bit_def BITS_PER_LONG_def numeral_3_eq_3 less_Suc_eq)
  then show ?thesis using find_last_bit_partial [of 3 "\<lambda>_. 5"] by simp
qed

end
