(* ===== verification/Fifo_Spec.thy ===== *)
theory Fifo_Spec
  imports Skp_Prelude
begin

text \<open>
  The contract of a bounded first-in first-out queue with bulk operations: what a producer and a
  consumer may rely on, whatever the representation. An operation either moves all the requested
  objects or, in its variable form, as many as fit; the laws say how many it moves and that the
  objects leave in the order they came.
\<close>

datatype 'a fifo_op = Enq bool "'a list" | Deq bool nat

text \<open>How many objects an operation moves when \<open>room\<close> of them are possible.\<close>

definition bulk_count :: "bool \<Rightarrow> nat \<Rightarrow> nat \<Rightarrow> nat" where
  "bulk_count fixed n room = (if n \<le> room then n else if fixed then 0 else room)"

text \<open>A run of operations, with the objects accepted and the objects handed out.\<close>

primrec fifo_run :: "(bool \<Rightarrow> 'a list \<Rightarrow> 's \<Rightarrow> nat \<times> 's) \<Rightarrow> (bool \<Rightarrow> nat \<Rightarrow> 's \<Rightarrow> 'a list \<times> 's) \<Rightarrow>
    'a fifo_op list \<Rightarrow> 's \<Rightarrow> 'a list \<times> 'a list \<times> 's" where
  "fifo_run enq deq [] s = ([], [], s)"
| "fifo_run enq deq (op # ops) s =
     (case op of
        Enq fixed xs \<Rightarrow>
          (let (n, s) = enq fixed xs s; (ins, outs, s) = fifo_run enq deq ops s in (take n xs @ ins, outs, s))
      | Deq fixed n \<Rightarrow>
          (let (ys, s) = deq fixed n s; (ins, outs, s) = fifo_run enq deq ops s in (ins, ys @ outs, s)))"

definition op_size :: "'a fifo_op \<Rightarrow> nat" where
  "op_size op = (case op of Enq fixed xs \<Rightarrow> length xs | Deq fixed n \<Rightarrow> n)"

lemma bulk_count_le: "bulk_count fixed n room \<le> n" "bulk_count fixed n room \<le> room"
  by (auto simp: bulk_count_def)

locale bounded_fifo =
  fixes inv :: "'s \<Rightarrow> bool"
    and queued :: "'s \<Rightarrow> 'a list"
    and limit :: "'s \<Rightarrow> nat"
    and room_for :: "nat \<Rightarrow> bool"
    and enq :: "bool \<Rightarrow> 'a list \<Rightarrow> 's \<Rightarrow> nat \<times> 's"
    and deq :: "bool \<Rightarrow> nat \<Rightarrow> 's \<Rightarrow> 'a list \<times> 's"
  assumes enq_inv: "inv s \<Longrightarrow> room_for (length xs) \<Longrightarrow> inv (snd (enq fixed xs s))"
    and enq_count: "inv s \<Longrightarrow> room_for (length xs) \<Longrightarrow>
      fst (enq fixed xs s) = bulk_count fixed (length xs) (limit s - length (queued s))"
    and enq_queued: "inv s \<Longrightarrow> room_for (length xs) \<Longrightarrow>
      queued (snd (enq fixed xs s)) = queued s @ take (fst (enq fixed xs s)) xs"
    and enq_limit: "inv s \<Longrightarrow> room_for (length xs) \<Longrightarrow> limit (snd (enq fixed xs s)) = limit s"
    and deq_inv: "inv s \<Longrightarrow> room_for n \<Longrightarrow> inv (snd (deq fixed n s))"
    and deq_taken: "inv s \<Longrightarrow> room_for n \<Longrightarrow>
      fst (deq fixed n s) = take (bulk_count fixed n (length (queued s))) (queued s)"
    and deq_queued: "inv s \<Longrightarrow> room_for n \<Longrightarrow>
      queued (snd (deq fixed n s)) = drop (bulk_count fixed n (length (queued s))) (queued s)"
    and deq_limit: "inv s \<Longrightarrow> room_for n \<Longrightarrow> limit (snd (deq fixed n s)) = limit s"
    and queued_limit: "inv s \<Longrightarrow> length (queued s) \<le> limit s"
begin

lemma run_fifo:
  assumes "inv s" and "\<forall>op \<in> set ops. room_for (op_size op)"
  shows "case fifo_run enq deq ops s of (ins, outs, s') \<Rightarrow> inv s' \<and> outs @ queued s' = queued s @ ins \<and>
    length (queued s') \<le> limit s \<and> limit s' = limit s"
  using assms
proof (induction ops arbitrary: s)
  case Nil
  then show ?case by (simp add: queued_limit)
next
  case (Cons op ops)
  show ?case
  proof (cases op)
    case (Enq fixed xs)
    then have ok: "room_for (length xs)" using Cons.prems(2) by (simp add: op_size_def)
    obtain n s1 where e: "enq fixed xs s = (n, s1)" by fastforce
    have "inv s1" "queued s1 = queued s @ take n xs" "limit s1 = limit s"
      using enq_inv [OF Cons.prems(1) ok, of fixed] enq_queued [OF Cons.prems(1) ok, of fixed]
        enq_limit [OF Cons.prems(1) ok, of fixed] by (simp_all add: e)
    with Cons.IH [of s1] Cons.prems(2) Enq e show ?thesis by (auto split: prod.splits)
  next
    case (Deq fixed n)
    then have ok: "room_for n" using Cons.prems(2) by (simp add: op_size_def)
    obtain ys s1 where d: "deq fixed n s = (ys, s1)" by fastforce
    have "inv s1" "ys @ queued s1 = queued s" "limit s1 = limit s"
      using deq_inv [OF Cons.prems(1) ok, of fixed] deq_taken [OF Cons.prems(1) ok, of fixed]
        deq_queued [OF Cons.prems(1) ok, of fixed] deq_limit [OF Cons.prems(1) ok, of fixed] by (simp_all add: d)
    with Cons.IH [of s1] Cons.prems(2) Deq d show ?thesis by (auto split: prod.splits)
  qed
qed

text \<open>A consumer that asks for as much as is there empties the queue in arrival order.\<close>

lemma drain: "inv s \<Longrightarrow> room_for n \<Longrightarrow> length (queued s) \<le> n \<Longrightarrow>
  fst (deq False n s) = queued s \<and> queued (snd (deq False n s)) = []"
  by (simp add: deq_taken deq_queued bulk_count_def)

end

end
