(* ===== verification/Ring.thy ===== *)
theory Ring
  imports Bitops Fifo_Spec
begin

text \<open>
  \<open>include/skp/adt/ring.h\<close> and \<open>src/adt/ring.c\<close>: the lock-free ring of pointers. The head and tail
  indices are free-running 32-bit counters that wrap around; a slot is an index masked by the size.

  The operations are modelled as one thread executes them when no other thread is inside the
  ring: the compare-and-exchange on the head just read succeeds at once, and the wait for
  earlier enqueues or dequeues in \<open>__ringb_update_tail\<close> is over at once. The arithmetic that
  decides how many objects move is the same on every interleaving and is kept at 32 bits.
\<close>

section \<open>State\<close>

record ringb_headtail =
  head :: u32
  tail :: u32
  single :: bool

record 'a ringb =
  flags :: u32
  rsize :: u32
  rmask :: u32
  capacity :: u32
  prod :: ringb_headtail
  cons :: ringb_headtail
  ring :: "nat \<Rightarrow> 'a"

datatype behavior = RINGB_Q_FIXED | RINGB_Q_VARIABLE

definition RINGB_F_SP_ENQ :: u32 where "RINGB_F_SP_ENQ = 0x0001"

definition RINGB_F_SC_DEQ :: u32 where "RINGB_F_SC_DEQ = 0x0002"

definition RINGB_F_EXACT_SZ :: u32 where "RINGB_F_EXACT_SZ = 0x0004"

definition RINGB_SZ_MASK :: u32 where "RINGB_SZ_MASK = 0x7fffffff"

section \<open>Creation\<close>

text \<open>\<open>sizeof(struct ringb)\<close> and the cache line size come from the build configuration. The
  argument of \<open>roundup_pow_of_two\<close> is widened to \<open>unsigned long\<close> and its result cut to 32 bits.\<close>

definition ringb_calc_memsize :: "u64 \<Rightarrow> u64 \<Rightarrow> u32 \<Rightarrow> u32 \<Rightarrow> errno + u64" where
  "ringb_calc_memsize sizeof_ringb cacheline_bytes cnt flg =
     (if flg AND NOT (RINGB_F_SC_DEQ OR RINGB_F_SP_ENQ OR RINGB_F_EXACT_SZ) \<noteq> 0 then Inl EINVAL
      else if flg AND RINGB_F_EXACT_SZ = 0 \<and> \<not> is_power_of_2 (ucast cnt) then Inl EINVAL
      else
        let cnt = (if flg AND RINGB_F_EXACT_SZ \<noteq> 0
                     then ucast (u_roundup_pow_of_two (ucast (cnt + 1))) else cnt)
        in if cnt > RINGB_SZ_MASK then Inl EINVAL
           else Inr (ALIGN (sizeof_ringb + ucast cnt * 8) cacheline_bytes))"

definition ringb_reset :: "'a ringb \<Rightarrow> 'a ringb" where
  "ringb_reset r =
     r\<lparr>prod := (prod r)\<lparr>head := 0, tail := 0\<rparr>, cons := (cons r)\<lparr>head := 0, tail := 0\<rparr>\<rparr>"

text \<open>The result and the object, whose memory \<open>memset\<close> has zeroed (the slots behind it are not).\<close>

definition ringb_init :: "'a ringb \<Rightarrow> u32 \<Rightarrow> u32 \<Rightarrow> errno option \<times> 'a ringb" where
  "ringb_init r cnt flg =
     (if flg AND NOT (RINGB_F_SC_DEQ OR RINGB_F_SP_ENQ OR RINGB_F_EXACT_SZ) \<noteq> 0 then (Some EINVAL, r)
      else
        let r = r\<lparr>flags := flg, rsize := 0, rmask := 0, capacity := 0,
                  prod := \<lparr>head = 0, tail = 0, single = flg AND RINGB_F_SP_ENQ \<noteq> 0\<rparr>,
                  cons := \<lparr>head = 0, tail = 0, single = flg AND RINGB_F_SC_DEQ \<noteq> 0\<rparr>\<rparr>
        in if flg AND RINGB_F_EXACT_SZ \<noteq> 0
           then let sz = ucast (u_roundup_pow_of_two (ucast (cnt + 1)))
                in (None, r\<lparr>rsize := sz, rmask := sz - 1, capacity := cnt\<rparr>)
           else if \<not> is_power_of_2 (ucast cnt) \<or> cnt > RINGB_SZ_MASK then (Some EINVAL, r)
           else (None, r\<lparr>rsize := cnt, rmask := cnt - 1, capacity := cnt - 1\<rparr>))"

text \<open>\<open>aligned_alloc\<close> is outside: \<open>alloc\<close> gives the uninitialised object for a size, or nothing.
  The result of \<open>ringb_init\<close> is not looked at.\<close>

definition ringb_create :: "u64 \<Rightarrow> u64 \<Rightarrow> (u64 \<Rightarrow> 'a ringb option) \<Rightarrow> u32 \<Rightarrow> u32 \<Rightarrow> errno + 'a ringb" where
  "ringb_create sizeof_ringb cacheline_bytes alloc cnt flg =
     (case ringb_calc_memsize sizeof_ringb cacheline_bytes cnt flg of
        Inl _ \<Rightarrow> Inl EINVAL
      | Inr sz \<Rightarrow> (case alloc sz of None \<Rightarrow> Inl ENOMEM | Some r \<Rightarrow> Inr (snd (ringb_init r cnt flg))))"

section \<open>Counts\<close>

definition ringb_count :: "'a ringb \<Rightarrow> u32" where
  "ringb_count r =
     (let cnt = (tail (prod r) - tail (cons r)) AND rmask r
      in if cnt > capacity r then capacity r else cnt)"

definition ringb_free_count :: "'a ringb \<Rightarrow> u32" where
  "ringb_free_count r = capacity r - ringb_count r"

definition ringb_full :: "'a ringb \<Rightarrow> bool" where
  "ringb_full r = (ringb_free_count r = 0)"

definition ringb_empty :: "'a ringb \<Rightarrow> bool" where
  "ringb_empty r = (ringb_count r = 0)"

section \<open>Moving the heads\<close>

text \<open>One iteration of the loops: from the head and the opposite tail just read, the number of
  objects to move, the new head and the entries that were free or filled.\<close>

definition head_try :: "u32 \<Rightarrow> u32 \<Rightarrow> u32 \<Rightarrow> behavior \<Rightarrow> u32 \<times> u32" where
  "head_try old_head entries n behav =
     (let n = (if n > entries then (if behav = RINGB_Q_FIXED then 0 else entries) else n)
      in (n, old_head + n))"

definition u_ringb_move_prod_head ::
    "'a ringb \<Rightarrow> u32 \<Rightarrow> behavior \<Rightarrow> 'a ringb \<times> u32 \<times> u32 \<times> u32 \<times> u32" where
  "u_ringb_move_prod_head r n behav =
     (let old_head = head (prod r);
          free_entries = capacity r - (old_head - tail (cons r));
          (n, new_head) = head_try old_head free_entries n behav
      in if n = 0 then (r, 0, old_head, new_head, free_entries)
         else (r\<lparr>prod := (prod r)\<lparr>head := new_head\<rparr>\<rparr>, n, old_head, new_head, free_entries))"

definition u_ringb_move_cons_head ::
    "'a ringb \<Rightarrow> u32 \<Rightarrow> behavior \<Rightarrow> 'a ringb \<times> u32 \<times> u32 \<times> u32 \<times> u32" where
  "u_ringb_move_cons_head r n behav =
     (let old_head = head (cons r);
          entries = tail (prod r) - old_head;
          (n, new_head) = head_try old_head entries n behav
      in if n = 0 then (r, 0, old_head, new_head, entries)
         else (r\<lparr>cons := (cons r)\<lparr>head := new_head\<rparr>\<rparr>, n, old_head, new_head, entries))"

text \<open>The wait for \<open>tail = old_val\<close> of a ring shared by several producers or consumers: \<open>None\<close> when
  it would not end, that is when an earlier operation has not published its tail.\<close>

definition u_ringb_update_tail :: "ringb_headtail \<Rightarrow> u32 \<Rightarrow> u32 \<Rightarrow> bool \<Rightarrow> ringb_headtail option" where
  "u_ringb_update_tail ht old_val new_val sgl =
     (if \<not> sgl \<and> tail ht \<noteq> old_val then None else Some (ht\<lparr>tail := new_val\<rparr>))"

section \<open>Copying the objects\<close>

text \<open>The loop unrolled by four, over \<open>i < n & ~3\<close>, and the switch that copies what is left.\<close>

function copy_quads :: "(nat \<Rightarrow> 'a) \<Rightarrow> nat \<Rightarrow> (nat \<Rightarrow> 'a) \<Rightarrow> nat \<Rightarrow> nat \<Rightarrow> nat \<Rightarrow> (nat \<Rightarrow> 'a) \<times> nat" where
  "copy_quads dst d src s i lim =
     (if i < lim then
        copy_quads (dst(d + i := src (s + i), d + i + 1 := src (s + i + 1),
          d + i + 2 := src (s + i + 2), d + i + 3 := src (s + i + 3))) d src s (i + 4) lim
      else (dst, i))"
  by pat_completeness auto
termination
  by (relation "measure (\<lambda>(dst, d, src, s, i, lim). lim - i)") auto

definition copy_rest :: "(nat \<Rightarrow> 'a) \<Rightarrow> nat \<Rightarrow> (nat \<Rightarrow> 'a) \<Rightarrow> nat \<Rightarrow> nat \<Rightarrow> nat \<Rightarrow> (nat \<Rightarrow> 'a)" where
  "copy_rest dst d src s i rest =
     (let (dst, i) = (if rest = 3 then (dst(d + i := src (s + i)), i + 1) else (dst, i));
          (dst, i) = (if rest = 3 \<or> rest = 2 then (dst(d + i := src (s + i)), i + 1) else (dst, i))
      in if rest = 3 \<or> rest = 2 \<or> rest = 1 then dst(d + i := src (s + i)) else dst)"

text \<open>The plain loops \<open>for (; i < lim; i++) dst[d + i] = src[s + i]\<close>.\<close>

function copy_loop :: "(nat \<Rightarrow> 'a) \<Rightarrow> nat \<Rightarrow> (nat \<Rightarrow> 'a) \<Rightarrow> nat \<Rightarrow> nat \<Rightarrow> nat \<Rightarrow> (nat \<Rightarrow> 'a)" where
  "copy_loop dst d src s i lim =
     (if i < lim then copy_loop (dst(d + i := src (s + i))) d src s (Suc i) lim else dst)"
  by pat_completeness auto
termination
  by (relation "measure (\<lambda>(dst, d, src, s, i, lim). lim - i)") auto

definition ENQUEUE_PTRS :: "'a ringb \<Rightarrow> u32 \<Rightarrow> (nat \<Rightarrow> 'a) \<Rightarrow> u32 \<Rightarrow> 'a ringb" where
  "ENQUEUE_PTRS r prod_head obj_table n =
     (let idx = prod_head AND rmask r in
      if idx + n < rsize r then
        let (rng, i) = copy_quads (ring r) (unat idx) obj_table 0 0 (unat (n AND NOT 3))
        in r\<lparr>ring := copy_rest rng (unat idx) obj_table 0 i (unat (n AND 3))\<rparr>
      else
        let k = unat (rsize r) - unat idx;
            rng = copy_loop (ring r) (unat idx) obj_table 0 0 k
        in r\<lparr>ring := copy_loop rng 0 obj_table k 0 (unat n - k)\<rparr>)"

definition DEQUEUE_PTRS :: "'a ringb \<Rightarrow> u32 \<Rightarrow> (nat \<Rightarrow> 'a) \<Rightarrow> u32 \<Rightarrow> (nat \<Rightarrow> 'a)" where
  "DEQUEUE_PTRS r cons_head obj_table n =
     (let idx = cons_head AND rmask r in
      if idx + n < rsize r then
        let (obj, i) = copy_quads obj_table 0 (ring r) (unat idx) 0 (unat (n AND NOT 3))
        in copy_rest obj 0 (ring r) (unat idx) i (unat (n AND 3))
      else
        let k = unat (rsize r) - unat idx;
            obj = copy_loop obj_table 0 (ring r) (unat idx) 0 k
        in copy_loop obj k (ring r) 0 0 (unat n - k))"

section \<open>Enqueue and dequeue\<close>

definition u_ringb_do_enqueue ::
    "'a ringb \<Rightarrow> (nat \<Rightarrow> 'a) \<Rightarrow> u32 \<Rightarrow> behavior \<Rightarrow> bool \<Rightarrow> (u32 \<times> u32 \<times> 'a ringb) option" where
  "u_ringb_do_enqueue r obj_table n behav is_sp =
     (let (r, n, prod_head, prod_next, free_entries) = u_ringb_move_prod_head r n behav in
      if n = 0 then Some (n, free_entries - n, r)
      else
        let r = ENQUEUE_PTRS r prod_head obj_table n in
        (case u_ringb_update_tail (prod r) prod_head prod_next is_sp of
           None \<Rightarrow> None
         | Some ht \<Rightarrow> Some (n, free_entries - n, r\<lparr>prod := ht\<rparr>)))"

definition u_ringb_do_dequeue ::
    "'a ringb \<Rightarrow> (nat \<Rightarrow> 'a) \<Rightarrow> u32 \<Rightarrow> behavior \<Rightarrow> bool \<Rightarrow> (u32 \<times> u32 \<times> (nat \<Rightarrow> 'a) \<times> 'a ringb) option" where
  "u_ringb_do_dequeue r obj_table n behav is_sc =
     (let (r, n, cons_head, cons_next, entries) = u_ringb_move_cons_head r n behav in
      if n = 0 then Some (n, entries - n, obj_table, r)
      else
        let obj_table = DEQUEUE_PTRS r cons_head obj_table n in
        (case u_ringb_update_tail (cons r) cons_head cons_next is_sc of
           None \<Rightarrow> None
         | Some ht \<Rightarrow> Some (n, entries - n, obj_table, r\<lparr>cons := ht\<rparr>)))"

definition ringb_mp_enqueue_bulk where
  "ringb_mp_enqueue_bulk r obj_table n = u_ringb_do_enqueue r obj_table n RINGB_Q_FIXED False"

definition ringb_sp_enqueue_bulk where
  "ringb_sp_enqueue_bulk r obj_table n = u_ringb_do_enqueue r obj_table n RINGB_Q_FIXED True"

definition ringb_enqueue_bulk where
  "ringb_enqueue_bulk r obj_table n = u_ringb_do_enqueue r obj_table n RINGB_Q_FIXED (single (prod r))"

definition ringb_mp_enqueue where
  "ringb_mp_enqueue r obj = ringb_mp_enqueue_bulk r (\<lambda>_. obj) 1"

definition ringb_sp_enqueue where
  "ringb_sp_enqueue r obj = ringb_sp_enqueue_bulk r (\<lambda>_. obj) 1"

definition ringb_enqueue where
  "ringb_enqueue r obj = ringb_enqueue_bulk r (\<lambda>_. obj) 1"

definition ringb_mc_dequeue_bulk where
  "ringb_mc_dequeue_bulk r obj_table n = u_ringb_do_dequeue r obj_table n RINGB_Q_FIXED False"

definition ringb_sc_dequeue_bulk where
  "ringb_sc_dequeue_bulk r obj_table n = u_ringb_do_dequeue r obj_table n RINGB_Q_FIXED True"

definition ringb_dequeue_bulk where
  "ringb_dequeue_bulk r obj_table n = u_ringb_do_dequeue r obj_table n RINGB_Q_FIXED (single (cons r))"

definition ringb_mc_dequeue where
  "ringb_mc_dequeue r obj_p = ringb_mc_dequeue_bulk r obj_p 1"

definition ringb_sc_dequeue where
  "ringb_sc_dequeue r obj_p = ringb_sc_dequeue_bulk r obj_p 1"

definition ringb_dequeue where
  "ringb_dequeue r obj_p = ringb_dequeue_bulk r obj_p 1"

definition ringb_mp_enqueue_burst where
  "ringb_mp_enqueue_burst r obj_table n = u_ringb_do_enqueue r obj_table n RINGB_Q_VARIABLE False"

definition ringb_sp_enqueue_burst where
  "ringb_sp_enqueue_burst r obj_table n = u_ringb_do_enqueue r obj_table n RINGB_Q_VARIABLE True"

definition ringb_enqueue_burst where
  "ringb_enqueue_burst r obj_table n = u_ringb_do_enqueue r obj_table n RINGB_Q_VARIABLE (single (prod r))"

definition ringb_mc_dequeue_burst where
  "ringb_mc_dequeue_burst r obj_table n = u_ringb_do_dequeue r obj_table n RINGB_Q_VARIABLE False"

definition ringb_sc_dequeue_burst where
  "ringb_sc_dequeue_burst r obj_table n = u_ringb_do_dequeue r obj_table n RINGB_Q_VARIABLE True"

definition ringb_dequeue_burst where
  "ringb_dequeue_burst r obj_table n = u_ringb_do_dequeue r obj_table n RINGB_Q_VARIABLE (single (cons r))"

declare copy_quads.simps [simp del] copy_loop.simps [simp del]

section \<open>Invariant and abstraction\<close>

text \<open>Between operations the heads have caught up with the tails; the size is a power of two and
  the counters are at most the capacity apart.\<close>

definition ring_inv :: "'a ringb \<Rightarrow> bool" where
  "ring_inv r \<longleftrightarrow> (\<exists>k \<le> 31. unat (rsize r) = 2 ^ k) \<and> rmask r = rsize r - 1 \<and> capacity r \<le> rmask r \<and>
     head (prod r) = tail (prod r) \<and> head (cons r) = tail (cons r) \<and>
     tail (prod r) - tail (cons r) \<le> capacity r"

definition slot :: "'a ringb \<Rightarrow> u32 \<Rightarrow> nat" where
  "slot r i = unat i mod unat (rsize r)"

definition ring_list :: "'a ringb \<Rightarrow> 'a list" where
  "ring_list r = map (\<lambda>i. ring r (slot r (tail (cons r) + of_nat i))) [0..<unat (tail (prod r) - tail (cons r))]"

section \<open>The copy loops\<close>

lemma copy_quads_eq:
  "i \<le> lim \<Longrightarrow> 4 dvd lim - i \<Longrightarrow> copy_quads dst d src s i lim =
     ((\<lambda>j. if d + i \<le> j \<and> j < d + lim then src (s + (j - d)) else dst j), lim)"
proof (induction dst d src s i lim rule: copy_quads.induct)
  case (1 dst d src s i lim)
  show ?case
  proof (cases "i < lim")
    case False
    with "1.prems" show ?thesis by (subst copy_quads.simps) (auto simp: fun_eq_iff)
  next
    case True
    let ?dst = "dst(d + i := src (s + i), d + i + 1 := src (s + i + 1),
          d + i + 2 := src (s + i + 2), d + i + 3 := src (s + i + 3))"
    have four: "i + 4 \<le> lim" "4 dvd lim - (i + 4)"
      using True "1.prems" by (auto simp: dvd_def) presburger+
    have "copy_quads dst d src s i lim = copy_quads ?dst d src s (i + 4) lim"
      using True by (subst copy_quads.simps) simp
    also have "\<dots> = ((\<lambda>j. if d + (i + 4) \<le> j \<and> j < d + lim then src (s + (j - d)) else ?dst j), lim)"
      by (rule "1.IH" [OF True four])
    also have "\<dots> = ((\<lambda>j. if d + i \<le> j \<and> j < d + lim then src (s + (j - d)) else dst j), lim)"
      using four(1) by (auto simp: fun_eq_iff add.assoc numeral_eq_Suc le_Suc_eq)
    finally show ?thesis .
  qed
qed

lemma copy_rest_eq:
  "rest < 4 \<Longrightarrow> copy_rest dst d src s i rest =
     (\<lambda>j. if d + i \<le> j \<and> j < d + (i + rest) then src (s + (j - d)) else dst j)"
  by (rule ext, cases "rest = 0"; cases "rest = 1"; cases "rest = 2"; cases "rest = 3")
     (auto simp: copy_rest_def numeral_eq_Suc le_Suc_eq less_Suc_eq)

lemma copy_loop_eq:
  "i \<le> lim \<Longrightarrow> copy_loop dst d src s i lim =
     (\<lambda>j. if d + i \<le> j \<and> j < d + lim then src (s + (j - d)) else dst j)"
proof (induction dst d src s i lim rule: copy_loop.induct)
  case (1 dst d src s i lim)
  show ?case
  proof (cases "i < lim")
    case False
    with "1.prems" show ?thesis by (subst copy_loop.simps) (auto simp: fun_eq_iff)
  next
    case True
    then have "copy_loop dst d src s i lim = copy_loop (dst(d + i := src (s + i))) d src s (Suc i) lim"
      by (subst copy_loop.simps) simp
    also have "\<dots> = (\<lambda>j. if d + Suc i \<le> j \<and> j < d + lim then src (s + (j - d)) else (dst(d + i := src (s + i))) j)"
      by (rule "1.IH") (use True in auto)
    finally show ?thesis using True by (auto simp: fun_eq_iff le_Suc_eq)
  qed
qed

lemma quads_and_rest:
  fixes n :: u32
  shows "unat (n AND NOT 3) = 4 * (unat n div 4)" and "unat (n AND 3) = unat n mod 4"
proof -
  have three: "(3 :: u32) = mask 2" by (simp add: mask_eq_exp_minus_1)
  show "unat (n AND 3) = unat n mod 4"
    using unat_mask_eq [of n 2] by (simp add: three)
  have "n AND NOT 3 = push_bit 2 (drop_bit 2 n)"
    unfolding three
  proof (rule bit_word_eqI)
    fix k assume "k < LENGTH(32)"
    moreover have "2 \<le> k \<Longrightarrow> Suc (Suc (k - 2)) = k" by simp
    ultimately show "bit (n AND NOT (mask 2)) k = bit (push_bit 2 (drop_bit 2 n)) k"
      by (auto simp: bit_simps)
  qed
  moreover have "unat (drop_bit 2 n) * 4 < 2 ^ 32"
    using unat_lt_2p [of n] by (simp add: unat_div_pow2)
  ultimately show "unat (n AND NOT 3) = 4 * (unat n div 4)"
    unfolding \<open>n AND NOT 3 = _\<close> push_bit_eq_mult unat_word_ariths
    by (simp add: unat_div_pow2 mult.commute)
qed

lemma unrolled_copy:
  "(case copy_quads dst d src s 0 (unat (n AND NOT 3 :: u32)) of (dst, i) \<Rightarrow> copy_rest dst d src s i (unat (n AND 3))) =
     (\<lambda>j. if d \<le> j \<and> j < d + unat n then src (s + (j - d)) else dst j)"
proof -
  have "unat n = 4 * (unat n div 4) + unat n mod 4" by simp
  then obtain q r where n: "unat n = 4 * q + r" "unat n div 4 = q" "unat n mod 4 = r" "r < 4"
    by (metis mod_less_divisor zero_less_numeral)
  have "copy_quads dst d src s 0 (4 * q) = ((\<lambda>j. if d \<le> j \<and> j < d + 4 * q then src (s + (j - d)) else dst j), 4 * q)"
    using copy_quads_eq [of 0 "4 * q" dst d src s] by simp
  then show ?thesis
    unfolding quads_and_rest n(2,3) using n(4) by (auto simp: copy_rest_eq fun_eq_iff n(1))
qed


section \<open>Slots\<close>

text \<open>The size of a ring that satisfies the invariant, and what follows for its counters.\<close>

lemma unat_mask_word: "k < LENGTH('a) \<Longrightarrow> unat (mask k :: 'a::len word) = 2 ^ k - 1"
proof -
  assume k: "k < LENGTH('a)"
  then have "push_bit k 1 \<noteq> (0 :: 'a word)" using unat_pow2 [of k, where 'a = 'a] by fastforce
  then have "unat (push_bit k 1 - 1 :: 'a word) = 2 ^ k - 1" using k by (simp add: unat_minus_one unat_pow2 del: push_bit_of_1)
  then show ?thesis by (simp add: mask_eq_exp_minus_1)
qed

lemma ring_invE:
  assumes "ring_inv r"
  obtains k where "k \<le> 31" "unat (rsize r) = 2 ^ k" "unat (rmask r) = 2 ^ k - 1" "rmask r = mask k"
    "unat (capacity r) < 2 ^ k" "head (prod r) = tail (prod r)" "head (cons r) = tail (cons r)"
    "unat (tail (prod r) - tail (cons r)) \<le> unat (capacity r)"
proof -
  from assms obtain k where k: "k \<le> 31" "unat (rsize r) = 2 ^ k" by (auto simp: ring_inv_def)
  have "rsize r = push_bit k 1" using k by (simp add: word_unat_eq_iff unat_pow2 del: push_bit_of_1)
  then have m: "rmask r = mask k" using assms by (simp add: ring_inv_def mask_eq_exp_minus_1)
  then have um: "unat (rmask r) = 2 ^ k - 1" using k(1) by (simp add: unat_mask_word)
  have "unat (capacity r) \<le> 2 ^ k - 1" using assms um by (simp add: ring_inv_def word_le_nat_alt)
  moreover have "(0 :: nat) < 2 ^ k" by simp
  ultimately have "unat (capacity r) < 2 ^ k" by linarith
  with k m um assms that show thesis by (auto simp: ring_inv_def word_le_nat_alt)
qed

lemma unat_add_of_nat: "unat (x + of_nat i :: u32) = (unat x + i) mod 2 ^ 32"
  by (simp add: unat_word_ariths unsigned_of_nat take_bit_eq_mod mod_add_right_eq)

lemma slot_add:
  assumes "ring_inv r"
  shows "slot r (x + of_nat i) = (unat x + i) mod unat (rsize r)"
proof -
  obtain k where "k \<le> 31" "unat (rsize r) = 2 ^ k" using assms by (rule ring_invE)
  then have "unat (rsize r) dvd 2 ^ 32" using le_imp_power_dvd [of k 32 "2 :: nat"] by simp
  then show ?thesis by (simp add: slot_def unat_add_of_nat mod_mod_cancel)
qed

lemma and_rmask:
  assumes "ring_inv r"
  shows "unat (x AND rmask r) = slot r x"
proof -
  obtain k where "unat (rsize r) = 2 ^ k" "rmask r = mask k" using assms by (rule ring_invE)
  then show ?thesis by (simp add: slot_def unat_mask_eq)
qed

text \<open>The distance of a slot from the slot of the head decides whether it is written.\<close>

definition dist :: "nat \<Rightarrow> nat \<Rightarrow> nat \<Rightarrow> nat" where
  "dist sz a j = (j + sz - a) mod sz"

lemma dist_slots:
  assumes "0 < sz"
  shows "i < sz \<Longrightarrow> dist sz (a mod sz) ((a + i) mod sz) = i"
    and "0 < m \<Longrightarrow> m \<le> sz \<Longrightarrow> dist sz ((b + m) mod sz) (b mod sz) = sz - m"
proof -
  have le: "x mod sz \<le> y + sz" for x y using assms by (meson less_imp_le mod_less_divisor trans_le_add2)
  have gen: "int ((b + sz - a) mod sz) = (int b - int a) mod int sz" if "a \<le> b + sz" for a b
    using that by (simp add: zmod_int of_nat_diff) (metis add_diff_eq add.commute mod_add_self1)
  have key: "int (dist sz (x mod sz) (y mod sz)) = (int y - int x) mod int sz" for x y
    unfolding dist_def gen [OF le] by (simp add: zmod_int mod_diff_eq)
  show "dist sz (a mod sz) ((a + i) mod sz) = i" if "i < sz"
  proof -
    have "int (dist sz (a mod sz) ((a + i) mod sz)) = int i" unfolding key using that by simp
    then show ?thesis by linarith
  qed
  show "dist sz ((b + m) mod sz) (b mod sz) = sz - m" if "0 < m" "m \<le> sz"
  proof -
    have "(- int m) mod int sz = (int sz - int m) mod int sz" by simp
    also have "\<dots> = int sz - int m" using that by (intro mod_pos_pos_trivial) auto
    finally have "int (dist sz ((b + m) mod sz) (b mod sz)) = int (sz - m)"
      unfolding key using that by (simp add: of_nat_diff)
    then show ?thesis by linarith
  qed
qed

section \<open>Writing and reading slots\<close>

lemma idx_no_overflow:
  assumes "ring_inv r" and "unat n < unat (rsize r)"
  shows "(x AND rmask r) + n < rsize r \<longleftrightarrow> slot r x + unat n < unat (rsize r)"
    and "slot r x < unat (rsize r)"
proof -
  obtain k where k: "k \<le> 31" "unat (rsize r) = 2 ^ k" using assms(1) by (rule ring_invE)
  then have sz: "unat (rsize r) \<le> 2 ^ 31" using power_increasing [of k 31 "2 :: nat"] by simp
  show lt: "slot r x < unat (rsize r)" by (simp add: slot_def k(2))
  then have "slot r x + unat n < 2 ^ 32" using sz assms(2) by simp
  then have "unat ((x AND rmask r) + n) = slot r x + unat n"
    by (simp add: unat_word_ariths and_rmask [OF assms(1)])
  then show "(x AND rmask r) + n < rsize r \<longleftrightarrow> slot r x + unat n < unat (rsize r)"
    by (simp add: word_less_nat_alt)
qed

lemma dist_cases:
  assumes "a < sz" "j < sz"
  shows "dist sz a j = (if a \<le> j then j - a else j + sz - a)"
  using assms by (auto simp: dist_def le_mod_geq)

lemma ENQUEUE_PTRS_ring:
  assumes "ring_inv r" and "unat n < unat (rsize r)" and "j < unat (rsize r)"
  shows "ring (ENQUEUE_PTRS r x obj n) j =
    (let k = dist (unat (rsize r)) (slot r x) j in if k < unat n then obj k else ring r j)"
proof -
  note idx = idx_no_overflow [OF assms(1,2), of x]
  note d = dist_cases [OF idx(2) assms(3)]
  show ?thesis
  proof (cases "slot r x + unat n < unat (rsize r)")
    case True
    have "ring (ENQUEUE_PTRS r x obj n) = (\<lambda>j. if slot r x \<le> j \<and> j < slot r x + unat n then obj (j - slot r x) else ring r j)"
      using True unrolled_copy [where dst = "ring r" and d = "slot r x" and src = obj and s = 0 and n = n]
      by (simp add: ENQUEUE_PTRS_def Let_def idx(1) and_rmask [OF assms(1)] split: prod.splits cong: if_cong)
    with True assms(3) show ?thesis by (auto simp: Let_def d)
  next
    case False
    have "ring (ENQUEUE_PTRS r x obj n) j =
        (if j < unat n - (unat (rsize r) - slot r x) then obj (unat (rsize r) - slot r x + j)
         else if slot r x \<le> j \<and> j < slot r x + (unat (rsize r) - slot r x) then obj (j - slot r x) else ring r j)"
      using False by (simp add: ENQUEUE_PTRS_def Let_def idx(1) and_rmask [OF assms(1)] copy_loop_eq)
    with False idx(2) assms(2,3) show ?thesis by (auto simp: Let_def d add.commute)
  qed
qed

lemma ENQUEUE_PTRS_frame [simp]:
  "prod (ENQUEUE_PTRS r x obj n) = prod r" "cons (ENQUEUE_PTRS r x obj n) = cons r"
  "rsize (ENQUEUE_PTRS r x obj n) = rsize r" "rmask (ENQUEUE_PTRS r x obj n) = rmask r"
  "capacity (ENQUEUE_PTRS r x obj n) = capacity r" "flags (ENQUEUE_PTRS r x obj n) = flags r"
  by (simp_all add: ENQUEUE_PTRS_def Let_def split: prod.splits)

lemma DEQUEUE_PTRS_obj:
  assumes "ring_inv r" and "unat n < unat (rsize r)"
  shows "DEQUEUE_PTRS r x obj n j = (if j < unat n then ring r ((unat x + j) mod unat (rsize r)) else obj j)"
proof -
  note idx = idx_no_overflow [OF assms(1,2), of x]
  let ?S = "unat (rsize r)"
  have wrap: "(unat x + j) mod ?S = (if slot r x + j < ?S then slot r x + j else slot r x + j - ?S)" if "j < ?S"
  proof -
    have "(unat x + j) mod ?S = (slot r x + j) mod ?S" by (simp add: slot_def mod_add_left_eq)
    also have "\<dots> = (if slot r x + j < ?S then slot r x + j else slot r x + j - ?S)"
      using that idx(2) by (auto simp: le_mod_geq)
    finally show ?thesis .
  qed
  show ?thesis
  proof (cases "slot r x + unat n < ?S")
    case True
    have "DEQUEUE_PTRS r x obj n = (\<lambda>j. if j < unat n then ring r (slot r x + j) else obj j)"
      using True unrolled_copy [where dst = obj and d = 0 and src = "ring r" and s = "slot r x" and n = n]
      by (simp add: DEQUEUE_PTRS_def Let_def idx(1) and_rmask [OF assms(1)] split: prod.splits cong: if_cong)
    with True assms(2) wrap show ?thesis by auto
  next
    case False
    let ?k = "?S - slot r x"
    have "DEQUEUE_PTRS r x obj n j =
        (if ?k \<le> j \<and> j < ?k + (unat n - ?k) then ring r (j - ?k)
         else if j < ?k then ring r (slot r x + j) else obj j)"
      using False by (simp add: DEQUEUE_PTRS_def Let_def idx(1) and_rmask [OF assms(1)] copy_loop_eq)
    with False idx(2) assms(2) wrap show ?thesis
      by (auto simp: less_diff_conv add.commute not_less intro!: arg_cong [where f = "ring r"])
  qed
qed

section \<open>Enqueue and dequeue refine a bounded queue\<close>

lemma length_ring_list [simp]: "length (ring_list r) = unat (tail (prod r) - tail (cons r))"
  by (simp add: ring_list_def)

lemma ring_list_nth:
  "ring_inv r \<Longrightarrow> i < unat (tail (prod r) - tail (cons r)) \<Longrightarrow>
     ring_list r ! i = ring r ((unat (tail (cons r)) + i) mod unat (rsize r))"
  by (simp add: ring_list_def slot_add)

lemma unat_sub_of_le: "y \<le> (x :: u32) \<Longrightarrow> unat (x - y) = unat x - unat y"
  by (simp add: unat_sub_if' word_le_nat_alt)

lemma unat_eq_of_nat_self: "unat (w :: 'a::len word) = k \<Longrightarrow> w = of_nat k"
  by auto

lemma head_try_eq:
  "head_try old entries n behav =
     (of_nat (bulk_count (behav = RINGB_Q_FIXED) (unat n) (unat entries)),
      old + of_nat (bulk_count (behav = RINGB_Q_FIXED) (unat n) (unat entries)))"
  by (auto simp: head_try_def bulk_count_def Let_def word_less_nat_alt)


lemma enqueue_result:
  assumes inv: "ring_inv r"
    and m_def: "m = bulk_count (behav = RINGB_Q_FIXED) (unat n) (unat (capacity r) - length (ring_list r))"
  shows "\<exists>r'. u_ringb_do_enqueue r obj n behav is_sp =
      Some (of_nat m, of_nat (unat (capacity r) - length (ring_list r) - m), r') \<and>
    ring_inv r' \<and> capacity r' = capacity r \<and> ring_list r' = ring_list r @ map obj [0..<m]"
proof -
  obtain k where k: "k \<le> 31" "unat (rsize r) = 2 ^ k" "unat (capacity r) < 2 ^ k"
      "head (prod r) = tail (prod r)" "head (cons r) = tail (cons r)"
      "unat (tail (prod r) - tail (cons r)) \<le> unat (capacity r)"
    using inv by (rule ring_invE)
  let ?p = "tail (prod r)" and ?c = "tail (cons r)" and ?S = "unat (rsize r)"
  have S: "?S \<le> 2 ^ 31" using k(1,2) power_increasing [of k 31 "2 :: nat"] by simp
  define len where "len = unat (?p - ?c)"
  have free: "unat (capacity r - (?p - ?c)) = unat (capacity r) - len"
    using k(6) by (simp add: len_def unat_sub_of_le word_le_nat_alt)
  have m: "m \<le> unat n" "m \<le> unat (capacity r) - len" "len + m \<le> unat (capacity r)" "m < ?S" "m < 2 ^ 32"
    using bulk_count_le [of "behav = RINGB_Q_FIXED" "unat n" "unat (capacity r) - len"] k(2,3,6) S
    by (auto simp: m_def len_def)
  let ?m = "of_nat m :: u32"
  have um: "unat ?m = m" using m(5) by (simp add: unsigned_of_nat take_bit_nat_eq_self)
  have "unat (capacity r - (?p - ?c) - ?m) = unat (capacity r) - len - m"
    using m(2) um free by (simp add: unat_sub_of_le word_le_nat_alt)
  then have fr: "capacity r - (?p - ?c) - ?m = of_nat (unat (capacity r) - len - m)"
    by (metis unat_eq_of_nat_self)
  have plen: "unat ?p mod ?S = (unat ?c + len) mod ?S"
    using slot_add [OF inv, of ?c len] by (simp add: len_def slot_def)
  have hd: "head_try ?p (capacity r - (?p - ?c)) n behav = (?m, ?p + ?m)"
    unfolding head_try_eq free by (simp add: m_def len_def)
  show ?thesis
  proof (cases "m = 0")
    case True
    then have "u_ringb_do_enqueue r obj n behav is_sp = Some (0, capacity r - (?p - ?c), r)"
      using hd by (simp add: u_ringb_do_enqueue_def u_ringb_move_prod_head_def k(4) Let_def)
    then show ?thesis using True inv fr by (simp add: len_def)
  next
    case False
    then have nz: "?m \<noteq> 0" using um by (metis unat_0)
    let ?r1 = "r\<lparr>prod := (prod r)\<lparr>head := ?p + ?m\<rparr>\<rparr>"
    let ?r = "(ENQUEUE_PTRS ?r1 ?p obj ?m)\<lparr>prod := (prod r)\<lparr>head := ?p + ?m, tail := ?p + ?m\<rparr>\<rparr>"
    have run: "u_ringb_do_enqueue r obj n behav is_sp = Some (?m, of_nat (unat (capacity r) - len - m), ?r)"
      using nz by (simp add: u_ringb_do_enqueue_def u_ringb_move_prod_head_def k(4) hd Let_def
          u_ringb_update_tail_def fr)
    have "unat (?p - ?c + ?m) = len + m"
      using m(5,3) um unat_lt_2p [of "capacity r"] by (simp add: unat_word_ariths len_def)
    then have cnt: "unat (?p + ?m - ?c) = len + m" by (simp add: algebra_simps)
    have inv': "ring_inv ?r"
      using inv m(3) cnt by (auto simp: ring_inv_def word_le_nat_alt)
    have "ring ?r = ring (ENQUEUE_PTRS r ?p obj ?m)"
      by (simp add: ENQUEUE_PTRS_def Let_def split: prod.splits)
    then have rng: "ring ?r j = (let i = dist ?S ((unat ?c + len) mod ?S) j in if i < m then obj i else ring r j)" if "j < ?S" for j
      using ENQUEUE_PTRS_ring [OF inv _ that, of ?m ?p obj] m(4) um by (simp add: slot_def plen)
    have "ring_list ?r ! i = (ring_list r @ map obj [0..<m]) ! i" if "i < len + m" for i
    proof -
      let ?j = "(unat ?c + i) mod ?S"
      have j: "?j < ?S" using k(2) by simp
      have "ring_list ?r ! i = ring ?r ?j"
        using ring_list_nth [OF inv', of i] that cnt by simp
      also have "\<dots> = (if i < len then ring r ?j else obj (i - len))"
      proof (cases "i < len")
        case True
        have "dist ?S ((unat ?c + len) mod ?S) ?j = ?S - (len - i)"
          using dist_slots(2) [of ?S "len - i" "unat ?c + i"] True k(2,3) m(3) by (simp add: add.assoc)
        moreover have "\<not> ?S - (len - i) < m" using m(3) k(2,3) True by linarith
        ultimately show ?thesis using True rng [OF j] by simp
      next
        case False
        have "dist ?S ((unat ?c + len) mod ?S) ?j = i - len"
          using dist_slots(1) [of ?S "i - len" "unat ?c + len"] False that k(2,3) m(3) by simp
        then show ?thesis using False that rng [OF j] by (auto simp: Let_def)
      qed
      also have "\<dots> = (ring_list r @ map obj [0..<m]) ! i"
        using that ring_list_nth [OF inv, of i] by (auto simp: nth_append len_def)
      finally show ?thesis .
    qed
    then have "ring_list ?r = ring_list r @ map obj [0..<m]"
      using cnt by (intro nth_equalityI) (auto simp: len_def)
    with run inv' show ?thesis by (auto simp: len_def)
  qed
qed


lemma dequeue_result:
  assumes inv: "ring_inv r"
    and m_def: "m = bulk_count (behav = RINGB_Q_FIXED) (unat n) (length (ring_list r))"
  shows "\<exists>r' obj'. u_ringb_do_dequeue r obj n behav is_sc =
      Some (of_nat m, of_nat (length (ring_list r) - m), obj', r') \<and>
    ring_inv r' \<and> capacity r' = capacity r \<and> ring_list r' = drop m (ring_list r) \<and>
    map obj' [0..<m] = take m (ring_list r)"
proof -
  obtain k where k: "k \<le> 31" "unat (rsize r) = 2 ^ k" "unat (capacity r) < 2 ^ k"
      "head (prod r) = tail (prod r)" "head (cons r) = tail (cons r)"
      "unat (tail (prod r) - tail (cons r)) \<le> unat (capacity r)"
    using inv by (rule ring_invE)
  let ?p = "tail (prod r)" and ?c = "tail (cons r)" and ?S = "unat (rsize r)"
  define len where "len = unat (?p - ?c)"
  have m: "m \<le> len" "m < ?S" "m < 2 ^ 32"
    using bulk_count_le [of "behav = RINGB_Q_FIXED" "unat n" len] k(2,3,6) unat_lt_2p [of "?p - ?c"]
    by (auto simp: m_def len_def)
  let ?m = "of_nat m :: u32"
  have um: "unat ?m = m" using m(3) by (simp add: unsigned_of_nat take_bit_nat_eq_self)
  have sub: "unat (?p - ?c - ?m) = len - m"
    using m(1) um by (simp add: unat_sub_of_le word_le_nat_alt len_def)
  then have av: "?p - ?c - ?m = of_nat (len - m)" by (metis unat_eq_of_nat_self)
  have hd: "head_try ?c (?p - ?c) n behav = (?m, ?c + ?m)"
    unfolding head_try_eq by (simp add: m_def)
  show ?thesis
  proof (cases "m = 0")
    case True
    then have "u_ringb_do_dequeue r obj n behav is_sc = Some (0, ?p - ?c, obj, r)"
      using hd by (simp add: u_ringb_do_dequeue_def u_ringb_move_cons_head_def k(5) Let_def)
    then show ?thesis using True inv av by (simp add: len_def)
  next
    case False
    then have nz: "?m \<noteq> 0" using um by (metis unat_0)
    let ?r1 = "r\<lparr>cons := (cons r)\<lparr>head := ?c + ?m\<rparr>\<rparr>"
    let ?r = "r\<lparr>cons := (cons r)\<lparr>head := ?c + ?m, tail := ?c + ?m\<rparr>\<rparr>"
    let ?o = "DEQUEUE_PTRS ?r1 ?c obj ?m"
    have run: "u_ringb_do_dequeue r obj n behav is_sc = Some (?m, of_nat (len - m), ?o, ?r)"
      using nz by (simp add: u_ringb_do_dequeue_def u_ringb_move_cons_head_def k(5) hd Let_def
          u_ringb_update_tail_def av)
    have cnt: "unat (?p - (?c + ?m)) = len - m" using sub by (simp add: diff_diff_eq)
    have inv': "ring_inv ?r"
      using inv cnt k(6) by (auto simp: ring_inv_def word_le_nat_alt len_def)
    have "?o = DEQUEUE_PTRS r ?c obj ?m"
      by (simp add: DEQUEUE_PTRS_def Let_def split: prod.splits)
    then have obj: "?o i = ring_list r ! i" if "i < m" for i
      using DEQUEUE_PTRS_obj [OF inv, of ?m ?c obj i] that m um ring_list_nth [OF inv, of i] by (simp add: len_def)
    have "ring_list ?r ! i = drop m (ring_list r) ! i" if "i < len - m" for i
    proof -
      have "(unat (?c + ?m) + i) mod ?S = (unat ?c + (m + i)) mod ?S"
        using slot_add [OF inv, of ?c m] by (simp add: slot_def add.assoc [symmetric] mod_add_left_eq)
          (metis mod_add_left_eq)
      then show ?thesis
        using that m(1) ring_list_nth [OF inv', of i] ring_list_nth [OF inv, of "m + i"] cnt by (simp add: len_def)
    qed
    then have "ring_list ?r = drop m (ring_list r)"
      using cnt by (intro nth_equalityI) (auto simp: len_def)
    moreover have "map ?o [0..<m] = take m (ring_list r)"
      using obj m(1) by (intro nth_equalityI) (auto simp: len_def)
    ultimately show ?thesis using run inv' by (auto simp: len_def)
  qed
qed

section \<open>The ring is a bounded queue\<close>

text \<open>The operations as a client of the queue contract sees them.\<close>

definition queue_behavior :: "bool \<Rightarrow> behavior" where
  "queue_behavior fixed = (if fixed then RINGB_Q_FIXED else RINGB_Q_VARIABLE)"

definition ring_enq :: "bool \<Rightarrow> bool \<Rightarrow> 'a list \<Rightarrow> 'a ringb \<Rightarrow> nat \<times> 'a ringb" where
  "ring_enq is_sp fixed xs r =
     (case u_ringb_do_enqueue r ((!) xs) (of_nat (length xs)) (queue_behavior fixed) is_sp of
        Some (n, _, r') \<Rightarrow> (unat n, r') | None \<Rightarrow> (0, r))"

definition ring_deq :: "bool \<Rightarrow> (nat \<Rightarrow> 'a) \<Rightarrow> bool \<Rightarrow> nat \<Rightarrow> 'a ringb \<Rightarrow> 'a list \<times> 'a ringb" where
  "ring_deq is_sc obj fixed n r =
     (case u_ringb_do_dequeue r obj (of_nat n) (queue_behavior fixed) is_sc of
        Some (n, _, obj', r') \<Rightarrow> (map obj' [0..<unat n], r') | None \<Rightarrow> ([], r))"

lemma queue_behavior_fixed [simp]: "queue_behavior fixed = RINGB_Q_FIXED \<longleftrightarrow> fixed"
  by (simp add: queue_behavior_def)

lemma ring_enq_result:
  assumes "ring_inv r" and "length xs < 2 ^ 32"
    and "m = bulk_count fixed (length xs) (unat (capacity r) - length (ring_list r))"
  shows "\<exists>r'. ring_enq is_sp fixed xs r = (m, r') \<and> ring_inv r' \<and> capacity r' = capacity r \<and>
    ring_list r' = ring_list r @ take m xs"
proof -
  have l: "unat (of_nat (length xs) :: u32) = length xs"
    using assms(2) by (simp add: unsigned_of_nat take_bit_nat_eq_self)
  have m: "m < 2 ^ 32" "m \<le> length xs"
    using bulk_count_le [of fixed "length xs" "unat (capacity r) - length (ring_list r)"] assms(2,3) by linarith+
  then have um: "unat (of_nat m :: u32) = m" by (simp add: unsigned_of_nat take_bit_nat_eq_self)
  have "map ((!) xs) [0..<m] = take m xs" using m(2) by (intro nth_equalityI) auto
  with enqueue_result [OF assms(1), of m "queue_behavior fixed" "of_nat (length xs)" "(!) xs" is_sp] assms(3) l um
  show ?thesis by (auto simp: ring_enq_def)
qed

lemma ring_deq_result:
  assumes "ring_inv r" and "n < 2 ^ 32"
    and "m = bulk_count fixed n (length (ring_list r))"
  shows "\<exists>r'. ring_deq is_sc obj fixed n r = (take m (ring_list r), r') \<and> ring_inv r' \<and> capacity r' = capacity r \<and>
    ring_list r' = drop m (ring_list r)"
proof -
  have l: "unat (of_nat n :: u32) = n" using assms(2) by (simp add: unsigned_of_nat take_bit_nat_eq_self)
  have m: "m < 2 ^ 32" using bulk_count_le [of fixed n "length (ring_list r)"] assms(2,3) by linarith
  then have um: "unat (of_nat m :: u32) = m" by (simp add: unsigned_of_nat take_bit_nat_eq_self)
  with dequeue_result [OF assms(1), of m "queue_behavior fixed" "of_nat n" obj is_sc] assms(3) l
  show ?thesis by (auto simp: ring_deq_def)
qed

interpretation ringq: bounded_fifo ring_inv ring_list "\<lambda>r. unat (capacity r)" "\<lambda>n. n < 2 ^ 32"
  "ring_enq is_sp" "ring_deq is_sc obj" for is_sp is_sc obj
proof
  fix r :: "'a ringb" and xs :: "'a list" and fixed and n :: nat
  assume inv: "ring_inv r"
  {
    assume "length xs < 2 ^ 32"
    note e = ring_enq_result [OF inv this refl, where fixed = fixed and is_sp = is_sp]
    show "ring_inv (snd (ring_enq is_sp fixed xs r))"
      "fst (ring_enq is_sp fixed xs r) = bulk_count fixed (length xs) (unat (capacity r) - length (ring_list r))"
      "ring_list (snd (ring_enq is_sp fixed xs r)) = ring_list r @ take (fst (ring_enq is_sp fixed xs r)) xs"
      "unat (capacity (snd (ring_enq is_sp fixed xs r))) = unat (capacity r)"
      using e by auto
  }
  {
    assume "n < 2 ^ 32"
    note d = ring_deq_result [OF inv this refl, where fixed = fixed and is_sc = is_sc and obj = obj]
    show "ring_inv (snd (ring_deq is_sc obj fixed n r))"
      "fst (ring_deq is_sc obj fixed n r) = take (bulk_count fixed n (length (ring_list r))) (ring_list r)"
      "ring_list (snd (ring_deq is_sc obj fixed n r)) = drop (bulk_count fixed n (length (ring_list r))) (ring_list r)"
      "unat (capacity (snd (ring_deq is_sc obj fixed n r))) = unat (capacity r)"
      using d by auto
  }
  show "length (ring_list r) \<le> unat (capacity r)"
    using inv by (auto simp: ring_inv_def word_le_nat_alt)
qed

section \<open>Creation\<close>

lemma unat_ucast_64: "unat (ucast (x :: u32) :: u64) = unat x"
  using unat_lt_2p [of x] by (simp add: unsigned_ucast_eq take_bit_nat_eq_self)

lemma unat_succ: "unat (cnt :: u32) < 2 ^ 32 - 1 \<Longrightarrow> unat (ucast (cnt + 1) :: u64) = unat cnt + 1"
  by (simp add: unat_ucast_64 unat_word_ariths)

lemma unat_cut: "unat (x :: u64) < 2 ^ 32 \<Longrightarrow> unat (ucast x :: u32) = unat x"
  by (simp add: unsigned_ucast_eq take_bit_nat_eq_self)

lemma exact_size:
  assumes "unat (cnt :: u32) < 2 ^ 31"
  shows "\<exists>k \<le> 31. unat (ucast (u_roundup_pow_of_two (ucast (cnt + 1))) :: u32) = 2 ^ k \<and> unat cnt < 2 ^ k"
proof -
  have s: "unat (ucast (cnt + 1) :: u64) = unat cnt + 1" using assms by (intro unat_succ) simp
  then obtain k where k: "unat (u_roundup_pow_of_two (ucast (cnt + 1))) = 2 ^ k" "unat cnt + 1 \<le> 2 ^ k"
      "2 ^ k < 2 * (unat cnt + 1)"
    using roundup_pow_of_two_bracket [of "ucast (cnt + 1)"] assms by auto
  then have "2 ^ k < (2 :: nat) ^ 33" using assms by simp
  then have "k < 33" using power_less_imp_less_exp [of "2 :: nat" k 33] by simp
  moreover have "k \<noteq> 32" using k(3) assms by auto
  ultimately have "k \<le> 31" by simp
  moreover from this have "(2 :: nat) ^ k < 2 ^ 32" by (intro power_strict_increasing) auto
  ultimately show ?thesis using k unat_cut [of "u_roundup_pow_of_two (ucast (cnt + 1))"] by (intro exI [of _ k]) auto
qed

lemma pow2_size:
  assumes "is_power_of_2 (ucast (cnt :: u32))" and "\<not> cnt > RINGB_SZ_MASK"
  shows "\<exists>k \<le> 31. unat cnt = 2 ^ k"
proof -
  obtain k where k: "unat cnt = 2 ^ k" using assms(1) by (auto simp: is_power_of_2_unat unat_ucast_64)
  moreover have "unat cnt < 2 ^ 32" using unat_lt_2p [of cnt] by simp
  ultimately have "k < 32" using power_less_imp_less_exp [of "2 :: nat" k 32] by simp
  with k show ?thesis by (intro exI [of _ k]) auto
qed

lemma ringb_init_empty:
  assumes "ringb_init r cnt flg = (None, r')" and "flg AND RINGB_F_EXACT_SZ \<noteq> 0 \<Longrightarrow> unat cnt < 2 ^ 31"
  shows "ring_inv r' \<and> ring_list r' = [] \<and>
    capacity r' = (if flg AND RINGB_F_EXACT_SZ \<noteq> 0 then cnt else cnt - 1)"
proof (cases "flg AND RINGB_F_EXACT_SZ = 0")
  case False
  then obtain k where k: "k \<le> 31" "unat (ucast (u_roundup_pow_of_two (ucast (cnt + 1))) :: u32) = 2 ^ k" "unat cnt < 2 ^ k"
    using exact_size assms(2) by auto
  let ?sz = "ucast (u_roundup_pow_of_two (ucast (cnt + 1))) :: u32"
  have "?sz \<noteq> 0" using k(2) by (metis power_not_zero unat_0 zero_neq_numeral)
  then have "cnt \<le> ?sz - 1" using k(2,3) by (simp add: word_le_nat_alt unat_minus_one)
  with False assms(1) k show ?thesis
    by (auto simp: ringb_init_def Let_def ring_inv_def ring_list_def split: if_splits)
next
  case True
  with assms(1) have c: "is_power_of_2 (ucast cnt)" "\<not> cnt > RINGB_SZ_MASK"
    by (auto simp: ringb_init_def Let_def split: if_splits)
  from pow2_size [OF this] True assms(1) c show ?thesis
    by (auto simp: ringb_init_def Let_def ring_inv_def ring_list_def split: if_splits)
qed

lemma ringb_count_eq: "ring_inv r \<Longrightarrow> unat (ringb_count r) = length (ring_list r)"
proof -
  assume inv: "ring_inv r"
  then obtain k where k: "unat (rsize r) = 2 ^ k" "unat (capacity r) < 2 ^ k"
      "unat (tail (prod r) - tail (cons r)) \<le> unat (capacity r)" by (rule ring_invE)
  then have "unat ((tail (prod r) - tail (cons r)) AND rmask r) = unat (tail (prod r) - tail (cons r))"
    using and_rmask [OF inv, of "tail (prod r) - tail (cons r)"] by (simp add: slot_def)
  then have "(tail (prod r) - tail (cons r)) AND rmask r = tail (prod r) - tail (cons r)" by (simp only: word_unat_eq_iff)
  with k(3) show ?thesis by (simp add: ringb_count_def Let_def word_less_nat_alt)
qed

section \<open>Properties\<close>

text \<open>A ring of four slots whose counters are about to wrap around, for the examples.\<close>

definition wrap_ring :: "nat ringb" where
  "wrap_ring = \<lparr>flags = 0, rsize = 4, rmask = 3, capacity = 3,
     prod = \<lparr>head = 0xfffffffe, tail = 0xfffffffe, single = False\<rparr>,
     cons = \<lparr>head = 0xfffffffe, tail = 0xfffffffe, single = False\<rparr>, ring = (\<lambda>_. 0)\<rparr>"

lemma wrap_ring_inv: "ring_inv wrap_ring" "ring_list wrap_ring = []" "capacity wrap_ring = 3"
  by (auto simp: ring_inv_def wrap_ring_def ring_list_def intro!: exI [of _ 2])

text \<open>C3: for any sequence of bulk and burst operations, by single or multiple producers and
  consumers, the objects handed out followed by those still queued are the objects queued at the start
  followed by those accepted, in order; the queue never exceeds its capacity, whatever the value of
  the free-running counters, their wrap-around included.\<close>

theorem ring_fifo_order:
  assumes "ring_inv r" and "\<forall>op \<in> set ops. op_size op < 2 ^ 32"
  shows "case fifo_run (ring_enq is_sp) (ring_deq is_sc obj) ops r of (ins, outs, r') \<Rightarrow>
    ring_inv r' \<and> outs @ ring_list r' = ring_list r @ ins \<and> length (ring_list r') \<le> unat (capacity r)"
  using ringq.run_fifo [OF assms, of is_sp is_sc obj] by (auto split: prod.splits)

theorem ring_fifo_order_witness:
  "case fifo_run (ring_enq False) (ring_deq True (\<lambda>_. 0)) [Enq True [1, 2, 3], Deq False 2, Enq False [4, 5, 6]] wrap_ring of
     (ins, outs, r') \<Rightarrow> outs @ ring_list r' = ins \<and> length (ring_list r') \<le> 3"
  using ring_fifo_order [of wrap_ring "[Enq True [1, 2, 3], Deq False 2, Enq False [4, 5, 6]]" False True "\<lambda>_. 0"]
  by (auto simp: wrap_ring_inv op_size_def split: prod.splits)

text \<open>C23: an enqueue stores exactly \<open>n\<close> objects when they fit; otherwise a fixed one stores nothing and
  a variable one fills the ring. It reports the objects stored and the room left, never waits when no
  other operation is pending, and leaves the earlier objects as they were. A dequeue is the mirror image.\<close>

theorem ring_bulk_exact:
  assumes "ring_inv r"
  shows "(let m = bulk_count (behav = RINGB_Q_FIXED) (unat n) (unat (capacity r) - length (ring_list r)) in
      \<exists>r'. u_ringb_do_enqueue r obj n behav sgl = Some (of_nat m, of_nat (unat (capacity r) - length (ring_list r) - m), r') \<and>
        ring_inv r' \<and> ring_list r' = ring_list r @ map obj [0..<m]) \<and>
    (let m = bulk_count (behav = RINGB_Q_FIXED) (unat n) (length (ring_list r)) in
      \<exists>r' obj'. u_ringb_do_dequeue r obj n behav sgl = Some (of_nat m, of_nat (length (ring_list r) - m), obj', r') \<and>
        ring_inv r' \<and> ring_list r' = drop m (ring_list r) \<and> map obj' [0..<m] = take m (ring_list r))"
  using enqueue_result [OF assms refl, where n = n and behav = behav and obj = obj and is_sp = sgl]
    dequeue_result [OF assms refl, where n = n and behav = behav and obj = obj and is_sc = sgl]
  unfolding Let_def by blast

theorem ring_bulk_exact_witness:
  "(\<exists>r'. u_ringb_do_enqueue wrap_ring (\<lambda>i. i + 7) 4 RINGB_Q_VARIABLE False = Some (3, 0, r') \<and>
     ring_list r' = [7, 8, 9]) \<and>
   (\<exists>r'. u_ringb_do_enqueue wrap_ring (\<lambda>i. i + 7) 4 RINGB_Q_FIXED False = Some (0, 3, r') \<and> ring_list r' = [])"
  using ring_bulk_exact [OF wrap_ring_inv(1), where behav = RINGB_Q_VARIABLE and n = 4 and obj = "\<lambda>i. i + 7" and sgl = False]
    ring_bulk_exact [OF wrap_ring_inv(1), where behav = RINGB_Q_FIXED and n = 4 and obj = "\<lambda>i. i + 7" and sgl = False]
  by (auto simp: bulk_count_def wrap_ring_inv upt_rec [of _ 3] simp del: length_ring_list)

text \<open>A ring that \<open>ringb_create\<close> returns is empty, satisfies the invariant and can hold \<open>cnt\<close>
  objects when the exact size was asked for (below \<open>2\<^sup>3\<^sup>1\<close>) and \<open>cnt - 1\<close> otherwise.\<close>

lemma ringb_create_empty:
  assumes "ringb_create sizeof_ringb cacheline alloc cnt flg = Inr r"
    and "flg AND RINGB_F_EXACT_SZ \<noteq> 0 \<longrightarrow> unat cnt < 2 ^ 31"
  shows "ring_inv r \<and> ring_list r = [] \<and> ringb_empty r \<and>
    capacity r = (if flg AND RINGB_F_EXACT_SZ \<noteq> 0 then cnt else cnt - 1)"
proof -
  from assms(1) obtain sz r0 where "ringb_calc_memsize sizeof_ringb cacheline cnt flg = Inr sz" "alloc sz = Some r0"
      "r = snd (ringb_init r0 cnt flg)"
    by (auto simp: ringb_create_def split: sum.splits option.splits)
  then have "ringb_init r0 cnt flg = (None, r)"
    by (auto simp: ringb_calc_memsize_def ringb_init_def Let_def split: if_splits)
  from ringb_init_empty [OF this] assms(2) ringb_count_eq [of r] show ?thesis
    by (auto simp: ringb_empty_def unat_eq_zero)
qed

lemma flsl_6: "flsl 6 = 3"
  by (rule flsl_unique [of 2 6, simplified])

lemma ringb_create_empty_6:
  "\<exists>r. ringb_create 192 64 (\<lambda>_. Some wrap_ring) 6 RINGB_F_EXACT_SZ = Inr r \<and> ring_list r = [] \<and> capacity r = 6"
proof -
  obtain r where r: "ringb_create 192 64 (\<lambda>_. Some wrap_ring) 6 RINGB_F_EXACT_SZ = Inr r"
    by (auto simp: ringb_create_def ringb_calc_memsize_def RINGB_F_EXACT_SZ_def RINGB_F_SC_DEQ_def RINGB_F_SP_ENQ_def
        RINGB_SZ_MASK_def flsl_6 u_roundup_pow_of_two_def Let_def)
  then show ?thesis
    using ringb_create_empty [OF r] by (auto simp: RINGB_F_EXACT_SZ_def)
qed

text \<open>C24: the rounded size of an exact ring of \<open>2\<^sup>3\<^sup>1\<close> or more objects is \<open>2\<^sup>3\<^sup>2\<close>, which the 32-bit
  variable cuts to 0: the size check passes, no memory is reserved for the slots, and the ring is
  created with a size of 0, a full mask and the capacity that was asked for.\<close>

theorem ringb_exact_size_overflow:
  assumes "2 ^ 31 \<le> unat cnt" and "unat cnt < 2 ^ 32 - 1"
  shows "ringb_calc_memsize sizeof_ringb cacheline cnt RINGB_F_EXACT_SZ = Inr (ALIGN sizeof_ringb cacheline) \<and>
    rsize (snd (ringb_init r cnt RINGB_F_EXACT_SZ)) = 0 \<and> rmask (snd (ringb_init r cnt RINGB_F_EXACT_SZ)) = -1 \<and>
    capacity (snd (ringb_init r cnt RINGB_F_EXACT_SZ)) = cnt"
proof -
  obtain k where k: "unat (u_roundup_pow_of_two (ucast (cnt + 1))) = 2 ^ k" "unat cnt + 1 \<le> 2 ^ k"
      "2 ^ k < 2 * (unat cnt + 1)"
    using roundup_pow_of_two_bracket [of "ucast (cnt + 1)"] unat_succ [OF assms(2)] assms by auto
  have "(2 :: nat) ^ 31 < 2 ^ k" "(2 :: nat) ^ k < 2 ^ 33" using k(2,3) assms by simp_all
  then have "31 < k" "k < 33"
    using power_less_imp_less_exp [of "2 :: nat" 31 k] power_less_imp_less_exp [of "2 :: nat" k 33] by simp_all
  then have "k = 32" by simp
  then have "(ucast (u_roundup_pow_of_two (ucast (cnt + 1))) :: u32) = 0"
    using k(1) by (simp add: word_unat_eq_iff unsigned_ucast_eq take_bit_eq_mod)
  then show ?thesis
    by (simp add: ringb_calc_memsize_def ringb_init_def Let_def RINGB_F_EXACT_SZ_def RINGB_F_SC_DEQ_def RINGB_F_SP_ENQ_def)
qed

theorem ringb_exact_size_overflow_witness:
  "ringb_calc_memsize 192 64 0x80000000 RINGB_F_EXACT_SZ = Inr (ALIGN 192 64)"
  using ringb_exact_size_overflow [of "0x80000000" 192 64 wrap_ring] by simp

end
