(* ===== verification/Vec.thy ===== *)
theory Vec
  imports Skp_Prelude
begin

text \<open>
  \<open>include/skp/adt/vector.h\<close> and \<open>src/adt/vector.c\<close>: a set of equally sized elements in one block
  of bytes that grows by 128 elements at a time. The block between \<open>start\<close> and \<open>end\<close> is the byte list
  \<open>block\<close>, empty when \<open>start\<close> is null, and a pointer into it is the offset from \<open>start\<close>. The product
  of the element count and the element size is computed in 32 bits as in the source.
\<close>

section \<open>State and operations\<close>

record vector =
  block :: "u8 list"
  nr_elems :: u32
  elem_size :: u32

text \<open>\<open>vec->nr_elems * vec->elem_size\<close>.\<close>

definition vec_used :: "vector \<Rightarrow> nat" where
  "vec_used vec = unat (nr_elems vec * elem_size vec)"

definition VEC_NR_ELEMS :: u32 where "VEC_NR_ELEMS = 128"

definition elem_at :: "vector \<Rightarrow> nat \<Rightarrow> u8 list" where
  "elem_at vec ptr = take (unat (elem_size vec)) (drop ptr (block vec))"

definition vector_init :: "u64 \<Rightarrow> vector option" where
  "vector_init esize =
     (if esize = 0 \<or> esize \<ge> 0xffffffff then None
      else Some \<lparr>block = [], nr_elems = 0, elem_size = ucast esize\<rparr>)"

text \<open>\<open>malloc\<close> is outside: it gives a block of arbitrary bytes, or nothing.\<close>

definition u_expand :: "(nat \<Rightarrow> u8 list option) \<Rightarrow> vector \<Rightarrow> errno + vector" where
  "u_expand malloc vec =
     (let vec_size = length (block vec) in
      if vec_used vec < vec_size then Inr vec
      else
        let new_size = vec_size + unat (VEC_NR_ELEMS * elem_size vec) in
        (case malloc new_size of
           None \<Rightarrow> Inl ENOMEM
         | Some p \<Rightarrow> Inr (vec\<lparr>block := block vec @ drop vec_size p\<rparr>)))"

text \<open>\<open>memcpy(dst, src, n)\<close> at an offset of the block; \<open>__copy_elem\<close> does the same for every size.\<close>

definition u_copy_elem :: "u8 list \<Rightarrow> nat \<Rightarrow> u8 list \<Rightarrow> nat \<Rightarrow> u8 list" where
  "u_copy_elem dst off src sz = take off dst @ take sz src @ drop (off + sz) dst"

text \<open>\<open>vector_for_each_elem\<close> up to the first element that compares equal to the key.\<close>

function vector_search :: "(u8 list \<Rightarrow> 'k \<Rightarrow> bool) \<Rightarrow> vector \<Rightarrow> 'k \<Rightarrow> nat \<Rightarrow> nat option" where
  "vector_search same vec key ptr =
     (if 0 < unat (elem_size vec) \<and> ptr < vec_used vec then
        if same (elem_at vec ptr) key then Some ptr
        else vector_search same vec key (ptr + unat (elem_size vec))
      else None)"
  by pat_completeness auto
termination
  by (relation "measure (\<lambda>(same, vec, key, ptr). vec_used vec - ptr)") auto

text \<open>The results: \<open>Inr (Some p)\<close> for an equal element found at \<open>p\<close>, \<open>Inr None\<close> (the null pointer of
  the source) when the element has been added.\<close>

definition u_vector_insert ::
    "(nat \<Rightarrow> u8 list option) \<Rightarrow> (u8 list \<Rightarrow> 'k \<Rightarrow> bool) \<Rightarrow> vector \<Rightarrow> 'k \<Rightarrow> u8 list \<Rightarrow> (errno + nat option) \<times> vector" where
  "u_vector_insert malloc same vec key elem =
     (case vector_search same vec key 0 of
        Some ptr \<Rightarrow> (Inr (Some ptr), vec)
      | None \<Rightarrow>
          let ptr = vec_used vec in
          (case u_expand malloc vec of
             Inl e \<Rightarrow> (Inl e, vec)
           | Inr vec \<Rightarrow>
               (Inr None, vec\<lparr>block := u_copy_elem (block vec) ptr elem (unat (elem_size vec)),
                  nr_elems := nr_elems vec + 1\<rparr>)))"

text \<open>The removed element is copied out; \<open>memmove\<close> closes the gap.\<close>

definition u_vector_remove ::
    "(u8 list \<Rightarrow> 'k \<Rightarrow> bool) \<Rightarrow> vector \<Rightarrow> 'k \<Rightarrow> (errno + u8 list) \<times> vector" where
  "u_vector_remove same vec key =
     (case vector_search same vec key 0 of
        None \<Rightarrow> (Inl ENOENT, vec)
      | Some ptr \<Rightarrow>
          let es = unat (elem_size vec); n = vec_used vec - (ptr + es) in
          (Inr (elem_at vec ptr),
           vec\<lparr>block := (if n \<noteq> 0 then u_copy_elem (block vec) ptr (drop (ptr + es) (block vec)) n else block vec),
               nr_elems := nr_elems vec - 1\<rparr>))"

definition vector_idx :: "vector \<Rightarrow> nat \<Rightarrow> nat option" where
  "vector_idx vec idx = (if idx > unat (nr_elems vec) then None else Some (unat (elem_size vec) * idx))"

definition vector_release :: "vector \<Rightarrow> vector" where
  "vector_release vec = vec\<lparr>block := [], nr_elems := 0\<rparr>"

text \<open>The loop of \<open>__vector_copy\<close>: \<open>start\<close> walks the new block as \<open>ptr\<close> walks the old one.\<close>

function vector_copy_loop :: "vector \<Rightarrow> u8 list \<Rightarrow> nat \<Rightarrow> u8 list" where
  "vector_copy_loop src dst ptr =
     (if 0 < unat (elem_size src) \<and> ptr < vec_used src
      then vector_copy_loop src (u_copy_elem dst ptr (elem_at src ptr) (unat (elem_size src)))
             (ptr + unat (elem_size src))
      else dst)"
  by pat_completeness auto
termination
  by (relation "measure (\<lambda>(src, dst, ptr). vec_used src - ptr)") auto

definition u_vector_copy :: "(nat \<Rightarrow> u8 list option) \<Rightarrow> vector \<Rightarrow> vector \<Rightarrow> errno option \<times> vector" where
  "u_vector_copy malloc dst src =
     (let sz = vec_used src in
      if sz = 0 then (None, dst)
      else (case malloc sz of
              None \<Rightarrow> (Some ENOMEM, dst)
            | Some start \<Rightarrow>
                (None, dst\<lparr>block := vector_copy_loop src start 0, nr_elems := nr_elems src,
                   elem_size := elem_size src\<rparr>)))"

declare vector_search.simps [simp del] vector_copy_loop.simps [simp del]

section \<open>Invariant and contents\<close>

definition vec_inv :: "vector \<Rightarrow> bool" where
  "vec_inv vec \<longleftrightarrow> 0 < unat (elem_size vec) \<and> 128 * unat (elem_size vec) < 2 ^ 32 \<and>
     unat (nr_elems vec) * unat (elem_size vec) < 2 ^ 32 \<and>
     unat (nr_elems vec) * unat (elem_size vec) \<le> length (block vec) \<and> unat (elem_size vec) dvd length (block vec)"

definition elems :: "vector \<Rightarrow> u8 list list" where
  "elems vec = map (\<lambda>i. elem_at vec (i * unat (elem_size vec))) [0..<unat (nr_elems vec)]"

text \<open>What the code relies on of \<open>malloc\<close>: a block has the size asked for.\<close>

definition malloc_ok :: "(nat \<Rightarrow> u8 list option) \<Rightarrow> bool" where
  "malloc_ok malloc \<longleftrightarrow> (\<forall>n p. malloc n = Some p \<longrightarrow> length p = n)"

lemma length_elems [simp]: "length (elems vec) = unat (nr_elems vec)"
  by (simp add: elems_def)

lemma vec_used_eq: "vec_inv vec \<Longrightarrow> vec_used vec = unat (nr_elems vec) * unat (elem_size vec)"
  by (simp add: vec_inv_def vec_used_def unat_word_ariths)

lemma vector_search_spec:
  assumes "vec_inv vec" and "i \<le> unat (nr_elems vec)"
  shows "vector_search same vec key (i * unat (elem_size vec)) =
    (case find (\<lambda>j. same (elems vec ! j) key) [i..<unat (nr_elems vec)] of
       Some j \<Rightarrow> Some (j * unat (elem_size vec)) | None \<Rightarrow> None)"
  using assms(2)
proof (induction "unat (nr_elems vec) - i" arbitrary: i)
  case 0
  with assms(1) show ?case by (subst vector_search.simps) (simp add: vec_used_eq)
next
  case (Suc d)
  then have i: "i < unat (nr_elems vec)" by simp
  have es: "0 < unat (elem_size vec)" using assms(1) by (simp add: vec_inv_def)
  have lt: "i * unat (elem_size vec) < vec_used vec" using i es assms(1) by (simp add: vec_used_eq)
  have nth: "elems vec ! i = elem_at vec (i * unat (elem_size vec))" using i by (simp add: elems_def)
  have "i * unat (elem_size vec) + unat (elem_size vec) = Suc i * unat (elem_size vec)" by simp
  with Suc.hyps(1) [of "Suc i"] Suc.hyps(2) i es lt nth show ?case
    by (subst vector_search.simps) (simp add: upt_conv_Cons add.commute)
qed

lemma elem_at_cong:
  assumes "ptr + unat (elem_size v) \<le> n" "take n (block v) = take n (block w)" "elem_size v = elem_size w"
  shows "elem_at v ptr = elem_at w ptr"
proof -
  have "take (unat (elem_size v)) (drop ptr (take n (block v))) = take (unat (elem_size v)) (drop ptr (take n (block w)))"
    using assms(2) by simp
  moreover have "unat (elem_size w) \<le> n - ptr" using assms(1,3) by simp
  ultimately show ?thesis using assms(3) by (simp add: elem_at_def drop_take min_def)
qed


lemma elems_prefix:
  assumes "vec_inv v" and "unat (nr_elems w) = unat (nr_elems v)" and "elem_size w = elem_size v"
    and "take (unat (nr_elems v) * unat (elem_size v)) (block w) = take (unat (nr_elems v) * unat (elem_size v)) (block v)"
  shows "elems w = elems v"
proof (rule nth_equalityI)
  fix i assume i: "i < length (elems w)"
  then have "i * unat (elem_size w) + unat (elem_size w) \<le> unat (nr_elems v) * unat (elem_size v)"
    using assms(2,3) mult_le_mono1 [of "Suc i" "unat (nr_elems v)" "unat (elem_size v)"] by simp
  with i assms show "elems w ! i = elems v ! i"
    by (simp add: elems_def) (rule elem_at_cong, simp_all)
qed (use assms in simp)

section \<open>Growing\<close>

lemma u_expand_result:
  assumes inv: "vec_inv vec" and m: "malloc_ok malloc" and e: "u_expand malloc vec = Inr v"
  shows "vec_inv v \<and> elems v = elems vec \<and> nr_elems v = nr_elems vec \<and> elem_size v = elem_size vec \<and>
    Suc (unat (nr_elems vec)) * unat (elem_size vec) \<le> length (block v)"
proof (cases "vec_used vec < length (block vec)")
  case True
  then have v: "v = vec" using e by (simp add: u_expand_def)
  obtain q where q: "length (block vec) = unat (elem_size vec) * q" using inv by (auto simp: vec_inv_def)
  then have "unat (nr_elems vec) < q" using True inv by (simp add: vec_used_eq mult.commute)
  then have "unat (elem_size vec) * Suc (unat (nr_elems vec)) \<le> length (block vec)" unfolding q by (intro mult_le_mono2) simp
  with v inv show ?thesis by (simp add: mult.commute)
next
  case False
  then have len: "length (block vec) = unat (nr_elems vec) * unat (elem_size vec)"
    using inv by (auto simp: vec_inv_def vec_used_eq)
  have grow: "unat (VEC_NR_ELEMS * elem_size vec) = 128 * unat (elem_size vec)"
    using inv by (simp add: VEC_NR_ELEMS_def unat_word_ariths vec_inv_def)
  obtain p where p: "malloc (length (block vec) + 128 * unat (elem_size vec)) = Some p" "v = vec\<lparr>block := block vec @ drop (length (block vec)) p\<rparr>"
    using e False grow by (auto simp: u_expand_def Let_def split: option.splits)
  then have lp: "length p = length (block vec) + 128 * unat (elem_size vec)" using m by (auto simp: malloc_ok_def)
  have "elems v = elems vec" by (rule elems_prefix [OF inv]) (use p len in auto)
  with p lp inv len show ?thesis by (auto simp: vec_inv_def)
qed

section \<open>Adding and removing\<close>

lemma insert_new_result:
  assumes inv: "vec_inv vec" and m: "malloc_ok malloc" and len: "length elem = unat (elem_size vec)"
    and room: "Suc (unat (nr_elems vec)) * unat (elem_size vec) < 2 ^ 32"
    and fresh: "\<forall>x \<in> set (elems vec). \<not> same x key"
  shows "case u_vector_insert malloc same vec key elem of
     (Inl e, v) \<Rightarrow> e = ENOMEM \<and> v = vec
   | (Inr r, v) \<Rightarrow> r = None \<and> vec_inv v \<and> elems v = elems vec @ [elem]"
proof -
  have none: "vector_search same vec key 0 = None"
    using vector_search_spec [OF inv, of 0 same key] fresh by (auto simp: find_None_iff split: option.splits)
  show ?thesis
  proof (cases "u_expand malloc vec")
    case (Inl e)
    then have "e = ENOMEM" by (auto simp: u_expand_def Let_def split: if_splits option.splits)
    with none Inl show ?thesis by (simp add: u_vector_insert_def)
  next
    case (Inr w)
    note w = u_expand_result [OF inv m Inr]
    let ?n = "unat (nr_elems vec)" and ?es = "unat (elem_size vec)"
    let ?v = "w\<lparr>block := u_copy_elem (block w) (?n * ?es) elem ?es, nr_elems := nr_elems vec + 1\<rparr>"
    have es: "0 < ?es" using inv by (simp add: vec_inv_def)
    have "Suc ?n \<le> Suc ?n * ?es" using es by (cases ?es) auto
    then have "Suc ?n < 2 ^ 32" using room by linarith
    then have nr: "unat (nr_elems vec + 1) = Suc ?n" by (simp add: unat_word_ariths)
    have l: "length (block ?v) = length (block w)"
      using w len by (simp add: u_copy_elem_def)
    have run: "u_vector_insert malloc same vec key elem = (Inr None, ?v)"
      using none Inr w by (simp add: u_vector_insert_def Let_def vec_used_eq [OF inv])
    have inv': "vec_inv ?v" using w room nr l by (auto simp: vec_inv_def)
    have pre: "take (?n * ?es) (block ?v) = take (?n * ?es) (block w)"
      using w by (simp add: u_copy_elem_def)
    have "elems ?v = elems (?v\<lparr>nr_elems := nr_elems vec\<rparr>) @ [elem_at ?v (?n * ?es)]"
      using w by (simp add: elems_def nr elem_at_def)
    also have "elems (?v\<lparr>nr_elems := nr_elems vec\<rparr>) = elems w"
      by (rule elems_prefix) (use w pre in auto)
    also have "elem_at ?v (?n * ?es) = elem"
      using w len by (simp add: elem_at_def u_copy_elem_def)
    finally show ?thesis using run inv' w by simp
  qed
qed

lemma search_found:
  assumes "vec_inv vec" and "vector_search same vec key 0 = Some ptr"
  shows "\<exists>i < unat (nr_elems vec). ptr = i * unat (elem_size vec) \<and> same (elems vec ! i) key \<and>
    (\<forall>j < i. \<not> same (elems vec ! j) key)"
  using vector_search_spec [OF assms(1), of 0 same key] assms(2)
  by (auto simp: find_Some_iff split: option.splits)

lemma search_not_found:
  assumes "vec_inv vec" and "vector_search same vec key 0 = None"
  shows "\<forall>x \<in> set (elems vec). \<not> same x key"
  using vector_search_spec [OF assms(1), of 0 same key] assms(2)
  by (auto simp: find_None_iff in_set_conv_nth split: option.splits)

lemma take_drop_u_copy_elem:
  assumes "a \<le> x" "x + e \<le> a + n" "a \<le> length b" "n \<le> length src"
  shows "take e (drop x (u_copy_elem b a src n)) = take e (drop (x - a) src)"
proof -
  obtain d where x: "x = a + d" using assms(1) le_Suc_ex by blast
  then have e: "e \<le> n - d" "d + e \<le> n" "e \<le> length src - d" using assms(2,4) by auto
  have "drop x (u_copy_elem b a src n) = drop d (take n src @ drop (a + n) b)"
    using assms(3) by (simp add: u_copy_elem_def x)
  moreover have "take e (drop d (take n src @ drop (a + n) b)) = take e (drop d src)"
    using e assms(4) by (simp add: take_drop)
  ultimately show ?thesis by (simp add: x)
qed

lemma remove_result:
  assumes inv: "vec_inv vec" and i: "i < unat (nr_elems vec)"
    and found: "vector_search same vec key 0 = Some (i * unat (elem_size vec))"
  shows "\<exists>v. u_vector_remove same vec key = (Inr (elems vec ! i), v) \<and> vec_inv v \<and>
    elems v = take i (elems vec) @ drop (Suc i) (elems vec)"
proof -
  let ?n = "unat (nr_elems vec)" and ?es = "unat (elem_size vec)"
  let ?k = "?n * ?es - (i * ?es + ?es)"
  let ?b = "u_copy_elem (block vec) (i * ?es) (drop (i * ?es + ?es) (block vec)) ?k"
  let ?v = "vec\<lparr>block := (if ?k \<noteq> 0 then ?b else block vec), nr_elems := nr_elems vec - 1\<rparr>"
  have es: "0 < ?es" using inv by (simp add: vec_inv_def)
  have fits: "?n * ?es \<le> length (block vec)" using inv by (simp add: vec_inv_def)
  have le: "i * ?es + ?es \<le> ?n * ?es" using i mult_le_mono1 [of "Suc i" ?n ?es] by simp
  have lb: "length ?b = length (block vec)"
    using fits le by (simp add: u_copy_elem_def)
  have nr: "unat (nr_elems vec - 1) = ?n - 1" using i by (metis gr_zeroI less_zeroE unat_0 unat_minus_one)
  have run: "u_vector_remove same vec key = (Inr (elems vec ! i), ?v)"
    using found i by (simp add: u_vector_remove_def Let_def vec_used_eq [OF inv] elems_def)
  have "(?n - 1) * ?es \<le> ?n * ?es" by simp
  moreover have "?n * ?es < 2 ^ 32" using inv by (simp add: vec_inv_def)
  ultimately have small: "(?n - 1) * ?es < 2 ^ 32" "(?n - 1) * ?es \<le> length (block vec)" using fits by linarith+
  have inv': "vec_inv ?v" using inv lb small by (simp add: vec_inv_def nr)
  have before: "elem_at ?v (j * ?es) = elem_at vec (j * ?es)" if "j < i" for j
  proof (rule elem_at_cong [where n = "i * ?es"])
    show "j * ?es + unat (elem_size ?v) \<le> i * ?es" using that mult_le_mono1 [of "Suc j" i ?es] by simp
    show "take (i * ?es) (block ?v) = take (i * ?es) (block vec)" using fits le by (simp add: u_copy_elem_def)
  qed simp
  have after: "elem_at ?v (j * ?es) = elem_at vec (Suc j * ?es)" if "i \<le> j" "j < ?n - 1" for j
  proof -
    have "Suc (Suc j) \<le> ?n" using that by simp
    from mult_le_mono1 [OF this, of ?es] have j: "Suc j * ?es + ?es \<le> ?n * ?es" by simp
    have ij: "i * ?es \<le> j * ?es" using that by simp
    moreover have sj: "Suc j * ?es = j * ?es + ?es" by simp
    ultimately have "?k \<noteq> 0" using j es by linarith
    then have "elem_at ?v (j * ?es) = take ?es (drop (j * ?es) ?b)" by (simp add: elem_at_def)
    also have "\<dots> = take ?es (drop (j * ?es - i * ?es) (drop (i * ?es + ?es) (block vec)))"
      using fits le ij j sj by (intro take_drop_u_copy_elem) (unfold length_drop, linarith+)
    also have "\<dots> = take ?es (drop (Suc j * ?es) (block vec))"
      using ij by (simp add: drop_drop add.commute)
    finally show ?thesis by (simp add: elem_at_def)
  qed
  have "elems ?v = take i (elems vec) @ drop (Suc i) (elems vec)"
  proof (rule nth_equalityI)
    show "length (elems ?v) = length (take i (elems vec) @ drop (Suc i) (elems vec))" using i nr by simp
  next
    fix j assume "j < length (elems ?v)"
    then have j: "j < ?n - 1" using nr by simp
    then show "elems ?v ! j = (take i (elems vec) @ drop (Suc i) (elems vec)) ! j"
      using before [of j] after [of j] i nr by (auto simp: elems_def nth_append)
  qed
  with run inv' show ?thesis by blast
qed


lemma vector_copy_loop_eq:
  assumes "vec_inv src" and "i \<le> unat (nr_elems src)" and "length dst = unat (nr_elems src) * unat (elem_size src)"
  shows "vector_copy_loop src dst (i * unat (elem_size src)) =
    take (i * unat (elem_size src)) dst @
    drop (i * unat (elem_size src)) (take (unat (nr_elems src) * unat (elem_size src)) (block src))"
  using assms(2,3)
proof (induction "unat (nr_elems src) - i" arbitrary: i dst)
  case 0
  with assms(1) show ?case by (subst vector_copy_loop.simps) (simp add: vec_used_eq)
next
  case (Suc d)
  let ?es = "unat (elem_size src)" and ?n = "unat (nr_elems src)"
  let ?dst = "u_copy_elem dst (i * ?es) (elem_at src (i * ?es)) ?es"
  have i: "i < ?n" using Suc.hyps(2) by simp
  have es: "0 < ?es" "?n * ?es \<le> length (block src)" using assms(1) by (simp_all add: vec_inv_def)
  have le: "i * ?es + ?es \<le> ?n * ?es" using i mult_le_mono1 [of "Suc i" ?n ?es] by simp
  have len: "length (elem_at src (i * ?es)) = ?es" using le es by (simp add: elem_at_def)
  have ld: "length ?dst = ?n * ?es" using le len Suc.prems(2) by (simp add: u_copy_elem_def)
  have "vector_copy_loop src dst (i * ?es) = vector_copy_loop src ?dst (Suc i * ?es)"
    using i es assms(1) by (subst vector_copy_loop.simps) (simp add: vec_used_eq add.commute)
  also have "\<dots> = take (Suc i * ?es) ?dst @ drop (Suc i * ?es) (take (?n * ?es) (block src))"
    using Suc.hyps i ld by (intro Suc.hyps(1)) auto
  also have "take (Suc i * ?es) ?dst = take (i * ?es) dst @ elem_at src (i * ?es)"
    using le len Suc.prems(2) i by (simp add: u_copy_elem_def)
  also have "elem_at src (i * ?es) = take ?es (drop (i * ?es) (take (?n * ?es) (block src)))"
    using le by (simp add: elem_at_def drop_take take_take min_def)
  also have "(take (i * ?es) dst @ take ?es (drop (i * ?es) (take (?n * ?es) (block src)))) @
      drop (Suc i * ?es) (take (?n * ?es) (block src)) =
    take (i * ?es) dst @ drop (i * ?es) (take (?n * ?es) (block src))"
    using append_take_drop_id [of ?es "drop (i * ?es) (take (?n * ?es) (block src))"] by (simp add: drop_drop add.commute)
  finally show ?case .
qed

section \<open>Properties\<close>

lemma vector_insert_result:
  assumes "vec_inv vec" and "malloc_ok malloc" and "length elem = unat (elem_size vec)"
    and "Suc (unat (nr_elems vec)) * unat (elem_size vec) < 2 ^ 32"
  shows "case u_vector_insert malloc same vec key elem of
     (Inl e, v) \<Rightarrow> e = ENOMEM \<and> v = vec \<and> (\<forall>x \<in> set (elems vec). \<not> same x key)
   | (Inr None, v) \<Rightarrow> vec_inv v \<and> elems v = elems vec @ [elem] \<and> (\<forall>x \<in> set (elems vec). \<not> same x key)
   | (Inr (Some p), v) \<Rightarrow> v = vec \<and> (\<exists>i < unat (nr_elems vec). p = i * unat (elem_size vec) \<and>
       same (elems vec ! i) key \<and> (\<forall>j < i. \<not> same (elems vec ! j) key))"
proof (cases "vector_search same vec key 0")
  case None
  note fresh = search_not_found [OF assms(1) None]
  from insert_new_result [where same = same and key = key, OF assms fresh] fresh show ?thesis by (auto split: prod.splits sum.splits)
next
  case (Some p)
  with search_found [OF assms(1) Some] show ?thesis by (auto simp: u_vector_insert_def)
qed

lemma vector_remove_copy_result:
  assumes "vec_inv vec" and "malloc_ok malloc"
  shows "(case u_vector_remove same vec key of
       (Inl e, v) \<Rightarrow> e = ENOENT \<and> v = vec \<and> (\<forall>x \<in> set (elems vec). \<not> same x key)
     | (Inr x, v) \<Rightarrow> vec_inv v \<and> (\<exists>i < unat (nr_elems vec). x = elems vec ! i \<and> same x key \<and>
         (\<forall>j < i. \<not> same (elems vec ! j) key) \<and> elems v = take i (elems vec) @ drop (Suc i) (elems vec))) \<and>
    (\<forall>d. u_vector_copy malloc dst vec = (None, d) \<and> nr_elems vec \<noteq> 0 \<longrightarrow> elems d = elems vec)"
proof
  show "case u_vector_remove same vec key of
       (Inl e, v) \<Rightarrow> e = ENOENT \<and> v = vec \<and> (\<forall>x \<in> set (elems vec). \<not> same x key)
     | (Inr x, v) \<Rightarrow> vec_inv v \<and> (\<exists>i < unat (nr_elems vec). x = elems vec ! i \<and> same x key \<and>
         (\<forall>j < i. \<not> same (elems vec ! j) key) \<and> elems v = take i (elems vec) @ drop (Suc i) (elems vec))"
  proof (cases "vector_search same vec key 0")
    case None
    with search_not_found [OF assms(1) None] show ?thesis by (auto simp: u_vector_remove_def)
  next
    case (Some p)
    with search_found [OF assms(1) Some] remove_result [OF assms(1)] show ?thesis by fastforce
  qed
  show "\<forall>d. u_vector_copy malloc dst vec = (None, d) \<and> nr_elems vec \<noteq> 0 \<longrightarrow> elems d = elems vec"
  proof (intro allI impI, elim conjE)
    fix d assume d: "u_vector_copy malloc dst vec = (None, d)" "nr_elems vec \<noteq> 0"
    then have "vec_used vec \<noteq> 0" using assms(1) by (auto simp: vec_used_eq vec_inv_def unat_eq_zero)
    with d obtain s where "malloc (vec_used vec) = Some s"
        "d = dst\<lparr>block := vector_copy_loop vec s 0, nr_elems := nr_elems vec, elem_size := elem_size vec\<rparr>"
      by (auto simp: u_vector_copy_def Let_def split: option.splits)
    moreover from this have "vector_copy_loop vec s 0 = take (unat (nr_elems vec) * unat (elem_size vec)) (block vec)"
      using vector_copy_loop_eq [OF assms(1), of 0 s] assms by (simp add: malloc_ok_def vec_used_eq)
    ultimately show "elems d = elems vec" by (intro elems_prefix [OF assms(1)]) auto
  qed
qed

text \<open>C25: inserting an element whose key no element has appends it and keeps all others, growing the
  block when it is full; when an equal element is there, its position (the first) is returned and the
  vector is unchanged; when the block cannot grow the result is \<open>-ENOMEM\<close> and the vector is unchanged.  Removing takes out exactly the first element that compares equal and hands it back, and
  fails with \<open>-ENOENT\<close> without a change when there is none; copying gives a vector with the same elements.\<close>

theorem vector_operations_exact:
  assumes "vec_inv vec" and "malloc_ok malloc"
  shows "(length elem = unat (elem_size vec) \<and> Suc (unat (nr_elems vec)) * unat (elem_size vec) < 2 ^ 32 \<longrightarrow>
      (case u_vector_insert malloc same vec key elem of
         (Inl e, v) \<Rightarrow> e = ENOMEM \<and> v = vec \<and> (\<forall>x \<in> set (elems vec). \<not> same x key)
       | (Inr None, v) \<Rightarrow> vec_inv v \<and> elems v = elems vec @ [elem] \<and> (\<forall>x \<in> set (elems vec). \<not> same x key)
       | (Inr (Some p), v) \<Rightarrow> v = vec \<and> (\<exists>i < unat (nr_elems vec). p = i * unat (elem_size vec) \<and>
           same (elems vec ! i) key \<and> (\<forall>j < i. \<not> same (elems vec ! j) key)))) \<and>
    (case u_vector_remove same vec key of
       (Inl e, v) \<Rightarrow> e = ENOENT \<and> v = vec \<and> (\<forall>x \<in> set (elems vec). \<not> same x key)
     | (Inr x, v) \<Rightarrow> vec_inv v \<and> (\<exists>i < unat (nr_elems vec). x = elems vec ! i \<and> same x key \<and>
         (\<forall>j < i. \<not> same (elems vec ! j) key) \<and> elems v = take i (elems vec) @ drop (Suc i) (elems vec))) \<and>
    (\<forall>d. u_vector_copy malloc dst vec = (None, d) \<and> nr_elems vec \<noteq> 0 \<longrightarrow> elems d = elems vec)"
  by (intro conjI impI; (elim conjE)?) (rule vector_insert_result [OF assms] vector_remove_copy_result [OF assms, THEN conjunct1]
      vector_remove_copy_result [OF assms, THEN conjunct2]; assumption)+

theorem vector_operations_exact_witness:
  "elems (snd (u_vector_remove (=) \<lparr>block = [1, 2, 3, 4], nr_elems = 2, elem_size = 2\<rparr> [1, 2])) = [[3, 4]]"
proof -
  let ?v = "\<lparr>block = [1, 2, 3, 4], nr_elems = 2, elem_size = 2\<rparr>"
  have inv: "vec_inv ?v" by (simp add: vec_inv_def)
  have el: "elems ?v = [[1, 2], [3, 4]]" by (simp add: elems_def elem_at_def upt_rec [of _ 2])
  have "fst (u_vector_remove (=) ?v [1, 2]) = Inr [1, 2]"
    by (simp add: u_vector_remove_def vector_search.simps vec_used_def elem_at_def Let_def)
  then obtain v where v: "u_vector_remove (=) ?v [1, 2] = (Inr [1, 2], v)" by (cases "u_vector_remove (=) ?v [1, 2]") auto
  have "elems v = [[3, 4]]"
    using conjunct1 [OF conjunct2 [OF vector_operations_exact [OF inv, of "\<lambda>_. None" _ "(=)" "[1, 2]"]]] v
    by (auto simp: malloc_ok_def el less_2_cases_iff)
  then show ?thesis using v by simp
qed

text \<open>\<open>vector_idx\<close> accepts the index one past the last element, for which the position it returns
  is not inside the elements.\<close>

lemma vector_idx_one_past:
  "vector_idx vec (unat (nr_elems vec)) = Some (unat (elem_size vec) * unat (nr_elems vec)) \<and>
   (\<forall>i < unat (nr_elems vec). vector_idx vec i = Some (unat (elem_size vec) * i)) \<and>
   (\<forall>i > unat (nr_elems vec). vector_idx vec i = None)"
  by (simp add: vector_idx_def)

lemma vector_idx_one_past_witness:
  "vector_idx \<lparr>block = [1, 2, 3, 4], nr_elems = 2, elem_size = 2\<rparr> 1 = Some 2"
  using vector_idx_one_past [of "\<lparr>block = [1, 2, 3, 4], nr_elems = 2, elem_size = 2\<rparr>"] by simp

end
