(* ===== verification/Slist.thy ===== *)
theory Slist
  imports Skp_Prelude
begin

text \<open>
  \<open>include/skp/adt/slist.h\<close>: singly linked lists with a head and a tail pointer. Nodes are
  addresses, the null pointer is 0, and the store maps the address of a node to its \<open>next\<close> field.
\<close>

type_synonym node_ptr = nat
type_synonym next_store = "node_ptr \<Rightarrow> node_ptr"

section \<open>State and operations\<close>

definition NULL :: node_ptr where "NULL = 0"

definition SLIST_POISON :: node_ptr where "SLIST_POISON = 0x00100100"

record slist_head =
  shead :: node_ptr
  stail :: node_ptr

definition INIT_SLIST_NODE :: "node_ptr \<Rightarrow> next_store \<Rightarrow> next_store" where
  "INIT_SLIST_NODE node s = s(node := SLIST_POISON)"

definition slist_node_inlist :: "node_ptr \<Rightarrow> next_store \<Rightarrow> bool" where
  "slist_node_inlist node s = (s node \<noteq> SLIST_POISON)"

definition INIT_SLIST_HEAD :: slist_head where
  "INIT_SLIST_HEAD = \<lparr>shead = NULL, stail = NULL\<rparr>"

definition slist_empty :: "slist_head \<Rightarrow> bool" where
  "slist_empty l = (shead l = NULL)"

definition slist_empty_careful :: "slist_head \<Rightarrow> bool" where
  "slist_empty_careful l = (stail l = NULL \<and> shead l = NULL)"

definition slist_add_tail :: "slist_head \<Rightarrow> node_ptr \<Rightarrow> next_store \<Rightarrow> slist_head \<times> next_store" where
  "slist_add_tail l node s =
     (let s = s(node := NULL) in
      if \<not> slist_empty l then (l\<lparr>stail := node\<rparr>, s(stail l := node))
      else (\<lparr>shead = node, stail = node\<rparr>, s))"

definition slist_add_head :: "slist_head \<Rightarrow> node_ptr \<Rightarrow> next_store \<Rightarrow> slist_head \<times> next_store" where
  "slist_add_head l node s =
     (let s = s(node := shead l) in
      if \<not> slist_empty l then (l\<lparr>shead := node\<rparr>, s) else (\<lparr>shead = node, stail = node\<rparr>, s))"

definition slist_shift :: "slist_head \<Rightarrow> next_store \<Rightarrow> node_ptr \<times> slist_head" where
  "slist_shift l s =
     (let node = shead l in
      if node \<noteq> NULL then
        (if stail l = node then (node, \<lparr>shead = NULL, stail = NULL\<rparr>) else (node, l\<lparr>shead := s node\<rparr>))
      else (node, l))"

definition slist_shift_init :: "slist_head \<Rightarrow> next_store \<Rightarrow> node_ptr \<times> slist_head \<times> next_store" where
  "slist_shift_init l s =
     (let (node, l) = slist_shift l s in
      if node \<noteq> NULL then (node, l, INIT_SLIST_NODE node s) else (node, l, s))"

definition slist_splice :: "slist_head \<Rightarrow> slist_head \<Rightarrow> next_store \<Rightarrow> slist_head \<times> next_store" where
  "slist_splice src dst s =
     (if slist_empty src then (dst, s) else (dst\<lparr>shead := shead src\<rparr>, s(stail src := shead dst)))"

definition slist_splice_init ::
    "slist_head \<Rightarrow> slist_head \<Rightarrow> next_store \<Rightarrow> slist_head \<times> slist_head \<times> next_store" where
  "slist_splice_init src dst s = (let (dst, s) = slist_splice src dst s in (INIT_SLIST_HEAD, dst, s))"

definition slist_splice_tail :: "slist_head \<Rightarrow> slist_head \<Rightarrow> next_store \<Rightarrow> slist_head \<times> next_store" where
  "slist_splice_tail src dst s =
     (if slist_empty src then (dst, s)
      else if slist_empty dst then (dst\<lparr>shead := shead src, stail := stail src\<rparr>, s)
      else (dst\<lparr>stail := stail src\<rparr>, s(stail dst := shead src)))"

definition slist_splice_tail_init ::
    "slist_head \<Rightarrow> slist_head \<Rightarrow> next_store \<Rightarrow> slist_head \<times> slist_head \<times> next_store" where
  "slist_splice_tail_init src dst s = (let (dst, s) = slist_splice_tail src dst s in (INIT_SLIST_HEAD, dst, s))"

section \<open>The list a head stands for\<close>

text \<open>\<open>slist_rep s l xs\<close>: from the head, the \<open>next\<close> fields lead through the nodes \<open>xs\<close> to null, and
  the tail is the last node.\<close>

definition slist_rep :: "next_store \<Rightarrow> slist_head \<Rightarrow> node_ptr list \<Rightarrow> bool" where
  "slist_rep s l xs \<longleftrightarrow> distinct xs \<and> NULL \<notin> set xs \<and> shead l # map s xs = xs @ [NULL] \<and>
     stail l = (if xs = [] then NULL else last xs)"

lemma slist_rep_empty [simp]: "slist_rep s INIT_SLIST_HEAD xs \<longleftrightarrow> xs = []"
  by (cases xs) (auto simp: slist_rep_def INIT_SLIST_HEAD_def)

lemma slist_empty_iff: "slist_rep s l xs \<Longrightarrow> slist_empty l \<longleftrightarrow> xs = []"
  by (cases xs) (auto simp: slist_rep_def slist_empty_def)

lemma slist_rep_frame [frame_spec]:
  "slist_rep s l xs \<Longrightarrow> p \<notin> set xs \<Longrightarrow> slist_rep (s(p := v)) l xs"
  by (simp add: slist_rep_def)

lemma slist_add_tail_rep:
  assumes "slist_rep s l xs" and "node \<notin> set xs" and "node \<noteq> NULL"
  shows "case slist_add_tail l node s of (l', s') \<Rightarrow> slist_rep s' l' (xs @ [node])"
  using assms slist_empty_iff [OF assms(1)]
  by (cases xs rule: rev_cases) (auto simp: slist_add_tail_def slist_rep_def Let_def)

lemma slist_add_head_rep:
  assumes "slist_rep s l xs" and "node \<notin> set xs" and "node \<noteq> NULL"
  shows "case slist_add_head l node s of (l', s') \<Rightarrow> slist_rep s' l' (node # xs)"
  using assms slist_empty_iff [OF assms(1)]
  by (cases xs) (auto simp: slist_add_head_def slist_rep_def Let_def)

lemma slist_shift_rep:
  assumes "slist_rep s l xs"
  shows "case slist_shift l s of (n, l') \<Rightarrow> n = (case xs of [] \<Rightarrow> NULL | x # _ \<Rightarrow> x) \<and> slist_rep s l' (tl xs)"
proof (cases xs)
  case Nil
  with assms show ?thesis by (auto simp: slist_shift_def slist_rep_def)
next
  case (Cons x ys)
  show ?thesis
  proof (cases ys)
    case Nil
    with Cons assms show ?thesis by (auto simp: slist_shift_def slist_rep_def Let_def)
  next
    case (Cons y zs)
    then have "stail l = last (y # zs)" "x \<notin> set (y # zs)" using \<open>xs = x # ys\<close> assms by (auto simp: slist_rep_def)
    then have "stail l \<noteq> x" using last_in_set [of "y # zs"] by (metis list.distinct(1))
    with Cons \<open>xs = x # ys\<close> assms show ?thesis by (auto simp: slist_shift_def slist_rep_def Let_def)
  qed
qed

lemma slist_splice_tail_rep:
  assumes "slist_rep s src xs" and "slist_rep s dst ys" and "set xs \<inter> set ys = {}"
  shows "case slist_splice_tail src dst s of (dst', s') \<Rightarrow> slist_rep s' dst' (ys @ xs)"
  using assms slist_empty_iff [OF assms(1)] slist_empty_iff [OF assms(2)]
  by (cases xs; cases ys rule: rev_cases) (auto simp: slist_splice_tail_def slist_rep_def)

lemma slist_splice_rep:
  assumes "slist_rep s src xs" and "slist_rep s dst ys" and "set xs \<inter> set ys = {}" and "ys \<noteq> []"
  shows "case slist_splice src dst s of (dst', s') \<Rightarrow> slist_rep s' dst' (xs @ ys)"
  using assms slist_empty_iff [OF assms(1)] slist_empty_iff [OF assms(2)]
  by (cases ys; cases xs rule: rev_cases) (auto simp: slist_splice_def slist_rep_def)

lemma slist_splice_empty_dst:
  assumes "slist_rep s src xs" and "xs \<noteq> []" and "slist_rep s dst []"
  shows "case slist_splice src dst s of (dst', s') \<Rightarrow> shead dst' = hd xs \<and> stail dst' = NULL"
  using assms slist_empty_iff [OF assms(1)] by (cases xs) (auto simp: slist_splice_def slist_rep_def)

section \<open>Properties\<close>

text \<open>C26: adding at either end, taking the first node and appending a whole list act on the list a
  head stands for as the list operations do; taking from an empty list gives null.\<close>

theorem slist_operations_exact:
  assumes "slist_rep s l xs" and "node \<notin> set xs" and "node \<noteq> NULL"
    and "slist_rep s src ys" and "set ys \<inter> set xs = {}"
  shows "(case slist_add_tail l node s of (l', s') \<Rightarrow> slist_rep s' l' (xs @ [node])) \<and>
    (case slist_add_head l node s of (l', s') \<Rightarrow> slist_rep s' l' (node # xs)) \<and>
    (case slist_shift l s of (n, l') \<Rightarrow> n = (case xs of [] \<Rightarrow> NULL | x # _ \<Rightarrow> x) \<and> slist_rep s l' (tl xs)) \<and>
    (case slist_splice_tail_init src l s of (src', l', s') \<Rightarrow> slist_rep s' src' [] \<and> slist_rep s' l' (xs @ ys))"
  using slist_add_tail_rep [OF assms(1-3)] slist_add_head_rep [OF assms(1-3)] slist_shift_rep [OF assms(1)]
    slist_splice_tail_rep [OF assms(4,1,5)]
  by (auto simp: slist_splice_tail_init_def split: prod.splits)

theorem slist_operations_exact_witness:
  "case slist_add_tail \<lparr>shead = 16, stail = 32\<rparr> 48 ((\<lambda>_. 0)(16 := 32)) of
     (l', s') \<Rightarrow> slist_rep s' l' [16, 32, 48]"
  using slist_operations_exact [of "(\<lambda>_. 0)(16 := 32)" "\<lparr>shead = 16, stail = 32\<rparr>" "[16, 32]" 48 INIT_SLIST_HEAD "[]"]
  by (simp add: slist_rep_def NULL_def INIT_SLIST_HEAD_def)

text \<open>Splicing in front works on a list that is not empty; spliced into an empty list, the head
  points to the nodes but the tail stays null, so the next append writes through a null pointer.\<close>

lemma slist_splice_front:
  assumes "slist_rep s src xs" and "xs \<noteq> []" and "slist_rep s dst ys" and "set xs \<inter> set ys = {}"
  shows "case slist_splice src dst s of (dst', s') \<Rightarrow>
    if ys = [] then shead dst' = hd xs \<and> stail dst' = NULL \<and> \<not> slist_empty dst' else slist_rep s' dst' (xs @ ys)"
proof (cases "ys = []")
  case True
  have "hd xs \<noteq> NULL" using assms(1,2) by (cases xs) (auto simp: slist_rep_def)
  with True slist_splice_empty_dst [OF assms(1,2), of dst] assms(3) show ?thesis
    by (auto simp: slist_empty_def split: prod.splits)
next
  case False
  with slist_splice_rep [OF assms(1,3,4)] show ?thesis by simp
qed

lemma slist_splice_front_witness:
  "case slist_splice \<lparr>shead = 16, stail = 16\<rparr> INIT_SLIST_HEAD (\<lambda>_. 0) of
     (dst', s') \<Rightarrow> shead dst' = 16 \<and> stail dst' = NULL"
  using slist_splice_front [of "\<lambda>_. 0" "\<lparr>shead = 16, stail = 16\<rparr>" "[16]" INIT_SLIST_HEAD "[]"]
  by (auto simp: slist_rep_def NULL_def INIT_SLIST_HEAD_def split: prod.splits)

end
