(* ===== verification/List_Head.thy ===== *)
theory List_Head
  imports Slist
begin

text \<open>
  \<open>include/skp/adt/list.h\<close>: circular doubly linked lists with the list head as a sentinel. The store
  maps the address of a \<open>struct list_head\<close> to its two fields; every operation is the sequence of
  assignments of the source, in its order, so that aliasing between the arguments is kept.
\<close>

section \<open>State and operations\<close>

record list_store =
  nx :: "node_ptr \<Rightarrow> node_ptr"
  pv :: "node_ptr \<Rightarrow> node_ptr"

definition LIST_POISON1 :: node_ptr where "LIST_POISON1 = 0x00100100"

definition LIST_POISON2 :: node_ptr where "LIST_POISON2 = 0x00200200"

definition set_next :: "node_ptr \<Rightarrow> node_ptr \<Rightarrow> list_store \<Rightarrow> list_store" where
  "set_next p v h = h\<lparr>nx := (nx h)(p := v)\<rparr>"

definition set_prev :: "node_ptr \<Rightarrow> node_ptr \<Rightarrow> list_store \<Rightarrow> list_store" where
  "set_prev p v h = h\<lparr>pv := (pv h)(p := v)\<rparr>"

definition INIT_LIST_HEAD :: "node_ptr \<Rightarrow> list_store \<Rightarrow> list_store" where
  "INIT_LIST_HEAD l h = set_prev l l (set_next l l h)"

definition u_list_add :: "node_ptr \<Rightarrow> node_ptr \<Rightarrow> node_ptr \<Rightarrow> list_store \<Rightarrow> list_store" where
  "u_list_add new prev next h =
     (let h = set_prev next new h; h = set_next new next h; h = set_prev new prev h in set_next prev new h)"

definition list_add :: "node_ptr \<Rightarrow> node_ptr \<Rightarrow> list_store \<Rightarrow> list_store" where
  "list_add new head h = u_list_add new head (nx h head) h"

definition list_add_tail :: "node_ptr \<Rightarrow> node_ptr \<Rightarrow> list_store \<Rightarrow> list_store" where
  "list_add_tail new head h = u_list_add new (pv h head) head h"

definition u_list_del :: "node_ptr \<Rightarrow> node_ptr \<Rightarrow> list_store \<Rightarrow> list_store" where
  "u_list_del prev next h = set_next prev next (set_prev next prev h)"

definition u_list_del_entry :: "node_ptr \<Rightarrow> list_store \<Rightarrow> list_store" where
  "u_list_del_entry entry h = u_list_del (pv h entry) (nx h entry) h"

definition list_del :: "node_ptr \<Rightarrow> list_store \<Rightarrow> list_store" where
  "list_del entry h =
     (let h = u_list_del (pv h entry) (nx h entry) h; h = set_next entry LIST_POISON1 h
      in set_prev entry LIST_POISON2 h)"

definition list_replace :: "node_ptr \<Rightarrow> node_ptr \<Rightarrow> list_store \<Rightarrow> list_store" where
  "list_replace old new h =
     (let h = set_next new (nx h old) h; h = set_prev (nx h new) new h;
          h = set_prev new (pv h old) h in set_next (pv h new) new h)"

definition list_replace_init :: "node_ptr \<Rightarrow> node_ptr \<Rightarrow> list_store \<Rightarrow> list_store" where
  "list_replace_init old new h = INIT_LIST_HEAD old (list_replace old new h)"

definition list_del_init :: "node_ptr \<Rightarrow> list_store \<Rightarrow> list_store" where
  "list_del_init entry h = INIT_LIST_HEAD entry (u_list_del_entry entry h)"

definition list_move :: "node_ptr \<Rightarrow> node_ptr \<Rightarrow> list_store \<Rightarrow> list_store" where
  "list_move l head h = list_add l head (u_list_del_entry l h)"

definition list_move_tail :: "node_ptr \<Rightarrow> node_ptr \<Rightarrow> list_store \<Rightarrow> list_store" where
  "list_move_tail l head h = list_add_tail l head (u_list_del_entry l h)"

definition list_is_last :: "node_ptr \<Rightarrow> node_ptr \<Rightarrow> list_store \<Rightarrow> bool" where
  "list_is_last l head h = (nx h l = head)"

definition list_empty :: "node_ptr \<Rightarrow> list_store \<Rightarrow> bool" where
  "list_empty head h = (nx h head = head)"

definition list_empty_careful :: "node_ptr \<Rightarrow> list_store \<Rightarrow> bool" where
  "list_empty_careful head h = (let next = nx h head in next = head \<and> next = pv h head)"

definition list_rotate_left :: "node_ptr \<Rightarrow> list_store \<Rightarrow> list_store" where
  "list_rotate_left head h = (if \<not> list_empty head h then list_move_tail (nx h head) head h else h)"

definition list_is_singular :: "node_ptr \<Rightarrow> list_store \<Rightarrow> bool" where
  "list_is_singular head h = (\<not> list_empty head h \<and> nx h head = pv h head)"

definition u_list_cut_position :: "node_ptr \<Rightarrow> node_ptr \<Rightarrow> node_ptr \<Rightarrow> list_store \<Rightarrow> list_store" where
  "u_list_cut_position l head entry h =
     (let new_first = nx h entry; h = set_next l (nx h head) h; h = set_prev (nx h l) l h;
          h = set_prev l entry h; h = set_next entry l h; h = set_next head new_first h
      in set_prev new_first head h)"

definition list_cut_position :: "node_ptr \<Rightarrow> node_ptr \<Rightarrow> node_ptr \<Rightarrow> list_store \<Rightarrow> list_store" where
  "list_cut_position l head entry h =
     (if list_empty head h then h
      else if list_is_singular head h \<and> nx h head \<noteq> entry \<and> head \<noteq> entry then h
      else if entry = head then INIT_LIST_HEAD l h
      else u_list_cut_position l head entry h)"

definition u_list_splice :: "node_ptr \<Rightarrow> node_ptr \<Rightarrow> node_ptr \<Rightarrow> list_store \<Rightarrow> list_store" where
  "u_list_splice l prev next h =
     (let first = nx h l; lst = pv h l; h = set_prev first prev h; h = set_next prev first h;
          h = set_next lst next h in set_prev next lst h)"

definition list_splice :: "node_ptr \<Rightarrow> node_ptr \<Rightarrow> list_store \<Rightarrow> list_store" where
  "list_splice l head h = (if \<not> list_empty l h then u_list_splice l head (nx h head) h else h)"

definition list_splice_tail :: "node_ptr \<Rightarrow> node_ptr \<Rightarrow> list_store \<Rightarrow> list_store" where
  "list_splice_tail l head h = (if \<not> list_empty l h then u_list_splice l (pv h head) head h else h)"

definition list_splice_init :: "node_ptr \<Rightarrow> node_ptr \<Rightarrow> list_store \<Rightarrow> list_store" where
  "list_splice_init l head h =
     (if \<not> list_empty l h then INIT_LIST_HEAD l (u_list_splice l head (nx h head) h) else h)"

definition list_splice_tail_init :: "node_ptr \<Rightarrow> node_ptr \<Rightarrow> list_store \<Rightarrow> list_store" where
  "list_splice_tail_init l head h =
     (if \<not> list_empty l h then INIT_LIST_HEAD l (u_list_splice l (pv h head) head h) else h)"

section \<open>The list a head stands for\<close>

text \<open>\<open>seg h a xs b\<close>: from \<open>a\<close>, the \<open>next\<close> fields meet the nodes \<open>xs\<close> and then \<open>b\<close>, and the \<open>prev\<close>
  fields go the same way back. A list is a segment from its head to its head.\<close>

primrec seg :: "list_store \<Rightarrow> node_ptr \<Rightarrow> node_ptr list \<Rightarrow> node_ptr \<Rightarrow> bool" where
  "seg h a [] b \<longleftrightarrow> nx h a = b \<and> pv h b = a"
| "seg h a (x # xs) b \<longleftrightarrow> nx h a = x \<and> pv h x = a \<and> seg h x xs b"

definition dlist :: "list_store \<Rightarrow> node_ptr \<Rightarrow> node_ptr list \<Rightarrow> bool" where
  "dlist h head xs \<longleftrightarrow> distinct (head # xs) \<and> seg h head xs head"

lemma seg_append [simp]: "seg h a (us @ e # vs) b \<longleftrightarrow> seg h a us e \<and> seg h e vs b"
  by (induction us arbitrary: a) auto

lemma nx_pv_set [simp]:
  "nx (set_next p v h) = (nx h)(p := v)" "pv (set_next p v h) = pv h"
  "nx (set_prev p v h) = nx h" "pv (set_prev p v h) = (pv h)(p := v)"
  by (simp_all add: set_next_def set_prev_def)

lemma seg_set_next [simp]: "p \<noteq> a \<Longrightarrow> p \<notin> set xs \<Longrightarrow> seg (set_next p v h) a xs b = seg h a xs b"
  by (induction xs arbitrary: a) auto

lemma seg_set_prev [simp]: "p \<noteq> b \<Longrightarrow> p \<notin> set xs \<Longrightarrow> seg (set_prev p v h) a xs b = seg h a xs b"
  by (induction xs arbitrary: a) auto

lemma seg_cong:
  "(\<And>p. p \<in> set (a # xs) \<Longrightarrow> nx h' p = nx h p) \<Longrightarrow> (\<And>p. p \<in> set (b # xs) \<Longrightarrow> pv h' p = pv h p) \<Longrightarrow>
     seg h' a xs b = seg h a xs b"
  by (induction xs arbitrary: a) auto

lemma dlist_frame [frame_spec]:
  assumes "dlist h head xs" and "\<And>p. p \<in> set (head # xs) \<Longrightarrow> nx h' p = nx h p \<and> pv h' p = pv h p"
  shows "dlist h' head xs"
  using assms seg_cong [of head xs h' h head] by (auto simp: dlist_def)

lemma dlist_init: "dlist (INIT_LIST_HEAD l h) l []"
  by (simp add: dlist_def INIT_LIST_HEAD_def)

lemma dlist_empty_iff: "dlist h head xs \<Longrightarrow> list_empty head h \<longleftrightarrow> xs = []"
  by (cases xs) (auto simp: dlist_def list_empty_def)

lemma dlist_first: "dlist h head (x # xs) \<Longrightarrow> nx h head = x"
  by (simp add: dlist_def)

lemma seg_last: "seg h a xs b \<Longrightarrow> pv h b = last (a # xs)"
  by (induction xs arbitrary: a) auto

lemma list_add_dlist:
  "dlist h head xs \<Longrightarrow> new \<notin> set (head # xs) \<Longrightarrow> dlist (list_add new head h) head (new # xs)"
  by (cases xs) (auto simp: dlist_def list_add_def u_list_add_def Let_def)

lemma list_add_tail_dlist:
  "dlist h head xs \<Longrightarrow> new \<notin> set (head # xs) \<Longrightarrow> dlist (list_add_tail new head h) head (xs @ [new])"
  by (cases xs rule: rev_cases) (auto simp: dlist_def list_add_tail_def u_list_add_def Let_def)

lemma u_list_del_entry_dlist:
  "dlist h head (us @ e # vs) \<Longrightarrow> dlist (u_list_del_entry e h) head (us @ vs)"
  by (cases us rule: rev_cases; cases vs) (auto simp: dlist_def u_list_del_entry_def u_list_del_def)

lemma list_del_dlist:
  assumes "dlist h head (us @ e # vs)"
  shows "dlist (list_del e h) head (us @ vs)"
proof (rule dlist_frame [OF u_list_del_entry_dlist [OF assms]])
  fix p assume "p \<in> set (head # us @ vs)"
  then have "p \<noteq> e" using assms by (auto simp: dlist_def)
  then show "nx (list_del e h) p = nx (u_list_del_entry e h) p \<and> pv (list_del e h) p = pv (u_list_del_entry e h) p"
    by (simp add: list_del_def u_list_del_entry_def Let_def)
qed

lemma list_del_init_dlist:
  assumes "dlist h head (us @ e # vs)"
  shows "dlist (list_del_init e h) head (us @ vs)" "dlist (list_del_init e h) e []"
proof (rule dlist_frame [OF u_list_del_entry_dlist [OF assms]])
  fix p assume "p \<in> set (head # us @ vs)"
  then have "p \<noteq> e" using assms by (auto simp: dlist_def)
  then show "nx (list_del_init e h) p = nx (u_list_del_entry e h) p \<and> pv (list_del_init e h) p = pv (u_list_del_entry e h) p"
    by (simp add: list_del_init_def INIT_LIST_HEAD_def)
qed (simp add: list_del_init_def dlist_init)

lemma list_replace_dlist:
  "dlist h head (us @ old # vs) \<Longrightarrow> new \<notin> set (head # us @ old # vs) \<Longrightarrow>
     dlist (list_replace old new h) head (us @ new # vs)"
  by (cases us rule: rev_cases; cases vs) (auto simp: dlist_def list_replace_def Let_def)

lemma list_move_dlist:
  assumes "dlist h head (us @ e # vs)"
  shows "dlist (list_move e head h) head (e # us @ vs)" "dlist (list_move_tail e head h) head (us @ vs @ [e])"
  using list_add_dlist [OF u_list_del_entry_dlist [OF assms], of e]
    list_add_tail_dlist [OF u_list_del_entry_dlist [OF assms], of e] assms
  by (auto simp: list_move_def list_move_tail_def dlist_def)

lemma list_rotate_left_dlist:
  "dlist h head xs \<Longrightarrow> dlist (list_rotate_left head h) head (if xs = [] then [] else tl xs @ [hd xs])"
  using dlist_empty_iff [of h head xs] list_move_dlist(2) [of h head "[]" "hd xs" "tl xs"]
  by (cases xs) (auto simp: list_rotate_left_def dlist_first)

text \<open>A list that is not empty is a single node or has a first and a last one.\<close>

lemma ends_cases:
  obtains "ys = []" | y where "ys = [y]" | y us z where "ys = y # us @ [z]"
  by (cases ys rule: rev_cases) (simp, metis append_Nil append_Cons neq_Nil_conv)

lemma list_splice_dlist:
  assumes "dlist h head xs" and "dlist h l ys" and "set (head # xs) \<inter> set (l # ys) = {}"
  shows "dlist (list_splice l head h) head (ys @ xs)"
  using assms dlist_empty_iff [OF assms(2)]
  by (cases ys rule: ends_cases; cases xs) (auto simp: list_splice_def u_list_splice_def dlist_def Let_def)

lemma list_splice_tail_dlist:
  assumes "dlist h head xs" and "dlist h l ys" and "set (head # xs) \<inter> set (l # ys) = {}"
  shows "dlist (list_splice_tail l head h) head (xs @ ys)"
  using assms dlist_empty_iff [OF assms(2)]
  by (cases ys rule: ends_cases; cases xs rule: rev_cases)
     (auto simp: list_splice_tail_def u_list_splice_def dlist_def Let_def)

lemma reinit_other:
  assumes "dlist h head xs" and "l \<notin> set (head # xs)"
  shows "dlist (INIT_LIST_HEAD l h) head xs"
  by (rule dlist_frame [OF assms(1)]) (use assms(2) in \<open>auto simp: INIT_LIST_HEAD_def\<close>)

lemma list_splice_init_dlist:
  assumes "dlist h head xs" and "dlist h l ys" and "set (head # xs) \<inter> set (l # ys) = {}"
  shows "dlist (list_splice_init l head h) head (ys @ xs) \<and> dlist (list_splice_init l head h) l []"
    and "dlist (list_splice_tail_init l head h) head (xs @ ys) \<and> dlist (list_splice_tail_init l head h) l []"
proof -
  have l: "l \<notin> set (head # ys @ xs)" "l \<notin> set (head # xs @ ys)" using assms(2,3) by (auto simp: dlist_def)
  have "list_splice_init l head h = (if list_empty l h then h else INIT_LIST_HEAD l (list_splice l head h))"
    "list_splice_tail_init l head h = (if list_empty l h then h else INIT_LIST_HEAD l (list_splice_tail l head h))"
    by (simp_all add: list_splice_init_def list_splice_def list_splice_tail_init_def list_splice_tail_def)
  with dlist_empty_iff [OF assms(2)] assms(1,2) reinit_other [OF list_splice_dlist [OF assms] l(1)]
    reinit_other [OF list_splice_tail_dlist [OF assms] l(2)]
  show "dlist (list_splice_init l head h) head (ys @ xs) \<and> dlist (list_splice_init l head h) l []"
    "dlist (list_splice_tail_init l head h) head (xs @ ys) \<and> dlist (list_splice_tail_init l head h) l []"
    by (auto simp: dlist_init)
qed

lemma list_cut_position_dlist:
  assumes "dlist h head (us @ e # vs)" and "l \<notin> set (head # us @ e # vs)"
  shows "dlist (list_cut_position l head e h) l (us @ [e]) \<and> dlist (list_cut_position l head e h) head vs"
proof -
  have ne: "\<not> list_empty head h" "e \<noteq> head" using assms(1) dlist_empty_iff [OF assms(1)] by (auto simp: dlist_def)
  have "nx h head = e" if "list_is_singular head h"
  proof -
    have "nx h head = hd (us @ [e])" using assms(1) by (cases us) (auto simp: dlist_def)
    moreover have "pv h head = last (e # vs)" using assms(1) seg_last [of h e vs head] by (simp add: dlist_def)
    moreover have "nx h head = pv h head" using that by (simp add: list_is_singular_def)
    ultimately show ?thesis using assms(1) by (cases us; cases vs rule: rev_cases) (auto simp: dlist_def)
  qed
  with ne have "list_cut_position l head e h = u_list_cut_position l head e h"
    by (auto simp: list_cut_position_def)
  then show ?thesis
    using assms by (cases us; cases vs) (auto simp: u_list_cut_position_def dlist_def Let_def)
qed

lemma list_cut_position_at_head:
  "dlist h head xs \<Longrightarrow> l \<notin> set (head # xs) \<Longrightarrow> xs \<noteq> [] \<Longrightarrow>
     dlist (list_cut_position l head head h) l [] \<and> dlist (list_cut_position l head head h) head xs"
  using dlist_empty_iff [of h head xs] reinit_other [of h head xs l] by (simp add: list_cut_position_def dlist_init)

section \<open>Properties\<close>

text \<open>C27: on a well-linked list, adding at either end, deleting, replacing, moving and rotating give
  the well-linked list of the corresponding list operation, whatever the position of the entry.  Splicing moves all entries of another list, in order, to the front or the back and
  leaves that list empty; cutting at an entry moves the entries up to it to a new list.\<close>

theorem list_operations_exact:
  assumes "dlist h head (us @ e # vs)" and "new \<notin> set (head # us @ e # vs)"
    and "dlist h l ys" and "set (head # us @ e # vs) \<inter> set (l # ys) = {}"
  shows "dlist (list_add new head h) head (new # us @ e # vs) \<and>
    dlist (list_add_tail new head h) head (us @ e # vs @ [new]) \<and>
    dlist (list_del e h) head (us @ vs) \<and>
    dlist (list_del_init e h) head (us @ vs) \<and> dlist (list_del_init e h) e [] \<and>
    dlist (list_replace e new h) head (us @ new # vs) \<and>
    dlist (list_move e head h) head (e # us @ vs) \<and>
    dlist (list_move_tail e head h) head (us @ vs @ [e]) \<and>
    dlist (list_rotate_left head h) head (tl (us @ e # vs) @ [hd (us @ e # vs)]) \<and>
    dlist (list_splice_init l head h) head (ys @ us @ e # vs) \<and> dlist (list_splice_init l head h) l [] \<and>
    dlist (list_splice_tail_init l head h) head (us @ e # vs @ ys) \<and> dlist (list_splice_tail_init l head h) l [] \<and>
    dlist (list_cut_position l head e h) l (us @ [e]) \<and> dlist (list_cut_position l head e h) head vs"
  using list_add_dlist [OF assms(1,2)] list_add_tail_dlist [OF assms(1,2)] list_del_dlist [OF assms(1)]
    list_del_init_dlist [OF assms(1)] list_replace_dlist [OF assms(1,2)] list_move_dlist [OF assms(1)]
    list_rotate_left_dlist [OF assms(1)] list_splice_init_dlist [OF assms(1,3,4)] list_cut_position_dlist [OF assms(1), of l] assms(4)
  by auto

theorem list_operations_exact_witness:
  "dlist (list_splice_tail_init 8 9 \<lparr>nx = (\<lambda>_. 0)(9 := 1, 1 := 9, 8 := 3, 3 := 8),
     pv = (\<lambda>_. 0)(9 := 1, 1 := 9, 8 := 3, 3 := 8)\<rparr>) 9 [1, 3]"
  using list_operations_exact [of "\<lparr>nx = (\<lambda>_. 0)(9 := 1, 1 := 9, 8 := 3, 3 := 8),
     pv = (\<lambda>_. 0)(9 := 1, 1 := 9, 8 := 3, 3 := 8)\<rparr>" 9 "[]" 1 "[]" 5 8 "[3]"]
  by (simp add: dlist_def)

end
