(* ===== verification/List_Sort.thy ===== *)
theory List_Sort
  imports List_Head
begin

text \<open>
  \<open>src/algorithm/list_sort.c\<close>: the bottom-up merge sort of a \<open>struct list_head\<close>. While it runs, the
  sublists are null-terminated chains without \<open>prev\<close> links; such a chain is modelled by the list of its
  nodes, the null pointer by the empty list. The final pass that restores the circular, doubly linked
  form is modelled by its assignments. The comparison function is an argument.
\<close>

section \<open>The algorithm\<close>

definition MAX_LIST_LENGTH_BITS :: nat where "MAX_LIST_LENGTH_BITS = 20"

fun merge :: "('a \<Rightarrow> 'a \<Rightarrow> int) \<Rightarrow> 'a list \<Rightarrow> 'a list \<Rightarrow> 'a list" where
  "merge cmp (a # as) (b # bs) =
     (if cmp a b \<le> 0 then a # merge cmp as (b # bs) else b # merge cmp (a # as) bs)"
| "merge cmp as bs = (if as \<noteq> [] then as else bs)"

text \<open>The second loop of \<open>merge_and_restore_back_links\<close>, over what is left of one chain.\<close>

fun restore_back_links :: "node_ptr \<Rightarrow> node_ptr \<Rightarrow> node_ptr list \<Rightarrow> list_store \<Rightarrow> list_store" where
  "restore_back_links head tail [] h = set_prev head tail (set_next tail head h)"
| "restore_back_links head tail (x # xs) h = restore_back_links head x xs (set_prev x tail (set_next tail x h))"

fun merge_and_restore_back_links ::
    "(node_ptr \<Rightarrow> node_ptr \<Rightarrow> int) \<Rightarrow> node_ptr \<Rightarrow> node_ptr \<Rightarrow> node_ptr list \<Rightarrow> node_ptr list \<Rightarrow> list_store \<Rightarrow> list_store"
where
  "merge_and_restore_back_links cmp head tail (a # as) (b # bs) h =
     (if cmp a b \<le> 0
      then merge_and_restore_back_links cmp head a as (b # bs) (set_prev a tail (set_next tail a h))
      else merge_and_restore_back_links cmp head b (a # as) bs (set_prev b tail (set_next tail b h)))"
| "merge_and_restore_back_links cmp head tail as bs h =
     restore_back_links head tail (if as \<noteq> [] then as else bs) h"

text \<open>\<open>for (lev = 0; part[lev]; lev++)\<close>: carry the chain up through the occupied slots.\<close>

function merge_up :: "('a \<Rightarrow> 'a \<Rightarrow> int) \<Rightarrow> 'a list list \<Rightarrow> nat \<Rightarrow> 'a list \<Rightarrow> 'a list list \<times> nat \<times> 'a list" where
  "merge_up cmp part lev cur =
     (if lev < length part \<and> part ! lev \<noteq> []
      then merge_up cmp (part[lev := []]) (Suc lev) (merge cmp (part ! lev) cur)
      else (part, lev, cur))"
  by pat_completeness auto
termination
  by (relation "measure (\<lambda>(cmp, part, lev, cur). length part - lev)") auto

definition sort_node :: "('a \<Rightarrow> 'a \<Rightarrow> int) \<Rightarrow> 'a \<Rightarrow> 'a list list \<times> nat \<Rightarrow> 'a list list \<times> nat" where
  "sort_node cmp node = (\<lambda>(part, max_lev).
     let (part, lev, cur) = merge_up cmp part 0 [node];
         (lev, max_lev) =
           (if lev > max_lev
            then let lev = (if lev \<ge> MAX_LIST_LENGTH_BITS then lev - 1 else lev) in (lev, lev)
            else (lev, max_lev))
     in (part[lev := cur], max_lev))"

text \<open>The first two loops: the slots when every node has been taken, then the slots below
  \<open>max_lev\<close> merged into one chain.\<close>

definition sort_parts :: "('a \<Rightarrow> 'a \<Rightarrow> int) \<Rightarrow> 'a list \<Rightarrow> 'a list list \<times> nat" where
  "sort_parts cmp nodes = fold (sort_node cmp) nodes (replicate (MAX_LIST_LENGTH_BITS + 1) [], 0)"

definition collect_parts :: "('a \<Rightarrow> 'a \<Rightarrow> int) \<Rightarrow> 'a list list \<Rightarrow> nat \<Rightarrow> 'a list" where
  "collect_parts cmp part max_lev =
     fold (\<lambda>lev l. if part ! lev \<noteq> [] then merge cmp (part ! lev) l else l) [0..<max_lev] []"

text \<open>The chain that starts at \<open>head->next\<close> once \<open>head->prev->next\<close> is null; \<open>fuel\<close> bounds the walk.\<close>

fun chain_nodes :: "nat \<Rightarrow> (node_ptr \<Rightarrow> node_ptr) \<Rightarrow> node_ptr \<Rightarrow> node_ptr list option" where
  "chain_nodes fuel n p =
     (if p = NULL then Some []
      else case fuel of 0 \<Rightarrow> None | Suc fuel \<Rightarrow> map_option ((#) p) (chain_nodes fuel n (n p)))"

definition list_sort :: "nat \<Rightarrow> (node_ptr \<Rightarrow> node_ptr \<Rightarrow> int) \<Rightarrow> node_ptr \<Rightarrow> list_store \<Rightarrow> list_store option" where
  "list_sort fuel cmp head h =
     (if list_empty head h then Some h
      else
        let h = set_next (pv h head) NULL h in
        (case chain_nodes fuel (nx h) (nx h head) of
           None \<Rightarrow> None
         | Some nodes \<Rightarrow>
             let (part, max_lev) = sort_parts cmp nodes
             in Some (merge_and_restore_back_links cmp head head (part ! max_lev) (collect_parts cmp part max_lev) h)))"

declare merge_up.simps [simp del] chain_nodes.simps [simp del]

section \<open>Comparison functions\<close>

text \<open>What the algorithm relies on of the comparison function.\<close>

definition comparator :: "('a \<Rightarrow> 'a \<Rightarrow> int) \<Rightarrow> bool" where
  "comparator cmp \<longleftrightarrow> (\<forall>a b. cmp a b \<le> 0 \<or> cmp b a \<le> 0) \<and>
     (\<forall>a b c. cmp a b \<le> 0 \<longrightarrow> cmp b c \<le> 0 \<longrightarrow> cmp a c \<le> 0)"

text \<open>Sorted, and the nodes that compare equal to a given one.\<close>

abbreviation sorted_by :: "('a \<Rightarrow> 'a \<Rightarrow> int) \<Rightarrow> 'a list \<Rightarrow> bool" where
  "sorted_by cmp \<equiv> sorted_wrt (\<lambda>a b. cmp a b \<le> 0)"

definition same_key :: "('a \<Rightarrow> 'a \<Rightarrow> int) \<Rightarrow> 'a \<Rightarrow> 'a \<Rightarrow> bool" where
  "same_key cmp k x \<longleftrightarrow> cmp k x \<le> 0 \<and> cmp x k \<le> 0"

lemma comparatorD:
  assumes "comparator cmp"
  shows "cmp a b \<le> 0 \<or> cmp b a \<le> 0" and "cmp a b \<le> 0 \<Longrightarrow> cmp b c \<le> 0 \<Longrightarrow> cmp a c \<le> 0" and "cmp a a \<le> 0"
  using assms unfolding comparator_def by blast+

section \<open>Merging\<close>

lemma mset_merge [simp]: "mset (merge cmp as bs) = mset as + mset bs"
  by (induction cmp as bs rule: merge.induct) auto

lemma set_merge [simp]: "set (merge cmp as bs) = set as \<union> set bs"
  by (metis mset_merge set_mset_mset set_mset_union)

lemma merge_nonempty [simp]: "merge cmp as bs = [] \<longleftrightarrow> as = [] \<and> bs = []"
  by (metis mset_merge mset_zero_iff union_eq_empty)

lemma merge_Nil2 [simp]: "merge cmp as [] = as" "merge cmp [] as = as"
  by (cases as; simp)+

lemma sorted_merge:
  "comparator cmp \<Longrightarrow> sorted_by cmp as \<Longrightarrow> sorted_by cmp bs \<Longrightarrow> sorted_by cmp (merge cmp as bs)"
proof (induction cmp as bs rule: merge.induct)
  case (1 cmp a as b bs)
  note c = comparatorD [OF "1.prems"(1)]
  show ?case
  proof (cases "cmp a b \<le> 0")
    case True
    have "cmp a y \<le> 0" if "y \<in> set (as @ b # bs)" for y
      using that True "1.prems"(2,3) c(2) [of a b y] by auto
    with True 1 show ?thesis by auto
  next
    case False
    then have ba: "cmp b a \<le> 0" using c(1) by blast
    have "cmp b y \<le> 0" if "y \<in> set (a # as @ bs)" for y
      using that ba "1.prems"(2,3) c(2) [of b a y] by auto
    with False 1 show ?thesis by auto
  qed
qed auto

text \<open>Stability: among the nodes of one key, those of the first chain come first.\<close>

lemma filter_merge:
  "comparator cmp \<Longrightarrow> sorted_by cmp as \<Longrightarrow>
     filter (same_key cmp k) (merge cmp as bs) = filter (same_key cmp k) as @ filter (same_key cmp k) bs"
proof (induction cmp as bs rule: merge.induct)
  case (1 cmp a as b bs)
  note c = comparatorD [OF "1.prems"(1)]
  show ?case
  proof (cases "cmp a b \<le> 0")
    case False
    have "filter (same_key cmp k) (a # as) = []" if "same_key cmp k b"
    proof -
      have "\<not> same_key cmp k x" if x: "x \<in> set (a # as)" for x
      proof
        assume "same_key cmp k x"
        with \<open>same_key cmp k b\<close> have "cmp x b \<le> 0" using c(2) [of x k b] by (auto simp: same_key_def)
        moreover have "cmp a x \<le> 0" using x "1.prems"(2) c(3) by auto
        ultimately show False using False c(2) [of a x b] by blast
      qed
      then show ?thesis by (auto simp: filter_empty_conv)
    qed
    with False 1 show ?thesis by auto
  qed (use 1 in auto)
qed auto

section \<open>The slots\<close>

abbreviation key_filter :: "('a \<Rightarrow> 'a \<Rightarrow> int) \<Rightarrow> 'a \<Rightarrow> 'a list \<Rightarrow> 'a list" where
  "key_filter cmp k \<equiv> filter (same_key cmp k)"

lemma merge_up_eq:
  "merge_up cmp (pre @ qs) (length pre) cur =
     (let occ = takeWhile (\<lambda>p. p \<noteq> []) qs
      in (pre @ replicate (length occ) [] @ drop (length occ) qs, length pre + length occ, fold (merge cmp) occ cur))"
proof (induction qs arbitrary: pre cur)
  case Nil
  then show ?case by (subst merge_up.simps) simp
next
  case (Cons q qs)
  show ?case
  proof (cases "q = []")
    case True
    then show ?thesis by (subst merge_up.simps) simp
  next
    case False
    then have "merge_up cmp (pre @ q # qs) (length pre) cur = merge_up cmp ((pre @ [[]]) @ qs) (length (pre @ [[]])) (merge cmp q cur)"
      by (subst merge_up.simps) simp
    with Cons.IH [of "pre @ [[]]" "merge cmp q cur"] False show ?thesis by (simp add: Let_def)
  qed
qed

lemma fold_merge_spec:
  assumes "comparator cmp" and "\<forall>p \<in> set ps. sorted_by cmp p" and "sorted_by cmp cur"
  shows "sorted_by cmp (fold (merge cmp) ps cur)"
    and "key_filter cmp k (fold (merge cmp) ps cur) = key_filter cmp k (concat (rev ps)) @ key_filter cmp k cur"
    and "cur \<noteq> [] \<Longrightarrow> fold (merge cmp) ps cur \<noteq> []"
  using assms(2,3)
  by (induction ps arbitrary: cur) (auto simp: sorted_merge [OF assms(1)] filter_merge [OF assms(1)])

text \<open>What the slots hold when the nodes \<open>xs\<close> have been taken.\<close>

definition parts_inv :: "('a \<Rightarrow> 'a \<Rightarrow> int) \<Rightarrow> 'a list \<Rightarrow> 'a list list \<times> nat \<Rightarrow> bool" where
  "parts_inv cmp xs = (\<lambda>(part, max_lev).
     length part = 21 \<and> max_lev < 20 \<and> part ! 20 = [] \<and> (\<forall>l. max_lev < l \<longrightarrow> l < 21 \<longrightarrow> part ! l = []) \<and>
     (\<forall>p \<in> set part. sorted_by cmp p) \<and> (xs \<noteq> [] \<longrightarrow> part ! max_lev \<noteq> []) \<and> (xs = [] \<longrightarrow> max_lev = 0) \<and>
     (\<forall>k. key_filter cmp k (concat (rev part)) = key_filter cmp k xs))"

lemma parts_split:
  assumes "n < length part" and "part ! n = []"
  shows "concat (rev part) = concat (rev (drop (Suc n) part)) @ concat (rev (take n part))"
proof -
  have "part = take n part @ [] # drop (Suc n) part" using assms by (metis id_take_nth_drop)
  then have "rev part = rev (drop (Suc n) part) @ [[]] @ rev (take n part)" by (metis append.assoc rev.simps(2) rev_append append_Cons append_Nil)
  then show ?thesis by simp
qed

lemma sort_node_eq:
  fixes part :: "'a list list"
  assumes len: "length part = 21" and max: "max_lev < 20" and top: "part ! 20 = []"
  obtains n where "n \<le> 20" "part ! n = []" "\<And>i. i < n \<Longrightarrow> part ! i \<noteq> []"
    "sort_node cmp x (part, max_lev) =
      ((replicate n [] @ drop n part)[if n = 20 then 19 else n := fold (merge cmp) (take n part) [x]],
       if n > max_lev then (if n = 20 then 19 else n) else max_lev)"
proof -
  define occ where "occ = takeWhile (\<lambda>p. p \<noteq> []) part"
  define n where "n = length occ"
  have occ: "occ = take n part" unfolding occ_def n_def by (metis takeWhile_eq_take)
  have ne: "part ! i \<noteq> []" if "i < n" for i
    using that takeWhile_nth [of i "\<lambda>p. p \<noteq> []" part] nth_mem [of i occ] by (auto simp: n_def occ_def dest: set_takeWhileD)
  then have n: "n \<le> 20" using top by (meson not_le)
  moreover have "part ! n = []"
    using nth_length_takeWhile [of "\<lambda>p. p \<noteq> []" part] n len by (simp add: n_def occ_def)
  moreover have "merge_up cmp part 0 [x] = (replicate n [] @ drop n part, n, fold (merge cmp) occ [x])"
    using merge_up_eq [of cmp "[]" part "[x]"] by (simp add: occ_def n_def Let_def)
  then have "sort_node cmp x (part, max_lev) =
      ((replicate n [] @ drop n part)[if n = 20 then 19 else n := fold (merge cmp) (take n part) [x]],
       if n > max_lev then (if n = 20 then 19 else n) else max_lev)"
    using n max by (auto simp: sort_node_def Let_def MAX_LIST_LENGTH_BITS_def occ)
  ultimately show thesis using that ne by blast
qed

lemma sort_node_inv:
  assumes cmp: "comparator cmp" and inv: "parts_inv cmp xs (part, max_lev)"
  shows "parts_inv cmp (xs @ [x]) (sort_node cmp x (part, max_lev))"
proof -
  note inv' = inv [unfolded parts_inv_def, simplified]
  obtain n where n: "n \<le> 20" "part ! n = []" "\<And>i. i < n \<Longrightarrow> part ! i \<noteq> []" and
    step: "sort_node cmp x (part, max_lev) =
      ((replicate n [] @ drop n part)[if n = 20 then 19 else n := fold (merge cmp) (take n part) [x]],
       if n > max_lev then (if n = 20 then 19 else n) else max_lev)"
    using sort_node_eq [of part max_lev cmp x] inv' by metis
  define cur where "cur = fold (merge cmp) (take n part) [x]"
  have srt: "\<forall>p \<in> set (take n part). sorted_by cmp p" using inv' by (meson in_set_takeD)
  note cur = fold_merge_spec [OF cmp srt, of "[x]", folded cur_def, simplified]
  have key: "key_filter cmp k (concat (rev (drop (Suc n) part)) @ cur) = key_filter cmp k (xs @ [x])" for k
    using parts_split [of n part] n inv' cur(2) [of k] by simp
  let ?lev = "if n = 20 then 19 else n"
  let ?part = "(replicate n [] @ drop n part)[?lev := cur]"
  have nth: "?part ! i = (if i = ?lev then cur else if i < n then [] else part ! i)" if "i < 21" for i
    using that n(1) inv' by (auto simp: nth_append nth_list_update)
  have flat: "concat (rev ?part) = concat (rev (drop (Suc n) part)) @ cur"
  proof (cases "n = 20")
    case True
    then have "drop n part = [[]]" using inv' n(2) by (simp add: Cons_nth_drop_Suc [symmetric])
    then have "?part = replicate 19 [] @ [cur, []]"
      using True by (simp add: replicate_append_same [symmetric] numeral_eq_Suc)
    then show ?thesis using True inv' by simp
  next
    case False
    then have "drop n part = [] # drop (Suc n) part" using n inv' by (metis Cons_nth_drop_Suc le_neq_implies_less less_Suc_eq numeral_eq_Suc pred_numeral_simps(2) eval_nat_numeral(3) BitM.simps(2))
    then have "?part = replicate n [] @ cur # drop (Suc n) part" using False by (simp add: list_update_append)
    then show ?thesis by simp
  qed
  let ?max = "if n > max_lev then ?lev else max_lev"
  have "?max < 20" using inv' n(1) by auto
  moreover have "?part ! 20 = []" using nth [of 20] n(1,2) inv' by auto
  moreover have "?part ! l = []" if "?max < l" "l < 21" for l
    using nth [of l] that inv' n by (auto split: if_splits)
  moreover have "\<forall>p \<in> set ?part. sorted_by cmp p"
  proof
    fix p assume "p \<in> set ?part"
    then obtain i where "i < 21" "p = ?part ! i" using inv' n(1) by (auto simp: in_set_conv_nth)
    then show "sorted_by cmp p" using nth [of i] inv' cur(1) by simp
  qed
  moreover have "?part ! ?max \<noteq> []"
    using nth [of ?max] \<open>?max < 20\<close> inv' n cur(3) by (auto split: if_splits)
  ultimately show ?thesis
    unfolding step cur_def [symmetric] parts_inv_def using inv' n(1) key flat by simp
qed


lemma sort_parts_inv:
  assumes "comparator cmp"
  shows "parts_inv cmp nodes (sort_parts cmp nodes)"
proof (induction nodes rule: rev_induct)
  case Nil
  have "concat (replicate n []) = []" for n by (induction n) auto
  then show ?case by (auto simp: sort_parts_def parts_inv_def MAX_LIST_LENGTH_BITS_def)
next
  case (snoc x xs)
  obtain part max_lev where st: "sort_parts cmp xs = (part, max_lev)" by force
  have "sort_parts cmp (xs @ [x]) = sort_node cmp x (part, max_lev)" using st by (simp add: sort_parts_def)
  with sort_node_inv [OF assms, of xs part max_lev x] snoc st show ?case by simp
qed

lemma collect_parts_eq: "collect_parts cmp part m = fold (merge cmp) (take m part) []" if "m \<le> length part"
  using that
proof (induction m)
  case (Suc m)
  have "(if p \<noteq> [] then merge cmp p l else l) = merge cmp p l" for p l by simp
  with Suc show ?case by (simp add: collect_parts_def take_Suc_conv_app_nth)
qed (simp add: collect_parts_def)

lemma final_merge:
  assumes cmp: "comparator cmp" and st: "sort_parts cmp nodes = (part, max_lev)"
  defines "res \<equiv> merge cmp (part ! max_lev) (collect_parts cmp part max_lev)"
  shows "sorted_by cmp res" "key_filter cmp k res = key_filter cmp k nodes"
proof -
  note inv = sort_parts_inv [OF cmp, of nodes, unfolded st parts_inv_def, simplified]
  have srt: "\<forall>p \<in> set (take max_lev part). sorted_by cmp p" using inv by (meson in_set_takeD)
  have eq: "collect_parts cmp part max_lev = fold (merge cmp) (take max_lev part) []"
    using inv by (intro collect_parts_eq) simp
  note c = fold_merge_spec [OF cmp srt, of "[]", folded eq, simplified]
  have p: "sorted_by cmp (part ! max_lev)" using inv by simp
  show "sorted_by cmp res" unfolding res_def using cmp p c(1) by (rule sorted_merge)
  have "part = take max_lev part @ part ! max_lev # drop (Suc max_lev) part"
    using inv by (intro id_take_nth_drop) simp
  moreover have "concat (rev (drop (Suc max_lev) part)) = []"
    using inv by (auto simp: concat_eq_Nil_conv in_set_conv_nth)
  ultimately have "concat (rev part) = part ! max_lev @ concat (rev (take max_lev part))"
    by (metis append_Nil concat.simps(2) concat_append rev.simps(2) rev_append append.assoc append_Cons)
  then show "key_filter cmp k res = key_filter cmp k nodes"
    unfolding res_def filter_merge [OF cmp p] using c(2) inv by (metis filter_append)
qed

lemma mset_of_key_filters:
  assumes "comparator cmp" and "\<And>k. key_filter cmp k xs = key_filter cmp k ys"
  shows "mset xs = mset ys"
proof (rule multiset_eqI)
  fix x
  have "count (mset zs) x = count (mset (key_filter cmp x zs)) x" for zs
    using comparatorD(3) [OF assms(1), of x] by (simp add: same_key_def mset_filter)
  then show "count (mset xs) x = count (mset ys) x" using assms(2) by metis
qed

section \<open>Restoring the links\<close>

lemma restore_frame:
  "p \<noteq> tail \<Longrightarrow> p \<notin> set xs \<Longrightarrow> nx (restore_back_links head tail xs h) p = nx h p"
  "p \<noteq> head \<Longrightarrow> p \<notin> set xs \<Longrightarrow> pv (restore_back_links head tail xs h) p = pv h p"
  by (induction head tail xs h rule: restore_back_links.induct) auto

lemma restore_seg:
  "tail \<notin> set xs \<Longrightarrow> head \<notin> set xs \<Longrightarrow> distinct xs \<Longrightarrow> seg (restore_back_links head tail xs h) tail xs head"
  by (induction head tail xs h rule: restore_back_links.induct) (auto simp: restore_frame)

lemma merge_and_restore_eq:
  "merge_and_restore_back_links cmp head tail as bs h = restore_back_links head tail (merge cmp as bs) h"
  by (induction cmp head tail as bs h rule: merge_and_restore_back_links.induct) auto

lemma chain_nodes_seg:
  "seg h a xs b \<Longrightarrow> distinct xs \<Longrightarrow> NULL \<notin> set xs \<Longrightarrow> xs \<noteq> [] \<Longrightarrow> length xs \<le> fuel \<Longrightarrow>
     chain_nodes fuel ((nx h)(last xs := NULL)) (hd xs) = Some xs"
proof (induction xs arbitrary: a fuel)
  case (Cons x xs)
  then obtain f where f: "fuel = Suc f" by (cases fuel) auto
  show ?case
  proof (cases xs)
    case Nil
    with Cons.prems f show ?thesis by (simp add: chain_nodes.simps [of "Suc _"] chain_nodes.simps [of _ _ NULL])
  next
    case (Cons y ys)
    have "chain_nodes f ((nx h)(last xs := NULL)) (hd xs) = Some xs"
      using Cons.prems \<open>xs = y # ys\<close> f by (intro Cons.IH [of x]) auto
    moreover have "x \<noteq> last xs" using Cons.prems Cons by (metis distinct.simps(2) last_in_set list.distinct(1))
    ultimately show ?thesis using Cons.prems Cons f by (subst chain_nodes.simps) (auto split: if_splits)
  qed
qed simp

lemma list_sort_result:
  assumes cmp: "comparator cmp" and d: "dlist h head xs" and nn: "NULL \<notin> set xs" and fuel: "length xs \<le> fuel"
  shows "\<exists>h' ys. list_sort fuel cmp head h = Some h' \<and> dlist h' head ys \<and> sorted_by cmp ys \<and>
    (\<forall>k. key_filter cmp k ys = key_filter cmp k xs) \<and>
    (\<forall>p. p \<notin> set (head # xs) \<longrightarrow> nx h' p = nx h p \<and> pv h' p = pv h p)"
proof (cases "xs = []")
  case True
  with d dlist_empty_iff [OF d] show ?thesis by (intro exI [of _ h] exI [of _ "[]"]) (simp add: list_sort_def)
next
  case False
  let ?h = "set_next (pv h head) NULL h"
  have lst: "pv h head = last xs" using seg_last [of h head xs head] d False by (simp add: dlist_def)
  have hd: "nx h head = hd xs" using d False by (cases xs) (auto simp: dlist_def)
  have "last xs \<noteq> head" using d False by (auto simp: dlist_def)
  then have nodes: "chain_nodes fuel (nx ?h) (nx ?h head) = Some xs"
    using chain_nodes_seg [of h head xs head fuel] d False nn fuel by (simp add: dlist_def lst hd)
  obtain part m where st: "sort_parts cmp xs = (part, m)" by force
  let ?ys = "merge cmp (part ! m) (collect_parts cmp part m)"
  note f = final_merge [OF cmp st]
  have ms: "mset ?ys = mset xs" using mset_of_key_filters [OF cmp f(2)] .
  then have ys: "distinct ?ys" "set ?ys = set xs"
    using d by (metis dlist_def distinct.simps(2) mset_eq_imp_distinct_iff, metis mset_eq_setD)
  let ?h' = "restore_back_links head head ?ys ?h"
  have "list_sort fuel cmp head h = Some ?h'"
    using False dlist_empty_iff [OF d] nodes st by (simp add: list_sort_def Let_def merge_and_restore_eq)
  moreover have "dlist ?h' head ?ys"
    using restore_seg [of head ?ys head ?h] ys d by (auto simp: dlist_def)
  moreover have "nx ?h' p = nx h p \<and> pv ?h' p = pv h p" if "p \<notin> set (head # xs)" for p
    using that ys(2) False last_in_set [OF False] by (auto simp: restore_frame lst)
  ultimately show ?thesis using f by blast
qed

section \<open>Properties\<close>

text \<open>C14: sorting a well-linked list with a comparison function that is a total preorder ends with a
  well-linked list of the same nodes that is sorted and stable (the nodes of every key keep their
  order), and touches no other node. The walk needs no more fuel than the list has nodes.\<close>

theorem list_sort_sorts_stably:
  assumes "comparator cmp" and "dlist h head xs" and "NULL \<notin> set xs"
  shows "\<exists>h' ys. list_sort (length xs) cmp head h = Some h' \<and> dlist h' head ys \<and> mset ys = mset xs \<and>
    sorted_wrt (\<lambda>a b. cmp a b \<le> 0) ys \<and>
    (\<forall>k. filter (same_key cmp k) ys = filter (same_key cmp k) xs) \<and>
    (\<forall>p. p \<notin> set (head # xs) \<longrightarrow> nx h' p = nx h p \<and> pv h' p = pv h p)"
  using list_sort_result [OF assms le_refl] mset_of_key_filters [OF assms(1)] by metis

theorem list_sort_sorts_stably_witness:
  "\<exists>h' ys. list_sort 3 (\<lambda>a b. int (a div 10) - int (b div 10)) 5
      \<lparr>nx = (\<lambda>_. 0)(5 := 31, 31 := 12, 12 := 11, 11 := 5), pv = (\<lambda>_. 0)(5 := 11, 11 := 12, 12 := 31, 31 := 5)\<rparr> = Some h' \<and>
    dlist h' 5 ys \<and> mset ys = {#31, 12, 11#}"
proof -
  let ?c = "\<lambda>a b :: nat. int (a div 10) - int (b div 10)"
  let ?h = "\<lparr>nx = (\<lambda>_. 0)(5 := 31, 31 := 12, 12 := 11, 11 := 5), pv = (\<lambda>_. 0)(5 := 11, 11 := 12, 12 := 31, 31 := 5)\<rparr>"
  have c: "comparator ?c" unfolding comparator_def by (intro conjI allI) linarith+
  have d: "dlist ?h 5 [31, 12, 11]" by (simp add: dlist_def)
  have n: "NULL \<notin> set [31, 12, 11]" by (simp add: NULL_def)
  have l: "length [31, 12, 11 :: nat] = 3" by simp
  show ?thesis using list_sort_sorts_stably [OF c d n, unfolded l] by fastforce
qed

end
