(* ===== verification/Heap_Sort.thy ===== *)
theory Heap_Sort
  imports List_Sort "HOL-Library.Monad_Syntax"
begin

text \<open>
  \<open>src/algorithm/heap_sort.c\<close>: in-place heap sort of an array of \<open>num\<close> elements of \<open>size\<close> bytes. The
  array maps the byte offset of an element to its value, and the counters are the pre-scaled byte
  offsets of the source: C \<open>int\<close>s that are computed as \<open>size_t\<close>s and cut. The loops may not end and an \<open>int\<close>
  product may overflow, both \<open>None\<close>; on arrays of up to \<open>2\<^sup>3\<^sup>0\<close> bytes neither happens, and the code refines a
  heap sort on the indices of the elements.
\<close>

section \<open>The algorithm\<close>

text \<open>The value an \<open>int\<close> gets from a \<open>size_t\<close>.\<close>

definition c_int :: "u64 \<Rightarrow> int" where
  "c_int x = sint (ucast x :: u32)"

text \<open>\<open>u32_swap\<close>, \<open>u64_swap\<close> and \<open>generic_swap\<close> exchange two elements.\<close>

definition swap_at :: "('i \<Rightarrow> 'a) \<Rightarrow> 'i \<Rightarrow> 'i \<Rightarrow> ('i \<Rightarrow> 'a)" where
  "swap_at a i j = a(i := a j, j := a i)"

text \<open>The inner loop, the same in both phases: sift the element at \<open>r\<close> down in the first \<open>n\<close> bytes.
  \<open>r * 2\<close> is an \<open>int\<close>; adding the element size \<open>esize\<close> makes it a \<open>size_t\<close>, and \<open>n\<close> is compared as one.\<close>

partial_function (option) sift :: "('a \<Rightarrow> 'a \<Rightarrow> int) \<Rightarrow> u64 \<Rightarrow> int \<Rightarrow> int \<Rightarrow> (int \<Rightarrow> 'a) \<Rightarrow> (int \<Rightarrow> 'a) option" where
  "sift cmp esize n r a =
     (if r * 2 < - (2 ^ 31) \<or> r * 2 \<ge> 2 ^ 31 then None
      else if of_int (r * 2) + esize < of_int n then
        (let c = c_int (of_int (r * 2) + esize);
             c = (if of_int c < of_int n - esize \<and> cmp (a c) (a (c + uint esize)) < 0 then c_int (of_int c + esize) else c)
         in if cmp (a r) (a c) \<ge> 0 then Some a else sift cmp esize n c (swap_at a r c))
      else Some a)"

partial_function (option) heapify_loop :: "('a \<Rightarrow> 'a \<Rightarrow> int) \<Rightarrow> u64 \<Rightarrow> int \<Rightarrow> int \<Rightarrow> (int \<Rightarrow> 'a) \<Rightarrow> (int \<Rightarrow> 'a) option" where
  "heapify_loop cmp esize n i a =
     (if i \<ge> 0 then do { a \<leftarrow> sift cmp esize n i a; heapify_loop cmp esize n (c_int (of_int i - esize)) a }
      else Some a)"

partial_function (option) sort_loop :: "('a \<Rightarrow> 'a \<Rightarrow> int) \<Rightarrow> u64 \<Rightarrow> int \<Rightarrow> (int \<Rightarrow> 'a) \<Rightarrow> (int \<Rightarrow> 'a) option" where
  "sort_loop cmp esize i a =
     (if i > 0 then do { a \<leftarrow> sift cmp esize i 0 (swap_at a 0 i); sort_loop cmp esize (c_int (of_int i - esize)) a }
      else Some a)"

definition heap_sort :: "('a \<Rightarrow> 'a \<Rightarrow> int) \<Rightarrow> u64 \<Rightarrow> u64 \<Rightarrow> (int \<Rightarrow> 'a) \<Rightarrow> (int \<Rightarrow> 'a) option" where
  "heap_sort cmp num esize a =
     (let i = c_int ((num div 2 - 1) * esize); n = c_int (num * esize)
      in do { a \<leftarrow> heapify_loop cmp esize n i a; sort_loop cmp esize (c_int (of_int n - esize)) a })"

section \<open>Heap sort on indices\<close>

function sift_idx :: "('a \<Rightarrow> 'a \<Rightarrow> int) \<Rightarrow> nat \<Rightarrow> nat \<Rightarrow> (nat \<Rightarrow> 'a) \<Rightarrow> (nat \<Rightarrow> 'a)" where
  "sift_idx cmp n r a =
     (if 2 * r + 1 < n then
        let c = (if 2 * r + 1 < n - 1 \<and> cmp (a (2 * r + 1)) (a (2 * r + 2)) < 0 then 2 * r + 2 else 2 * r + 1)
        in if cmp (a r) (a c) \<ge> 0 then a else sift_idx cmp n c (swap_at a r c)
      else a)"
  by pat_completeness auto
termination
  by (relation "measure (\<lambda>(cmp, n, r, a). n - r)") (auto split: if_splits)

definition heap_sort_idx :: "('a \<Rightarrow> 'a \<Rightarrow> int) \<Rightarrow> nat \<Rightarrow> (nat \<Rightarrow> 'a) \<Rightarrow> (nat \<Rightarrow> 'a)" where
  "heap_sort_idx cmp num a =
     fold (\<lambda>k a. sift_idx cmp k 0 (swap_at a 0 k)) (rev [1..<num]) (fold (\<lambda>k. sift_idx cmp num k) (rev [0..<num div 2]) a)"

declare sift_idx.simps [simp del]

section \<open>Sifting restores the heap\<close>

text \<open>What the sort relies on of the comparison function: a total preorder whose sign flips with the
  order of the arguments.\<close>

definition sym_comparator :: "('a \<Rightarrow> 'a \<Rightarrow> int) \<Rightarrow> bool" where
  "sym_comparator cmp \<longleftrightarrow> comparator cmp \<and> (\<forall>a b. cmp a b \<le> 0 \<longleftrightarrow> 0 \<le> cmp b a)"

definition parent :: "nat \<Rightarrow> nat" where
  "parent c = (c - 1) div 2"

text \<open>Every parent from \<open>lo\<close> on dominates its children below \<open>n\<close>; \<open>almost_heap\<close> allows the children of
  \<open>r\<close> to be larger than \<open>r\<close>, but not than the parent of \<open>r\<close>.\<close>

definition heap_from :: "('a \<Rightarrow> 'a \<Rightarrow> int) \<Rightarrow> (nat \<Rightarrow> 'a) \<Rightarrow> nat \<Rightarrow> nat \<Rightarrow> bool" where
  "heap_from cmp b lo n \<longleftrightarrow> (\<forall>c. 0 < c \<longrightarrow> c < n \<longrightarrow> lo \<le> parent c \<longrightarrow> 0 \<le> cmp (b (parent c)) (b c))"

definition almost_heap :: "('a \<Rightarrow> 'a \<Rightarrow> int) \<Rightarrow> (nat \<Rightarrow> 'a) \<Rightarrow> nat \<Rightarrow> nat \<Rightarrow> nat \<Rightarrow> bool" where
  "almost_heap cmp b lo n r \<longleftrightarrow>
     (\<forall>c. 0 < c \<longrightarrow> c < n \<longrightarrow> lo \<le> parent c \<longrightarrow> parent c \<noteq> r \<longrightarrow> 0 \<le> cmp (b (parent c)) (b c)) \<and>
     (\<forall>c. 0 < c \<longrightarrow> c < n \<longrightarrow> parent c = r \<longrightarrow> 0 < r \<longrightarrow> lo \<le> parent r \<longrightarrow> 0 \<le> cmp (b (parent r)) (b c))"

lemma sym_comparatorD:
  assumes "sym_comparator cmp"
  shows "0 \<le> cmp a b \<or> 0 \<le> cmp b a" and "0 \<le> cmp a b \<Longrightarrow> 0 \<le> cmp b c \<Longrightarrow> 0 \<le> cmp a c"
    and "0 \<le> cmp a a" and "cmp a b \<le> 0 \<longleftrightarrow> 0 \<le> cmp b a"
  using assms comparatorD [of cmp] unfolding sym_comparator_def by metis+

lemma parent_cases:
  "0 < c \<Longrightarrow> parent c = r \<longleftrightarrow> c = 2 * r + 1 \<or> c = 2 * r + 2" "parent (2 * r + 1) = r" "parent (2 * r + 2) = r"
  "0 < c \<Longrightarrow> parent c < c"
  unfolding parent_def by presburger+

lemma sift_step:
  assumes "2 * r + 1 < n"
  obtains c where "c = 2 * r + 1 \<or> c = 2 * r + 2" "c < n"
    "c = 2 * r + 1 \<longrightarrow> 2 * r + 2 < n \<longrightarrow> \<not> cmp (b c) (b (2 * r + 2)) < 0"
    "c = 2 * r + 2 \<longrightarrow> cmp (b (2 * r + 1)) (b c) < 0"
    "sift_idx cmp n r b = (if cmp (b r) (b c) \<ge> 0 then b else sift_idx cmp n c (swap_at b r c))"
proof -
  define c where "c = (if 2 * r + 1 < n - 1 \<and> cmp (b (2 * r + 1)) (b (2 * r + 2)) < 0 then 2 * r + 2 else 2 * r + 1)"
  have "sift_idx cmp n r b = (if cmp (b r) (b c) \<ge> 0 then b else sift_idx cmp n c (swap_at b r c))"
    using assms by (subst sift_idx.simps) (simp add: Let_def c_def mult.commute)
  moreover have "c = 2 * r + 1 \<or> c = 2 * r + 2" "c < n"
    "c = 2 * r + 1 \<longrightarrow> 2 * r + 2 < n \<longrightarrow> \<not> cmp (b c) (b (2 * r + 2)) < 0"
    "c = 2 * r + 2 \<longrightarrow> cmp (b (2 * r + 1)) (b c) < 0"
    using assms by (auto simp: c_def split: if_splits)
  ultimately show thesis using that by blast
qed

lemma sift_none: "\<not> 2 * r + 1 < n \<Longrightarrow> sift_idx cmp n r b = b"
  by (subst sift_idx.simps) (simp add: mult.commute)

lemma sift_heap:
  assumes cmp: "sym_comparator cmp"
  shows "almost_heap cmp b lo n r \<Longrightarrow> lo \<le> r \<Longrightarrow> heap_from cmp (sift_idx cmp n r b) lo n"
proof (induction "n - r" arbitrary: r b rule: less_induct)
  case less
  note R = sym_comparatorD [OF cmp]
  show ?case
  proof (cases "2 * r + 1 < n")
    case False
    have "heap_from cmp b lo n"
      unfolding heap_from_def
    proof (intro allI impI)
      fix c assume c: "0 < c" "c < n" "lo \<le> parent c"
      then have "parent c \<noteq> r" using False parent_cases(1) [of c r] by auto
      with c less.prems show "0 \<le> cmp (b (parent c)) (b c)" by (auto simp: almost_heap_def)
    qed
    then show ?thesis unfolding sift_none [OF False] .
  next
    case True
    obtain c where c: "c = 2 * r + 1 \<or> c = 2 * r + 2" "c < n"
      "c = 2 * r + 1 \<longrightarrow> 2 * r + 2 < n \<longrightarrow> \<not> cmp (b c) (b (2 * r + 2)) < 0"
      "c = 2 * r + 2 \<longrightarrow> cmp (b (2 * r + 1)) (b c) < 0"
      "sift_idx cmp n r b = (if cmp (b r) (b c) \<ge> 0 then b else sift_idx cmp n c (swap_at b r c))"
      using True by (rule sift_step [of r n cmp b])
    have par: "parent c = r" "r < c" using c(1) parent_cases by auto
    have dom: "0 \<le> cmp (b c) (b d)" if "0 < d" "d < n" "parent d = r" for d
      using that parent_cases(1) [of d r] c(1,3,4) R(1,3,4) by (metis linorder_not_less order_less_imp_le)
    show ?thesis
    proof (cases "cmp (b r) (b c) \<ge> 0")
      case True
      have "heap_from cmp b lo n"
        unfolding heap_from_def
      proof (intro allI impI)
        fix d assume d: "0 < d" "d < n" "lo \<le> parent d"
        show "0 \<le> cmp (b (parent d)) (b d)"
          using less.prems(1) d dom [of d] True R(2) [of "b r" "b c" "b d"]
          by (cases "parent d = r") (auto simp: almost_heap_def)
      qed
      with True c(5) show ?thesis by simp
    next
      case False
      let ?b = "swap_at b r c"
      have "almost_heap cmp ?b lo n c"
        unfolding almost_heap_def
      proof (intro conjI allI impI)
        fix d assume d: "0 < d" "d < n" "lo \<le> parent d" "parent d \<noteq> c"
        have pd: "parent d < d" using d(1) by (rule parent_cases)
        show "0 \<le> cmp (?b (parent d)) (?b d)"
        proof (cases "parent d = r")
          case True
          then show ?thesis using dom [of d] d pd False R(1) [of "b r" "b c"] par by (auto simp: swap_at_def)
        next
          case ne: False
          show ?thesis
          proof (cases "d = r")
            case True
            then show ?thesis using less.prems(1) d c(2) par ne by (auto simp: swap_at_def almost_heap_def)
          next
            case False
            then show ?thesis using less.prems(1) d par ne by (auto simp: swap_at_def almost_heap_def)
          qed
        qed
      next
        fix d assume d: "0 < d" "d < n" "parent d = c" "0 < c" "lo \<le> parent c"
        have "parent d < d" using d(1) by (rule parent_cases)
        then show "0 \<le> cmp (?b (parent c)) (?b d)"
          using less.prems d par by (auto simp: swap_at_def almost_heap_def)
      qed
      then show ?thesis using less.hyps [of c ?b] par c(2,5) False less.prems(2) by simp
    qed
  qed
qed


section \<open>Sifting permutes\<close>

lemma mset_swap_at:
  assumes "i < n" "j < n"
  shows "mset (map (swap_at b i j) [0..<n]) = mset (map b [0..<n])"
proof -
  have "map (swap_at b i j) [0..<n] = (map b [0..<n])[i := map b [0..<n] ! j, j := map b [0..<n] ! i]"
    using assms by (intro nth_equalityI) (auto simp: swap_at_def nth_list_update)
  then show ?thesis using assms by (simp only: mset_swap length_map length_upt diff_zero)
qed

lemma sift_permutes:
  "r < n \<Longrightarrow> mset (map (sift_idx cmp n r b) [0..<n]) = mset (map b [0..<n]) \<and> (\<forall>j \<ge> n. sift_idx cmp n r b j = b j)"
proof (induction "n - r" arbitrary: r b rule: less_induct)
  case less
  show ?case
  proof (cases "2 * r + 1 < n")
    case False
    show ?thesis unfolding sift_none [OF False] by simp
  next
    case True
    obtain c where c: "c = 2 * r + 1 \<or> c = 2 * r + 2" "c < n"
      "sift_idx cmp n r b = (if cmp (b r) (b c) \<ge> 0 then b else sift_idx cmp n c (swap_at b r c))"
      using True by (rule sift_step [of r n cmp b]) blast
    show ?thesis
      using less.hyps [of c "swap_at b r c"] c(1,2) less.prems mset_swap_at [of r n c b]
      unfolding c(3) by (auto simp: swap_at_def)
  qed
qed

lemma sift_empty: "sift_idx cmp 0 r b = b"
  by (rule sift_none) simp

section \<open>The two phases\<close>

lemma heapify:
  assumes "sym_comparator cmp"
  shows "m \<le> num div 2 \<Longrightarrow>
    heap_from cmp (fold (\<lambda>k. sift_idx cmp num k) (rev [m..<num div 2]) b) m num \<and>
    mset (map (fold (\<lambda>k. sift_idx cmp num k) (rev [m..<num div 2]) b) [0..<num]) = mset (map b [0..<num])"
proof (induction "num div 2 - m" arbitrary: m)
  case 0
  then have "m = num div 2" by simp
  then show ?case by (auto simp: heap_from_def parent_def)
next
  case (Suc d)
  let ?b = "fold (\<lambda>k. sift_idx cmp num k) (rev [Suc m..<num div 2]) b"
  have m: "m < num div 2" using Suc.hyps(2) by simp
  have step: "fold (\<lambda>k. sift_idx cmp num k) (rev [m..<num div 2]) b = sift_idx cmp num m ?b"
    using m by (simp add: upt_conv_Cons)
  have ih: "heap_from cmp ?b (Suc m) num" "mset (map ?b [0..<num]) = mset (map b [0..<num])"
    using Suc.hyps(1) [of "Suc m"] Suc.hyps(2) m by auto
  have "almost_heap cmp ?b m num m"
    using ih(1) parent_cases(4) [of m] unfolding almost_heap_def heap_from_def by (auto simp: Suc_le_eq le_neq_implies_less)
  from sift_heap [OF assms this] sift_permutes [of m num cmp ?b] ih(2) m show ?case unfolding step by auto
qed

lemma heap_top:
  assumes cmp: "sym_comparator cmp" and h: "heap_from cmp b 0 n"
  shows "x < n \<Longrightarrow> 0 \<le> cmp (b 0) (b x)"
proof (induction x rule: less_induct)
  case (less x)
  show ?case
  proof (cases "x = 0")
    case False
    then have "parent x < x" by (simp add: parent_cases)
    with less False h show ?thesis
      using sym_comparatorD(2) [OF cmp, of "b 0" "b (parent x)" "b x"] by (auto simp: heap_from_def)
  qed (use sym_comparatorD(3) [OF cmp] in auto)
qed

text \<open>In the second phase the elements from \<open>k\<close> on are in place: sorted, and no smaller than those
  below.\<close>

definition sorted_tail :: "('a \<Rightarrow> 'a \<Rightarrow> int) \<Rightarrow> (nat \<Rightarrow> 'a) \<Rightarrow> nat \<Rightarrow> nat \<Rightarrow> bool" where
  "sorted_tail cmp b k num \<longleftrightarrow> (\<forall>i j. i < j \<longrightarrow> k \<le> j \<longrightarrow> j < num \<longrightarrow> 0 \<le> cmp (b j) (b i))"

lemma extract_max:
  assumes cmp: "sym_comparator cmp" and k: "0 < k" "k < num" and h: "heap_from cmp b 0 (Suc k)" and s: "sorted_tail cmp b (Suc k) num"
  defines "b' \<equiv> sift_idx cmp k 0 (swap_at b 0 k)"
  shows "heap_from cmp b' 0 k" "sorted_tail cmp b' k num" "mset (map b' [0..<num]) = mset (map b [0..<num])"
proof -
  let ?s = "swap_at b 0 k"
  have perm: "mset (map b' [0..<k]) = mset (map ?s [0..<k])" "\<And>j. j \<ge> k \<Longrightarrow> b' j = ?s j"
    using sift_permutes [of 0 k cmp ?s] k by (auto simp: b'_def)
  have "almost_heap cmp ?s 0 k 0"
    using h k unfolding almost_heap_def heap_from_def by (auto simp: swap_at_def) (metis less_SucI parent_cases(4) less_trans nat_neq_iff)
  then show "heap_from cmp b' 0 k" unfolding b'_def by (rule sift_heap [OF cmp]) simp
  have low: "\<exists>y \<le> k. b' i = b y" if "i < k" for i
  proof -
    have "b' i \<in># mset (map ?s [0..<k])" using that unfolding perm(1) [symmetric] by simp
    then obtain x where "x < k" "b' i = ?s x" by auto
    then show ?thesis by (cases "x = 0") (auto simp: swap_at_def intro!: exI [of _ "if x = 0 then k else x"])
  qed
  show "sorted_tail cmp b' k num"
    unfolding sorted_tail_def
  proof (intro allI impI)
    fix i j assume ij: "i < j" "k \<le> j" "j < num"
    show "0 \<le> cmp (b' j) (b' i)"
    proof (cases "j = k")
      case True
      then have "b' j = b 0" using perm(2) [of k] by (simp add: swap_at_def)
      with low [of i] ij True heap_top [OF cmp h] show ?thesis by auto
    next
      case False
      then have bj: "b' j = b j" using perm(2) [of j] ij k by (simp add: swap_at_def)
      obtain y where y: "b' i = b y" "y < j"
        using low [of i] perm(2) [of i] ij False k by (cases "i < k"; cases "i = k") (auto simp: swap_at_def)
      then show ?thesis using s ij False bj by (auto simp: sorted_tail_def)
    qed
  qed
  have split: "mset (map f [0..<num]) = mset (map f [0..<Suc k]) + mset (map f [Suc k..<num])" for f :: "nat \<Rightarrow> 'a"
    using k upt_add_eq_append [of 0 "Suc k" "num - Suc k"] by (metis Suc_leI le_add_diff_inverse map_append mset_append zero_le)
  have "mset (map b' [0..<Suc k]) = mset (map b [0..<Suc k])"
    using perm mset_swap_at [of 0 "Suc k" k b] by simp
  moreover have "map b' [Suc k..<num] = map b [Suc k..<num]"
    using perm(2) k by (auto simp: swap_at_def)
  ultimately show "mset (map b' [0..<num]) = mset (map b [0..<num])"
    unfolding split by (simp only:)
qed

lemma sort_phase:
  assumes cmp: "sym_comparator cmp"
  shows "k \<le> num \<Longrightarrow> 0 < k \<Longrightarrow> heap_from cmp b 0 k \<Longrightarrow> sorted_tail cmp b k num \<Longrightarrow>
    sorted_tail cmp (fold (\<lambda>k a. sift_idx cmp k 0 (swap_at a 0 k)) (rev [1..<k]) b) 1 num \<and>
    mset (map (fold (\<lambda>k a. sift_idx cmp k 0 (swap_at a 0 k)) (rev [1..<k]) b) [0..<num]) = mset (map b [0..<num])"
proof (induction k arbitrary: b)
  case (Suc k)
  show ?case
  proof (cases "k = 0")
    case True
    with Suc.prems show ?thesis by simp
  next
    case False
    let ?b = "sift_idx cmp k 0 (swap_at b 0 k)"
    have e: "heap_from cmp ?b 0 k" "sorted_tail cmp ?b k num" "mset (map ?b [0..<num]) = mset (map b [0..<num])"
      using extract_max [OF cmp, of k num b] Suc.prems False by auto
    have "fold (\<lambda>k a. sift_idx cmp k 0 (swap_at a 0 k)) (rev [1..<Suc k]) b =
        fold (\<lambda>k a. sift_idx cmp k 0 (swap_at a 0 k)) (rev [1..<k]) ?b"
      using False by simp
    with Suc.IH [of ?b] Suc.prems e False show ?thesis by simp
  qed
qed simp


lemma heap_sort_idx_sorts:
  assumes "sym_comparator cmp"
  shows "sorted_tail cmp (heap_sort_idx cmp num b) 1 num \<and> mset (map (heap_sort_idx cmp num b) [0..<num]) = mset (map b [0..<num])"
proof (cases "num = 0")
  case True
  then show ?thesis by (simp add: sorted_tail_def)
next
  case False
  let ?b = "fold (\<lambda>k. sift_idx cmp num k) (rev [0..<num div 2]) b"
  have h: "heap_from cmp ?b 0 num" "mset (map ?b [0..<num]) = mset (map b [0..<num])"
    using heapify [OF assms, of 0 num b] by auto
  have "sorted_tail cmp ?b num num" by (simp add: sorted_tail_def)
  from sort_phase [OF assms le_refl _ h(1) this] False h(2) show ?thesis
    by (simp add: heap_sort_idx_def)
qed

section \<open>The code refines the sort on indices\<close>

lemma c_int_of_int:
  assumes "- (2 ^ 31) \<le> x" "x < 2 ^ 31"
  shows "c_int (of_int x) = x"
proof -
  have "(ucast (of_int x :: u64) :: u32) = of_int x" by (rule bit_word_eqI) (simp add: bit_simps)
  then show ?thesis using assms by (simp add: c_int_def signed_of_int signed_take_bit_int_eq_self)
qed

lemma double_in_range: "0 \<le> x \<Longrightarrow> x < 2 ^ 30 \<Longrightarrow> \<not> (x * 2 < - (2 ^ 31) \<or> x * 2 \<ge> 2 ^ 31)" for x :: int
  by simp

lemma c_int_nat:
  assumes "n \<le> 2 ^ 30"
  shows "c_int (of_int (int n)) = int n"
  by (rule c_int_of_int) (use assms in simp_all)

lemma size_less_iff:
  assumes "0 \<le> x" "x < 2 ^ 63" "0 \<le> y" "y < 2 ^ 63"
  shows "(of_int x :: u64) < of_int y \<longleftrightarrow> x < y"
  using assms by (simp add: word_less_def uint_word_of_int_eq take_bit_int_eq_self)

lemma size_less_nat:
  assumes "x \<le> 2 ^ 32" "y \<le> 2 ^ 32"
  shows "(of_int (int x) :: u64) < of_int (int y) \<longleftrightarrow> x < y"
proof -
  have "int x < 2 ^ 63" "int y < 2 ^ 63" using assms by simp_all
  then show ?thesis using size_less_iff [of "int x" "int y"] by simp
qed

text \<open>The elements behind the byte offsets.\<close>

definition view :: "nat \<Rightarrow> (int \<Rightarrow> 'a) \<Rightarrow> (nat \<Rightarrow> 'a)" where
  "view sz a = (\<lambda>k. a (int (k * sz)))"

lemma view_swap: "0 < sz \<Longrightarrow> view sz (swap_at a (int (i * sz)) (int (j * sz))) = swap_at (view sz a) i j"
  by (auto simp: view_def swap_at_def fun_eq_iff)

text \<open>The offsets of the children stay in range.\<close>

lemma sift_offsets:
  assumes sz: "esize = of_int (int sz)" "0 < sz" and m: "m * sz \<le> 2 ^ 30" and bound: "sz \<le> 2 ^ 30" and k: "k < m \<or> k = 0"
  shows "\<not> (int (k * sz) * 2 < - (2 ^ 31) \<or> int (k * sz) * 2 \<ge> 2 ^ 31)"
    and "of_int (int (k * sz) * 2) + esize = of_int (int ((2 * k + 1) * sz))"
    and "(2 * k + 1) * sz \<le> 2 ^ 32" and "m * sz \<le> 2 ^ 32"
    and "(of_int (int ((2 * k + 1) * sz)) :: u64) < of_int (int (m * sz)) \<longleftrightarrow> 2 * k + 1 < m"
proof -
  have "k * sz < 2 ^ 30"
  proof (cases "k = 0")
    case False
    then have "k * sz < m * sz" using k sz(2) by simp
    then show ?thesis using m by (rule less_le_trans)
  qed simp
  then have kb: "int (k * sz) < 2 ^ 30" "k * sz \<le> 2 ^ 30" by (simp_all del: of_nat_mult)
  show "\<not> (int (k * sz) * 2 < - (2 ^ 31) \<or> int (k * sz) * 2 \<ge> 2 ^ 31)" by (rule double_in_range [OF of_nat_0_le_iff kb(1)])
  have "int (k * sz) * 2 + int sz = int ((2 * k + 1) * sz)" by (simp add: algebra_simps)
  then show "of_int (int (k * sz) * 2) + esize = of_int (int ((2 * k + 1) * sz))" unfolding sz(1) of_int_add [symmetric] by (rule arg_cong)
  have e: "(2 * k + 1) * sz = 2 * (k * sz) + sz" by (simp add: algebra_simps)
  have "2 * (k * sz) + sz \<le> 2 * 2 ^ 30 + 2 ^ 30" using kb(2) bound by (intro add_mono mult_le_mono2)
  then show km: "(2 * k + 1) * sz \<le> 2 ^ 32" unfolding e by simp
  show m32: "m * sz \<le> 2 ^ 32" by (rule order.trans [OF m]) simp
  show "(of_int (int ((2 * k + 1) * sz)) :: u64) < of_int (int (m * sz)) \<longleftrightarrow> 2 * k + 1 < m"
    unfolding size_less_nat [OF km m32] using sz(2) mult_less_cancel2 [of "2 * k + 1" sz m] by blast
qed

text \<open>The child the code compares with.\<close>

lemma sift_child:
  fixes a :: "int \<Rightarrow> 'a" and cmp :: "'a \<Rightarrow> 'a \<Rightarrow> int"
  assumes sz: "esize = of_int (int sz)" "0 < sz" and m: "m * sz \<le> 2 ^ 30" and bound: "sz \<le> 2 ^ 30" and k: "2 * k + 1 < m"
  defines "c \<equiv> if 2 * k + 1 < m - 1 \<and> cmp (view sz a (2 * k + 1)) (view sz a (2 * k + 2)) < 0 then 2 * k + 2 else 2 * k + 1"
  shows "(if (of_int (int ((2 * k + 1) * sz)) :: u64) < of_int (int (m * sz)) - esize \<and>
      cmp (a (int ((2 * k + 1) * sz))) (a (int ((2 * k + 1) * sz) + uint esize)) < 0
    then c_int (of_int (int ((2 * k + 1) * sz)) + esize) else int ((2 * k + 1) * sz)) = int (c * sz)"
proof -
  have k': "k < m \<or> k = 0" using k by linarith
  note o = sift_offsets [OF sz m bound k']
  have add2: "of_int (int ((2 * k + 1) * sz)) + esize = of_int (int ((2 * k + 2) * sz))"
    unfolding sz(1) of_int_add [symmetric] by (simp add: algebra_simps)
  have "int (m * sz) - int sz = int ((m - 1) * sz)" using k by (simp add: algebra_simps of_nat_diff)
  then have dec: "of_int (int (m * sz)) - esize = (of_int (int ((m - 1) * sz)) :: u64)" unfolding sz(1) of_int_diff [symmetric] by simp
  have "(m - 1) * sz \<le> m * sz" by (intro mult_le_mono1) simp
  then have m1: "(m - 1) * sz \<le> 2 ^ 32" using o(4) by (rule order.trans)
  have lt: "(of_int (int ((2 * k + 1) * sz)) :: u64) < of_int (int (m * sz)) - esize \<longleftrightarrow> 2 * k + 1 < m - 1"
    unfolding dec size_less_nat [OF o(3) m1] using sz(2) mult_less_cancel2 [of "2 * k + 1" sz "m - 1"] by blast
  have c2: "c_int (of_int (int ((2 * k + 2) * sz))) = int ((2 * k + 2) * sz)" if "2 * k + 1 < m - 1"
  proof -
    have "(2 * k + 2) * sz \<le> m * sz" using that by (intro mult_le_mono1) simp
    then show ?thesis by (intro c_int_nat) (use m in linarith)
  qed
  have "uint esize = int sz" using bound unfolding sz(1) uint_word_of_int_eq by (intro take_bit_int_eq_self) simp_all
  then have u: "int ((2 * k + 1) * sz) + uint esize = int ((2 * k + 2) * sz)" by (simp add: algebra_simps)
  show ?thesis unfolding lt u add2 using c2 by (simp add: c_def view_def del: of_nat_mult)
qed

lemma sift_refines:
  assumes sz: "esize = of_int (int sz)" "0 < sz" and m: "m * sz \<le> 2 ^ 30" and bound: "sz \<le> 2 ^ 30"
  shows "k < m \<or> k = 0 \<Longrightarrow> \<exists>a'. sift cmp esize (int (m * sz)) (int (k * sz)) a = Some a' \<and> view sz a' = sift_idx cmp m k (view sz a)"
proof (induction "m - k" arbitrary: k a rule: less_induct)
  case less
  note o = sift_offsets [OF sz m bound less.prems]
  show ?case
  proof (cases "2 * k + 1 < m")
    case False
    have "sift cmp esize (int (m * sz)) (int (k * sz)) a = Some a"
      using False o(1) by (subst sift.simps) (simp only: o(2,5) if_False simp_thms)
    moreover have "sift_idx cmp m k (view sz a) = view sz a" using False by (subst sift_idx.simps) simp
    ultimately show ?thesis by simp
  next
    case True
    define c where "c = (if 2 * k + 1 < m - 1 \<and> cmp (view sz a (2 * k + 1)) (view sz a (2 * k + 2)) < 0 then 2 * k + 2 else 2 * k + 1)"
    note cc = sift_child [OF sz m bound True, of cmp a, folded c_def]
    have cm: "c < m" "k < c" using True by (auto simp: c_def)
    have "(2 * k + 1) * sz \<le> m * sz" using True by (intro mult_le_mono1) simp
    then have c1: "c_int (of_int (int ((2 * k + 1) * sz))) = int ((2 * k + 1) * sz)" by (intro c_int_nat) (use m in linarith)
    have L: "sift cmp esize (int (m * sz)) (int (k * sz)) a =
        (if cmp (a (int (k * sz))) (a (int (c * sz))) \<ge> 0 then Some a
         else sift cmp esize (int (m * sz)) (int (c * sz)) (swap_at a (int (k * sz)) (int (c * sz))))"
      using True o(1) by (subst sift.simps) (simp only: o(2,5) c1 cc Let_def if_True if_False simp_thms)
    have R: "sift_idx cmp m k (view sz a) =
        (if cmp (view sz a k) (view sz a c) \<ge> 0 then view sz a else sift_idx cmp m c (swap_at (view sz a) k c))"
      using True by (subst sift_idx.simps) (simp add: Let_def c_def)
    have v: "a (int (k * sz)) = view sz a k" "a (int (c * sz)) = view sz a c" by (simp_all add: view_def)
    have "\<exists>a'. sift cmp esize (int (m * sz)) (int (c * sz)) (swap_at a (int (k * sz)) (int (c * sz))) = Some a' \<and>
        view sz a' = sift_idx cmp m c (swap_at (view sz a) k c)"
      using less.hyps [of c "swap_at a (int (k * sz)) (int (c * sz))"] cm diff_less_mono2 [OF cm(2), of m] less_trans [OF cm(2,1)]
      unfolding view_swap [OF sz(2)] by blast
    then show ?thesis unfolding L R v by simp
  qed
qed

lemma heapify_refines:
  assumes sz: "esize = of_int (int sz)" "0 < sz" and m: "m * sz \<le> 2 ^ 30" and bound: "sz \<le> 2 ^ 30"
  shows "k \<le> m \<Longrightarrow> \<exists>a'. heapify_loop cmp esize (int (m * sz)) (int (k * sz) - int sz) a = Some a' \<and>
    view sz a' = fold (\<lambda>k. sift_idx cmp m k) (rev [0..<k]) (view sz a)"
proof (induction k arbitrary: a)
  case 0
  then show ?case using sz(2) by (subst heapify_loop.simps) simp
next
  case (Suc k)
  have i: "int (Suc k * sz) - int sz = int (k * sz)" by simp
  have "k * sz \<le> m * sz" using Suc.prems by (intro mult_le_mono1) simp
  then have kb: "k * sz \<le> 2 ^ 30" using m by (rule order.trans)
  have "int (k * sz) - int sz < 2 ^ 31" "- (2 ^ 31) \<le> int (k * sz) - int sz"
    using kb bound by (simp_all del: of_nat_mult)
  then have d: "c_int (of_int (int (k * sz)) - esize) = int (k * sz) - int sz"
    unfolding sz(1) of_int_diff [symmetric] by (intro c_int_of_int)
  obtain a1 where a1: "sift cmp esize (int (m * sz)) (int (k * sz)) a = Some a1" "view sz a1 = sift_idx cmp m k (view sz a)"
    using sift_refines [OF sz m bound, of k cmp a] Suc.prems by auto
  obtain a' where "heapify_loop cmp esize (int (m * sz)) (int (k * sz) - int sz) a1 = Some a'"
    "view sz a' = fold (\<lambda>k. sift_idx cmp m k) (rev [0..<k]) (view sz a1)" using Suc.IH [of a1] Suc.prems by auto
  then show ?case unfolding i using a1 by (subst heapify_loop.simps) (simp add: d del: of_nat_mult of_int_of_nat_eq)
qed

lemma sort_refines:
  assumes sz: "esize = of_int (int sz)" "0 < sz" and bound: "sz \<le> 2 ^ 30"
  shows "k * sz \<le> 2 ^ 30 \<Longrightarrow> \<exists>a'. sort_loop cmp esize (int (k * sz) - int sz) a = Some a' \<and>
    view sz a' = fold (\<lambda>k a. sift_idx cmp k 0 (swap_at a 0 k)) (rev [1..<k]) (view sz a)"
proof (induction k arbitrary: a)
  case 0
  then show ?case using sz(2) by (subst sort_loop.simps) simp
next
  case (Suc k)
  have i: "int (Suc k * sz) - int sz = int (k * sz)" by simp
  show ?case
  proof (cases "k = 0")
    case True then show ?thesis by (subst sort_loop.simps) simp
  next
    case False
    have kb: "k * sz \<le> 2 ^ 30" using Suc.prems by simp
    have "int (k * sz) - int sz < 2 ^ 31" "- (2 ^ 31) \<le> int (k * sz) - int sz"
      using kb bound by (simp_all del: of_nat_mult)
    then have d: "c_int (of_int (int (k * sz)) - esize) = int (k * sz) - int sz"
      unfolding sz(1) of_int_diff [symmetric] by (intro c_int_of_int)
    have pos: "int (k * sz) > 0" using False sz(2) by simp
    have v: "view sz (swap_at a 0 (int (k * sz))) = swap_at (view sz a) 0 k" using view_swap [OF sz(2), of a 0 k] by simp
    obtain a1 where a1: "sift cmp esize (int (k * sz)) 0 (swap_at a 0 (int (k * sz))) = Some a1"
      "view sz a1 = sift_idx cmp k 0 (swap_at (view sz a) 0 k)"
      using sift_refines [OF sz kb bound, of 0 cmp "swap_at a 0 (int (k * sz))"] unfolding v by auto
    obtain a' where a': "sort_loop cmp esize (int (k * sz) - int sz) a1 = Some a'"
      "view sz a' = fold (\<lambda>k a. sift_idx cmp k 0 (swap_at a 0 k)) (rev [1..<k]) (view sz a1)" using Suc.IH [OF kb, of a1] by auto
    have "sort_loop cmp esize (int (k * sz)) a = Some a'" using pos a1(1) a'(1) by (subst sort_loop.simps) (simp add: d del: of_nat_mult of_int_of_nat_eq)
    then show ?thesis unfolding i using a'(2) a1(2) False by simp
  qed
qed

lemma heap_sort_refines:
  assumes "0 < esize" "unat esize \<le> 2 ^ 30" "unat num * unat esize \<le> 2 ^ 30"
  shows "\<exists>a'. heap_sort cmp num esize a = Some a' \<and> view (unat esize) a' = heap_sort_idx cmp (unat num) (view (unat esize) a)"
proof -
  define sz N where "sz = unat esize" and "N = unat num"
  have sz: "esize = of_int (int sz)" "0 < sz" "sz \<le> 2 ^ 30" "N * sz \<le> 2 ^ 30"
    using assms by (simp_all add: sz_def N_def word_greater_zero_iff unat_gt_0)
  have num: "num = of_int (int N)" "num div 2 = of_int (int (N div 2))"
  proof -
    show "num = of_int (int N)" by (simp add: N_def)
    have "unat (num div 2) = N div 2" by (simp add: N_def unat_div)
    then have "of_int (int (N div 2)) = (of_nat (unat (num div 2)) :: u64)" by simp
    then show "num div 2 = of_int (int (N div 2))" by simp
  qed
  have half: "N div 2 * sz \<le> 2 ^ 30" by (rule order.trans [OF mult_le_mono1 sz(4)]) simp
  have "(num div 2 - 1) * esize = of_int (int (N div 2 * sz) - int sz)"
    unfolding num(2) sz(1) by (simp add: algebra_simps)
  moreover have "c_int (of_int (int (N div 2 * sz) - int sz)) = int (N div 2 * sz) - int sz"
    by (rule c_int_of_int) (use half sz(3) in \<open>simp_all del: of_nat_mult\<close>)
  ultimately have i: "c_int ((num div 2 - 1) * esize) = int (N div 2 * sz) - int sz" by simp
  have "num * esize = of_int (int (N * sz))" unfolding num(1) sz(1) by simp
  then have n: "c_int (num * esize) = int (N * sz)" using c_int_nat [OF sz(4)] by simp
  have d: "c_int (of_int (int (N * sz)) - esize) = int (N * sz) - int sz"
    unfolding sz(1) of_int_diff [symmetric] by (rule c_int_of_int) (use sz(3,4) in \<open>simp_all del: of_nat_mult\<close>)
  obtain a1 where a1: "heapify_loop cmp esize (int (N * sz)) (int (N div 2 * sz) - int sz) a = Some a1"
    "view sz a1 = fold (\<lambda>k. sift_idx cmp N k) (rev [0..<N div 2]) (view sz a)" using heapify_refines [OF sz(1,2,4,3), of "N div 2" cmp a] by auto
  obtain a' where a': "sort_loop cmp esize (int (N * sz) - int sz) a1 = Some a'"
    "view sz a' = fold (\<lambda>k a. sift_idx cmp k 0 (swap_at a 0 k)) (rev [1..<N]) (view sz a1)" using sort_refines [OF sz(1-4)] by blast
  have "heap_sort cmp num esize a = Some a'" using a1(1) a'(1) by (simp add: heap_sort_def Let_def i n d del: of_nat_mult of_int_of_nat_eq)
  then show ?thesis using a1(2) a'(2) by (simp add: heap_sort_idx_def sz_def N_def)
qed

section \<open>Properties\<close>

text \<open>C16: on an array of up to \<open>2\<^sup>3\<^sup>0\<close> bytes, for every element size and a comparison function that is a total preorder, \<open>heap_sort\<close>
  ends, without an overflow of its \<open>int\<close> counters, and leaves the same elements in ascending order.\<close>

theorem heap_sort_sorts:
  assumes "sym_comparator cmp" and "0 < esize" "unat esize \<le> 2 ^ 30" "unat num * unat esize \<le> 2 ^ 30"
  shows "\<exists>a'. heap_sort cmp num esize a = Some a' \<and>
    sorted_wrt (\<lambda>x y. cmp x y \<le> 0) (map (\<lambda>k. a' (int (k * unat esize))) [0..<unat num]) \<and>
    mset (map (\<lambda>k. a' (int (k * unat esize))) [0..<unat num]) = mset (map (\<lambda>k. a (int (k * unat esize))) [0..<unat num])"
proof -
  obtain a' where a': "heap_sort cmp num esize a = Some a'" "view (unat esize) a' = heap_sort_idx cmp (unat num) (view (unat esize) a)"
    using heap_sort_refines [OF assms(2-4)] by blast
  then have v: "a' (int (k * unat esize)) = heap_sort_idx cmp (unat num) (view (unat esize) a) k" for k
    by (metis view_def)
  have "cmp x y \<le> 0 \<longleftrightarrow> 0 \<le> cmp y x" for x y using assms(1) by (rule sym_comparatorD)
  with heap_sort_idx_sorts [OF assms(1), of "unat num" "view (unat esize) a"] a'(1) show ?thesis
    unfolding v by (intro exI [of _ a']) (simp add: v sorted_tail_def sorted_wrt_iff_nth_less view_def del: of_nat_mult)
qed

theorem heap_sort_sorts_witness:
  "\<exists>a'. heap_sort (\<lambda>x y. x - y) 3 4 ((\<lambda>_. 0)(0 := 3, 4 := 1, 8 := 2 :: int)) = Some a' \<and>
    mset (map (\<lambda>k. a' (int (k * 4))) [0..<3]) = {#1, 2, 3#}"
proof -
  have "sym_comparator (\<lambda>x y. x - y :: int)" by (auto simp: sym_comparator_def comparator_def)
  from heap_sort_sorts [OF this, of 4 3 "(\<lambda>_. 0)(0 := 3, 4 := 1, 8 := 2)"] show ?thesis
    by (simp add: upt_rec [of _ 3] add_mset_commute) blast
qed

end
