(* ===== verification/Uref.thy ===== *)
theory Uref
  imports Skp_Prelude
begin

text \<open>
  \<open>include/skp/utils/uref.h\<close>: reference counts. The counter is a 32-bit atomic integer that the
  checks read as signed. Each operation is one atomic step, or a loop around one compare-and-exchange
  whose last, successful round is modelled.
\<close>

type_synonym uref_t = u32

section \<open>Operations\<close>

definition uref_init :: uref_t where "uref_init = 1"

definition uref_read :: "uref_t \<Rightarrow> u32" where "uref_read r = r"

definition uref_get :: "uref_t \<Rightarrow> uref_t" where "uref_get r = r + 1"

text \<open>\<open>atomic_dec_and_test\<close>: the new value, and whether it is zero.\<close>

definition u_uref_put :: "uref_t \<Rightarrow> bool \<times> uref_t" where
  "u_uref_put r = (r - 1 = 0, r - 1)"

text \<open>\<open>None\<close> is \<open>BUG()\<close>: the counter is negative, saturated or would overflow.\<close>

definition u_uref_add_not_zero :: "u32 \<Rightarrow> uref_t \<Rightarrow> (bool \<times> uref_t) option" where
  "u_uref_add_not_zero i r =
     (if r = 0 then Some (False, r)
      else if sint r < 0 \<or> r = 0x7fffffff \<or> sint (r + i) < sint r then None
      else Some (True, r + i))"

definition uref_get_unless_zero :: "uref_t \<Rightarrow> (bool \<times> uref_t) option" where
  "uref_get_unless_zero r = u_uref_add_not_zero 1 r"

section \<open>Counting\<close>

text \<open>The counter stands for a number of holders below \<open>2\<^sup>3\<^sup>1\<close>.\<close>

definition uref_counts :: "uref_t \<Rightarrow> nat \<Rightarrow> bool" where
  "uref_counts r n \<longleftrightarrow> unat r = n \<and> n < 2 ^ 31"

lemma uref_counts_init: "uref_counts uref_init 1"
  by (simp add: uref_counts_def uref_init_def)

lemma uref_counts_get: "uref_counts r n \<Longrightarrow> n + 1 < 2 ^ 31 \<Longrightarrow> uref_counts (uref_get r) (n + 1)"
  by (simp add: uref_counts_def uref_get_def unat_word_ariths)

lemma uref_counts_put:
  assumes "uref_counts r (Suc n)"
  shows "uref_counts (snd (u_uref_put r)) n" and "fst (u_uref_put r) \<longleftrightarrow> n = 0"
proof -
  have "r \<noteq> 0" using assms by (auto simp: uref_counts_def)
  then have "unat (r - 1) = n" using assms by (simp add: uref_counts_def unat_minus_one)
  then show "uref_counts (snd (u_uref_put r)) n" "fst (u_uref_put r) \<longleftrightarrow> n = 0"
    using assms by (auto simp: uref_counts_def u_uref_put_def unat_eq_zero)
qed

lemma uref_counts_get_unless_zero:
  assumes "uref_counts r n" and "n + 1 < 2 ^ 31"
  shows "uref_get_unless_zero r = (if n = 0 then Some (False, r) else Some (True, uref_get r))"
proof -
  have r: "unat r = n" using assms(1) by (simp add: uref_counts_def)
  have s: "sint r = int n" "sint (r + 1) = int n + 1"
    using assms r by (simp_all add: sint_uint signed_take_bit_int_eq_self uint_nat unat_word_ariths)
  have "r \<noteq> 0x7fffffff" using assms(2) r by auto
  moreover have "r = 0 \<longleftrightarrow> n = 0" using r by (auto simp: unat_eq_zero)
  ultimately show ?thesis using s by (simp add: uref_get_unless_zero_def u_uref_add_not_zero_def uref_get_def)
qed

end
