(* ===== verification/Pbuff.thy ===== *)
theory Pbuff
  imports Bitops Uref "HOL-Library.Monad_Syntax"
begin

text \<open>
  \<open>include/skp/utils/pbuff.h\<close> and \<open>src/utils/pbuff.c\<close>: packet buffers. A control structure points into
  a data block; clones share the block, which carries its own reference count and is freed with the
  last of them. The store holds both kinds of object by address. The pointers \<open>data\<close> and \<open>tail\<close> are
  offsets from the start of the block and \<open>end\<close> is its length. The shared information behind the data
  keeps that length cut to the 32-bit \<open>datalen\<close>, from which \<open>pb_head\<close> finds the start of the block: it
  is right below 4 GiB only. \<open>None\<close> is a \<open>BUG()\<close>, an access to an object that does not exist, or a
  \<open>free\<close> of an address that is not the start of a block. The callbacks of \<open>pb_ops\<close> only initialise
  derived structures and are not modelled; what \<open>malloc\<close> and the constructor return is an argument.
\<close>

section \<open>State\<close>

record pblock =
  bytes :: "u8 list"
  dataref :: uref_t
  datalen :: u32

record pbuff =
  users :: uref_t
  cloned :: bool
  blk :: nat
  pdata :: nat
  ptail :: nat

record pstore =
  blocks :: "nat \<Rightarrow> pblock option"
  pbufs :: "nat \<Rightarrow> pbuff option"

definition set_pb :: "nat \<Rightarrow> pbuff \<Rightarrow> pstore \<Rightarrow> pstore" where
  "set_pb p pb s = s\<lparr>pbufs := (pbufs s)(p \<mapsto> pb)\<rparr>"

definition set_blk :: "nat \<Rightarrow> pblock \<Rightarrow> pstore \<Rightarrow> pstore" where
  "set_blk b x s = s\<lparr>blocks := (blocks s)(b \<mapsto> x)\<rparr>"

definition SHINFO :: nat where "SHINFO = 8"

text \<open>The control structure and its block.\<close>

definition pb_block :: "pstore \<Rightarrow> nat \<Rightarrow> (pbuff \<times> pblock) option" where
  "pb_block s p = do { pb \<leftarrow> pbufs s p; b \<leftarrow> blocks s (blk pb); Some (pb, b) }"

definition pb_headlen :: "pbuff \<Rightarrow> nat" where "pb_headlen pb = ptail pb - pdata pb"

definition pb_size :: "pblock \<Rightarrow> nat" where "pb_size b = unat (datalen b)"

text \<open>The start of the block, found by going back \<open>datalen\<close> bytes from its end.\<close>

definition pb_head :: "pblock \<Rightarrow> nat" where "pb_head b = length (bytes b) - unat (datalen b)"

definition pb_headroom :: "pbuff \<Rightarrow> pblock \<Rightarrow> nat" where
  "pb_headroom pb b = nat ((int (pdata pb) - int (pb_head b)) mod 2 ^ 64)"

definition pb_tailroom :: "pbuff \<Rightarrow> pblock \<Rightarrow> nat" where "pb_tailroom pb b = length (bytes b) - ptail pb"

definition pb_shared :: "pbuff \<Rightarrow> bool" where "pb_shared pb = (uref_read (users pb) \<noteq> 1)"

definition pb_cloned :: "pbuff \<Rightarrow> pblock \<Rightarrow> bool" where
  "pb_cloned pb b = (cloned pb \<and> uref_read (dataref b) \<noteq> 1)"

definition align_up :: "nat \<Rightarrow> nat" where
  "align_up n = (n + SHINFO - 1) mod 2 ^ 64 div SHINFO * SHINFO"

section \<open>Allocation and release\<close>

text \<open>\<open>new\<close> is the control structure from the constructor, \<open>mem\<close> the block from \<open>malloc\<close> with the
  bytes it happens to hold; a null result is \<open>None\<close>. The inner result is the returned pointer. When
  the length with the shared information does not fit \<open>size_t\<close> the latter is written outside the block.\<close>

definition u_alloc_pb ::
    "pstore \<Rightarrow> nat option \<Rightarrow> (nat \<times> (nat \<Rightarrow> u8)) option \<Rightarrow> nat \<Rightarrow> (nat option \<times> pstore) option" where
  "u_alloc_pb s new mem sz =
     (case (new, mem) of
        (Some p, Some (b, junk)) \<Rightarrow>
          if align_up sz + SHINFO \<ge> 2 ^ 64 then None
          else Some (Some p, set_pb p \<lparr>users = uref_init, cloned = False, blk = b, pdata = 0, ptail = 0\<rparr>
             (set_blk b \<lparr>bytes = map junk [0..<align_up sz], dataref = uref_init, datalen = of_nat (align_up sz)\<rparr> s))
      | _ \<Rightarrow> Some (None, s))"

definition pb_release_data :: "pstore \<Rightarrow> nat \<Rightarrow> pstore option" where
  "pb_release_data s p = do {
     (pb, b) \<leftarrow> pb_block s p;
     let (zero, r) = u_uref_put (dataref b);
     if zero then
       (if pb_head b = 0 then Some (s\<lparr>blocks := (blocks s)(blk pb := None)\<rparr>) else None)
     else Some (set_blk (blk pb) (b\<lparr>dataref := r\<rparr>) s) }"

definition u_free_pb :: "pstore \<Rightarrow> nat \<Rightarrow> pstore option" where
  "u_free_pb s p = do {
     s \<leftarrow> pb_release_data s p;
     Some (s\<lparr>pbufs := (pbufs s)(p := None)\<rparr>) }"

definition free_pb :: "pstore \<Rightarrow> nat \<Rightarrow> pstore option" where
  "free_pb s p = do {
     pb \<leftarrow> pbufs s p;
     let (zero, r) = u_uref_put (users pb);
     let s = set_pb p (pb\<lparr>users := r\<rparr>) s;
     if zero then u_free_pb s p else Some s }"

definition pb_get :: "pstore \<Rightarrow> nat \<Rightarrow> (bool \<times> pstore) option" where
  "pb_get s p = do {
     pb \<leftarrow> pbufs s p;
     (ok, r) \<leftarrow> uref_get_unless_zero (users pb);
     Some (ok, set_pb p (pb\<lparr>users := r\<rparr>) s) }"

definition pb_reset :: "pstore \<Rightarrow> nat \<Rightarrow> (bool \<times> pstore) option" where
  "pb_reset s p = do {
     (pb, b) \<leftarrow> pb_block s p;
     if pb_shared pb \<or> pb_cloned pb b then Some (False, s)
     else Some (True, set_pb p (pb\<lparr>cloned := False, pdata := pb_head b, ptail := pb_head b\<rparr>) s) }"

section \<open>Moving the pointers\<close>

definition pb_putdata :: "pstore \<Rightarrow> nat \<Rightarrow> nat \<Rightarrow> (nat \<times> pstore) option" where
  "pb_putdata s p len = do {
     (pb, b) \<leftarrow> pb_block s p;
     if ptail pb + len > length (bytes b) then None
     else Some (ptail pb, set_pb p (pb\<lparr>ptail := ptail pb + len\<rparr>) s) }"

definition pb_pushdata :: "pstore \<Rightarrow> nat \<Rightarrow> nat \<Rightarrow> (nat \<times> pstore) option" where
  "pb_pushdata s p len = do {
     (pb, b) \<leftarrow> pb_block s p;
     if pdata pb < pb_head b + len then None
     else Some (pdata pb - len, set_pb p (pb\<lparr>pdata := pdata pb - len\<rparr>) s) }"

definition pb_popdata :: "pstore \<Rightarrow> nat \<Rightarrow> nat \<Rightarrow> (nat option \<times> pstore) option" where
  "pb_popdata s p len = do {
     (pb, b) \<leftarrow> pb_block s p;
     if len > pb_headlen pb then Some (None, s)
     else Some (Some (ptail pb - len), set_pb p (pb\<lparr>ptail := ptail pb - len\<rparr>) s) }"

definition pb_pulldata :: "pstore \<Rightarrow> nat \<Rightarrow> nat \<Rightarrow> (nat option \<times> pstore) option" where
  "pb_pulldata s p len = do {
     (pb, b) \<leftarrow> pb_block s p;
     if len > pb_headlen pb then Some (None, s)
     else Some (Some (pdata pb), set_pb p (pb\<lparr>pdata := pdata pb + len\<rparr>) s) }"

definition pb_reserve :: "pstore \<Rightarrow> nat \<Rightarrow> nat \<Rightarrow> pstore option" where
  "pb_reserve s p len = do {
     (pb, b) \<leftarrow> pb_block s p;
     if pdata pb \<noteq> pb_head b \<or> ptail pb + len > length (bytes b) then None
     else Some (set_pb p (pb\<lparr>pdata := pdata pb + len, ptail := ptail pb + len\<rparr>) s) }"

definition pb_trimdata :: "pstore \<Rightarrow> nat \<Rightarrow> nat \<Rightarrow> pstore option" where
  "pb_trimdata s p len = do {
     (pb, b) \<leftarrow> pb_block s p;
     Some (if pb_headlen pb > len then set_pb p (pb\<lparr>ptail := pdata pb + len\<rparr>) s else s) }"

section \<open>Sharing, copying and growing\<close>

definition pb_clone :: "pstore \<Rightarrow> nat option \<Rightarrow> nat \<Rightarrow> (nat option \<times> pstore) option" where
  "pb_clone s new p = do {
     (pb, b) \<leftarrow> pb_block s p;
     (case new of
        None \<Rightarrow> Some (None, s)
      | Some q \<Rightarrow>
          let s = set_blk (blk pb) (b\<lparr>dataref := uref_get (dataref b)\<rparr>) s;
              s = set_pb p (pb\<lparr>cloned := True\<rparr>) s
          in Some (Some q, set_pb q (pb\<lparr>users := uref_init, cloned := True\<rparr>) s)) }"

text \<open>\<open>memcpy\<close> into a block at an offset.\<close>

definition write_at :: "nat \<Rightarrow> u8 list \<Rightarrow> u8 list \<Rightarrow> u8 list" where
  "write_at off src dst = take off dst @ src @ drop (off + length src) dst"

definition pb_copy_bits :: "pbuff \<Rightarrow> pblock \<Rightarrow> int \<Rightarrow> nat \<Rightarrow> errno + u8 list" where
  "pb_copy_bits pb b offset len =
     (let start = int (pb_headlen pb) in
      if offset > start - int len then Inl EFAULT
      else if start - offset > 0 then
        let copy = nat (min (start - offset) (int len))
        in if len - copy = 0 then Inr (take copy (drop (nat (int (pdata pb) + offset)) (bytes b))) else Inl EFAULT
      else if len \<noteq> 0 then Inl EFAULT else Inr [])"

definition pb_copy :: "pstore \<Rightarrow> nat option \<Rightarrow> (nat \<times> (nat \<Rightarrow> u8)) option \<Rightarrow> nat \<Rightarrow> (nat option \<times> pstore) option" where
  "pb_copy s new mem p = do {
     (pb, b) \<leftarrow> pb_block s p;
     let headerlen = int (pdata pb) - int (pb_head b);
     (new, s) \<leftarrow> u_alloc_pb s new mem (pb_size b);
     (case new of
        None \<Rightarrow> Some (None, s)
      | Some q \<Rightarrow> do {
          s \<leftarrow> pb_reserve s q (nat (headerlen mod 2 ^ 32));
          (_, s) \<leftarrow> pb_putdata s q (pb_headlen pb);
          (npb, nb) \<leftarrow> pb_block s q;
          (case pb_copy_bits pb b (- headerlen) (nat ((headerlen + int (pb_headlen pb)) mod 2 ^ 32)) of
             Inl _ \<Rightarrow> None
           | Inr d \<Rightarrow> Some (Some q, set_blk (blk npb) (nb\<lparr>bytes := write_at (pb_head nb) d (bytes nb)\<rparr>) s)) }) }"

text \<open>The length is not zero; a positive one shares data ahead of \<open>data\<close>, a negative one data before it.\<close>

definition pb_share :: "pstore \<Rightarrow> nat option \<Rightarrow> nat \<Rightarrow> int \<Rightarrow> (nat option \<times> pstore) option" where
  "pb_share s new p l = do {
     (pb, b) \<leftarrow> pb_block s p;
     if l = 0 then Some (None, s)
     else (case new of
        None \<Rightarrow> Some (None, s)
      | Some q \<Rightarrow>
          let s = set_pb p (pb\<lparr>cloned := True\<rparr>) s;
              s = set_blk (blk pb) (b\<lparr>dataref := uref_get (dataref b)\<rparr>) s;
              d = (if l > 0 then pdata pb else pdata pb - nat (- l));
              t = (if l > 0 then pdata pb + nat l else pdata pb)
          in if (l > 0 \<and> t > length (bytes b)) \<or> (l < 0 \<and> pdata pb < pb_head b + nat (- l)) then None
             else Some (Some q, set_pb q \<lparr>users = uref_init, cloned = True, blk = blk pb, pdata = d, ptail = t\<rparr> s)) }"

definition u_pb_expand_head ::
    "pstore \<Rightarrow> (nat \<times> (nat \<Rightarrow> u8)) option \<Rightarrow> nat \<Rightarrow> nat \<Rightarrow> nat \<Rightarrow> (errno option \<times> pstore) option" where
  "u_pb_expand_head s mem p nhead ntail = do {
     (pb, b) \<leftarrow> pb_block s p;
     if nhead > 0xffffffff \<or> ntail > 0xffffffff then None
     else if pb_shared pb then Some (Some EPERM, s)
     else
       let sz = align_up (nhead + pb_size b + ntail) in
       (case mem of
          None \<Rightarrow> Some (Some ENOMEM, s)
        | Some (nb, junk) \<Rightarrow> do {
            let d = write_at nhead (drop (pb_head b) (bytes b)) (map junk [0..<sz]);
            s \<leftarrow> pb_release_data s p;
            if pdata pb + nhead < pb_head b then None
            else Some (None, set_pb p (pb\<lparr>cloned := False, blk := nb, pdata := pdata pb + nhead - pb_head b,
                ptail := ptail pb + nhead - pb_head b\<rparr>)
              (set_blk nb \<lparr>bytes = d, dataref = uref_init, datalen = of_nat sz\<rparr> s)) }) }"

definition pb_expand_head ::
    "pstore \<Rightarrow> (nat \<times> (nat \<Rightarrow> u8)) option \<Rightarrow> nat \<Rightarrow> nat \<Rightarrow> nat \<Rightarrow> (errno option \<times> pstore) option" where
  "pb_expand_head s mem p nhead ntail = do {
     (pb, b) \<leftarrow> pb_block s p;
     let nhead = (if pb_headroom pb b \<ge> nhead then 0 else nhead);
     let ntail = (if pb_tailroom pb b \<ge> ntail then 0 else ntail);
     if nhead = 0 \<and> ntail = 0 then Some (None, s)
     else u_pb_expand_head s mem p (nhead * 2 mod 2 ^ 64) (ntail * 2 mod 2 ^ 64) }"

definition pb_share_check :: "pstore \<Rightarrow> nat option \<Rightarrow> nat \<Rightarrow> (nat option \<times> pstore) option" where
  "pb_share_check s new p = do {
     pb \<leftarrow> pbufs s p;
     if pb_shared pb then do {
       (r, s) \<leftarrow> pb_clone s new p;
       (case r of None \<Rightarrow> Some (None, s) | Some q \<Rightarrow> do { s \<leftarrow> free_pb s p; Some (Some q, s) }) }
     else Some (Some p, s) }"

definition pb_unshare :: "pstore \<Rightarrow> nat option \<Rightarrow> (nat \<times> (nat \<Rightarrow> u8)) option \<Rightarrow> nat \<Rightarrow> (nat option \<times> pstore) option" where
  "pb_unshare s new mem p = do {
     (pb, b) \<leftarrow> pb_block s p;
     if \<not> pb_cloned pb b then Some (Some p, s)
     else do {
       (r, s) \<leftarrow> pb_copy s new mem p;
       (case r of None \<Rightarrow> Some (None, s) | Some q \<Rightarrow> do { s \<leftarrow> free_pb s p; Some (Some q, s) }) } }"

section \<open>Reading and writing\<close>

text \<open>Integers in memory, least significant byte first as on the host.\<close>

definition store_le :: "nat \<Rightarrow> 'a::len word \<Rightarrow> u8 list" where
  "store_le n w = map (\<lambda>i. ucast (drop_bit (8 * i) w)) [0..<n]"

primrec load_le :: "u8 list \<Rightarrow> 'a::len word" where
  "load_le [] = 0"
| "load_le (b # bs) = ucast b OR push_bit 8 (load_le bs)"

text \<open>The read functions pull \<open>sizeof(type)\<close> bytes and convert them from network order: \<open>ntohs\<close> and
  \<open>ntohl\<close> swap on a little-endian host, \<open>ntohll\<close> is the function of \<open>bitops.h\<close>, with its parameter.\<close>

definition pb_read_uint ::
    "nat \<Rightarrow> ('a::len word \<Rightarrow> 'a word) \<Rightarrow> pstore \<Rightarrow> nat \<Rightarrow> ((errno + 'a word) \<times> pstore) option" where
  "pb_read_uint n ntoh s p = do {
     (pb, b) \<leftarrow> pb_block s p;
     if pb_headlen pb \<ge> n then do {
       (ptr, s) \<leftarrow> pb_pulldata s p n;
       off \<leftarrow> ptr;
       Some (Inr (ntoh (load_le (take n (drop off (bytes b))))), s) }
     else Some (Inl ENODATA, s) }"

definition pb_read_uint8 :: "pstore \<Rightarrow> nat \<Rightarrow> ((errno + u8) \<times> pstore) option" where
  "pb_read_uint8 = pb_read_uint 1 id"

definition pb_read_uint16 :: "pstore \<Rightarrow> nat \<Rightarrow> ((errno + u16) \<times> pstore) option" where
  "pb_read_uint16 = pb_read_uint 2 SWAP_2BYTES"

definition pb_read_uint32 :: "pstore \<Rightarrow> nat \<Rightarrow> ((errno + u32) \<times> pstore) option" where
  "pb_read_uint32 = pb_read_uint 4 SWAP_4BYTES"

definition pb_read_uint64 :: "bool \<Rightarrow> pstore \<Rightarrow> nat \<Rightarrow> ((errno + u64) \<times> pstore) option" where
  "pb_read_uint64 be = pb_read_uint 8 (ntohll be)"

definition pb_read_bytes :: "pstore \<Rightarrow> nat \<Rightarrow> nat \<Rightarrow> ((errno + u8 list) \<times> pstore) option" where
  "pb_read_bytes s p l = do {
     (pb, b) \<leftarrow> pb_block s p;
     if pb_headlen pb \<ge> l then do {
       (ptr, s) \<leftarrow> pb_pulldata s p l;
       off \<leftarrow> ptr;
       Some (Inr (take l (drop off (bytes b))), s) }
     else Some (Inl ENODATA, s) }"

text \<open>The room that is compared is the room in front of the data, as in the source; \<open>max_t\<close> compares at 32 bits.\<close>

definition pb_prepare_write :: "pstore \<Rightarrow> (nat \<times> (nat \<Rightarrow> u8)) option \<Rightarrow> nat \<Rightarrow> nat \<Rightarrow> (errno option \<times> pstore) option" where
  "pb_prepare_write s mem p n = do {
     (pb, b) \<leftarrow> pb_block s p;
     if pb_headroom pb b < n then u_pb_expand_head s mem p 0 (max (n mod 2 ^ 32) (pb_size b div 2))
     else Some (None, s) }"

definition u_pb_write_bytes :: "pstore \<Rightarrow> nat \<Rightarrow> u8 list \<Rightarrow> pstore option" where
  "u_pb_write_bytes s p src = do {
     (off, s) \<leftarrow> pb_putdata s p (length src);
     (pb, b) \<leftarrow> pb_block s p;
     Some (set_blk (blk pb) (b\<lparr>bytes := write_at off src (bytes b)\<rparr>) s) }"

definition pb_write_bytes ::
    "pstore \<Rightarrow> (nat \<times> (nat \<Rightarrow> u8)) option \<Rightarrow> nat \<Rightarrow> u8 list \<Rightarrow> (errno option \<times> pstore) option" where
  "pb_write_bytes s mem p src = do {
     (e, s) \<leftarrow> pb_prepare_write s mem p (length src);
     if e = None then do { s \<leftarrow> u_pb_write_bytes s p src; Some (None, s) } else Some (Some ENOMEM, s) }"

definition pb_write_uint8 where
  "pb_write_uint8 s mem p v = pb_write_bytes s mem p (store_le 1 (v :: u8))"

definition pb_write_uint16 where
  "pb_write_uint16 s mem p v = pb_write_bytes s mem p (store_le 2 (SWAP_2BYTES v :: u16))"

definition pb_write_uint32 where
  "pb_write_uint32 s mem p v = pb_write_bytes s mem p (store_le 4 (SWAP_4BYTES v :: u32))"

definition pb_write_uint64 where
  "pb_write_uint64 be s mem p v = pb_write_bytes s mem p (store_le 8 (htonll be v :: u64))"

section \<open>Invariant and contents\<close>

text \<open>Every control structure points into a live block, in order; the count of a block is the number
  of control structures on it, a block without any is not there, and the length a block records is its own.\<close>

definition pb_refs :: "pstore \<Rightarrow> nat \<Rightarrow> nat set" where
  "pb_refs s b = {p. \<exists>pb. pbufs s p = Some pb \<and> blk pb = b}"

definition blk_len_ok :: "pblock \<Rightarrow> bool" where
  "blk_len_ok b \<longleftrightarrow> unat (datalen b) = length (bytes b) \<and> SHINFO dvd length (bytes b)"

definition pb_inv :: "pstore \<Rightarrow> bool" where
  "pb_inv s \<longleftrightarrow> finite (dom (pbufs s)) \<and>
     (\<forall>p pb. pbufs s p = Some pb \<longrightarrow> 0 < unat (users pb) \<and>
        (\<exists>b. blocks s (blk pb) = Some b \<and> pdata pb \<le> ptail pb \<and> ptail pb \<le> length (bytes b))) \<and>
     (\<forall>a b. blocks s a = Some b \<longrightarrow> uref_counts (dataref b) (card (pb_refs s a)) \<and> pb_refs s a \<noteq> {} \<and> blk_len_ok b)"

text \<open>The valid data of a buffer.\<close>

definition pb_contents :: "pstore \<Rightarrow> nat \<Rightarrow> u8 list" where
  "pb_contents s p =
     (case pb_block s p of None \<Rightarrow> [] | Some (pb, b) \<Rightarrow> take (pb_headlen pb) (drop (pdata pb) (bytes b)))"

text \<open>What the code relies on of \<open>malloc\<close> and the constructor: a new object is not one in use.\<close>

definition fresh_pb :: "pstore \<Rightarrow> nat \<Rightarrow> bool" where
  "fresh_pb s p \<longleftrightarrow> pbufs s p = None \<and> card (dom (pbufs s)) + 1 < 2 ^ 31"

definition fresh_blk :: "pstore \<Rightarrow> nat \<Rightarrow> bool" where
  "fresh_blk s b \<longleftrightarrow> blocks s b = None"

lemma pb_block_eq: "pb_block s p = Some (pb, b) \<longleftrightarrow> pbufs s p = Some pb \<and> blocks s (blk pb) = Some b"
  by (auto simp: pb_block_def bind_eq_Some_conv)

lemma pb_set_simps [simp]:
  "pbufs (set_pb p pb s) = (pbufs s)(p \<mapsto> pb)" "blocks (set_pb p pb s) = blocks s"
  "pbufs (set_blk a x s) = pbufs s" "blocks (set_blk a x s) = (blocks s)(a \<mapsto> x)"
  by (simp_all add: set_pb_def set_blk_def)

lemma pb_invD:
  assumes "pb_inv s" and "pbufs s p = Some pb"
  obtains b where "blocks s (blk pb) = Some b" "pdata pb \<le> ptail pb" "ptail pb \<le> length (bytes b)" "0 < unat (users pb)"
    "pb_block s p = Some (pb, b)"
proof -
  from assms have "0 < unat (users pb) \<and> (\<exists>b. blocks s (blk pb) = Some b \<and> pdata pb \<le> ptail pb \<and> ptail pb \<le> length (bytes b))"
    unfolding pb_inv_def by blast
  with assms(2) that show thesis by (auto simp: pb_block_eq)
qed

lemma pb_inv_ptr:
  "pb_inv s \<Longrightarrow> pb_block s p = Some (pb, b) \<Longrightarrow> pdata pb \<le> ptail pb \<and> ptail pb \<le> length (bytes b) \<and> 0 < unat (users pb)"
  unfolding pb_block_eq by (elim conjE pb_invD) auto

text \<open>In such a state the head is found where it is.\<close>

lemma unat_datalen: "unat (datalen b) < 2 ^ 32"
  using unsigned_less [where 'b = 32 and 'a = nat] by simp

lemma unat_of_nat32: "n < 2 ^ 32 \<Longrightarrow> unat (of_nat n :: u32) = n"
  by (simp add: unsigned_of_nat take_bit_nat_eq_self)

lemma pb_inv_head:
  assumes "pb_inv s" and "pb_block s p = Some (pb, b)"
  shows "pb_head b = 0" and "pb_size b = length (bytes b)" and "length (bytes b) < 2 ^ 32" and "SHINFO dvd length (bytes b)"
    and "pb_headroom pb b = pdata pb"
proof -
  have b: "unat (datalen b) = length (bytes b)" "SHINFO dvd length (bytes b)"
    using assms by (auto simp: pb_inv_def pb_block_eq blk_len_ok_def)
  then show h: "pb_head b = 0" "pb_size b = length (bytes b)" "SHINFO dvd length (bytes b)"
    by (simp_all add: pb_head_def pb_size_def)
  show "length (bytes b) < 2 ^ 32" using b(1) unat_datalen [of b] by simp
  then have "pdata pb < 2 ^ 64" using pb_inv_ptr [OF assms] by simp
  then show "pb_headroom pb b = pdata pb" using h(1) by (simp add: pb_headroom_def nat_mod_distrib)
qed

lemma finite_pb_refs: "pb_inv s \<Longrightarrow> finite (pb_refs s a)"
  by (rule finite_subset [of _ "dom (pbufs s)"]) (auto simp: pb_refs_def pb_inv_def)

lemma pb_refs_set_same:
  "pbufs s p = Some pb \<Longrightarrow> blk pb' = blk pb \<Longrightarrow> pb_refs (set_pb p pb' s) a = pb_refs s a"
  by (auto simp: pb_refs_def)

text \<open>Changing the pointers of a buffer within its block keeps the invariant.\<close>

lemma pb_inv_move [inv_intros]:
  assumes "pb_inv s" and "pb_block s p = Some (pb, b)" and "blk pb' = blk pb" and "0 < unat (users pb')"
    and "pdata pb' \<le> ptail pb'" and "ptail pb' \<le> length (bytes b)"
  shows "pb_inv (set_pb p pb' s)"
  using assms unfolding pb_inv_def pb_block_eq
  by (auto simp: pb_refs_set_same [of s p pb pb'])

text \<open>Changing the bytes of a block within its length keeps the invariant.\<close>

lemma pb_inv_bytes [inv_intros]:
  assumes "pb_inv s" and "blocks s a = Some b" and "length d = length (bytes b)"
  shows "pb_inv (set_blk a (b\<lparr>bytes := d\<rparr>) s)"
proof -
  have refs: "pb_refs (set_blk a (b\<lparr>bytes := d\<rparr>) s) x = pb_refs s x" for x by (simp add: pb_refs_def)
  show ?thesis
    unfolding pb_inv_def refs
  proof (intro conjI allI impI)
    show "finite (dom (pbufs (set_blk a (b\<lparr>bytes := d\<rparr>) s)))" using assms(1) by (simp add: pb_inv_def)
  next
    fix p pb assume "pbufs (set_blk a (b\<lparr>bytes := d\<rparr>) s) p = Some pb"
    then have p: "pbufs s p = Some pb" by simp
    obtain b' where "blocks s (blk pb) = Some b'" "pdata pb \<le> ptail pb" "ptail pb \<le> length (bytes b')" "0 < unat (users pb)"
      using assms(1) p by (rule pb_invD)
    with assms(2,3) show "0 < unat (users pb)"
        "\<exists>b'. blocks (set_blk a (b\<lparr>bytes := d\<rparr>) s) (blk pb) = Some b' \<and> pdata pb \<le> ptail pb \<and> ptail pb \<le> length (bytes b')"
      by auto
  next
    fix x b' assume "blocks (set_blk a (b\<lparr>bytes := d\<rparr>) s) x = Some b'"
    then show "uref_counts (dataref b') (card (pb_refs s x))" "pb_refs s x \<noteq> {}" "blk_len_ok b'"
      using assms by (auto simp: pb_inv_def blk_len_ok_def split: if_splits)
  qed
qed

lemma pb_block_bind:
  "(pb_block s p \<bind> (\<lambda>(pb, b). f pb b)) = Some r \<longleftrightarrow> (\<exists>pb b. pb_block s p = Some (pb, b) \<and> f pb b = Some r)"
  by (auto simp: bind_eq_Some_conv)

lemmas pointer_op_defs = pb_putdata_def pb_pushdata_def pb_popdata_def pb_pulldata_def pb_reserve_def pb_trimdata_def

text \<open>Every operation that only moves pointers ends in the same kind of state.\<close>

lemma pointer_ops_inv [inv_intros]:
  assumes "pb_inv s"
  shows "pb_putdata s p len = Some (o1, s1) \<Longrightarrow> pb_inv s1"
    and "pb_pushdata s p len = Some (o1, s1) \<Longrightarrow> pb_inv s1"
    and "pb_popdata s p len = Some (o2, s1) \<Longrightarrow> pb_inv s1"
    and "pb_pulldata s p len = Some (o2, s1) \<Longrightarrow> pb_inv s1"
    and "pb_reserve s p len = Some s1 \<Longrightarrow> pb_inv s1"
    and "pb_trimdata s p len = Some s1 \<Longrightarrow> pb_inv s1"
proof -
  show "pb_putdata s p len = Some (o1, s1) \<Longrightarrow> pb_inv s1"
  proof -
    assume "pb_putdata s p len = Some (o1, s1)"
    then obtain pb b where b: "pb_block s p = Some (pb, b)" and s1: "s1 = s \<or> (ptail pb + len \<le> length (bytes b)) \<and> s1 = set_pb p (pb\<lparr>ptail := ptail pb + len\<rparr>) s"
      by (auto simp: pointer_op_defs pb_block_bind not_less split: if_splits)
    from s1 show "pb_inv s1"
      using assms pb_inv_ptr [OF assms b] by (auto simp: pb_headlen_def intro!: pb_inv_move [OF assms b])
  qed
  show "pb_pushdata s p len = Some (o1, s1) \<Longrightarrow> pb_inv s1"
  proof -
    assume "pb_pushdata s p len = Some (o1, s1)"
    then obtain pb b where b: "pb_block s p = Some (pb, b)" and s1: "s1 = s \<or> (pb_head b + len \<le> pdata pb) \<and> s1 = set_pb p (pb\<lparr>pdata := pdata pb - len\<rparr>) s"
      by (auto simp: pointer_op_defs pb_block_bind not_less split: if_splits)
    from s1 show "pb_inv s1"
      using assms pb_inv_ptr [OF assms b] by (auto simp: pb_headlen_def intro!: pb_inv_move [OF assms b])
  qed
  show "pb_popdata s p len = Some (o2, s1) \<Longrightarrow> pb_inv s1"
  proof -
    assume "pb_popdata s p len = Some (o2, s1)"
    then obtain pb b where b: "pb_block s p = Some (pb, b)" and s1: "s1 = s \<or> (len \<le> pb_headlen pb) \<and> s1 = set_pb p (pb\<lparr>ptail := ptail pb - len\<rparr>) s"
      by (auto simp: pointer_op_defs pb_block_bind not_less split: if_splits)
    from s1 show "pb_inv s1"
      using assms pb_inv_ptr [OF assms b] by (auto simp: pb_headlen_def intro!: pb_inv_move [OF assms b])
  qed
  show "pb_pulldata s p len = Some (o2, s1) \<Longrightarrow> pb_inv s1"
  proof -
    assume "pb_pulldata s p len = Some (o2, s1)"
    then obtain pb b where b: "pb_block s p = Some (pb, b)" and s1: "s1 = s \<or> (len \<le> pb_headlen pb) \<and> s1 = set_pb p (pb\<lparr>pdata := pdata pb + len\<rparr>) s"
      by (auto simp: pointer_op_defs pb_block_bind not_less split: if_splits)
    from s1 show "pb_inv s1"
      using assms pb_inv_ptr [OF assms b] by (auto simp: pb_headlen_def intro!: pb_inv_move [OF assms b])
  qed
  show "pb_reserve s p len = Some s1 \<Longrightarrow> pb_inv s1"
  proof -
    assume "pb_reserve s p len = Some s1"
    then obtain pb b where b: "pb_block s p = Some (pb, b)" and s1: "s1 = s \<or> (ptail pb + len \<le> length (bytes b)) \<and> s1 = set_pb p (pb\<lparr>pdata := pdata pb + len, ptail := ptail pb + len\<rparr>) s"
      by (auto simp: pointer_op_defs pb_block_bind not_less split: if_splits)
    from s1 show "pb_inv s1"
      using assms pb_inv_ptr [OF assms b] by (auto simp: pb_headlen_def intro!: pb_inv_move [OF assms b])
  qed
  show "pb_trimdata s p len = Some s1 \<Longrightarrow> pb_inv s1"
  proof -
    assume "pb_trimdata s p len = Some s1"
    then obtain pb b where b: "pb_block s p = Some (pb, b)" and s1: "s1 = s \<or> (len < pb_headlen pb) \<and> s1 = set_pb p (pb\<lparr>ptail := pdata pb + len\<rparr>) s"
      by (auto simp: pointer_op_defs pb_block_bind not_less split: if_splits)
    from s1 show "pb_inv s1"
      using assms pb_inv_ptr [OF assms b] by (auto simp: pb_headlen_def intro!: pb_inv_move [OF assms b])
  qed
qed

section \<open>Reference counts\<close>

lemma pb_refs_card:
  assumes "pb_inv s" and "card (dom (pbufs s)) + 1 < 2 ^ 31"
  shows "card (pb_refs s a) + 1 < 2 ^ 31"
proof -
  have "finite (dom (pbufs s))" using assms(1) by (simp add: pb_inv_def)
  then have "card (pb_refs s a) \<le> card (dom (pbufs s))" by (intro card_mono) (auto simp: pb_refs_def)
  then show ?thesis using assms(2) by linarith
qed

lemma pb_inv_blk: "pb_inv s \<Longrightarrow> blocks s a = Some b \<Longrightarrow> uref_counts (dataref b) (card (pb_refs s a)) \<and> pb_refs s a \<noteq> {}"
  unfolding pb_inv_def by blast

lemma pb_refs_no_block: "pb_inv s \<Longrightarrow> blocks s a = None \<Longrightarrow> pb_refs s a = {}"
  by (auto simp: pb_refs_def pb_inv_def) fastforce

text \<open>A new control structure joins a block that is there, or comes with a new block.\<close>

lemma pb_inv_add:
  assumes inv: "pb_inv s" and q: "fresh_pb s q" and pb: "blk pb = a" "0 < unat (users pb)" "pdata pb \<le> ptail pb"
    and b: "blocks s a = Some b" "ptail pb \<le> length (bytes b)"
  shows "pb_inv (set_pb q pb (set_blk a (b\<lparr>dataref := uref_get (dataref b)\<rparr>) s))" (is "pb_inv ?s")
proof -
  have fresh: "pbufs s q = None" using q by (simp add: fresh_pb_def)
  have refs: "pb_refs ?s x = (if x = a then insert q (pb_refs s a) else pb_refs s x)" for x
    using pb(1) fresh by (auto simp: pb_refs_def)
  have "q \<notin> pb_refs s a" using fresh by (simp add: pb_refs_def)
  then have card: "card (insert q (pb_refs s a)) = card (pb_refs s a) + 1" using finite_pb_refs [OF inv] by simp
  have cnt: "uref_counts (uref_get (dataref b)) (card (pb_refs s a) + 1)"
    using inv b(1) pb_refs_card [OF inv] q by (intro uref_counts_get) (auto simp: pb_inv_def fresh_pb_def)
  show ?thesis
    unfolding pb_inv_def refs
  proof (intro conjI allI impI)
    show "finite (dom (pbufs ?s))" using inv by (simp add: pb_inv_def)
  next
    fix p' pb' assume p': "pbufs ?s p' = Some pb'"
    show "0 < unat (users pb')" using p' inv pb(2) by (auto simp: pb_inv_def split: if_splits)
    show "\<exists>b'. blocks ?s (blk pb') = Some b' \<and> pdata pb' \<le> ptail pb' \<and> ptail pb' \<le> length (bytes b')"
    proof (cases "p' = q")
      case True
      then show ?thesis using p' pb b by simp
    next
      case False
      then have "pbufs s p' = Some pb'" using p' by simp
      with inv obtain b' where "blocks s (blk pb') = Some b'" "pdata pb' \<le> ptail pb'" "ptail pb' \<le> length (bytes b')"
        by (rule pb_invD)
      then show ?thesis using b(1) by auto
    qed
  next
    fix x b' assume x: "blocks ?s x = Some b'"
    show "uref_counts (dataref b') (card (if x = a then insert q (pb_refs s a) else pb_refs s x))"
      using x inv cnt card by (auto simp: pb_inv_def split: if_splits)
    show "(if x = a then insert q (pb_refs s a) else pb_refs s x) \<noteq> {}"
      using x inv by (auto simp: pb_inv_def split: if_splits)
    show "blk_len_ok b'" using x inv b(1) by (auto simp: pb_inv_def blk_len_ok_def split: if_splits)
  qed
qed

lemma pb_inv_add_block:
  assumes inv: "pb_inv s" and q: "pbufs s q = None" and a: "fresh_blk s a"
    and pb: "blk pb = a" "0 < unat (users pb)" "pdata pb \<le> ptail pb" "ptail pb \<le> length d"
    and d: "length d < 2 ^ 32" "SHINFO dvd length d"
  shows "pb_inv (set_pb q pb (set_blk a \<lparr>bytes = d, dataref = uref_init, datalen = of_nat (length d)\<rparr> s))" (is "pb_inv ?s")
proof -
  have none: "pb_refs s a = {}" "blocks s a = None" using pb_refs_no_block [OF inv] a by (auto simp: fresh_blk_def)
  then have refs: "pb_refs ?s x = (if x = a then {q} else pb_refs s x)" for x
    using pb(1) q by (auto simp: pb_refs_def)
  show ?thesis
    unfolding pb_inv_def refs
  proof (intro conjI allI impI)
    show "finite (dom (pbufs ?s))" using inv by (simp add: pb_inv_def)
  next
    fix p' pb' assume p': "pbufs ?s p' = Some pb'"
    show "0 < unat (users pb')" using p' inv pb(2) by (auto simp: pb_inv_def split: if_splits)
    show "\<exists>b'. blocks ?s (blk pb') = Some b' \<and> pdata pb' \<le> ptail pb' \<and> ptail pb' \<le> length (bytes b')"
    proof (cases "p' = q")
      case True
      then show ?thesis using p' pb by simp
    next
      case False
      then have "pbufs s p' = Some pb'" using p' by simp
      with inv obtain b' where "blocks s (blk pb') = Some b'" "pdata pb' \<le> ptail pb'" "ptail pb' \<le> length (bytes b')"
        by (rule pb_invD)
      then show ?thesis using none(2) by auto
    qed
  next
    fix x b' assume x: "blocks ?s x = Some b'"
    show "uref_counts (dataref b') (card (if x = a then {q} else pb_refs s x))"
      using x inv uref_counts_init by (auto simp: pb_inv_def split: if_splits)
    show "(if x = a then {q} else pb_refs s x) \<noteq> {}"
      using x inv by (auto simp: pb_inv_def split: if_splits)
    have "blk_len_ok \<lparr>bytes = d, dataref = uref_init, datalen = of_nat (length d)\<rparr>"
      using d by (simp add: blk_len_ok_def unat_of_nat32)
    then show "blk_len_ok b'" using x inv by (auto simp: pb_inv_def split: if_splits)
  qed
qed

text \<open>A control structure leaves its block, which goes with the last one.\<close>

lemma u_free_pb_result:
  assumes inv: "pb_inv s" and p: "pbufs s p = Some pb"
  shows "\<exists>s1. pb_release_data s p = Some s1 \<and> u_free_pb s p = Some (s1\<lparr>pbufs := (pbufs s)(p := None)\<rparr>) \<and> pbufs s1 = pbufs s \<and>
    pb_inv (s1\<lparr>pbufs := (pbufs s)(p := None)\<rparr>) \<and>
    (\<forall>x. x \<noteq> blk pb \<longrightarrow> blocks s1 x = blocks s x) \<and>
    (blocks s1 (blk pb) = None \<longleftrightarrow> pb_refs s (blk pb) = {p}) \<and>
    (\<forall>b. blocks s1 (blk pb) = Some b \<longrightarrow> map_option bytes (blocks s (blk pb)) = Some (bytes b))"
proof -
  let ?a = "blk pb"
  obtain b where b: "blocks s ?a = Some b" "pb_block s p = Some (pb, b)" using inv p by (rule pb_invD)
  have pin: "p \<in> pb_refs s ?a" using p by (simp add: pb_refs_def)
  then obtain n where n: "card (pb_refs s ?a) = Suc n" "card (pb_refs s ?a - {p}) = n"
    using finite_pb_refs [OF inv, of ?a] by (metis card_Suc_Diff1)
  have cnt: "uref_counts (dataref b) (Suc n)" using pb_inv_blk [OF inv b(1)] n(1) by simp
  note put = uref_counts_put [OF cnt]
  have n0: "n = 0 \<longleftrightarrow> pb_refs s ?a = {p}"
    using n(2) pin finite_pb_refs [OF inv, of ?a] by (metis card_0_eq card.empty finite_Diff insert_Diff Diff_insert_absorb Diff_cancel)
  define s1 where "s1 = (if n = 0 then s\<lparr>blocks := (blocks s)(?a := None)\<rparr> else set_blk ?a (b\<lparr>dataref := snd (u_uref_put (dataref b))\<rparr>) s)"
  have rel: "pb_release_data s p = Some s1"
    using b(2) put(2) pb_inv_head(1) [OF inv b(2)] by (cases "u_uref_put (dataref b)") (simp add: pb_release_data_def s1_def)
  have pbufs: "pbufs s1 = pbufs s" by (simp add: s1_def)
  let ?s = "s1\<lparr>pbufs := (pbufs s)(p := None)\<rparr>"
  have refs: "pb_refs ?s x = pb_refs s x - {p}" for x by (auto simp: pb_refs_def)
  have other: "pb_refs s x - {p} = pb_refs s x" if "x \<noteq> ?a" for x using that p by (auto simp: pb_refs_def)
  have "pb_inv ?s"
    unfolding pb_inv_def refs
  proof (intro conjI allI impI)
    show "finite (dom (pbufs ?s))" using inv by (simp add: pb_inv_def)
  next
    fix p' pb' assume "pbufs ?s p' = Some pb'"
    then have p': "pbufs s p' = Some pb'" "p' \<noteq> p" by (auto split: if_splits)
    obtain b' where b': "blocks s (blk pb') = Some b'" "pdata pb' \<le> ptail pb'" "ptail pb' \<le> length (bytes b')" "0 < unat (users pb')"
      using inv p'(1) by (rule pb_invD)
    show "0 < unat (users pb')" by fact
    have "p' \<in> pb_refs s (blk pb')" using p' by (simp add: pb_refs_def)
    then have "n \<noteq> 0" if "blk pb' = ?a" using that p'(2) n0 by auto
    then show "\<exists>b'. blocks ?s (blk pb') = Some b' \<and> pdata pb' \<le> ptail pb' \<and> ptail pb' \<le> length (bytes b')"
      using b' b(1) by (auto simp: s1_def)
  next
    fix x b' assume x: "blocks ?s x = Some b'"
    show "uref_counts (dataref b') (card (pb_refs s x - {p}))"
      using x inv put(1) n(2) other [of x] by (auto simp: s1_def pb_inv_def split: if_splits)
    show "pb_refs s x - {p} \<noteq> {}"
    proof (cases "x = ?a")
      case True
      then have "n \<noteq> 0" using x by (auto simp: s1_def split: if_splits)
      then show ?thesis using n0 pin True by auto
    next
      case False
      then have "blocks s x = Some b'" using x by (auto simp: s1_def split: if_splits)
      then show ?thesis using pb_inv_blk [OF inv] other [OF False] by auto
    qed
    show "blk_len_ok b'"
      using x inv b(1) by (auto simp: s1_def pb_inv_def blk_len_ok_def split: if_splits)
  qed
  moreover have "u_free_pb s p = Some ?s" using rel pbufs by (simp add: u_free_pb_def)
  ultimately show ?thesis using rel pbufs n0 b(1) by (auto simp: s1_def)
qed


lemma SHINFO_dvd_align_up: "SHINFO dvd align_up n"
  by (simp add: align_up_def)

text \<open>The limit of the interface: every block is smaller than 4 GiB.\<close>

definition pb_small :: "pstore \<Rightarrow> bool" where
  "pb_small s \<longleftrightarrow> (\<forall>a b. blocks s a = Some b \<longrightarrow> length (bytes b) < 2 ^ 32)"

lemma pb_small_new: "pb_small (set_pb p pb (set_blk a x s)) \<Longrightarrow> length (bytes x) < 2 ^ 32"
  unfolding pb_small_def by (drule spec [of _ a]) simp

lemma u_alloc_pb_inv [inv_intros]:
  assumes "pb_inv s" and "\<And>p. new = Some p \<Longrightarrow> fresh_pb s p" and "\<And>b j. mem = Some (b, j) \<Longrightarrow> fresh_blk s b"
    and r: "u_alloc_pb s new mem sz = Some (r, s1)" and small: "pb_small s1"
  shows "pb_inv s1"
proof (cases "new = None \<or> mem = None")
  case True
  then show ?thesis using assms(1) r by (auto simp: u_alloc_pb_def split: option.splits)
next
  case False
  then obtain p b j where new: "new = Some p" and mem: "mem = Some (b, j)" by auto
  let ?pb = "\<lparr>users = uref_init, cloned = False, blk = b, pdata = 0, ptail = 0\<rparr>"
  let ?d = "map j [0..<align_up sz]"
  have s1: "s1 = set_pb p ?pb (set_blk b \<lparr>bytes = ?d, dataref = uref_init, datalen = of_nat (length ?d)\<rparr> s)"
    using r new mem by (simp add: u_alloc_pb_def split: if_splits)
  have "length ?d < 2 ^ 32" using pb_small_new [OF small [unfolded s1]] by simp
  then show ?thesis
    unfolding s1 using assms(1) assms(2) [OF new] assms(3) [OF mem]
    by (intro pb_inv_add_block) (simp_all add: fresh_pb_def uref_init_def SHINFO_dvd_align_up)
qed

lemma set_pb_blk_commute: "set_blk a x (set_pb p pb s) = set_pb p pb (set_blk a x s)"
  by (simp add: set_pb_def set_blk_def)

text \<open>The flag \<open>cloned\<close> is not part of the invariant.\<close>

lemma pb_inv_cloned: "pb_inv s \<Longrightarrow> pb_block s p = Some (pb, b) \<Longrightarrow> pb_inv (set_pb p (pb\<lparr>cloned := c\<rparr>) s)"
  using pb_inv_ptr [of s p pb b] by (auto intro: pb_inv_move)

lemma pb_clone_result:
  assumes inv: "pb_inv s" and b: "pb_block s p = Some (pb, b)" and q: "fresh_pb s q"
  shows "\<exists>s1. pb_clone s (Some q) p = Some (Some q, s1) \<and> pb_inv s1 \<and> pb_contents s1 q = pb_contents s p \<and>
    pb_contents s1 p = pb_contents s p"
proof -
  have pq: "p \<noteq> q" "pbufs s p = Some pb" "blocks s (blk pb) = Some b" using b q by (auto simp: pb_block_eq fresh_pb_def)
  let ?s = "set_pb p (pb\<lparr>cloned := True\<rparr>) s"
  let ?n = "pb\<lparr>users := uref_init, cloned := True\<rparr>"
  let ?s1 = "set_pb q ?n (set_blk (blk pb) (b\<lparr>dataref := uref_get (dataref b)\<rparr>) ?s)"
  have "dom (pbufs ?s) = dom (pbufs s)" using pq by auto
  then have "fresh_pb ?s q" using q pq by (simp add: fresh_pb_def)
  then have "pb_inv ?s1"
    using pb_inv_add [OF pb_inv_cloned [OF inv b], where q = q and pb = ?n and a = "blk pb" and b = b] pq pb_inv_ptr [OF inv b]
    by (simp add: uref_init_def)
  moreover have "pb_clone s (Some q) p = Some (Some q, ?s1)"
    using b by (simp add: pb_clone_def set_pb_blk_commute Let_def)
  moreover have "pb_contents ?s1 q = pb_contents s p" "pb_contents ?s1 p = pb_contents s p"
    using pq b by (simp_all add: pb_contents_def pb_block_def pb_headlen_def)
  ultimately show ?thesis by blast
qed

lemma pb_share_inv:
  assumes inv: "pb_inv s" and q: "\<And>q. new = Some q \<Longrightarrow> fresh_pb s q" and r: "pb_share s new p l = Some (r, s1)"
  shows "pb_inv s1"
proof (cases "r")
  case None
  then show ?thesis using r inv by (auto simp: pb_share_def pb_block_bind Let_def split: if_splits option.splits)
next
  case (Some q')
  then obtain pb b d t where b: "pb_block s p = Some (pb, b)" and new: "new = Some q'" and
    s1: "s1 = set_pb q' \<lparr>users = uref_init, cloned = True, blk = blk pb, pdata = d, ptail = t\<rparr>
      (set_blk (blk pb) (b\<lparr>dataref := uref_get (dataref b)\<rparr>) (set_pb p (pb\<lparr>cloned := True\<rparr>) s))" and
    dt: "d \<le> t" "t \<le> length (bytes b)"
    using r pb_inv_ptr [OF inv] by (fastforce simp: pb_share_def pb_block_bind Let_def split: if_splits option.splits)
  let ?s = "set_pb p (pb\<lparr>cloned := True\<rparr>) s"
  have "dom (pbufs ?s) = dom (pbufs s)" using b by (auto simp: pb_block_eq)
  then have "fresh_pb ?s q'" using q [OF new] b by (auto simp: fresh_pb_def pb_block_eq)
  then show ?thesis
    unfolding s1 using pb_inv_add [OF pb_inv_cloned [OF inv b], where q = q' and a = "blk pb" and b = b] b dt
    by (simp add: uref_init_def pb_block_eq)
qed


lemma release_contents:
  assumes "pb_inv (s1\<lparr>pbufs := (pbufs s)(p := None)\<rparr>)" and "\<forall>x. x \<noteq> a \<longrightarrow> blocks s1 x = blocks s x"
    and "\<forall>b. blocks s1 a = Some b \<longrightarrow> map_option bytes (blocks s a) = Some (bytes b)" and "x \<noteq> p"
  shows "pb_contents (s1\<lparr>pbufs := (pbufs s)(p := None)\<rparr>) x = pb_contents s x"
proof (cases "pbufs s x")
  case (Some pb')
  let ?s1 = "s1\<lparr>pbufs := (pbufs s)(p := None)\<rparr>"
  have x: "pbufs ?s1 x = Some pb'" using Some assms(4) by simp
  obtain b' where b': "blocks ?s1 (blk pb') = Some b'" using assms(1) x by (rule pb_invD)
  have "map_option bytes (blocks s (blk pb')) = Some (bytes b')"
    using b' assms(2,3) by (cases "blk pb' = a") auto
  then obtain b'' where "blocks s (blk pb') = Some b''" "bytes b'' = bytes b'" by auto
  then show ?thesis using b' x Some by (simp add: pb_contents_def pb_block_def)
qed (use assms(4) in \<open>simp add: pb_contents_def pb_block_def\<close>)

lemma free_pb_result:
  assumes inv: "pb_inv s" and p: "pbufs s p = Some pb"
  shows "\<exists>s1. free_pb s p = Some s1 \<and> pb_inv s1 \<and> (unat (users pb) = 1 \<longleftrightarrow> pbufs s1 p = None) \<and>
    (\<forall>x. x \<noteq> p \<longrightarrow> pbufs s1 x = pbufs s x \<and> pb_contents s1 x = pb_contents s x) \<and>
    (\<forall>a. blocks s1 a = None \<longleftrightarrow> blocks s a = None \<or> unat (users pb) = 1 \<and> a = blk pb \<and> pb_refs s a = {p})"
proof -
  have pos: "0 < unat (users pb)" using inv p by (rule pb_invD)
  then have dec: "unat (users pb - 1) = unat (users pb) - 1" by (simp add: unat_minus_one unat_gt_0)
  let ?s = "set_pb p (pb\<lparr>users := users pb - 1\<rparr>) s"
  show ?thesis
  proof (cases "unat (users pb) = 1")
    case True
    then have zero: "users pb - 1 = 0" using dec by (simp add: unat_eq_zero)
    obtain s1 where s1: "pb_release_data s p = Some s1" "pbufs s1 = pbufs s" "pb_inv (s1\<lparr>pbufs := (pbufs s)(p := None)\<rparr>)"
        "\<forall>x. x \<noteq> blk pb \<longrightarrow> blocks s1 x = blocks s x" "blocks s1 (blk pb) = None \<longleftrightarrow> pb_refs s (blk pb) = {p}"
        "\<forall>b. blocks s1 (blk pb) = Some b \<longrightarrow> map_option bytes (blocks s (blk pb)) = Some (bytes b)"
      using u_free_pb_result [OF inv p] by (elim exE conjE)
    have "map_option (\<lambda>s. s\<lparr>pbufs := (pbufs s)(p := None)\<rparr>) (pb_release_data ?s p) =
        map_option (\<lambda>s. s\<lparr>pbufs := (pbufs s)(p := None)\<rparr>) (pb_release_data s p)"
    proof -
      obtain b where b: "blocks s (blk pb) = Some b" "pb_block s p = Some (pb, b)" using inv p by (rule pb_invD)
      then show ?thesis
        using p pb_inv_head(1) [OF inv b(2)]
        by (cases "u_uref_put (dataref b)") (simp add: pb_release_data_def pb_block_def set_pb_def set_blk_def)
    qed
    then have run: "free_pb s p = Some (s1\<lparr>pbufs := (pbufs s)(p := None)\<rparr>)"
      using p zero s1(1,2) by (auto simp: free_pb_def u_free_pb_def u_uref_put_def map_option_case split: option.splits)
    note cont = release_contents [OF s1(3,4,6)]
    obtain b0 where "blocks s (blk pb) = Some b0" using inv p by (rule pb_invD)
    then have "blocks s1 a = None \<longleftrightarrow> blocks s a = None \<or> a = blk pb \<and> pb_refs s a = {p}" for a
      using s1(4,5) by (cases "a = blk pb") auto
    with run s1(3) cont True show ?thesis by auto
  next
    case False
    then have nz: "users pb - 1 \<noteq> 0" using dec pos by auto
    obtain b where b: "pb_block s p = Some (pb, b)" using inv p by (rule pb_invD)
    have "free_pb s p = Some ?s" using p nz by (simp add: free_pb_def u_uref_put_def)
    moreover have "pb_inv ?s"
      using pb_inv_move [OF inv b, of "pb\<lparr>users := users pb - 1\<rparr>"] pb_inv_ptr [OF inv b] dec False pos by simp
    moreover have "pb_contents ?s x = pb_contents s x" if "x \<noteq> p" for x
      using that by (simp add: pb_contents_def pb_block_def)
    ultimately show ?thesis using False by auto
  qed
qed


section \<open>Growing and copying\<close>

lemma align_up_ge: "n + 7 < 2 ^ 64 \<Longrightarrow> n \<le> align_up n"
proof -
  assume "n + 7 < 2 ^ 64"
  then have "align_up n = (n + 7) div 8 * 8" by (simp add: align_up_def SHINFO_def)
  moreover have "(n + 7) div 8 * 8 + (n + 7) mod 8 = n + 7" "(n + 7) mod 8 < 8" by simp_all
  ultimately show ?thesis by linarith
qed

lemma align_up_dvd: "SHINFO dvd n \<Longrightarrow> n < 2 ^ 32 \<Longrightarrow> align_up n = n"
proof -
  assume "SHINFO dvd n" and n: "n < 2 ^ 32"
  then obtain k where k: "n = 8 * k" by (auto simp: SHINFO_def)
  moreover have "(8 * k + 7) div 8 = k" by linarith
  ultimately show ?thesis using n by (simp add: align_up_def SHINFO_def)
qed

lemma length_write_at: "off + length src \<le> length dst \<Longrightarrow> length (write_at off src dst) = length dst"
  by (simp add: write_at_def)

text \<open>After growing, the buffer has its own block, with the data moved by the new head room.\<close>

lemma u_pb_expand_head_result:
  assumes inv: "pb_inv s" and b: "pb_block s p = Some (pb, b)" and ns: "\<not> pb_shared pb"
    and lim: "nhead \<le> 0xffffffff" "ntail \<le> 0xffffffff" and nb: "fresh_blk s nb"
  shows "\<exists>s1 b1. u_pb_expand_head s (Some (nb, junk)) p nhead ntail = Some (None, s1) \<and> (pb_small s1 \<longrightarrow> pb_inv s1) \<and>
    pb_block s1 p = Some (pb\<lparr>cloned := False, blk := nb, pdata := pdata pb + nhead, ptail := ptail pb + nhead\<rparr>, b1) \<and>
    nhead + length (bytes b) + ntail \<le> length (bytes b1) \<and> pb_contents s1 p = pb_contents s p \<and>
    (\<forall>x. x \<noteq> p \<longrightarrow> pb_contents s1 x = pb_contents s x)"
proof -
  have p: "pbufs s p = Some pb" "blocks s (blk pb) = Some b" using b by (auto simp: pb_block_eq)
  note ptr = pb_inv_ptr [OF inv b]
  note head = pb_inv_head [OF inv b]
  obtain s1 where s1: "pb_release_data s p = Some s1" "pbufs s1 = pbufs s" "pb_inv (s1\<lparr>pbufs := (pbufs s)(p := None)\<rparr>)"
      "\<forall>x. x \<noteq> blk pb \<longrightarrow> blocks s1 x = blocks s x"
      "\<forall>b. blocks s1 (blk pb) = Some b \<longrightarrow> map_option bytes (blocks s (blk pb)) = Some (bytes b)"
    using u_free_pb_result [OF inv p(1)] by (elim exE conjE)
  let ?r = "s1\<lparr>pbufs := (pbufs s)(p := None)\<rparr>"
  let ?sz = "align_up (nhead + length (bytes b) + ntail)"
  let ?d = "write_at nhead (bytes b) (map junk [0..<?sz])"
  let ?pb = "pb\<lparr>cloned := False, blk := nb, pdata := pdata pb + nhead, ptail := ptail pb + nhead\<rparr>"
  let ?bk = "\<lparr>bytes = ?d, dataref = uref_init, datalen = of_nat ?sz\<rparr>"
  let ?s = "set_pb p ?pb (set_blk nb ?bk ?r)"
  have sz: "nhead + length (bytes b) + ntail \<le> ?sz" using lim head(3) by (intro align_up_ge) simp
  have len: "length ?d = ?sz" using sz by (simp add: length_write_at)
  have "nb \<noteq> blk pb" using nb p(2) unfolding fresh_blk_def by (metis option.distinct(1))
  then have "blocks s1 nb = blocks s nb" using s1(4) by blast
  then have "blocks s1 nb = None" using nb unfolding fresh_blk_def by (rule trans)
  then have nbs: "blocks ?r nb = None" by simp
  have "?s = set_pb p ?pb (set_blk nb ?bk s1)" using s1(2) by (simp add: set_pb_def set_blk_def)
  then have run: "u_pb_expand_head s (Some (nb, junk)) p nhead ntail = Some (None, ?s)"
    using b ns lim s1(1) head(1,2) by (simp add: u_pb_expand_head_def Let_def)
  have inv': "pb_inv ?s" if "pb_small ?s"
  proof -
    have "length ?d < 2 ^ 32" using pb_small_new [OF that] by simp
    then show ?thesis
      using pb_inv_add_block [OF s1(3), of p nb ?pb ?d] nbs ptr len sz by (simp add: fresh_blk_def SHINFO_dvd_align_up)
  qed
  have "drop (pdata pb + nhead) ?d = drop (pdata pb) (bytes b @ drop (nhead + length (bytes b)) (map junk [0..<?sz]))"
    using sz by (simp add: write_at_def add.commute)
  then have c: "pb_contents ?s p = pb_contents s p"
    using ptr p by (simp add: pb_contents_def pb_block_def pb_headlen_def)
  have o: "pb_contents ?s x = pb_contents s x" if "x \<noteq> p" for x
  proof -
    have "pb_contents ?s x = pb_contents ?r x"
    proof (cases "pbufs ?r x")
      case (Some pb')
      obtain b' where "blocks ?r (blk pb') = Some b'" using s1(3) Some by (rule pb_invD)
      moreover from this have "blk pb' \<noteq> nb" using nbs by auto
      ultimately show ?thesis using Some that by (simp add: pb_contents_def pb_block_def)
    qed (use that in \<open>simp add: pb_contents_def pb_block_def\<close>)
    then show ?thesis using release_contents [OF s1(3-5) that] by simp
  qed
  show ?thesis using run inv' c o sz len by (intro exI [of _ ?s] exI [of _ ?bk]) (simp add: pb_block_eq)
qed

section \<open>Every operation keeps the invariant\<close>

lemma u_pb_expand_head_inv [inv_intros]:
  assumes inv: "pb_inv s" and r: "u_pb_expand_head s mem p nhead ntail = Some (e, s1)"
    and m: "\<And>b j. mem = Some (b, j) \<Longrightarrow> fresh_blk s b" and small: "pb_small s1"
  shows "pb_inv s1"
proof -
  obtain pb b where b: "pb_block s p = Some (pb, b)" using r by (auto simp: u_pb_expand_head_def pb_block_bind)
  show ?thesis
  proof (cases "pb_shared pb \<or> mem = None")
    case True
    then show ?thesis using r inv b by (auto simp: u_pb_expand_head_def Let_def split: if_splits)
  next
    case False
    then obtain nb j where mem: "mem = Some (nb, j)" by (cases mem) auto
    have lim: "nhead \<le> 0xffffffff" "ntail \<le> 0xffffffff"
      using r b by (auto simp: u_pb_expand_head_def not_less split: if_splits)
    show ?thesis
      using u_pb_expand_head_result [OF inv b _ lim m [OF mem], of j] False r mem small by auto
  qed
qed

lemma u_pb_write_bytes_result:
  assumes b: "pb_block s p = Some (pb, b)" and ptr: "pdata pb \<le> ptail pb" "ptail pb \<le> length (bytes b)"
    and room: "length src \<le> pb_tailroom pb b"
  shows "\<exists>s1. u_pb_write_bytes s p src = Some s1 \<and> (pb_inv s \<longrightarrow> pb_inv s1) \<and> pb_contents s1 p = pb_contents s p @ src \<and>
    pbufs s1 = (pbufs s)(p \<mapsto> pb\<lparr>ptail := ptail pb + length src\<rparr>) \<and> (\<forall>a. a \<noteq> blk pb \<longrightarrow> blocks s1 a = blocks s a)"
proof -
  have pb: "pbufs s p = Some pb" "blocks s (blk pb) = Some b" using b by (auto simp: pb_block_eq)
  have fits: "ptail pb + length src \<le> length (bytes b)" using room ptr unfolding pb_tailroom_def by linarith
  let ?m = "set_pb p (pb\<lparr>ptail := ptail pb + length src\<rparr>) s"
  let ?s = "set_blk (blk pb) (b\<lparr>bytes := write_at (ptail pb) src (bytes b)\<rparr>) ?m"
  have run: "u_pb_write_bytes s p src = Some ?s"
    using b pb fits by (simp add: u_pb_write_bytes_def pb_putdata_def pb_block_def)
  have inv': "pb_inv ?s" if inv: "pb_inv s"
  proof -
    have "pb_inv ?m" using fits ptr pb_inv_ptr [OF inv b] by (intro pb_inv_move [OF inv b]) auto
    then show ?thesis using pb fits by (intro pb_inv_bytes) (simp_all add: length_write_at)
  qed
  have "take (ptail pb + length src - pdata pb) (drop (pdata pb) (write_at (ptail pb) src (bytes b))) =
      take (ptail pb - pdata pb) (drop (pdata pb) (bytes b)) @ src"
    using ptr fits by (simp add: write_at_def take_drop)
  then have "pb_contents ?s p = pb_contents s p @ src"
    using pb by (simp add: pb_contents_def pb_block_def pb_headlen_def)
  then show ?thesis using run inv' by (intro exI [of _ ?s]) simp
qed

lemma u_pb_write_bytes_room:
  assumes "u_pb_write_bytes s p src = Some s1"
  obtains pb b where "pb_block s p = Some (pb, b)" "length src \<le> pb_tailroom pb b" "ptail pb \<le> length (bytes b)"
proof -
  obtain pb b where "pb_block s p = Some (pb, b)" "ptail pb + length src \<le> length (bytes b)"
    using assms by (auto simp: u_pb_write_bytes_def pb_putdata_def pb_block_bind bind_eq_Some_conv split: if_splits)
  then show thesis using that by (simp add: pb_tailroom_def)
qed

lemma u_pb_write_bytes_inv [inv_intros]:
  assumes "pb_inv s" and "u_pb_write_bytes s p src = Some s1"
  shows "pb_inv s1"
proof -
  obtain pb b where b: "pb_block s p = Some (pb, b)" "length src \<le> pb_tailroom pb b" "ptail pb \<le> length (bytes b)"
    using assms(2) by (rule u_pb_write_bytes_room)
  have "pdata pb \<le> ptail pb" using pb_inv_ptr [OF assms(1) b(1)] by simp
  from u_pb_write_bytes_result [OF b(1) this b(3,2)] assms show ?thesis by auto
qed

lemma u_pb_write_bytes_small:
  assumes "u_pb_write_bytes s p src = Some s1" and "pb_small s1"
  shows "pb_small s"
proof -
  have "length (bytes b) = length (bytes b')" if "blocks s a = Some b" "blocks s1 a = Some b'" for a b b'
    using assms(1) that
    by (auto simp: u_pb_write_bytes_def pb_putdata_def pb_block_bind bind_eq_Some_conv pb_block_eq length_write_at
        split: if_splits)
  moreover have "blocks s1 a \<noteq> None" if "blocks s a \<noteq> None" for a
    using assms(1) that
    by (auto simp: u_pb_write_bytes_def pb_putdata_def pb_block_bind bind_eq_Some_conv split: if_splits)
  ultimately show ?thesis using assms(2) unfolding pb_small_def by (metis option.distinct(1) option.exhaust)
qed

lemma pb_prepare_write_inv [inv_intros]:
  assumes "pb_inv s" and "pb_prepare_write s mem p n = Some (e, s1)" and "\<And>b j. mem = Some (b, j) \<Longrightarrow> fresh_blk s b" and "pb_small s1"
  shows "pb_inv s1"
  using assms by (auto simp: pb_prepare_write_def pb_block_bind split: if_splits dest: u_pb_expand_head_inv)

lemma pb_write_bytes_inv [inv_intros]:
  assumes "pb_inv s" and "pb_write_bytes s mem p src = Some (e, s1)" and "\<And>b j. mem = Some (b, j) \<Longrightarrow> fresh_blk s b" and "pb_small s1"
  shows "pb_inv s1"
proof -
  obtain e' s' where "pb_prepare_write s mem p (length src) = Some (e', s')"
      and s1: "s1 = s' \<or> u_pb_write_bytes s' p src = Some s1"
    using assms(2) by (auto simp: pb_write_bytes_def bind_eq_Some_conv split: if_splits)
  moreover have "pb_small s'" using s1 assms(4) u_pb_write_bytes_small by blast
  ultimately have "pb_inv s'" using assms by (blast intro: pb_prepare_write_inv)
  then show ?thesis using s1 by (auto dest: u_pb_write_bytes_inv)
qed

lemma pb_expand_head_inv [inv_intros]:
  assumes "pb_inv s" and "pb_expand_head s mem p nhead ntail = Some (e, s1)" and "\<And>b j. mem = Some (b, j) \<Longrightarrow> fresh_blk s b" and "pb_small s1"
  shows "pb_inv s1"
  using assms by (auto simp: pb_expand_head_def pb_block_bind Let_def split: if_splits dest: u_pb_expand_head_inv)

lemma pb_get_inv [inv_intros]:
  assumes inv: "pb_inv s" and r: "pb_get s p = Some (ok, s1)"
  shows "pb_inv s1"
proof -
  obtain pb r where p: "pbufs s p = Some pb" and g: "uref_get_unless_zero (users pb) = Some (ok, r)"
      and s1: "s1 = set_pb p (pb\<lparr>users := r\<rparr>) s"
    using r by (auto simp: pb_get_def bind_eq_Some_conv)
  obtain b where b: "pb_block s p = Some (pb, b)" "0 < unat (users pb)" using inv p by (rule pb_invD)
  then have "r \<noteq> 0"
    using g by (auto simp: uref_get_unless_zero_def u_uref_add_not_zero_def signed_eq_0_iff split: if_splits)
  then have "0 < unat r" by (simp add: unat_gt_0)
  then show ?thesis unfolding s1 using pb_inv_ptr [OF inv b(1)] by (intro pb_inv_move [OF inv b(1)]) auto
qed

lemma pb_reset_inv [inv_intros]:
  assumes inv: "pb_inv s" and r: "pb_reset s p = Some (ok, s1)"
  shows "pb_inv s1"
proof -
  obtain pb b where b: "pb_block s p = Some (pb, b)" and "s1 = s \<or> s1 = set_pb p (pb\<lparr>cloned := False, pdata := pb_head b, ptail := pb_head b\<rparr>) s"
    using r by (auto simp: pb_reset_def pb_block_bind split: if_splits)
  then show ?thesis
    using inv pb_inv_ptr [OF inv b] pb_inv_head(1) [OF inv b] by (auto intro!: pb_inv_move [OF inv b])
qed

lemma pb_read_uint_inv [inv_intros]:
  "pb_inv s \<Longrightarrow> pb_read_uint n f s p = Some (v, s1) \<Longrightarrow> pb_inv s1"
  by (auto simp: pb_read_uint_def pb_block_bind bind_eq_Some_conv split: if_splits dest: pointer_ops_inv)

lemma pb_read_bytes_inv [inv_intros]: "pb_inv s \<Longrightarrow> pb_read_bytes s p n = Some (v, s1) \<Longrightarrow> pb_inv s1"
  by (auto simp: pb_read_bytes_def pb_block_bind bind_eq_Some_conv split: if_splits dest: pointer_ops_inv)

lemma free_pb_inv [inv_intros]: "pb_inv s \<Longrightarrow> free_pb s p = Some s1 \<Longrightarrow> pb_inv s1"
  using free_pb_result [of s p] by (cases "pbufs s p") (auto simp: free_pb_def)

lemma pb_clone_inv [inv_intros]:
  assumes "pb_inv s" and "pb_clone s new p = Some (r, s1)" and "\<And>q. new = Some q \<Longrightarrow> fresh_pb s q"
  shows "pb_inv s1"
proof -
  obtain pb b where b: "pb_block s p = Some (pb, b)" using assms(2) by (auto simp: pb_clone_def pb_block_bind)
  show ?thesis
  proof (cases new)
    case None
    then show ?thesis using assms b by (simp add: pb_clone_def)
  next
    case (Some q)
    then show ?thesis using pb_clone_result [OF assms(1) b, of q] assms(2,3) by auto
  qed
qed


section \<open>A copy of its own\<close>

lemma pb_copy_result:
  assumes inv: "pb_inv s" and b: "pb_block s p = Some (pb, b)" and q: "fresh_pb s q" and nb: "fresh_blk s nb"
  shows "\<exists>s1 b1. pb_copy s (Some q) (Some (nb, junk)) p = Some (Some q, s1) \<and> pb_inv s1 \<and>
    pb_block s1 q = Some (\<lparr>users = uref_init, cloned = False, blk = nb, pdata = pdata pb, ptail = ptail pb\<rparr>, b1) \<and>
    dataref b1 = uref_init \<and> pb_contents s1 q = pb_contents s p \<and>
    (\<forall>x. x \<noteq> q \<longrightarrow> pbufs s1 x = pbufs s x \<and> pb_contents s1 x = pb_contents s x)"
proof -
  note ptr = pb_inv_ptr [OF inv b]
  note head = pb_inv_head [OF inv b]
  have pb: "pbufs s p = Some pb" "blocks s (blk pb) = Some b" using b by (auto simp: pb_block_eq)
  let ?d = "take (ptail pb) (bytes b)"
  let ?j = "map junk [0..<length (bytes b)]"
  let ?n = "\<lparr>users = uref_init, cloned = False, blk = nb, pdata = pdata pb, ptail = ptail pb\<rparr>"
  let ?x = "\<lparr>bytes = write_at 0 ?d ?j, dataref = uref_init, datalen = of_nat (length (bytes b))\<rparr>"
  let ?s = "set_pb q ?n (set_blk nb ?x s)"
  have sz: "align_up (length (bytes b)) = length (bytes b)" using head(3,4) by (intro align_up_dvd)
  have cut: "nat (int (pdata pb) mod 2 ^ 32) = pdata pb" "nat ((int (pdata pb) + int (pb_headlen pb)) mod 2 ^ 32) = ptail pb"
    using ptr head(3) by (simp_all add: pb_headlen_def nat_mod_distrib flip: of_nat_add)
  have hd: "pb_head \<lparr>bytes = ?j, dataref = uref_init, datalen = of_nat (length (bytes b))\<rparr> = 0"
    using head(3) by (simp add: pb_head_def unat_of_nat32)
  have bits: "pb_copy_bits pb b (- int (pdata pb)) (ptail pb) = Inr ?d"
    using ptr by (auto simp: pb_copy_bits_def pb_headlen_def Let_def)
  have t: "pdata pb + pb_headlen pb = ptail pb" using ptr by (simp add: pb_headlen_def)
  have run: "pb_copy s (Some q) (Some (nb, junk)) p = Some (Some q, ?s)"
    using b pb ptr sz bits t cut hd head
    by (simp add: pb_copy_def u_alloc_pb_def pb_reserve_def pb_putdata_def pb_block_def SHINFO_def
        set_pb_def set_blk_def uref_init_def)
  have inv': "pb_inv ?s"
    using pb_inv_add_block [OF inv _ nb, where q = q and pb = ?n and d = "write_at 0 ?d ?j"] q ptr head(3,4)
    by (simp add: fresh_pb_def uref_init_def length_write_at)
  have c: "pb_contents ?s q = pb_contents s p"
    using ptr pb by (simp add: pb_contents_def pb_block_def pb_headlen_def write_at_def take_drop)
  have o: "pb_contents ?s x = pb_contents s x" if "x \<noteq> q" for x
  proof (cases "pbufs s x")
    case (Some pb')
    obtain b' where "blocks s (blk pb') = Some b'" using inv Some by (rule pb_invD)
    moreover from this have "blk pb' \<noteq> nb" using nb by (auto simp: fresh_blk_def)
    ultimately show ?thesis using Some that by (simp add: pb_contents_def pb_block_def)
  qed (use that in \<open>simp add: pb_contents_def pb_block_def\<close>)
  show ?thesis using run inv' c o by (intro exI [of _ ?s] exI [of _ ?x]) (simp add: pb_block_eq)
qed

lemma pb_copy_inv [inv_intros]:
  assumes "pb_inv s" and "pb_copy s new mem p = Some (r, s1)"
    and "\<And>q. new = Some q \<Longrightarrow> fresh_pb s q" and "\<And>b j. mem = Some (b, j) \<Longrightarrow> fresh_blk s b"
  shows "pb_inv s1"
proof -
  obtain pb b where b: "pb_block s p = Some (pb, b)" using assms(2) by (auto simp: pb_copy_def pb_block_bind)
  show ?thesis
  proof (cases "new = None \<or> mem = None")
    case True
    then have "u_alloc_pb s new mem (pb_size b) = Some (None, s)" by (auto simp: u_alloc_pb_def split: option.splits)
    then show ?thesis using assms b by (simp add: pb_copy_def)
  next
    case False
    then obtain q nb j where "new = Some q" "mem = Some (nb, j)" by auto
    then show ?thesis using pb_copy_result [OF assms(1) b, of q nb j] assms(2-4) by auto
  qed
qed

lemma pb_share_check_inv [inv_intros]:
  assumes "pb_inv s" and "pb_share_check s new p = Some (r, s1)" and "\<And>q. new = Some q \<Longrightarrow> fresh_pb s q"
  shows "pb_inv s1"
  using assms by (auto simp: pb_share_check_def bind_eq_Some_conv split: if_splits option.splits
      dest: pb_clone_inv) (blast intro: free_pb_inv pb_clone_inv)

lemma pb_unshare_inv [inv_intros]:
  assumes "pb_inv s" and "pb_unshare s new mem p = Some (r, s1)"
    and "\<And>q. new = Some q \<Longrightarrow> fresh_pb s q" and "\<And>b j. mem = Some (b, j) \<Longrightarrow> fresh_blk s b"
  shows "pb_inv s1"
  using assms by (auto simp: pb_unshare_def pb_block_bind bind_eq_Some_conv split: if_splits option.splits
      dest: pb_copy_inv) (blast intro: free_pb_inv pb_copy_inv)


section \<open>Sequences of operations\<close>

text \<open>One call of the interface. What the allocators return is new, or nothing.\<close>

definition new_pb_ok :: "pstore \<Rightarrow> nat option \<Rightarrow> bool" where
  "new_pb_ok s new \<longleftrightarrow> (\<forall>q. new = Some q \<longrightarrow> fresh_pb s q)"

definition new_blk_ok :: "pstore \<Rightarrow> (nat \<times> (nat \<Rightarrow> u8)) option \<Rightarrow> bool" where
  "new_blk_ok s mem \<longleftrightarrow> (\<forall>b j. mem = Some (b, j) \<longrightarrow> fresh_blk s b)"

inductive pb_step :: "pstore \<Rightarrow> pstore \<Rightarrow> bool" where
  alloc: "new_pb_ok s new \<Longrightarrow> new_blk_ok s mem \<Longrightarrow> u_alloc_pb s new mem sz = Some (r, s1) \<Longrightarrow> pb_step s s1"
| free: "free_pb s p = Some s1 \<Longrightarrow> pb_step s s1"
| get: "pb_get s p = Some (ok, s1) \<Longrightarrow> pb_step s s1"
| reset: "pb_reset s p = Some (ok, s1) \<Longrightarrow> pb_step s s1"
| put: "pb_putdata s p n = Some (off, s1) \<Longrightarrow> pb_step s s1"
| push: "pb_pushdata s p n = Some (off, s1) \<Longrightarrow> pb_step s s1"
| pop: "pb_popdata s p n = Some (ptr, s1) \<Longrightarrow> pb_step s s1"
| pull: "pb_pulldata s p n = Some (ptr, s1) \<Longrightarrow> pb_step s s1"
| reserve: "pb_reserve s p n = Some s1 \<Longrightarrow> pb_step s s1"
| trim: "pb_trimdata s p n = Some s1 \<Longrightarrow> pb_step s s1"
| clone: "new_pb_ok s new \<Longrightarrow> pb_clone s new p = Some (r, s1) \<Longrightarrow> pb_step s s1"
| copy: "new_pb_ok s new \<Longrightarrow> new_blk_ok s mem \<Longrightarrow> pb_copy s new mem p = Some (r, s1) \<Longrightarrow> pb_step s s1"
| share: "new_pb_ok s new \<Longrightarrow> pb_share s new p l = Some (r, s1) \<Longrightarrow> pb_step s s1"
| expand: "new_blk_ok s mem \<Longrightarrow> pb_expand_head s mem p nhead ntail = Some (e, s1) \<Longrightarrow> pb_step s s1"
| share_check: "new_pb_ok s new \<Longrightarrow> pb_share_check s new p = Some (r, s1) \<Longrightarrow> pb_step s s1"
| unshare: "new_pb_ok s new \<Longrightarrow> new_blk_ok s mem \<Longrightarrow> pb_unshare s new mem p = Some (r, s1) \<Longrightarrow> pb_step s s1"
| read8: "pb_read_uint8 s p = Some (v8, s1) \<Longrightarrow> pb_step s s1"
| read16: "pb_read_uint16 s p = Some (v16, s1) \<Longrightarrow> pb_step s s1"
| read32: "pb_read_uint32 s p = Some (v32, s1) \<Longrightarrow> pb_step s s1"
| read64: "pb_read_uint64 be s p = Some (v64, s1) \<Longrightarrow> pb_step s s1"
| read_bytes: "pb_read_bytes s p n = Some (bs, s1) \<Longrightarrow> pb_step s s1"
| write8: "new_blk_ok s mem \<Longrightarrow> pb_write_uint8 s mem p w8 = Some (e, s1) \<Longrightarrow> pb_step s s1"
| write16: "new_blk_ok s mem \<Longrightarrow> pb_write_uint16 s mem p w16 = Some (e, s1) \<Longrightarrow> pb_step s s1"
| write32: "new_blk_ok s mem \<Longrightarrow> pb_write_uint32 s mem p w32 = Some (e, s1) \<Longrightarrow> pb_step s s1"
| write64: "new_blk_ok s mem \<Longrightarrow> pb_write_uint64 be s mem p w64 = Some (e, s1) \<Longrightarrow> pb_step s s1"
| write_bytes: "new_blk_ok s mem \<Longrightarrow> pb_write_bytes s mem p src = Some (e, s1) \<Longrightarrow> pb_step s s1"

text \<open>The states of a run in which no block reaches 4 GiB.\<close>

inductive pb_reachable :: "pstore \<Rightarrow> bool" where
  empty: "pb_reachable \<lparr>blocks = (\<lambda>_. None), pbufs = (\<lambda>_. None)\<rparr>"
| step: "pb_reachable s \<Longrightarrow> pb_step s s1 \<Longrightarrow> pb_small s1 \<Longrightarrow> pb_reachable s1"

lemma pb_inv_empty: "pb_inv \<lparr>blocks = (\<lambda>_. None), pbufs = (\<lambda>_. None)\<rparr>"
  by (simp add: pb_inv_def)

lemmas read_write_defs = pb_read_uint8_def pb_read_uint16_def pb_read_uint32_def pb_read_uint64_def
  pb_write_uint8_def pb_write_uint16_def pb_write_uint32_def pb_write_uint64_def

lemma pb_step_inv:
  assumes "pb_step s s1" and "pb_inv s" and "pb_small s1"
  shows "pb_inv s1"
  using assms
proof induction
  case (alloc s new mem sz r s1)
  then show ?case using u_alloc_pb_inv [of s new mem sz] by (simp add: new_pb_ok_def new_blk_ok_def)
qed (auto simp: new_pb_ok_def new_blk_ok_def read_write_defs
    intro: free_pb_inv pb_get_inv pb_reset_inv pointer_ops_inv pb_read_uint_inv pb_read_bytes_inv
    dest: pb_clone_inv pb_copy_inv pb_share_inv pb_expand_head_inv pb_share_check_inv pb_unshare_inv pb_write_bytes_inv)

text \<open>A block of 4 GiB or more records a length that is too short, and its start is not found again.\<close>

lemma pb_head_cut:
  assumes "2 ^ 32 \<le> length (bytes b)" and "datalen b = of_nat (length (bytes b))"
  shows "pb_head b \<noteq> 0"
  using assms unat_datalen [of b] by (simp add: pb_head_def)

lemma pb_reachable_induct_inv: "pb_reachable s \<Longrightarrow> pb_inv s"
  by (induction rule: pb_reachable.induct) (auto intro: pb_inv_empty pb_step_inv)

lemma free_pb_cut:
  assumes "u_alloc_pb s (Some p) (Some (nb, junk)) sz = Some (r, t)" and "2 ^ 32 \<le> align_up sz"
  shows "free_pb t p = None"
proof -
  let ?b = "\<lparr>bytes = map junk [0..<align_up sz], dataref = uref_init, datalen = of_nat (align_up sz)\<rparr>"
  have "pb_head ?b \<noteq> 0" using assms(2) by (intro pb_head_cut) simp_all
  then show ?thesis
    using assms(1)
    by (auto simp: u_alloc_pb_def free_pb_def u_free_pb_def pb_release_data_def pb_block_def u_uref_put_def uref_init_def
        split: if_splits)
qed

text \<open>C11: In every state the interface can reach while each block stays below 4 GiB, with buffers released,
  cloned, shared, copied, grown, read or written in any order, each buffer lies inside a block that is there,
  the reference count of each block is the number of buffers on it and the length it records is its own. The
  limit is needed: a buffer allocated with 4 GiB or more cannot be released, because the 32-bit length makes
  \<open>free\<close> be called with an address inside the block.\<close>

theorem pb_reachable_inv:
  "(pb_reachable s \<longrightarrow> pb_inv s) \<and>
   (2 ^ 32 \<le> align_up sz \<longrightarrow> u_alloc_pb s0 (Some p) (Some (nb, junk)) sz = Some (r, t) \<longrightarrow> free_pb t p = None)"
  using pb_reachable_induct_inv free_pb_cut by blast

definition pb_first :: pstore where
  "pb_first = \<lparr>blocks = (\<lambda>_. None)(7 \<mapsto> \<lparr>bytes = replicate 24 0, dataref = 1, datalen = 24\<rparr>),
     pbufs = (\<lambda>_. None)(5 \<mapsto> \<lparr>users = 1, cloned = False, blk = 7, pdata = 0, ptail = 0\<rparr>)\<rparr>"

definition pb_example :: pstore where
  "pb_example = the (map_option snd (pb_clone pb_first (Some 6) 5))"

lemma pb_example_bufs:
  "pbufs pb_example 5 = Some \<lparr>users = 1, cloned = True, blk = 7, pdata = 0, ptail = 0\<rparr>"
  "pbufs pb_example 6 = Some \<lparr>users = 1, cloned = True, blk = 7, pdata = 0, ptail = 0\<rparr>"
  "blocks pb_example = (\<lambda>_. None)(7 \<mapsto> \<lparr>bytes = replicate 24 0, dataref = 2, datalen = 24\<rparr>)"
  by (simp_all add: pb_example_def pb_first_def pb_clone_def pb_block_def uref_init_def uref_get_def)

lemma pb_reachable_example: "pb_reachable pb_example"
proof -
  let ?e = "\<lparr>blocks = (\<lambda>_. None), pbufs = (\<lambda>_. None)\<rparr>"
  have "u_alloc_pb ?e (Some 5) (Some (7, \<lambda>_. 0)) 20 = Some (Some 5, pb_first)"
    by (simp add: u_alloc_pb_def pb_first_def align_up_def SHINFO_def uref_init_def map_replicate_const set_pb_def set_blk_def)
  then have "pb_step ?e pb_first"
    by (intro pb_step.alloc [of _ "Some 5" "Some (7, \<lambda>_. 0)" 20 "Some 5"])
      (simp_all add: new_pb_ok_def fresh_pb_def new_blk_ok_def fresh_blk_def)
  moreover have "\<exists>r s1. pb_clone pb_first (Some 6) 5 = Some (r, s1)" by (simp add: pb_clone_def pb_block_def pb_first_def)
  then have "pb_step pb_first pb_example"
    unfolding pb_example_def
    by (elim exE, intro pb_step.clone [of _ "Some 6" 5]) (auto simp: new_pb_ok_def fresh_pb_def pb_first_def)
  moreover have "pb_small pb_first" "pb_small pb_example"
    by (simp_all add: pb_small_def pb_example_bufs) (simp add: pb_first_def)
  ultimately show ?thesis by (blast intro: pb_reachable.intros)
qed

text \<open>Witness: a buffer and its clone.\<close>

theorem pb_reachable_inv_witness:
  "pb_reachable pb_example \<and> pb_inv pb_example \<and>
   (\<exists>r t. u_alloc_pb pb_example (Some 9) (Some (8, \<lambda>_. 0)) (2 ^ 32) = Some (r, t) \<and> free_pb t 9 = None)"
proof -
  have al: "align_up (2 ^ 32) = 2 ^ 32" by (simp add: align_up_def SHINFO_def)
  then obtain r t where "u_alloc_pb pb_example (Some 9) (Some (8, \<lambda>_. 0)) (2 ^ 32) = Some (r, t)"
    by (simp add: u_alloc_pb_def SHINFO_def)
  moreover from this have "free_pb t 9 = None" "pb_inv pb_example"
    using pb_reachable_inv [of pb_example "2 ^ 32" pb_example 9 8 "\<lambda>_. 0" r t] pb_reachable_example al by simp_all
  ultimately show ?thesis using pb_reachable_example by blast
qed

text \<open>C28: Releasing a buffer always succeeds. The control structure goes with its last user, the data
  block goes exactly when this was the last buffer on it, and every other buffer keeps its data.\<close>

theorem free_pb_last_reference:
  assumes "pb_inv s" and "pbufs s p = Some pb"
  shows "\<exists>s1. free_pb s p = Some s1 \<and> pb_inv s1 \<and> (pbufs s1 p = None \<longleftrightarrow> unat (users pb) = 1) \<and>
    (\<forall>x. x \<noteq> p \<longrightarrow> pbufs s1 x = pbufs s x \<and> pb_contents s1 x = pb_contents s x) \<and>
    (\<forall>a. blocks s1 a = None \<longleftrightarrow> blocks s a = None \<or> unat (users pb) = 1 \<and> a = blk pb \<and> pb_refs s a = {p})"
  using free_pb_result [OF assms] by (simp add: eq_commute [of "unat (users pb)"] conj_ac iff_conv_conj_imp)

lemma pb_inv_example: "pb_inv pb_example"
  using pb_reachable_example by (rule pb_reachable_induct_inv)

text \<open>Witness: releasing one of two clones keeps the block.\<close>

theorem free_pb_last_reference_witness:
  "pb_inv pb_example \<and> pbufs pb_example 5 = Some \<lparr>users = 1, cloned = True, blk = 7, pdata = 0, ptail = 0\<rparr> \<and>
   (\<exists>s1. free_pb pb_example 5 = Some s1 \<and> pb_inv s1 \<and> pbufs s1 5 = None \<and> pbufs s1 6 \<noteq> None \<and> blocks s1 7 \<noteq> None)"
proof -
  have "6 \<in> pb_refs pb_example 7" using pb_example_bufs(2) by (simp add: pb_refs_def)
  then have "pb_refs pb_example 7 \<noteq> {5}" by auto
  moreover obtain s1 where "free_pb pb_example 5 = Some s1" "pb_inv s1" "pbufs s1 5 = None"
      "\<forall>x. x \<noteq> 5 \<longrightarrow> pbufs s1 x = pbufs pb_example x \<and> pb_contents s1 x = pb_contents pb_example x"
      "\<forall>a. blocks s1 a = None \<longleftrightarrow> blocks pb_example a = None \<or> a = 7 \<and> pb_refs pb_example a = {5}"
    using free_pb_last_reference [OF pb_inv_example pb_example_bufs(1)] by auto
  ultimately show ?thesis using pb_inv_example by (intro conjI exI [of _ s1]) (simp_all add: pb_example_bufs)
qed

section \<open>Wire format\<close>

lemma bit_load_le:
  "bit (load_le bs :: 'a::len word) j \<longleftrightarrow> j < LENGTH('a) \<and> j div 8 < length bs \<and> bit (bs ! (j div 8)) (j mod 8)"
proof (induction bs arbitrary: j)
  case (Cons b bs)
  show ?case
  proof (cases "j < 8")
    case True
    then show ?thesis by (simp add: bit_simps not_le)
  next
    case False
    then obtain k where j: "j = k + 8" by (metis add.commute le_add_diff_inverse not_less)
    have "\<not> bit b j" using False bit_imp_le_length [of b j] by auto
    moreover have "(k + 8) div 8 = Suc (k div 8)" by simp
    ultimately show ?thesis using Cons.IH [of k] j by (auto simp: bit_simps simp del: div_add_self2)
  qed
qed simp

lemma load_store_le: "LENGTH('a) = 8 * n \<Longrightarrow> load_le (store_le n w) = (w :: 'a::len word)"
  by (rule bit_word_eqI) (auto simp: bit_load_le store_le_def bit_simps less_mult_imp_div_less mult.commute)

lemma length_store_le [simp]: "length (store_le n w) = n"
  by (simp add: store_le_def)


text \<open>Network order: most significant byte first.\<close>

definition store_be :: "nat \<Rightarrow> 'a::len word \<Rightarrow> u8 list" where
  "store_be n w = rev (store_le n w)"

lemma length_store_be [simp]: "length (store_be n w) = n"
  by (simp add: store_be_def)

lemma store_le_nth: "i < n \<Longrightarrow> bit (store_le n w ! i) k \<longleftrightarrow> k < 8 \<and> bit w (8 * i + k)"
  by (simp add: store_le_def bit_simps)

lemma store_le_eq_store_be:
  fixes v w :: "'a::len word"
  assumes "\<And>i k. i < n \<Longrightarrow> k < 8 \<Longrightarrow> bit w (8 * i + k) \<longleftrightarrow> bit v (8 * (n - 1 - i) + k)"
  shows "store_le n w = store_be n v"
proof (rule nth_equalityI)
  fix i assume "i < length (store_le n w)"
  then have i: "i < n" by simp
  show "store_le n w ! i = store_be n v ! i"
    using assms [OF i] i by (intro bit_word_eqI) (auto simp: store_be_def rev_nth store_le_nth)
qed simp

lemma wire_bytes:
  "store_le 1 (v8 :: u8) = store_be 1 v8" "store_le 2 (SWAP_2BYTES v16) = store_be 2 v16"
  "store_le 4 (SWAP_4BYTES v32) = store_be 4 v32" "store_le 8 (SWAP_8BYTES v64) = store_be 8 v64"
proof -
  show "store_le 1 (v8 :: u8) = store_be 1 v8" by (rule store_le_eq_store_be) simp
  show "store_le 2 (SWAP_2BYTES v16) = store_be 2 v16"
    by (rule store_le_eq_store_be) (auto simp: bit_SWAP_2BYTES less_2_cases_iff add.commute)
  have "i = 0 \<or> i = 1 \<or> i = 2 \<or> i = 3" if "i < 4" for i :: nat using that by auto
  then have "bit (SWAP_4BYTES v32) (8 * i + k) \<longleftrightarrow> bit v32 (8 * (4 - 1 - i) + k)" if "i < 4" "k < 8" for i k
    using that by (elim meta_allE [of _ i]) (auto simp: bit_SWAP_4BYTES add.commute)
  then show "store_le 4 (SWAP_4BYTES v32) = store_be 4 v32" by (rule store_le_eq_store_be)
  show "store_le 8 (SWAP_8BYTES v64) = store_be 8 v64"
    by (rule store_le_eq_store_be) (auto simp: bit_SWAP_8BYTES)
qed

text \<open>The bytes of a 64-bit integer as \<open>htonll\<close> leaves them: in network order when \<open>__BIG_ENDIAN\<close> is not
  defined, and otherwise in the order of the host.\<close>

definition store64 :: "bool \<Rightarrow> u64 \<Rightarrow> u8 list" where
  "store64 be v = (if be then store_le 8 v else store_be 8 v)"

lemma wire_bytes64: "store_le 8 (htonll be v) = store64 be v"
  by (simp add: htonll_def store64_def wire_bytes)

lemma length_store64 [simp]: "length (store64 be v) = 8"
  by (simp add: store64_def)

lemma pb_prepare_write_contents:
  assumes inv: "pb_inv s" and m: "new_blk_ok s mem" and r: "pb_prepare_write s mem p n = Some (None, s1)"
  shows "pb_contents s1 x = pb_contents s x \<and> (\<forall>pb b. pb_block s1 p = Some (pb, b) \<longrightarrow> pdata pb \<le> ptail pb)"
proof -
  obtain pb b where b: "pb_block s p = Some (pb, b)" using r by (auto simp: pb_prepare_write_def pb_block_bind)
  let ?n = "max (n mod 2 ^ 32) (pb_size b div 2)"
  show ?thesis
  proof (cases "pb_headroom pb b < n")
    case True
    then have e: "u_pb_expand_head s mem p 0 ?n = Some (None, s1)" using r b by (simp add: pb_prepare_write_def)
    then obtain nb j where mem: "mem = Some (nb, j)" "\<not> pb_shared pb" "?n \<le> 0xffffffff"
      using b by (auto simp: u_pb_expand_head_def Let_def not_less split: if_splits option.splits)
    have nb: "fresh_blk s nb" using m mem(1) by (simp add: new_blk_ok_def)
    show ?thesis
      using u_pb_expand_head_result [OF inv b mem(2) _ mem(3) nb, of 0 j] e mem(1) pb_inv_ptr [OF inv b] by (cases "x = p") auto
  next
    case False
    then show ?thesis using r b pb_inv_ptr [OF inv b] by (simp add: pb_prepare_write_def)
  qed
qed

lemma pb_write_bytes_contents:
  assumes inv: "pb_inv s" and m: "new_blk_ok s mem" and r: "pb_write_bytes s mem p src = Some (None, s1)"
  shows "pb_contents s1 p = pb_contents s p @ src"
proof -
  obtain s' where prep: "pb_prepare_write s mem p (length src) = Some (None, s')"
      and w: "u_pb_write_bytes s' p src = Some s1"
    using r by (auto simp: pb_write_bytes_def bind_eq_Some_conv split: if_splits)
  obtain pb b where b: "pb_block s' p = Some (pb, b)" "length src \<le> pb_tailroom pb b" "ptail pb \<le> length (bytes b)"
    using w by (rule u_pb_write_bytes_room)
  have "pdata pb \<le> ptail pb" using pb_prepare_write_contents [OF inv m prep] b(1) by blast
  from u_pb_write_bytes_result [OF b(1) this b(3,2)] w
  have "pb_contents s1 p = pb_contents s' p @ src" by auto
  then show ?thesis using pb_prepare_write_contents [OF inv m prep] by simp
qed

lemma pb_read_uint_contents:
  assumes inv: "pb_inv s" and b: "pb_block s p = Some (pb, b)" and c: "pb_contents s p = bs @ rest" and n: "length bs = n"
  shows "\<exists>s1. pb_read_uint n f s p = Some (Inr (f (load_le bs)), s1) \<and> pb_contents s1 p = rest"
proof -
  note ptr = pb_inv_ptr [OF inv b]
  have pb: "pbufs s p = Some pb" "blocks s (blk pb) = Some b" using b by (auto simp: pb_block_eq)
  have c: "take (ptail pb - pdata pb) (drop (pdata pb) (bytes b)) = bs @ rest"
    using c b by (simp add: pb_contents_def pb_headlen_def)
  then have len: "ptail pb - pdata pb = n + length rest" using ptr n by (auto dest: arg_cong [of _ _ length])
  have d: "take n (drop (pdata pb) (bytes b)) = bs"
    using arg_cong [OF c, of "take n"] len n by simp
  have "drop n (take (ptail pb - pdata pb) (drop (pdata pb) (bytes b))) = rest" using c n by simp
  then have "take (ptail pb - (pdata pb + n)) (drop (pdata pb + n) (bytes b)) = rest" by (simp add: drop_take add.commute)
  then show ?thesis
    using b pb len d by (simp add: pb_read_uint_def pb_pulldata_def pb_headlen_def pb_contents_def pb_block_def)
qed

lemma load_wire:
  "load_le (store_be 1 v8) = (v8 :: u8)" "SWAP_2BYTES (load_le (store_be 2 v16)) = v16"
  "SWAP_4BYTES (load_le (store_be 4 v32)) = v32" "ntohll be (load_le (store64 be v64)) = v64"
  unfolding wire_bytes [symmetric] wire_bytes64 [symmetric]
  by (simp_all add: load_store_le SWAP_2BYTES_twice SWAP_4BYTES_twice SWAP_8BYTES_twice htonll_def ntohll_def)

text \<open>C29: Integers of 8, 16 and 32 bits are appended in network order and read back from the front
  unchanged: a write that succeeds adds exactly the big-endian bytes to the data, and a read of data that
  starts with them returns the value and leaves the rest. Integers of 64 bits are read back unchanged too, but
  are in network order only where the macro \<open>__BIG_ENDIAN\<close> is not defined; where it is, their bytes go out in
  the order of the host.\<close>

theorem pb_integers_roundtrip:
  assumes "pb_inv s" and "new_blk_ok s mem"
  shows "(pb_write_uint8 s mem p vb = Some (None, t) \<longrightarrow> pb_contents t p = pb_contents s p @ store_be 1 vb) \<and>
      (pb_write_uint16 s mem p vh = Some (None, t) \<longrightarrow> pb_contents t p = pb_contents s p @ store_be 2 vh) \<and>
      (pb_write_uint32 s mem p vw = Some (None, t) \<longrightarrow> pb_contents t p = pb_contents s p @ store_be 4 vw) \<and>
      (pb_write_uint64 be s mem p vd = Some (None, t) \<longrightarrow>
        pb_contents t p = pb_contents s p @ (if be then store_le 8 vd else store_be 8 vd)) \<and>
      (pb_block s p \<noteq> None \<longrightarrow>
        (pb_contents s p = store_be 1 vb @ rest \<longrightarrow> (\<exists>s1. pb_read_uint8 s p = Some (Inr vb, s1) \<and> pb_contents s1 p = rest)) \<and>
        (pb_contents s p = store_be 2 vh @ rest \<longrightarrow> (\<exists>s1. pb_read_uint16 s p = Some (Inr vh, s1) \<and> pb_contents s1 p = rest)) \<and>
        (pb_contents s p = store_be 4 vw @ rest \<longrightarrow> (\<exists>s1. pb_read_uint32 s p = Some (Inr vw, s1) \<and> pb_contents s1 p = rest)) \<and>
        (pb_contents s p = (if be then store_le 8 vd else store_be 8 vd) @ rest \<longrightarrow>
          (\<exists>s1. pb_read_uint64 be s p = Some (Inr vd, s1) \<and> pb_contents s1 p = rest)))"
proof -
  have r: "\<exists>s1. pb_read_uint (length bs) f s p = Some (Inr (f (load_le bs)), s1) \<and> pb_contents s1 p = rest"
    if "pb_block s p \<noteq> None" "pb_contents s p = bs @ rest" for bs and f :: "'b::len word \<Rightarrow> 'b word"
    using that pb_read_uint_contents [OF assms(1), of p _ _ bs rest "length bs" f] by fastforce
  show ?thesis
    unfolding read_write_defs wire_bytes wire_bytes64 store64_def [symmetric]
    using pb_write_bytes_contents [OF assms] r [of "store_be 1 vb" "id :: u8 \<Rightarrow> u8"] r [of "store_be 2 vh" SWAP_2BYTES]
      r [of "store_be 4 vw" SWAP_4BYTES] r [of "store64 be vd" "ntohll be"]
    by (simp add: load_wire load_wire(1) [unfolded One_nat_def])
qed


text \<open>A store with one buffer that holds a byte; there is no head room, so a write grows the buffer.\<close>

definition pb_one :: pstore where
  "pb_one = \<lparr>blocks = (\<lambda>_. None)(7 \<mapsto> \<lparr>bytes = [0x2a, 0, 0, 0, 0, 0, 0, 0], dataref = 1, datalen = 8\<rparr>),
     pbufs = (\<lambda>_. None)(5 \<mapsto> \<lparr>users = 1, cloned = False, blk = 7, pdata = 0, ptail = 1\<rparr>)\<rparr>"

lemma pb_one_refs: "pb_refs pb_one a = (if a = 7 then {5} else {})"
  by (auto simp: pb_refs_def pb_one_def)

lemma pb_inv_one: "pb_inv pb_one"
proof -
  have "uref_counts 1 1" by (simp add: uref_counts_def)
  moreover have "blk_len_ok \<lparr>bytes = [0x2a, 0, 0, 0, 0, 0, 0, 0], dataref = 1, datalen = 8\<rparr>" by code_simp
  ultimately show ?thesis unfolding pb_inv_def pb_one_refs by (auto simp: pb_one_def split: if_splits)
qed

lemma pb_one_write:
  assumes "src \<noteq> []" and "length src < 2 ^ 32"
  shows "\<exists>t. pb_write_bytes pb_one (Some (8, \<lambda>_. 0)) 5 src = Some (None, t)"
proof -
  let ?n = "max (length src) 4"
  have b: "pb_block pb_one 5 = Some (\<lparr>users = 1, cloned = False, blk = 7, pdata = 0, ptail = 1\<rparr>,
      \<lparr>bytes = [0x2a, 0, 0, 0, 0, 0, 0, 0], dataref = 1, datalen = 8\<rparr>)" by (simp add: pb_block_def pb_one_def)
  have nb: "fresh_blk pb_one 8" by (simp add: fresh_blk_def pb_one_def)
  obtain s1 b1 where s1: "u_pb_expand_head pb_one (Some (8, \<lambda>_. 0)) 5 0 ?n = Some (None, s1)"
      "pb_block s1 5 = Some (\<lparr>users = 1, cloned = False, blk = 8, pdata = 0, ptail = 1\<rparr>, b1)" "8 + ?n \<le> length (bytes b1)"
    using u_pb_expand_head_result [OF pb_inv_one b _ _ _ nb, of 0 ?n "\<lambda>_. 0"] assms
    by (auto simp: pb_shared_def uref_read_def)
  have "pb_prepare_write pb_one (Some (8, \<lambda>_. 0)) 5 (length src) = Some (None, s1)"
    using s1(1) b assms pb_inv_head(5) [OF pb_inv_one b] by (simp add: pb_prepare_write_def pb_size_def)
  moreover have "1 + length src \<le> length (bytes b1)" using s1(3) by simp
  then have "length src \<le> pb_tailroom \<lparr>users = 1, cloned = False, blk = 8, pdata = 0, ptail = 1\<rparr> b1" "1 \<le> length (bytes b1)"
    by (simp_all add: pb_tailroom_def)
  then obtain t where "u_pb_write_bytes s1 5 src = Some t"
    using u_pb_write_bytes_result [OF s1(2), of src] by auto
  ultimately show ?thesis by (simp add: pb_write_bytes_def)
qed

text \<open>Witness: a byte is read from the one buffer, and the writes of a 16-bit and, under both settings of the
  macro, of a 64-bit integer append their bytes.\<close>

theorem pb_integers_roundtrip_witness:
  "\<exists>s1 s2 s3 s4. pb_inv pb_one \<and> new_blk_ok pb_one (Some (8, \<lambda>_. 0)) \<and>
     pb_write_uint16 pb_one (Some (8, \<lambda>_. 0)) 5 0x1234 = Some (None, s1) \<and> pb_contents s1 5 = [0x2a, 0x12, 0x34] \<and>
     pb_write_uint64 False pb_one (Some (8, \<lambda>_. 0)) 5 0x1234 = Some (None, s2) \<and>
     pb_contents s2 5 = [0x2a, 0, 0, 0, 0, 0, 0, 0x12, 0x34] \<and>
     pb_write_uint64 True pb_one (Some (8, \<lambda>_. 0)) 5 0x1234 = Some (None, s3) \<and>
     pb_contents s3 5 = [0x2a, 0x34, 0x12, 0, 0, 0, 0, 0, 0] \<and>
     pb_read_uint8 pb_one 5 = Some (Inr 0x2a, s4) \<and> pb_contents s4 5 = []"
proof -
  have new: "new_blk_ok pb_one (Some (8, \<lambda>_. 0))" by (simp add: new_blk_ok_def fresh_blk_def pb_one_def)
  have c: "pb_contents pb_one 5 = [0x2a]" by (simp add: pb_contents_def pb_block_def pb_one_def pb_headlen_def)
  have be: "store_be 1 (0x2a :: u8) = [0x2a]" "store_be 2 (0x1234 :: u16) = [0x12, 0x34]"
      "store_be 8 (0x1234 :: u64) = [0, 0, 0, 0, 0, 0, 0x12, 0x34]" "store_le 8 (0x1234 :: u64) = [0x34, 0x12, 0, 0, 0, 0, 0, 0]"
    by code_simp+
  have blk: "pb_block pb_one 5 \<noteq> None" by (simp add: pb_block_def pb_one_def)
  have "\<exists>t. pb_write_bytes pb_one (Some (8, \<lambda>_. 0)) 5 (store_le n w) = Some (None, t)" if "0 < n" "n < 9"
    for n and w :: "'b::len word"
    using that by (intro pb_one_write) (auto simp: store_le_def)
  note w = this [of 2] this [of 8]
  obtain s1 where s1: "pb_write_uint16 pb_one (Some (8, \<lambda>_. 0)) 5 0x1234 = Some (None, s1)"
    unfolding read_write_defs using w(1) [of "SWAP_2BYTES 0x1234"] by (rule exE) simp_all
  obtain s2 where s2: "pb_write_uint64 False pb_one (Some (8, \<lambda>_. 0)) 5 0x1234 = Some (None, s2)"
    unfolding read_write_defs using w(2) [of "htonll False 0x1234"] by (rule exE) simp_all
  obtain s3 where s3: "pb_write_uint64 True pb_one (Some (8, \<lambda>_. 0)) 5 0x1234 = Some (None, s3)"
    unfolding read_write_defs using w(2) [of "htonll True 0x1234"] by (rule exE) simp_all
  note all = pb_integers_roundtrip [OF pb_inv_one new, where p = 5 and vb = "0x2a" and vh = "0x1234" and vd = "0x1234" and rest = "[]"]
  have "pb_contents s1 5 = [0x2a, 0x12, 0x34]" using all [where t = s1] s1 by (simp add: be c)
  moreover have "pb_contents s2 5 = [0x2a, 0, 0, 0, 0, 0, 0, 0x12, 0x34]"
    using all [where t = s2 and be = False] s2 by (simp add: be c)
  moreover have "pb_contents s3 5 = [0x2a, 0x34, 0x12, 0, 0, 0, 0, 0, 0]"
    using all [where t = s3 and be = True] s3 by (simp add: be c)
  moreover obtain s4 where "pb_read_uint8 pb_one 5 = Some (Inr 0x2a, s4)" "pb_contents s4 5 = []"
    using all [where t = s1] blk by (auto simp: be(1) be(1) [unfolded One_nat_def] c)
  ultimately show ?thesis using s1 s2 s3 pb_inv_one new by blast
qed

section \<open>Buffers of their own\<close>

lemma private_write:
  assumes inv: "pb_inv s" and p: "pbufs s p = Some pb" "pb_refs s (blk pb) = {p}" and w: "u_pb_write_bytes s p src = Some s1"
    and x: "x \<noteq> p"
  shows "pb_contents s1 x = pb_contents s x"
proof -
  obtain b where b: "pb_block s p = Some (pb, b)" "length src \<le> pb_tailroom pb b" "ptail pb \<le> length (bytes b)"
    using u_pb_write_bytes_room [OF w] p(1) by (metis option.inject pb_block_eq)
  have "pdata pb \<le> ptail pb" using pb_inv_ptr [OF inv b(1)] by simp
  from u_pb_write_bytes_result [OF b(1) this b(3,2)] w
  have s1: "pbufs s1 = (pbufs s)(p \<mapsto> pb\<lparr>ptail := ptail pb + length src\<rparr>)" "\<forall>a. a \<noteq> blk pb \<longrightarrow> blocks s1 a = blocks s a"
    by auto
  have "blk pb' \<noteq> blk pb" if "pbufs s x = Some pb'" for pb' using p that x by (auto simp: pb_refs_def)
  then show ?thesis using s1 x by (cases "pbufs s x") (simp_all add: pb_contents_def pb_block_def)
qed

lemma pb_refs_new_block: "pb_inv s \<Longrightarrow> fresh_blk s a \<Longrightarrow> pbufs s p = Some pb \<Longrightarrow> blk pb \<noteq> a"
  by (metis fresh_blk_def option.distinct(1) pb_invD)

text \<open>C30: A deep copy has the data of the original in a block of its own: what is then written to the copy
  changes neither the original nor any of its clones.\<close>

theorem pb_copy_private:
  assumes "pb_inv s" and "pb_block s p = Some (pb, b)" and "fresh_pb s q" and "fresh_blk s nb"
  shows "\<exists>s1. pb_copy s (Some q) (Some (nb, junk)) p = Some (Some q, s1) \<and> pb_contents s1 q = pb_contents s p \<and>
    (\<forall>src s2 x. u_pb_write_bytes s1 q src = Some s2 \<longrightarrow> x \<noteq> q \<longrightarrow> pb_contents s2 x = pb_contents s x)"
proof -
  let ?n = "\<lparr>users = uref_init, cloned = False, blk = nb, pdata = pdata pb, ptail = ptail pb\<rparr>"
  obtain s1 b1 where s1: "pb_copy s (Some q) (Some (nb, junk)) p = Some (Some q, s1)" "pb_inv s1"
      "pb_block s1 q = Some (?n, b1)" "pb_contents s1 q = pb_contents s p"
      "\<forall>x. x \<noteq> q \<longrightarrow> pbufs s1 x = pbufs s x \<and> pb_contents s1 x = pb_contents s x"
    using pb_copy_result [OF assms, of junk] by (elim exE conjE)
  have q: "pbufs s1 q = Some ?n" using s1(3) by (simp add: pb_block_eq)
  have "pb_refs s1 nb = {q}"
    using q s1(5) pb_refs_new_block [OF assms(1,4)] unfolding pb_refs_def by fastforce
  then have "pb_contents s2 x = pb_contents s x" if "u_pb_write_bytes s1 q src = Some s2" "x \<noteq> q" for src s2 x
    using private_write [OF s1(2) q _ that(1,2)] s1(5) that(2) by simp
  then show ?thesis using s1 by blast
qed

text \<open>Witness: a copy of the one buffer.\<close>

theorem pb_copy_private_witness:
  "pb_inv pb_one \<and> (\<exists>s1. pb_copy pb_one (Some 6) (Some (8, \<lambda>_. 0)) 5 = Some (Some 6, s1) \<and> pb_contents s1 6 = [0x2a])"
proof -
  have "pb_contents pb_one 5 = [0x2a]" by (simp add: pb_contents_def pb_block_def pb_one_def pb_headlen_def)
  moreover have "pb_block pb_one 5 = Some (\<lparr>users = 1, cloned = False, blk = 7, pdata = 0, ptail = 1\<rparr>,
      \<lparr>bytes = [0x2a, 0, 0, 0, 0, 0, 0, 0], dataref = 1, datalen = 8\<rparr>)" by (simp add: pb_block_def pb_one_def)
  moreover have "fresh_pb pb_one 6" "fresh_blk pb_one 8" by (simp_all add: fresh_pb_def fresh_blk_def pb_one_def)
  ultimately show ?thesis
    using pb_copy_private [OF pb_inv_one, of 5 _ _ 6 8 "\<lambda>_. 0"] pb_inv_one by (metis (no_types, lifting))
qed

text \<open>A write checks the room in front of the data. With enough of it and too little behind the data
  the write does not grow the buffer and runs into the \<open>BUG_ON\<close> of \<open>pb_putdata\<close>.\<close>

lemma pb_write_bytes_stuck:
  assumes "pb_block s p = Some (pb, b)" and "length src \<le> pb_headroom pb b" and "length (bytes b) < ptail pb + length src"
  shows "pb_write_bytes s mem p src = None"
  using assms by (simp add: pb_write_bytes_def pb_prepare_write_def u_pb_write_bytes_def pb_putdata_def)

end
