(* ===== verification/Index_Map.thy ===== *)
theory Index_Map
  imports Skp_Prelude
begin

text \<open>
  The contract of a container that maps keys to items and whose insertion can fail: what the radix
  tree promises its clients. A trace of calls with the results they returned is checked against a
  plain map by an acceptor, which knows nothing of the container.
\<close>

datatype ('k, 'v) map_call = Insert 'k 'v "errno option" | Delete 'k "'v option" | Lookup 'k "'v option"

text \<open>The map after a call, when its result is one the contract allows.\<close>

fun map_accept :: "('k \<rightharpoonup> 'v) \<Rightarrow> ('k, 'v) map_call \<Rightarrow> ('k \<rightharpoonup> 'v) option" where
  "map_accept m (Insert k v None) = (if m k = None then Some (m(k \<mapsto> v)) else None)"
| "map_accept m (Insert k v (Some EEXIST)) = (if m k = None then None else Some m)"
| "map_accept m (Insert k v (Some ENOMEM)) = (if m k = None then Some m else None)"
| "map_accept m (Insert k v (Some e)) = None"
| "map_accept m (Delete k r) = (if r = m k then Some (m(k := None)) else None)"
| "map_accept m (Lookup k r) = (if r = m k then Some m else None)"

fun map_trace :: "('k \<rightharpoonup> 'v) \<Rightarrow> ('k, 'v) map_call list \<Rightarrow> ('k \<rightharpoonup> 'v) option" where
  "map_trace m [] = Some m"
| "map_trace m (c # cs) = (case map_accept m c of None \<Rightarrow> None | Some m' \<Rightarrow> map_trace m' cs)"

text \<open>A run of a container with some operations, and the trace it leaves.\<close>

inductive map_runs ::
    "('s \<Rightarrow> 'k \<Rightarrow> 'v \<Rightarrow> (errno option \<times> 's) option) \<Rightarrow> ('s \<Rightarrow> 'k \<Rightarrow> 'v option \<times> 's) \<Rightarrow> ('s \<Rightarrow> 'k \<Rightarrow> 'v option) \<Rightarrow>
     's \<Rightarrow> ('k, 'v) map_call list \<Rightarrow> 's \<Rightarrow> bool" for ins del look where
  stop: "map_runs ins del look s [] s"
| ins: "ins s k v = Some (e, s1) \<Longrightarrow> map_runs ins del look s1 cs s2 \<Longrightarrow> map_runs ins del look s (Insert k v e # cs) s2"
| del: "del s k = (r, s1) \<Longrightarrow> map_runs ins del look s1 cs s2 \<Longrightarrow> map_runs ins del look s (Delete k r # cs) s2"
| get: "map_runs ins del look s cs s2 \<Longrightarrow> map_runs ins del look s (Lookup k (look s k) # cs) s2"

text \<open>Replaying a trace: defined when every call returns what the trace says.\<close>

fun exec_calls ::
    "('s \<Rightarrow> 'k \<Rightarrow> 'v \<Rightarrow> (errno option \<times> 's) option) \<Rightarrow> ('s \<Rightarrow> 'k \<Rightarrow> 'v option \<times> 's) \<Rightarrow> ('s \<Rightarrow> 'k \<Rightarrow> 'v option) \<Rightarrow>
     's \<Rightarrow> ('k, 'v) map_call list \<Rightarrow> 's option" where
  "exec_calls ins del look s [] = Some s"
| "exec_calls ins del look s (Insert k v e # cs) =
     (case ins s k v of None \<Rightarrow> None | Some (e', s') \<Rightarrow> if e' = e then exec_calls ins del look s' cs else None)"
| "exec_calls ins del look s (Delete k r # cs) =
     (case del s k of (r', s') \<Rightarrow> if r' = r then exec_calls ins del look s' cs else None)"
| "exec_calls ins del look s (Lookup k r # cs) = (if look s k = r then exec_calls ins del look s cs else None)"

lemma exec_calls_runs: "exec_calls ins del look s cs = Some s' \<Longrightarrow> map_runs ins del look s cs s'"
  by (induction s cs rule: exec_calls.induct [of _ ins del look])
    (auto split: option.splits prod.splits if_splits intro: map_runs.intros)

text \<open>The contract. An insertion without a result is one whose behaviour is not defined.\<close>

locale index_map =
  fixes inv :: "'s \<Rightarrow> bool"
    and lookup :: "'s \<Rightarrow> 'k \<Rightarrow> 'v option"
    and insert :: "'s \<Rightarrow> 'k \<Rightarrow> 'v \<Rightarrow> (errno option \<times> 's) option"
    and delete :: "'s \<Rightarrow> 'k \<Rightarrow> 'v option \<times> 's"
  assumes insert_inv: "inv s \<Longrightarrow> insert s k v = Some (e, s') \<Longrightarrow> inv s'"
    and insert_lookup: "inv s \<Longrightarrow> insert s k v = Some (e, s') \<Longrightarrow>
      lookup s' = (if e = None then (lookup s)(k \<mapsto> v) else lookup s)"
    and insert_result: "inv s \<Longrightarrow> insert s k v = Some (e, s') \<Longrightarrow>
      if lookup s k = None then e = None \<or> e = Some ENOMEM else e = Some EEXIST"
    and delete_inv: "inv s \<Longrightarrow> delete s k = (r, s') \<Longrightarrow> inv s'"
    and delete_result: "inv s \<Longrightarrow> delete s k = (r, s') \<Longrightarrow> r = lookup s k \<and> lookup s' = (lookup s)(k := None)"
begin

lemma insert_accepted:
  assumes "inv s" and "insert s k v = Some (e, s')"
  shows "map_accept (lookup s) (Insert k v e) = Some (lookup s')"
  using insert_lookup [OF assms] insert_result [OF assms] by (cases "lookup s k") auto

lemma runs_refine: "map_runs insert delete lookup s cs s' \<Longrightarrow> inv s \<Longrightarrow> map_trace (lookup s) cs = Some (lookup s') \<and> inv s'"
proof (induction rule: map_runs.induct)
  case (ins s k v e s1 cs s2)
  then show ?case using insert_accepted insert_inv by simp
next
  case (del s k r s1 cs s2)
  then have "inv s1" "r = lookup s k" "lookup s1 = (lookup s)(k := None)"
    using delete_result [of s k r s1] delete_inv [of s k r s1] by blast+
  then show ?case using del.IH by (simp del: fun_upd_apply)
qed simp_all

end

end
