(* ===== verification/Radix_Tree.thy ===== *)
theory Radix_Tree
  imports Bitmap Index_Map
begin

text \<open>
  \<open>src/adt/radix_tree.c\<close>: a map from 64-bit indices to items, as a tree of nodes with 64 slots.
  Six bits of the index choose the slot at each level and the tree is as high as its greatest index
  needs. Nodes are owned by one parent, so the tree is a datatype; the walk from the root down to an
  index is a recursion on the height and the walk back over the recorded path is the way back from
  the recursion. Three tags mark items and, in inner nodes, the subtrees that hold a marked item.

  The heights, at most 12, and the shifts computed from them are natural numbers. Where a slot holds
  an item at a level of nodes the functions are not specified; the invariant excludes it.
\<close>

section \<open>State\<close>

text \<open>A slot: the null pointer, an item, or a node with \<open>count\<close>, \<open>slots\<close> and \<open>tags\<close>.\<close>

datatype 'a rslot = is_Null: Null | Item 'a | Node u32 "'a rslot list" "ulongs list"

record 'a radix_tree_root =
  height :: nat
  nr_nodes :: u64
  rnode :: "'a rslot"

text \<open>The nodes cached by the thread, the number of further nodes \<open>malloc\<close> can provide, and the field
  \<open>alloc_mm\<close> of the root, which allocation and release keep.\<close>

record node_mem =
  tls_nr :: nat
  avail :: nat
  alloc_mm :: u32

definition RADIX_TREE_TAGS :: nat where "RADIX_TREE_TAGS = 3"

definition RADIX_TREE_MAP_SHIFT :: nat where "RADIX_TREE_MAP_SHIFT = 6"

definition RADIX_TREE_MAP_SIZE :: nat where "RADIX_TREE_MAP_SIZE = 64"

definition RADIX_TREE_MAX_PATH :: nat where "RADIX_TREE_MAX_PATH = 64 div RADIX_TREE_MAP_SHIFT + 2"

definition NODE_CACAH_MAX :: nat where "NODE_CACAH_MAX = RADIX_TREE_MAX_PATH * 2"

definition sizeof_node :: u32 where "sizeof_node = 544"

definition INIT_RADIX_TREE :: "'a radix_tree_root" where
  "INIT_RADIX_TREE = \<lparr>height = 0, nr_nodes = 0, rnode = Null\<rparr>"

text \<open>The greatest index of a tree of some height. The shift of the last row is out of range and its
  result is overwritten.\<close>

definition u_maxindex :: "nat \<Rightarrow> u64" where
  "u_maxindex h =
     (let tmp = h * RADIX_TREE_MAP_SHIFT
      in if tmp \<ge> 64 then NOT 0 else drop_bit 1 (drop_bit (63 - tmp) (NOT 0)))"

definition calc_offset :: "u64 \<Rightarrow> nat \<Rightarrow> nat" where
  "calc_offset idx shift = unat (drop_bit shift idx AND 0x3f)"

section \<open>Nodes\<close>

definition new_node :: "'a rslot" where
  "new_node = Node 0 (replicate RADIX_TREE_MAP_SIZE Null) (replicate RADIX_TREE_TAGS (\<lambda>_. 0))"

function radix_tree_preload :: "node_mem \<Rightarrow> node_mem" where
  "radix_tree_preload m =
     (if tls_nr m < NODE_CACAH_MAX div 2 \<and> 0 < avail m
      then radix_tree_preload (m\<lparr>tls_nr := tls_nr m + 1, avail := avail m - 1\<rparr>) else m)"
  by pat_completeness auto
termination by (relation "measure avail") auto

declare radix_tree_preload.simps [simp del]

definition node_alloc :: "node_mem \<Rightarrow> bool \<times> node_mem" where
  "node_alloc m =
     (let m = radix_tree_preload m
      in if tls_nr m \<noteq> 0 then (True, m\<lparr>tls_nr := tls_nr m - 1, alloc_mm := alloc_mm m + sizeof_node\<rparr>)
         else (False, m))"

definition node_free :: "node_mem \<Rightarrow> node_mem" where
  "node_free m =
     (let m = (if tls_nr m = NODE_CACAH_MAX then m\<lparr>tls_nr := tls_nr m - 1\<rparr> else m)
      in m\<lparr>tls_nr := tls_nr m + 1, alloc_mm := alloc_mm m - sizeof_node\<rparr>)"

definition tag_set :: "ulongs list \<Rightarrow> nat \<Rightarrow> nat \<Rightarrow> ulongs list" where
  "tag_set tg tag off = (if \<not> test_bit off (tg ! tag) then tg[tag := set_bit_at off (tg ! tag)] else tg)"

definition tag_clear :: "ulongs list \<Rightarrow> nat \<Rightarrow> nat \<Rightarrow> ulongs list" where
  "tag_clear tg tag off = tg[tag := clear_bit_at off (tg ! tag)]"

definition tag_get :: "ulongs list \<Rightarrow> nat \<Rightarrow> nat \<Rightarrow> bool" where
  "tag_get tg tag off = test_bit off (tg ! tag)"

definition tag_any :: "ulongs list \<Rightarrow> nat \<Rightarrow> bool" where
  "tag_any tg tag \<longleftrightarrow> find_first_bit (tg ! tag) RADIX_TREE_MAP_SIZE < RADIX_TREE_MAP_SIZE"

section \<open>Growing the tree\<close>

text \<open>The table of greatest indices has \<open>RADIX_TREE_MAX_PATH\<close> rows; a look past them is \<open>None\<close>.\<close>

function extend_height :: "nat \<Rightarrow> u64 \<Rightarrow> nat option" where
  "extend_height h index =
     (if h \<ge> RADIX_TREE_MAX_PATH then None
      else if index > u_maxindex h then extend_height (h + 1) index else Some h)"
  by pat_completeness auto
termination by (relation "measure (\<lambda>(h, _). RADIX_TREE_MAX_PATH - h)") auto

declare extend_height.simps [simp del]

fun extend_tags :: "ulongs list \<Rightarrow> nat \<Rightarrow> bool list \<Rightarrow> ulongs list" where
  "extend_tags tg tag [] = tg"
| "extend_tags tg tag (b # bs) = extend_tags (if b then tag_set tg tag 0 else tg) (tag + 1) bs"

text \<open>The loop puts a node on top until the height is reached.\<close>

function extend_loop ::
    "bool list \<Rightarrow> nat \<Rightarrow> 'a radix_tree_root \<Rightarrow> node_mem \<Rightarrow> errno option \<times> 'a radix_tree_root \<times> node_mem" where
  "extend_loop tags h root m =
     (case node_alloc m of
        (False, m) \<Rightarrow> (Some ENOMEM, root, m)
      | (True, m) \<Rightarrow>
          let root = root\<lparr>rnode := Node 1 ((replicate RADIX_TREE_MAP_SIZE Null)[0 := rnode root])
                            (extend_tags (replicate RADIX_TREE_TAGS (\<lambda>_. 0)) 0 tags),
                          height := height root + 1\<rparr>
          in if h > height root then extend_loop tags h root m else (None, root, m))"
  by pat_completeness auto
termination by (relation "measure (\<lambda>(_, h, root, _). h - height root)") auto

declare extend_loop.simps [simp del]

definition rdtree_extend ::
    "'a radix_tree_root \<Rightarrow> u64 \<Rightarrow> node_mem \<Rightarrow> (errno option \<times> 'a radix_tree_root \<times> node_mem) option" where
  "rdtree_extend root index m =
     (case extend_height (height root + 1) index of
        None \<Rightarrow> None
      | Some h \<Rightarrow>
          Some (case rnode root of
             Null \<Rightarrow> (None, root\<lparr>height := h\<rparr>, m)
           | Node c sl tg \<Rightarrow> extend_loop (map (tag_any tg) [0..<RADIX_TREE_TAGS]) h root m))"

section \<open>Insertion and lookup\<close>

text \<open>The loop of the insertion from a slot on: the error, whether the slot was empty and is now in use
  (the parent then counts it), and the slot.\<close>

fun insert_slot ::
    "nat \<Rightarrow> u64 \<Rightarrow> 'a \<Rightarrow> 'a rslot \<Rightarrow> node_mem \<Rightarrow> errno option \<times> bool \<times> 'a rslot \<times> node_mem" where
  "insert_slot 0 index item s m =
     (if \<not> is_Null s then (Some EEXIST, False, s, m) else (None, True, Item item, m))"
| "insert_slot (Suc h) index item s m =
     (case (if is_Null s then (case node_alloc m of (ok, m) \<Rightarrow> (if ok then new_node else Null, m)) else (s, m)) of
        (Node c sl tg, m) \<Rightarrow>
          let offset = calc_offset index (h * RADIX_TREE_MAP_SHIFT) in
          (case insert_slot h index item (sl ! offset) m of
             (e, added, s', m) \<Rightarrow>
               (e, is_Null s, Node (if added then c + 1 else c) (sl[offset := s']) tg, m))
      | (s, m) \<Rightarrow> (Some ENOMEM, False, s, m))"

text \<open>An item is a non-null pointer; the test for a null item is the \<open>None\<close> of the argument. The outer
  \<open>None\<close> of the result is an access past the table of greatest indices.\<close>

definition u_radix_tree_insert ::
    "'a radix_tree_root \<Rightarrow> u64 \<Rightarrow> 'a option \<Rightarrow> node_mem \<Rightarrow> (errno option \<times> 'a radix_tree_root \<times> node_mem) option" where
  "u_radix_tree_insert root index item m =
     (case item of
        None \<Rightarrow> Some (Some EINVAL, root, m)
      | Some x \<Rightarrow>
          (case (if index = 0 \<and> is_Null (rnode root) \<or> index > u_maxindex (height root)
                 then rdtree_extend root index m else Some (None, root, m)) of
             None \<Rightarrow> None
           | Some (Some e, root, m) \<Rightarrow> Some (Some e, root, m)
           | Some (None, root, m) \<Rightarrow>
               (case insert_slot (height root) index x (rnode root) m of
                  (e, _, s, m) \<Rightarrow>
                    Some (e, root\<lparr>rnode := s, nr_nodes := (if e = None then nr_nodes root + 1 else nr_nodes root)\<rparr>, m))))"

primrec slot_item :: "'a rslot \<Rightarrow> 'a option" where
  "slot_item Null = None"
| "slot_item (Item x) = Some x"

fun lookup_slot :: "nat \<Rightarrow> u64 \<Rightarrow> 'a rslot \<Rightarrow> 'a option" where
  "lookup_slot 0 index s = slot_item s"
| "lookup_slot (Suc h) index Null = None"
| "lookup_slot (Suc h) index (Node c sl tg) =
     lookup_slot h index (sl ! calc_offset index (h * RADIX_TREE_MAP_SHIFT))"

definition u_radix_tree_lookup :: "'a radix_tree_root \<Rightarrow> u64 \<Rightarrow> 'a option" where
  "u_radix_tree_lookup root index =
     (if index > u_maxindex (height root) then None else lookup_slot (height root) index (rnode root))"

section \<open>Deletion\<close>

text \<open>The walk back of \<open>__clear_node_tag\<close>: the slot, and whether the walk goes on to the parent.\<close>

fun clear_node_tag :: "nat \<Rightarrow> u64 \<Rightarrow> nat \<Rightarrow> 'a rslot \<Rightarrow> 'a rslot \<times> bool" where
  "clear_node_tag 0 index tag s = (s, True)"
| "clear_node_tag (Suc h) index tag (Node c sl tg) =
     (let offset = calc_offset index (h * RADIX_TREE_MAP_SHIFT) in
      case clear_node_tag h index tag (sl ! offset) of
        (s', cont) \<Rightarrow>
          if \<not> cont \<or> \<not> tag_get tg tag offset then (Node c (sl[offset := s']) tg, False)
          else let tg' = tag_clear tg tag offset
               in (Node c (sl[offset := s']) tg', \<not> tag_any tg' tag))"

text \<open>The walk back that removes the item: the slot, and whether it became empty, so that the parent has one
  slot less in use. A node whose last slot went is freed.\<close>

fun delete_slot :: "nat \<Rightarrow> u64 \<Rightarrow> 'a rslot \<Rightarrow> node_mem \<Rightarrow> 'a rslot \<times> bool \<times> node_mem" where
  "delete_slot 0 index s m = (Null, True, m)"
| "delete_slot (Suc h) index (Node c sl tg) m =
     (let offset = calc_offset index (h * RADIX_TREE_MAP_SHIFT) in
      case delete_slot h index (sl ! offset) m of
        (s', gone, m) \<Rightarrow>
          if \<not> gone then (Node c (sl[offset := s']) tg, False, m)
          else if c - 1 = 0 then (Null, True, node_free m)
          else (Node (c - 1) (sl[offset := s']) tg, False, m))"

definition clear_tags :: "nat \<Rightarrow> u64 \<Rightarrow> 'a rslot \<Rightarrow> 'a rslot" where
  "clear_tags h index s = fold (\<lambda>tag s. fst (clear_node_tag h index tag s)) [0..<RADIX_TREE_TAGS] s"

definition radix_tree_delete :: "'a radix_tree_root \<Rightarrow> u64 \<Rightarrow> node_mem \<Rightarrow> 'a option \<times> 'a radix_tree_root \<times> node_mem" where
  "radix_tree_delete root index m =
     (case u_radix_tree_lookup root index of
        None \<Rightarrow> (None, root, m)
      | Some x \<Rightarrow>
          (case delete_slot (height root) index (clear_tags (height root) index (rnode root)) m of
             (s, _, m) \<Rightarrow>
               (Some x, root\<lparr>rnode := s, nr_nodes := nr_nodes root - 1,
                             height := (if is_Null s then 0 else height root)\<rparr>, m)))"

section \<open>Tags\<close>

text \<open>\<open>None\<close> is the \<open>BUG_ON\<close> for an index without an item, or a null node.\<close>

fun tag_set_slot :: "nat \<Rightarrow> u64 \<Rightarrow> nat \<Rightarrow> 'a rslot \<Rightarrow> 'a rslot option" where
  "tag_set_slot 0 index tag s = Some s"
| "tag_set_slot (Suc h) index tag Null = None"
| "tag_set_slot (Suc h) index tag (Node c sl tg) =
     (let offset = calc_offset index (h * RADIX_TREE_MAP_SHIFT) in
      if is_Null (sl ! offset) then None
      else (case tag_set_slot h index tag (sl ! offset) of
              None \<Rightarrow> None
            | Some s' \<Rightarrow> Some (Node c (sl[offset := s']) (tag_set tg tag offset))))"

definition radix_tree_tag_set :: "'a radix_tree_root \<Rightarrow> u64 \<Rightarrow> nat \<Rightarrow> ('a option \<times> 'a radix_tree_root) option" where
  "radix_tree_tag_set root index tag =
     (if tag \<ge> RADIX_TREE_TAGS then None
      else if index > u_maxindex (height root) then Some (None, root)
      else (case tag_set_slot (height root) index tag (rnode root) of
              None \<Rightarrow> None
            | Some s \<Rightarrow> Some (lookup_slot (height root) index s, root\<lparr>rnode := s\<rparr>)))"

definition radix_tree_tag_clear :: "'a radix_tree_root \<Rightarrow> u64 \<Rightarrow> nat \<Rightarrow> ('a option \<times> 'a radix_tree_root) option" where
  "radix_tree_tag_clear root index tag =
     (if tag \<ge> RADIX_TREE_TAGS then None
      else Some (case u_radix_tree_lookup root index of
                   None \<Rightarrow> (None, root)
                 | Some x \<Rightarrow> (Some x, root\<lparr>rnode := fst (clear_node_tag (height root) index tag (rnode root))\<rparr>)))"

text \<open>The tag of the bottom level, and whether an unset tag was seen on the way.\<close>

fun tag_get_slot :: "nat \<Rightarrow> u64 \<Rightarrow> nat \<Rightarrow> bool \<Rightarrow> 'a rslot \<Rightarrow> bool \<times> bool" where
  "tag_get_slot h index tag saw Null = (False, saw)"
| "tag_get_slot (Suc h) index tag saw (Node c sl tg) =
     (let offset = calc_offset index (h * RADIX_TREE_MAP_SHIFT);
          saw = (saw \<or> \<not> tag_get tg tag offset)
      in if h = 0 then (tag_get tg tag offset, saw) else tag_get_slot h index tag saw (sl ! offset))"

definition radix_tree_tag_get :: "'a radix_tree_root \<Rightarrow> u64 \<Rightarrow> nat \<Rightarrow> bool option" where
  "radix_tree_tag_get root index tag =
     (if tag \<ge> RADIX_TREE_TAGS then None
      else if index > u_maxindex (height root) then Some False
      else (case tag_get_slot (height root) index tag False (rnode root) of
              (rc, saw) \<Rightarrow> if rc \<and> saw then None else Some rc))"

definition radix_tree_tagged :: "'a radix_tree_root \<Rightarrow> nat \<Rightarrow> bool option" where
  "radix_tree_tagged root tag =
     (if tag \<ge> RADIX_TREE_TAGS then None
      else Some (case rnode root of Null \<Rightarrow> False | Node c sl tg \<Rightarrow> tag_any tg tag))"

section \<open>Indices\<close>

text \<open>Two indices that take the same way through the lowest \<open>h\<close> levels.\<close>

definition agree :: "nat \<Rightarrow> u64 \<Rightarrow> u64 \<Rightarrow> bool" where
  "agree h i j \<longleftrightarrow> take_bit (6 * h) i = take_bit (6 * h) j"

lemma agree_refl [simp]: "agree h i i"
  by (simp add: agree_def)

lemma agree_0 [simp]: "agree 0 i j"
  by (simp add: agree_def)

lemma calc_offset_eq: "calc_offset i shift = unat (take_bit 6 (drop_bit shift i))"
proof -
  have "(0x3f :: u64) = mask 6" by (simp add: mask_eq_exp_minus_1)
  then show ?thesis by (simp add: calc_offset_def take_bit_eq_mask)
qed

lemma calc_offset_less [simp]: "calc_offset i shift < 64"
proof -
  have "unat (take_bit 6 (drop_bit shift i)) < 2 ^ 6" by (rule no_bit_less_pow2) (simp add: bit_simps)
  then show ?thesis by (simp add: calc_offset_eq)
qed

lemma calc_offset_fits [simplified, simp]: "calc_offset i (h * 6) * 2 ^ (6 * h) < 2 ^ 64"
proof -
  have "calc_offset i (h * 6) \<le> unat (drop_bit (h * 6) i)" 
    unfolding calc_offset_def using word_and_le2 [of "drop_bit (h * 6) i" "0x3f"] by (simp add: word_le_nat_alt)
  also have "\<dots> = unat i div 2 ^ (6 * h)" by (simp add: unat_div_pow2 mult.commute)
  finally have "calc_offset i (h * 6) * 2 ^ (6 * h) \<le> unat i" by (metis div_times_less_eq_dividend le_trans mult_le_mono1)
  then show ?thesis using unat_lt_2p [of i] by simp
qed

lemma calc_offset_cong:
  "calc_offset i s = calc_offset j s \<longleftrightarrow> (\<forall>n < 6. bit i (s + n) = bit j (s + n))"
proof -
  have "take_bit 6 (drop_bit s i) = take_bit 6 (drop_bit s j)" if "\<forall>n < 6. bit i (s + n) = bit j (s + n)"
    using that by (intro bit_word_eqI) (auto simp: bit_simps)
  moreover have "bit i (s + n) = bit j (s + n)" if "take_bit 6 (drop_bit s i) = take_bit 6 (drop_bit s j)" "n < 6" for n
    using arg_cong [OF that(1), of "\<lambda>w. bit w n"] that(2) by (auto simp: bit_simps dest: bit_imp_le_length)
  ultimately show ?thesis by (auto simp: calc_offset_eq word_unat_eq_iff [symmetric])
qed

lemma agree_Suc: "agree (Suc h) i j \<longleftrightarrow> calc_offset i (h * 6) = calc_offset j (h * 6) \<and> agree h i j"
proof
  assume a: "agree (Suc h) i j"
  have b: "bit i n = bit j n" if "n < 6 * Suc h" for n
  proof (cases "n < 64")
    case True
    have "bit (take_bit (6 * Suc h) i) n = bit (take_bit (6 * Suc h) j) n" using a by (simp only: agree_def)
    then show ?thesis using that by (simp add: bit_simps)
  qed (auto dest: bit_imp_le_length)
  show "calc_offset i (h * 6) = calc_offset j (h * 6) \<and> agree h i j"
    unfolding calc_offset_cong agree_def by (intro conjI allI impI bit_word_eqI) (auto simp: bit_simps b)
next
  assume a: "calc_offset i (h * 6) = calc_offset j (h * 6) \<and> agree h i j"
  show "agree (Suc h) i j" unfolding agree_def
  proof (rule bit_word_eqI)
    fix n assume n: "n < LENGTH(64)"
    show "bit (take_bit (6 * Suc h) i) n = bit (take_bit (6 * Suc h) j) n"
    proof (cases "n < 6 * h")
      case True
      have "bit (take_bit (6 * h) i) n = bit (take_bit (6 * h) j) n" using a by (simp only: agree_def)
      then show ?thesis using True by (simp add: bit_simps)
    next
      case False
      then obtain k where k: "n = h * 6 + k" by (metis le_Suc_ex mult.commute not_less)
      show ?thesis
      proof (cases "k < 6")
        case True
        then show ?thesis using a k unfolding calc_offset_cong by (simp add: bit_simps)
      qed (simp add: k bit_simps)
    qed
  qed
qed

lemma u_maxindex_eq: "u_maxindex h = mask (6 * h)"
  by (rule bit_word_eqI) (auto simp: u_maxindex_def Let_def RADIX_TREE_MAP_SHIFT_def bit_simps not_le)

lemma le_maxindex: "i \<le> u_maxindex h \<longleftrightarrow> take_bit (6 * h) i = i"
proof -
  have "i \<le> mask k \<longleftrightarrow> uint i < 2 ^ min 64 k" for k
    unfolding word_le_def uint_mask_eq by (simp add: mask_eq_exp_minus_1)
  moreover have "uint i < 2 ^ min 64 k \<longleftrightarrow> uint i < 2 ^ k" for k
    using uint_lt2p [of i] power_increasing [of 64 k "2 :: int"] by (auto simp: min_def)
  ultimately show ?thesis by (simp add: u_maxindex_eq take_bit_eq_mask mask_eq_iff)
qed

lemma agree_eq: "i \<le> u_maxindex h \<Longrightarrow> j \<le> u_maxindex h \<Longrightarrow> agree h i j \<longleftrightarrow> i = j"
  by (auto simp: le_maxindex agree_def)


section \<open>Shape\<close>

text \<open>A slot of a tree of some height: items are at the bottom only, nodes have 64 slots and count the ones
  in use, and no slot is in use that no 64-bit index leads to. A node without a used slot is possible: a failed insertion leaves one.\<close>

fun rslot_ok :: "nat \<Rightarrow> 'a rslot \<Rightarrow> bool" where
  "rslot_ok h Null \<longleftrightarrow> True"
| "rslot_ok h (Item x) \<longleftrightarrow> h = 0"
| "rslot_ok 0 (Node c sl tg) \<longleftrightarrow> False"
| "rslot_ok (Suc h) (Node c sl tg) \<longleftrightarrow> length sl = 64 \<and> length tg = 3 \<and> (\<forall>s \<in> set sl. rslot_ok h s) \<and>
     unat c = length (filter (\<lambda>s. \<not> is_Null s) sl) \<and> (\<forall>k < 64. \<not> is_Null (sl ! k) \<longrightarrow> k * 2 ^ (6 * h) < 2 ^ 64)"

lemmas radix_consts = RADIX_TREE_TAGS_def RADIX_TREE_MAP_SHIFT_def RADIX_TREE_MAP_SIZE_def

lemma rslot_ok_cases:
  assumes "rslot_ok (Suc h) s"
  obtains "s = Null" | c sl tg where "s = Node c sl tg" "length sl = 64" "length tg = 3" "\<forall>s \<in> set sl. rslot_ok h s"
    "unat c = length (filter (\<lambda>s. \<not> is_Null s) sl)"
  using assms by (cases s) auto

lemma rslot_ok_0_cases: "rslot_ok 0 s \<Longrightarrow> (s = Null \<Longrightarrow> P) \<Longrightarrow> (\<And>x. s = Item x \<Longrightarrow> P) \<Longrightarrow> P"
  by (cases s) auto

lemma length_filter_update:
  "i < length xs \<Longrightarrow> length (filter P (xs[i := y])) + of_bool (P (xs ! i)) = length (filter P xs) + of_bool (P y)"
proof (induction xs arbitrary: i)
  case (Cons x xs)
  then show ?case by (cases i) auto
qed simp

lemma rslot_ok_new_node [simp]: "rslot_ok (Suc h) new_node"
  by (simp add: new_node_def radix_consts)

text \<open>A slot of a node is replaced and its count adapted.\<close>

lemma rslot_ok_update:
  assumes "rslot_ok (Suc h) (Node c sl tg)" and "i < 64" and "i * 2 ^ (6 * h) < 2 ^ 64" and "rslot_ok h s"
    and "unat c' + of_bool (\<not> is_Null (sl ! i)) = unat c + of_bool (\<not> is_Null s)" and "length tg' = 3"
  shows "rslot_ok (Suc h) (Node c' (sl[i := s]) tg')"
proof -
  have "length (filter (\<lambda>s. \<not> is_Null s) (sl[i := s])) + of_bool (\<not> is_Null (sl ! i)) =
      length (filter (\<lambda>s. \<not> is_Null s) sl) + of_bool (\<not> is_Null s)"
    using assms by (intro length_filter_update) simp
  then have "unat c' = length (filter (\<lambda>s. \<not> is_Null s) (sl[i := s]))" using assms(1,5) by simp
  moreover have "\<not> is_Null (sl[i := s] ! k) \<longrightarrow> k * 2 ^ (6 * h) < 2 ^ 64" if "k < 64" for k
    using assms(1,3) that by (cases "k = i") simp_all
  ultimately show ?thesis using assms by (auto dest!: set_update_subset_insert [THEN subsetD])
qed

lemma node_count_bounds:
  assumes "rslot_ok (Suc h) (Node c sl tg)" and "i < 64"
  shows "is_Null (sl ! i) \<Longrightarrow> unat (c + 1) = unat c + 1" and "\<not> is_Null (sl ! i) \<Longrightarrow> 0 < unat c \<and> unat (c - 1) = unat c - 1"
proof -
  have c: "unat c = length (filter (\<lambda>s. \<not> is_Null s) sl)" "length sl = 64" using assms(1) by simp_all
  then have "unat c \<le> 64" using length_filter_le [of "\<lambda>s. \<not> is_Null s" sl] by simp
  then show "unat (c + 1) = unat c + 1" by (simp add: unat_word_ariths)
  assume "\<not> is_Null (sl ! i)"
  then have "sl ! i \<in> set (filter (\<lambda>s. \<not> is_Null s) sl)" using assms(2) c(2) by simp
  then have "0 < unat c" unfolding c(1) by (rule length_pos_if_in_set)
  then show "0 < unat c \<and> unat (c - 1) = unat c - 1" by (simp add: unat_minus_one unat_gt_0)
qed

lemma lookup_slot_Null [simp]: "lookup_slot h j Null = None"
  by (cases h) simp_all

lemma lookup_new_node [simp]: "lookup_slot (Suc h) j new_node = None"
  by (simp add: new_node_def radix_consts)

lemma lookup_slot_update:
  "length sl = 64 \<Longrightarrow> i < 64 \<Longrightarrow> lookup_slot (Suc h) j (Node c (sl[i := s]) tg) =
     (if calc_offset j (h * 6) = i then lookup_slot h j s else lookup_slot (Suc h) j (Node c' sl tg'))"
  by (simp add: radix_consts nth_list_update)

text \<open>One level of an insertion: no node could be had for an empty slot, or the insertion goes on below the
  node that is or was put there.\<close>

lemma insert_slot_Suc:
  assumes "rslot_ok (Suc h) s" and "insert_slot (Suc h) i x s m = (e, added, s', m')"
  obtains (fail) "s = Null" "s' = Null" "e = Some ENOMEM" "\<not> added" "node_alloc m = (False, m')"
  | (down) c sl tg m1 a1 s1 where
      "Node c sl tg = (if is_Null s then new_node else s)" "m1 = (if is_Null s then snd (node_alloc m) else m)"
      "is_Null s \<Longrightarrow> fst (node_alloc m)" "rslot_ok (Suc h) (Node c sl tg)" "rslot_ok h (sl ! calc_offset i (h * 6))"
      "insert_slot h i x (sl ! calc_offset i (h * 6)) m1 = (e, a1, s1, m')" "added = is_Null s"
      "s' = Node (if a1 then c + 1 else c) (sl[calc_offset i (h * 6) := s1]) tg"
proof (cases "is_Null s \<and> \<not> fst (node_alloc m)")
  case True
  then show ?thesis using assms(2) fail by (cases "node_alloc m") (auto simp: is_Null_def)
next
  case False
  define n where "n = (if is_Null s then new_node else s)"
  define m1 where "m1 = (if is_Null s then snd (node_alloc m) else m)"
  have n: "rslot_ok (Suc h) n" "\<not> is_Null n" using assms(1) by (auto simp: n_def new_node_def radix_consts)
  then obtain c sl tg where node: "n = Node c sl tg" and len: "length sl = 64" and ok: "\<forall>s \<in> set sl. rslot_ok h s"
    by (auto elim: rslot_ok_cases)
  let ?o = "calc_offset i (h * 6)"
  obtain e1 a1 s1 m2 where rec: "insert_slot h i x (sl ! ?o) m1 = (e1, a1, s1, m2)" by (metis prod_cases4)
  have at: "(if is_Null s then (case node_alloc m of (ok, m) \<Rightarrow> (if ok then new_node else Null, m)) else (s, m)) =
      (Node c sl tg, m1)"
    using False node [symmetric] by (auto simp: n_def m1_def split: prod.splits)
  have res: "e = e1" "added = is_Null s" "s' = Node (if a1 then c + 1 else c) (sl[?o := s1]) tg" "m' = m2"
    using assms(2) rec unfolding insert_slot.simps at by (auto simp: Let_def radix_consts)
  show ?thesis
    using node False n(1) ok len rec res
    by (intro down [of c sl tg m1 a1 s1]) (auto simp: n_def m1_def)
qed

lemma insert_slot_spec:
  assumes "rslot_ok h s" and "insert_slot h i x s m = (e, added, s', m')"
  shows "rslot_ok h s' \<and> (is_Null s' \<longrightarrow> is_Null s) \<and> (added \<longleftrightarrow> is_Null s \<and> \<not> is_Null s') \<and>
    (\<forall>j. lookup_slot h j s' = (if e = None \<and> agree h i j then Some x else lookup_slot h j s)) \<and>
    (e = Some EEXIST \<longleftrightarrow> lookup_slot h i s \<noteq> None) \<and> (e = None \<or> e = Some EEXIST \<or> e = Some ENOMEM)"
  using assms
proof (induction h arbitrary: s m e added s' m')
  case 0
  then show ?case by (cases s) auto
next
  case (Suc h)
  from Suc.prems show ?case
  proof (cases rule: insert_slot_Suc)
    case (down c sl tg m1 a1 s1)
    have len: "length sl = 64" using down(4) by simp
    have n: "lookup_slot (Suc h) j s = lookup_slot (Suc h) j (Node c sl tg)" for j
      unfolding down(1) by (auto simp: is_Null_def)
    note IH = Suc.IH [OF down(5,6)]
    have "rslot_ok (Suc h) s'"
      unfolding down(8) using IH down(4) node_count_bounds(1) [OF down(4) calc_offset_less, of i "h * 6"] len
      by (intro rslot_ok_update [of h c sl tg]) auto
    moreover have "lookup_slot (Suc h) j s' = (if e = None \<and> agree (Suc h) i j then Some x else lookup_slot (Suc h) j s)" for j
      unfolding down(8) lookup_slot_update [OF len calc_offset_less, of h j _ i "h * 6" s1 tg c tg] agree_Suc n
      using IH by (auto simp: radix_consts)
    moreover have "lookup_slot (Suc h) i s = lookup_slot h i (sl ! calc_offset i (h * 6))" unfolding n by (simp add: radix_consts)
    moreover have "\<not> is_Null s'" by (simp add: down(8))
    ultimately show ?thesis using IH unfolding down(7) by (intro conjI) auto
  qed simp
qed

text \<open>The walk of a deletion, for an index with an item.\<close>

lemma delete_slot_spec:
  assumes "rslot_ok h s" and "lookup_slot h i s \<noteq> None" and "delete_slot h i s m = (s', gone, m')"
  shows "rslot_ok h s' \<and> (gone \<longleftrightarrow> is_Null s') \<and>
    (\<forall>j. lookup_slot h j s' = (if agree h i j then None else lookup_slot h j s))"
  using assms
proof (induction h arbitrary: s m s' gone m')
  case 0
  then show ?case by auto
next
  case (Suc h)
  obtain c sl tg where s: "s = Node c sl tg" and len: "length sl = 64" "length tg = 3" and ok: "\<forall>s \<in> set sl. rslot_ok h s"
      and cnt: "unat c = length (filter (\<lambda>s. \<not> is_Null s) sl)"
    using Suc.prems(1,2) by (auto elim: rslot_ok_cases)
  let ?o = "calc_offset i (h * 6)"
  obtain s1 g1 m1 where rec: "delete_slot h i (sl ! ?o) m = (s1, g1, m1)" by (metis prod_cases3)
  have child: "rslot_ok h (sl ! ?o)" "lookup_slot h i (sl ! ?o) \<noteq> None"
    using ok len Suc.prems(2) by (simp_all add: s radix_consts)
  then have nn: "\<not> is_Null (sl ! ?o)" by (auto simp: is_Null_def)
  note IH = Suc.IH [OF child rec]
  note cb = node_count_bounds(2) [OF Suc.prems(1) [unfolded s] calc_offset_less nn]
  have upd: "rslot_ok (Suc h) (Node (if g1 then c - 1 else c) (sl[?o := s1]) tg)"
    using IH nn cb len Suc.prems(1) [unfolded s] by (intro rslot_ok_update [of h c sl tg]) auto
  have lk: "lookup_slot (Suc h) j (Node c' (sl[?o := s1]) tg) = (if agree (Suc h) i j then None else lookup_slot (Suc h) j s)" for j c'
    unfolding lookup_slot_update [OF len(1) calc_offset_less, of h j c' i "h * 6" s1 tg c tg] agree_Suc s
    using IH by (auto simp: radix_consts)
  consider "\<not> g1" "s' = Node c (sl[?o := s1]) tg" "\<not> gone" | "g1" "c - 1 = 0" "s' = Null" "gone"
    | "g1" "s' = Node (c - 1) (sl[?o := s1]) tg" "\<not> gone"
    using Suc.prems(3) rec by (auto simp: s Let_def radix_consts split: if_splits)
  then show ?case
  proof cases
    case 2
    have "unat (c - 1) = length (filter (\<lambda>s. \<not> is_Null s) (sl[?o := s1]))" using upd 2 by simp
    then have "filter (\<lambda>s. \<not> is_Null s) (sl[?o := s1]) = []" using 2 by simp
    then have "is_Null x" if "x \<in> set (sl[?o := s1])" for x using that by (simp add: filter_empty_conv)
    then have "sl[?o := s1] ! k = Null" if "k < 64" for k using that len by (metis is_Null_def length_list_update nth_mem)
    then have "lookup_slot (Suc h) j (Node c (sl[?o := s1]) tg) = None" for j by (simp add: radix_consts)
    then have "(if agree (Suc h) i j then None else lookup_slot (Suc h) j s) = None" for j unfolding lk .
    then show ?thesis using 2 by simp
  qed (use upd lk in auto)
qed

section \<open>Tag consistency\<close>

text \<open>Whether a node has a slot with the tag.\<close>

fun node_tag :: "nat \<Rightarrow> 'a rslot \<Rightarrow> bool" where
  "node_tag t (Node c sl tg) \<longleftrightarrow> (\<exists>i < 64. test_bit i (tg ! t))"
| "node_tag t s \<longleftrightarrow> False"

text \<open>At the bottom only slots in use are tagged; above, a slot is tagged exactly when the node in it has a
  tagged slot.\<close>

fun tags_ok :: "nat \<Rightarrow> 'a rslot \<Rightarrow> bool" where
  "tags_ok (Suc h) (Node c sl tg) \<longleftrightarrow> (\<forall>s \<in> set sl. tags_ok h s) \<and>
     (\<forall>t < 3. \<forall>i < 64. if h = 0 then test_bit i (tg ! t) \<longrightarrow> \<not> is_Null (sl ! i) else test_bit i (tg ! t) = node_tag t (sl ! i))"
| "tags_ok h s \<longleftrightarrow> True"

text \<open>The tag of an index is the one of its slot at the bottom.\<close>

fun tagged :: "nat \<Rightarrow> u64 \<Rightarrow> nat \<Rightarrow> 'a rslot \<Rightarrow> bool" where
  "tagged (Suc h) j t (Node c sl tg) \<longleftrightarrow>
     (if h = 0 then test_bit (calc_offset j 0) (tg ! t) else tagged h j t (sl ! calc_offset j (h * 6)))"
| "tagged h j t s \<longleftrightarrow> False"

lemma tagged_Null [simp]: "\<not> tagged h j t Null"
  by (cases h) simp_all

lemma tag_any_iff: "tag_any tg t \<longleftrightarrow> (\<exists>i < 64. test_bit i (tg ! t))"
  using find_first_bit_spec [of "tg ! t" 64] unfolding tag_any_def next_such_def radix_consts
  by (metis le0 linorder_cases not_less)


lemma test_bit_zero [simp]: "\<not> test_bit i (\<lambda>_. 0)"
  by (simp add: variable_test_bit_def)

lemma tags_ok_new_node [simp]: "tags_ok (Suc h) new_node" "\<not> node_tag t new_node \<or> 3 \<le> t" "t < 3 \<Longrightarrow> \<not> tagged (Suc h) j t new_node"
  "t < 3 \<Longrightarrow> \<not> node_tag t new_node"
  by (auto simp: new_node_def radix_consts is_Null_def[symmetric] nth_Cons')

lemma tags_okD:
  assumes "tags_ok (Suc h) (Node c sl tg)" and "t < 3" and "i < 64"
  shows "h = 0 \<Longrightarrow> test_bit i (tg ! t) \<Longrightarrow> \<not> is_Null (sl ! i)" and "h \<noteq> 0 \<Longrightarrow> test_bit i (tg ! t) = node_tag t (sl ! i)"
  using assms by auto

text \<open>A slot of a node is replaced and one bit of the tags follows.\<close>

lemma tags_ok_update:
  assumes ok: "tags_ok (Suc h) (Node c sl tg)" and i: "i < 64" "length sl = 64" and s: "tags_ok h s"
    and bits: "\<And>t j. t < 3 \<Longrightarrow> j < 64 \<Longrightarrow> j \<noteq> i \<Longrightarrow> test_bit j (tg' ! t) = test_bit j (tg ! t)"
    and bit_i: "\<And>t. t < 3 \<Longrightarrow> if h = 0 then test_bit i (tg' ! t) \<longrightarrow> \<not> is_Null s else test_bit i (tg' ! t) = node_tag t s"
  shows "tags_ok (Suc h) (Node c' (sl[i := s]) tg')"
proof -
  have "tags_ok h x" if "x \<in> set (sl[i := s])" for x
    using that ok s set_update_subset_insert [of sl i s] by auto
  moreover have "if h = 0 then test_bit j (tg' ! t) \<longrightarrow> \<not> is_Null (sl[i := s] ! j) else test_bit j (tg' ! t) = node_tag t (sl[i := s] ! j)"
    if "t < 3" "j < 64" for t j
    using tags_okD [OF ok that] bits [OF that] bit_i [OF that(1)] i by (cases "j = i") auto
  ultimately show ?thesis by simp
qed

lemma insert_slot_tags:
  assumes "rslot_ok h s" and "tags_ok h s" and "insert_slot h i x s m = (e, added, s', m')"
  shows "tags_ok h s' \<and> (\<forall>t < 3. node_tag t s' = node_tag t s \<and> (\<forall>j. tagged h j t s' = tagged h j t s))"
  using assms
proof (induction h arbitrary: s m e added s' m')
  case 0
  then show ?case by (cases s) auto
next
  case (Suc h)
  from Suc.prems(1,3) show ?case
  proof (cases rule: insert_slot_Suc)
    case (down c sl tg m1 a1 s1)
    have len: "length sl = 64" using down(4) by simp
    have n: "tags_ok (Suc h) (Node c sl tg)" "t < 3 \<Longrightarrow> node_tag t s = node_tag t (Node c sl tg)"
        "t < 3 \<Longrightarrow> tagged (Suc h) j t s = tagged (Suc h) j t (Node c sl tg)" for j t
      unfolding down(1) using Suc.prems(2) by (auto simp: is_Null_def)
    have child: "tags_ok h (sl ! calc_offset i (h * 6))" using n(1) len by simp
    note IH = Suc.IH [OF down(5) child down(6)] and sp = insert_slot_spec [OF down(5,6)]
    have "tags_ok (Suc h) s'" unfolding down(8)
      using IH sp n(1) len tags_okD [OF n(1) _ calc_offset_less] by (intro tags_ok_update [of h c sl tg]) auto
    moreover have "node_tag t s' = node_tag t (Node c sl tg)" for t by (simp add: down(8))
    moreover have "tagged (Suc h) j t s' = tagged (Suc h) j t (Node c sl tg)" if "t < 3" for t j
      using IH that len by (simp add: down(8) nth_list_update)
    ultimately show ?thesis using n by simp
  qed simp
qed

text \<open>The node on the way to an index, and its slot for the index.\<close>

lemma way_down:
  assumes "rslot_ok (Suc h) s" and "tags_ok (Suc h) s" and "lookup_slot (Suc h) i s \<noteq> None"
  obtains c sl tg where "s = Node c sl tg" "length sl = 64" "length tg = 3" "rslot_ok h (sl ! calc_offset i (h * 6))"
    "tags_ok h (sl ! calc_offset i (h * 6))" "lookup_slot h i (sl ! calc_offset i (h * 6)) \<noteq> None"
    "\<not> is_Null (sl ! calc_offset i (h * 6))"
proof -
  obtain c sl tg where s: "s = Node c sl tg" "length sl = 64" "length tg = 3" "\<forall>s \<in> set sl. rslot_ok h s"
    using assms by (auto elim: rslot_ok_cases)
  have n: "lookup_slot h i (sl ! calc_offset i (h * 6)) \<noteq> None" using assms(3) by (simp add: s(1) radix_consts)
  then have "\<not> is_Null (sl ! calc_offset i (h * 6))" by (auto simp: is_Null_def)
  with s n show thesis using assms(2) by (intro that [of c sl tg]) auto
qed

lemma test_bit_tag_set: "t < length tg \<Longrightarrow> t' < length tg \<Longrightarrow>
    test_bit j (tag_set tg t i ! t') = (test_bit j (tg ! t') \<or> t' = t \<and> j = i)"
  by (auto simp: tag_set_def nth_list_update variable_test_bit_set)

lemma test_bit_tag_clear: "t < length tg \<Longrightarrow> t' < length tg \<Longrightarrow>
    test_bit j (tag_clear tg t i ! t') = (test_bit j (tg ! t') \<and> \<not> (t' = t \<and> j = i))"
  by (auto simp: tag_clear_def nth_list_update bit_spec)

lemma length_tags [simp]: "length (tag_set tg t i) = length tg" "length (tag_clear tg t i) = length tg"
  by (simp_all add: tag_set_def tag_clear_def)

text \<open>Setting the tag of an index with an item.\<close>

lemma tag_set_slot_spec:
  assumes "rslot_ok h s" and "tags_ok h s" and "lookup_slot h i s \<noteq> None" and "t < 3"
  shows "\<exists>s'. tag_set_slot h i t s = Some s' \<and> rslot_ok h s' \<and> tags_ok h s' \<and> \<not> is_Null s' \<and>
    (h \<noteq> 0 \<longrightarrow> node_tag t s') \<and>
    (\<forall>t' < 3. t' \<noteq> t \<longrightarrow> node_tag t' s' = node_tag t' s) \<and> (\<forall>j. lookup_slot h j s' = lookup_slot h j s) \<and>
    (\<forall>t' < 3. \<forall>j. tagged h j t' s' = (tagged h j t' s \<or> h \<noteq> 0 \<and> t' = t \<and> agree h i j))"
  using assms
proof (induction h arbitrary: s)
  case 0
  then show ?case by (cases s) auto
next
  case (Suc h)
  from Suc.prems(1-3) obtain c sl tg where s: "s = Node c sl tg" and len: "length sl = 64" "length tg = 3"
      and child: "rslot_ok h (sl ! calc_offset i (h * 6))" "tags_ok h (sl ! calc_offset i (h * 6))"
        "lookup_slot h i (sl ! calc_offset i (h * 6)) \<noteq> None" "\<not> is_Null (sl ! calc_offset i (h * 6))"
    by (rule way_down)
  let ?o = "calc_offset i (h * 6)"
  obtain s1 where IH: "tag_set_slot h i t (sl ! ?o) = Some s1" "rslot_ok h s1" "tags_ok h s1" "\<not> is_Null s1"
      "h \<noteq> 0 \<Longrightarrow> node_tag t s1" "\<And>t'. t' < 3 \<Longrightarrow> t' \<noteq> t \<Longrightarrow> node_tag t' s1 = node_tag t' (sl ! ?o)"
      "\<And>j. lookup_slot h j s1 = lookup_slot h j (sl ! ?o)"
      "\<And>t' j. t' < 3 \<Longrightarrow> tagged h j t' s1 = (tagged h j t' (sl ! ?o) \<or> h \<noteq> 0 \<and> t' = t \<and> agree h i j)"
    using Suc.IH [OF child(1-3) Suc.prems(4)] by blast
  let ?s = "Node c (sl[?o := s1]) (tag_set tg t ?o)"
  note tb = test_bit_tag_set [of t tg] and td = tags_okD [OF Suc.prems(2) [unfolded s] _ calc_offset_less]
  have run: "tag_set_slot (Suc h) i t s = Some ?s" using IH(1) child(4) by (simp add: s radix_consts Let_def)
  have ok: "rslot_ok (Suc h) ?s"
    using Suc.prems(1) [unfolded s] IH(2,4) child(4) len by (intro rslot_ok_update [of h c sl tg]) auto
  have tok: "tags_ok (Suc h) ?s"
    using Suc.prems(2) [unfolded s] Suc.prems(4) IH len td child(4)
    by (intro tags_ok_update [of h c sl tg]) (auto simp: tb)
  have tag: "tagged (Suc h) j t' ?s = (tagged (Suc h) j t' s \<or> t' = t \<and> agree (Suc h) i j)" if "t' < 3" for t' j
    using IH(8) [OF that] Suc.prems(4) that len by (auto simp: s tb agree_Suc nth_list_update)
  have nt: "node_tag t ?s" "\<And>t'. t' < 3 \<Longrightarrow> t' \<noteq> t \<Longrightarrow> node_tag t' ?s = node_tag t' s"
    using Suc.prems(4) len by (auto simp: s tb intro!: exI [of _ ?o])
  have "lookup_slot (Suc h) j ?s = lookup_slot (Suc h) j s" for j
    using IH(7) len by (simp add: s nth_list_update radix_consts)
  moreover have "\<not> is_Null ?s" by simp
  ultimately show ?case using run ok tok tag nt by blast
qed

lemma clear_node_tag_spec:
  assumes "rslot_ok h s" and "tags_ok h s" and "lookup_slot h i s \<noteq> None" and "t < 3"
    and "clear_node_tag h i t s = (s', cont)"
  shows "rslot_ok h s' \<and> tags_ok h s' \<and> \<not> is_Null s' \<and>
    (h \<noteq> 0 \<longrightarrow> (if cont then node_tag t s \<and> \<not> node_tag t s' else node_tag t s' = node_tag t s)) \<and>
    (\<forall>t' < 3. t' \<noteq> t \<longrightarrow> node_tag t' s' = node_tag t' s) \<and> (\<forall>j. lookup_slot h j s' = lookup_slot h j s) \<and>
    (\<forall>t' < 3. \<forall>j. tagged h j t' s' = (tagged h j t' s \<and> \<not> (t' = t \<and> agree h i j)))"
  using assms
proof (induction h arbitrary: s s' cont)
  case 0
  then show ?case by (cases s) auto
next
  case (Suc h)
  from Suc.prems(1-3) obtain c sl tg where s: "s = Node c sl tg" and len: "length sl = 64" "length tg = 3"
      and child: "rslot_ok h (sl ! calc_offset i (h * 6))" "tags_ok h (sl ! calc_offset i (h * 6))"
        "lookup_slot h i (sl ! calc_offset i (h * 6)) \<noteq> None" "\<not> is_Null (sl ! calc_offset i (h * 6))"
    by (rule way_down)
  let ?o = "calc_offset i (h * 6)"
  obtain s1 c1 where rec: "clear_node_tag h i t (sl ! ?o) = (s1, c1)" by fastforce
  note IH = Suc.IH [OF child(1-3) Suc.prems(4) rec]
  note td = tags_okD [OF Suc.prems(2) [unfolded s] _ calc_offset_less]
  define go where "go \<longleftrightarrow> c1 \<and> test_bit ?o (tg ! t)"
  define tg1 where "tg1 = (if go then tag_clear tg t ?o else tg)"
  have tb: "test_bit j (tg1 ! t') = (test_bit j (tg ! t') \<and> \<not> (go \<and> t' = t \<and> j = ?o))" if "t' < 3" for t' j
    using that Suc.prems(4) len by (simp add: tg1_def test_bit_tag_clear)
  have res: "s' = Node c (sl[?o := s1]) tg1" "cont = (go \<and> \<not> tag_any tg1 t)"
    using Suc.prems(5) rec by (auto simp: s Let_def radix_consts go_def tg1_def tag_get_def split: if_splits)
  have len1: "length tg1 = 3" using len by (simp add: tg1_def)
  have bit: "if h = 0 then test_bit ?o (tg1 ! t') \<longrightarrow> \<not> is_Null s1 else test_bit ?o (tg1 ! t') = node_tag t' s1"
    if "t' < 3" for t'
    using IH td [OF that] tb [OF that, of ?o] that by (cases "t' = t"; cases "h = 0"; cases c1) (auto simp: go_def)
  have ok: "rslot_ok (Suc h) s'" unfolding res
    using Suc.prems(1) [unfolded s] IH child(4) len1 by (intro rslot_ok_update [of h c sl tg]) auto
  have tok: "tags_ok (Suc h) s'" unfolding res
    by (rule tags_ok_update [OF Suc.prems(2) [unfolded s] calc_offset_less len(1) _ _ bit]) (use IH tb in auto)
  have c1: "h = 0 \<Longrightarrow> c1" using rec by auto
  have tag: "tagged (Suc h) j t' s' = (tagged (Suc h) j t' s \<and> \<not> (t' = t \<and> agree (Suc h) i j))" if "t' < 3" for t' j
    using IH that len c1 tb [OF that, of "calc_offset j 0"]
    by (cases "h = 0") (auto simp: s res agree_Suc nth_list_update go_def)
  have "node_tag t s" if go using that calc_offset_less [of i "h * 6"] unfolding go_def s node_tag.simps by blast
  moreover have "tag_any tg1 t = node_tag t s'" by (simp add: tag_any_iff res)
  moreover have "node_tag t s' = node_tag t s" if "\<not> go" using that by (simp add: tg1_def res s)
  ultimately have nt: "if cont then node_tag t s \<and> \<not> node_tag t s' else node_tag t s' = node_tag t s"
    using res(2) by auto
  have "node_tag t' s' = node_tag t' s" if "t' < 3" "t' \<noteq> t" for t' using tb [OF that(1)] that(2) by (simp add: res s)
  moreover have "lookup_slot (Suc h) j s' = lookup_slot (Suc h) j s" for j
    using IH len by (simp add: s res nth_list_update radix_consts)
  moreover have "\<not> is_Null s'" by (simp add: res)
  ultimately show ?case using ok tok tag nt by simp
qed


text \<open>Removing an item whose tags are cleared.\<close>

lemma delete_slot_tags:
  assumes "rslot_ok h s" and "tags_ok h s" and "lookup_slot h i s \<noteq> None" and "\<forall>t < 3. \<not> tagged h i t s"
    and "delete_slot h i s m = (s', gone, m')"
  shows "tags_ok h s' \<and> (\<forall>t < 3. node_tag t s' = node_tag t s \<and> (\<forall>j. tagged h j t s' = tagged h j t s))"
  using assms
proof (induction h arbitrary: s m s' gone m')
  case 0
  then show ?case by (cases s) auto
next
  case (Suc h)
  from Suc.prems(1-3) obtain c sl tg where s: "s = Node c sl tg" and len: "length sl = 64" "length tg = 3"
      and child: "rslot_ok h (sl ! calc_offset i (h * 6))" "tags_ok h (sl ! calc_offset i (h * 6))"
        "lookup_slot h i (sl ! calc_offset i (h * 6)) \<noteq> None" "\<not> is_Null (sl ! calc_offset i (h * 6))"
    by (rule way_down)
  let ?o = "calc_offset i (h * 6)"
  obtain s1 g1 m1 where rec: "delete_slot h i (sl ! ?o) m = (s1, g1, m1)" by (metis prod_cases3)
  have "\<forall>t < 3. \<not> tagged h i t (sl ! ?o)" using Suc.prems(4) by (cases h) (auto simp: s)
  note IH = Suc.IH [OF child(1-3) this rec] and sp = delete_slot_spec [OF child(1,3) rec]
  have o: "\<not> test_bit ?o (tg ! t)" if "h = 0" "t < 3" for t using Suc.prems(4) that by (auto simp: s)
  note td = tags_okD [OF Suc.prems(2) [unfolded s] _ calc_offset_less]
  have upd: "tags_ok (Suc h) (Node c' (sl[?o := s1]) tg)" for c'
    using Suc.prems(2) [unfolded s] IH len o td by (intro tags_ok_update [of h c sl tg]) auto
  have tag: "tagged (Suc h) j t (Node c' (sl[?o := s1]) tg) = tagged (Suc h) j t s" if "t < 3" for j t c'
    using IH that len by (simp add: s nth_list_update)
  consider c' where "s' = Node c' (sl[?o := s1]) tg" | "g1" "c - 1 = 0" "s' = Null"
    using Suc.prems(5) rec by (auto simp: s Let_def radix_consts split: if_splits)
  then show ?case
  proof cases
    case (1 c')
    have "node_tag t s' = node_tag t s" for t by (simp add: 1 s)
    then show ?thesis using upd [of c'] tag unfolding 1 by blast
  next
    case 2
    have "rslot_ok (Suc h) (Node (c - 1) (sl[?o := s1]) tg)"
      using Suc.prems(1) [unfolded s] sp 2(1) child(4) len node_count_bounds(2) [OF Suc.prems(1) [unfolded s] calc_offset_less child(4)]
      by (intro rslot_ok_update [of h c sl tg]) auto
    then have "filter (\<lambda>s. \<not> is_Null s) (sl[?o := s1]) = []" using 2(2) by simp
    then have null: "sl[?o := s1] ! k = Null" if "k < 64" for k
      using that len by (metis (mono_tags, lifting) filter_empty_conv is_Null_def length_list_update nth_mem)
    have nt: "\<not> test_bit k (tg ! t)" if "t < 3" "k < 64" for t k
      using tags_okD [OF upd that] null [OF that(2)] by (cases "h = 0") auto
    have "\<not> tagged (Suc h) j t s" if "t < 3" for j t
      using nt [OF that, of "calc_offset j 0"] tag [OF that, symmetric] null by (cases "h = 0") (simp_all add: s)
    then show ?thesis using 2 nt by (auto simp: s)
  qed
qed

text \<open>All three tags are cleared before the deletion.\<close>

lemma clear_tags_spec:
  assumes "rslot_ok h s" and "tags_ok h s" and "lookup_slot h i s \<noteq> None"
  shows "rslot_ok h (clear_tags h i s) \<and> tags_ok h (clear_tags h i s) \<and> \<not> is_Null (clear_tags h i s) \<and>
    (\<forall>j. lookup_slot h j (clear_tags h i s) = lookup_slot h j s) \<and>
    (\<forall>t < 3. \<forall>j. tagged h j t (clear_tags h i s) = (tagged h j t s \<and> \<not> agree h i j))"
proof -
  let ?f = "\<lambda>t s. fst (clear_node_tag h i t s)"
  have step: "rslot_ok h (?f t s) \<and> tags_ok h (?f t s) \<and> \<not> is_Null (?f t s) \<and> (\<forall>j. lookup_slot h j (?f t s) = lookup_slot h j s) \<and>
      (\<forall>t' < 3. \<forall>j. tagged h j t' (?f t s) = (tagged h j t' s \<and> \<not> (t' = t \<and> agree h i j)))"
    if "rslot_ok h s" "tags_ok h s" "lookup_slot h i s \<noteq> None" "t < 3" for t and s :: "'a rslot"
    using clear_node_tag_spec [OF that, of "?f t s" "snd (clear_node_tag h i t s)"] by auto
  have eq: "clear_tags h i s = ?f 2 (?f 1 (?f 0 s))" by (simp add: clear_tags_def radix_consts upt_rec numeral_2_eq_2)
  have "\<And>t. t < 3 \<longleftrightarrow> t = 0 \<or> t = 1 \<or> t = (2 :: nat)" by auto
  then show ?thesis
    using step [OF assms, of 0] step [of "?f 0 s" 1] step [of "?f 1 (?f 0 s)" 2] assms(3)
    unfolding eq by (intro conjI) auto
qed

text \<open>Reading a tag: the debug check never fires on consistent tags.\<close>

lemma tagged_node_tag: "tags_ok h s \<Longrightarrow> rslot_ok h s \<Longrightarrow> t < 3 \<Longrightarrow> tagged h j t s \<Longrightarrow> node_tag t s"
proof (induction h arbitrary: s)
  case (Suc h)
  obtain c sl tg where s: "s = Node c sl tg" using Suc.prems(2,4) by (auto elim: rslot_ok_cases)
  show ?case
  proof (cases "h = 0")
    case False
    have "node_tag t (sl ! calc_offset j (h * 6))"
      using Suc.prems False by (intro Suc.IH) (auto simp: s)
    then show ?thesis using tags_okD(2) [OF Suc.prems(1) [unfolded s] Suc.prems(3) calc_offset_less False]
      by (auto simp: s intro!: exI [of _ "calc_offset j (h * 6)"])
  qed (use Suc.prems(4) in \<open>auto simp: s intro!: exI [of _ "calc_offset j 0"]\<close>)
qed (cases s; auto)

lemma tag_get_slot_spec:
  assumes "rslot_ok h s" and "tags_ok h s" and "t < 3" and "h = 0 \<longrightarrow> s = Null"
  shows "tag_get_slot h j t saw s = (tagged h j t s, snd (tag_get_slot h j t saw s)) \<and>
    (tagged h j t s \<longrightarrow> snd (tag_get_slot h j t saw s) = saw)"
  using assms
proof (induction h arbitrary: s saw)
  case (Suc h)
  show ?case
  proof (cases s)
    case (Node c sl tg)
    show ?thesis
    proof (cases "h = 0")
      case False
      let ?c = "sl ! calc_offset j (h * 6)"
      have c: "rslot_ok h ?c" "tags_ok h ?c" using Suc.prems(1,2) by (simp_all add: Node)
      note IH = Suc.IH [OF c Suc.prems(3)]
      have "tagged h j t ?c \<Longrightarrow> test_bit (calc_offset j (h * 6)) (tg ! t)"
        using tagged_node_tag [OF c(2,1) Suc.prems(3)] tags_okD(2) [OF Suc.prems(2) [unfolded Node] Suc.prems(3) calc_offset_less False]
        by auto
      then show ?thesis using IH False by (simp add: Node radix_consts tag_get_def Let_def)
    qed (simp add: Node radix_consts tag_get_def Let_def)
  qed (use Suc.prems in auto)
qed simp

section \<open>Putting a level on top\<close>

lemma offset_zero_iff: "j \<le> u_maxindex (Suc h) \<Longrightarrow> calc_offset j (h * 6) = 0 \<longleftrightarrow> j \<le> u_maxindex h"
proof -
  assume j: "j \<le> u_maxindex (Suc h)"
  let ?k = "take_bit (6 * h) j"
  have k: "?k \<le> u_maxindex (Suc h)" by (simp add: le_maxindex)
  have "calc_offset ?k (h * 6) = 0"
  proof -
    have "take_bit 6 (drop_bit (h * 6) ?k) = 0" by (rule bit_word_eqI) (simp add: bit_simps)
    then show ?thesis by (simp add: calc_offset_eq)
  qed
  moreover have "agree h j ?k" by (simp add: agree_def)
  ultimately have "agree (Suc h) j ?k \<longleftrightarrow> calc_offset j (h * 6) = 0" by (simp add: agree_Suc)
  then show ?thesis using agree_eq [OF j k] by (auto simp: le_maxindex)
qed

lemma maxindex_mono: "h \<le> k \<Longrightarrow> i \<le> u_maxindex h \<Longrightarrow> i \<le> u_maxindex k"
  unfolding le_maxindex by (metis min.absorb2 mult_le_mono2 take_bit_take_bit)

lemma maxindex_11: "i \<le> u_maxindex 11"
proof -
  have "u_maxindex 11 = NOT 0" by (simp add: u_maxindex_def Let_def RADIX_TREE_MAP_SHIFT_def)
  then show ?thesis by simp
qed

lemma extend_tags_bit:
  assumes "length tg = t0 + length bs" and "t < length tg"
  shows "test_bit i (extend_tags tg t0 bs ! t) = (test_bit i (tg ! t) \<or> i = 0 \<and> t0 \<le> t \<and> bs ! (t - t0)) \<and>
    length (extend_tags tg t0 bs) = length tg"
  using assms
proof (induction tg t0 bs rule: extend_tags.induct)
  case (2 tg t0 b bs)
  let ?tg = "if b then tag_set tg t0 0 else tg"
  have "length ?tg = (t0 + 1) + length bs" "t < length ?tg" using 2 by simp_all
  note IH = 2(1) [OF this]
  have tg: "test_bit i (?tg ! t) = (test_bit i (tg ! t) \<or> i = 0 \<and> t = t0 \<and> b)" "length ?tg = length tg"
    using 2(2,3) test_bit_tag_set [of t0 tg t i 0] by auto
  have step: "extend_tags tg t0 (b # bs) = extend_tags ?tg (t0 + 1) bs" by (rule extend_tags.simps)
  consider "t < t0" | "t = t0" | "t0 + 1 \<le> t" by linarith
  then show ?case
  proof cases
    case 3
    then have "(b # bs) ! (t - t0) = bs ! (t - (t0 + 1))" by (simp add: nth_Cons')
    then show ?thesis unfolding step using IH tg 3 by simp
  qed (unfold step, use IH tg in \<open>simp_all\<close>)
qed simp

definition push_level :: "bool list \<Rightarrow> 'a rslot \<Rightarrow> 'a rslot" where
  "push_level bs s = Node 1 ((replicate 64 Null)[0 := s]) (extend_tags (replicate 3 (\<lambda>_. 0)) 0 bs)"

lemma push_level_spec:
  assumes "rslot_ok h s" and "tags_ok h s" and "\<not> is_Null s" and "h \<noteq> 0" and "length bs = 3"
    and "\<And>t. t < 3 \<Longrightarrow> bs ! t = node_tag t s"
  shows "rslot_ok (Suc h) (push_level bs s)" and "tags_ok (Suc h) (push_level bs s)"
    and "\<And>t. t < 3 \<Longrightarrow> node_tag t (push_level bs s) = node_tag t s"
    and "j \<le> u_maxindex (Suc h) \<Longrightarrow>
      lookup_slot (Suc h) j (push_level bs s) = (if j \<le> u_maxindex h then lookup_slot h j s else None)"
    and "j \<le> u_maxindex (Suc h) \<Longrightarrow> tagged (Suc h) j t (push_level bs s) = (j \<le> u_maxindex h \<and> tagged h j t s)"
proof -
  let ?tg = "extend_tags (replicate 3 (\<lambda>_. 0)) 0 bs" and ?sl = "(replicate 64 Null)[0 := s]"
  have tb: "test_bit i (?tg ! t) = (i = 0 \<and> node_tag t s)" "length ?tg = 3" if "t < 3" for t i
    using extend_tags_bit [of "replicate 3 (\<lambda>_. 0)" 0 bs t i] that assms(5,6) by auto
  have "rslot_ok (Suc h) (Node 0 (replicate 64 Null) ?tg)" using tb(2) [of 0] by simp
  then show "rslot_ok (Suc h) (push_level bs s)"
    unfolding push_level_def using assms(1,3) tb(2) [of 0] by (intro rslot_ok_update [of h 0 "replicate 64 Null" ?tg]) auto
  have "tags_ok (Suc h) (Node 0 (replicate 64 Null) (replicate 3 (\<lambda>_. 0)))" by simp
  then show "tags_ok (Suc h) (push_level bs s)"
    unfolding push_level_def using assms(2,4) tb by (intro tags_ok_update [of h 0 "replicate 64 Null" "replicate 3 (\<lambda>_. 0)"]) auto
  show "node_tag t (push_level bs s) = node_tag t s" if "t < 3" for t using tb(1) [OF that] by (auto simp: push_level_def)
  have at: "?sl ! calc_offset j (h * 6) = (if j \<le> u_maxindex h then s else Null)" if "j \<le> u_maxindex (Suc h)"
    using offset_zero_iff [OF that] by (simp add: nth_list_update)
  then show "lookup_slot (Suc h) j (push_level bs s) = (if j \<le> u_maxindex h then lookup_slot h j s else None)"
      "tagged (Suc h) j t (push_level bs s) = (j \<le> u_maxindex h \<and> tagged h j t s)" if "j \<le> u_maxindex (Suc h)"
    using that assms(4) by (simp_all add: push_level_def radix_consts)
qed

section \<open>The tree as a map\<close>

definition rd_tagged :: "'a radix_tree_root \<Rightarrow> u64 \<Rightarrow> nat \<Rightarrow> bool" where
  "rd_tagged r j t \<longleftrightarrow> j \<le> u_maxindex (height r) \<and> tagged (height r) j t (rnode r)"

text \<open>The structure of a tree, without the count of its items.\<close>

definition rd_shape :: "'a radix_tree_root \<Rightarrow> bool" where
  "rd_shape r \<longleftrightarrow> height r \<le> 11 \<and> (height r = 0 \<longrightarrow> rnode r = Null) \<and> rslot_ok (height r) (rnode r) \<and> tags_ok (height r) (rnode r)"

lemma push_level_root:
  assumes "rd_shape r" and "\<not> is_Null (rnode r)" and "height r < 11" and "length bs = 3"
    and "\<And>t. t < 3 \<Longrightarrow> bs ! t = node_tag t (rnode r)"
    and r': "r' = r\<lparr>rnode := push_level bs (rnode r), height := height r + 1\<rparr>"
  shows "rd_shape r'" and "u_radix_tree_lookup r' = u_radix_tree_lookup r" and "rd_tagged r' = rd_tagged r"
proof -
  have h: "height r \<noteq> 0" using assms(1,2) by (auto simp: rd_shape_def)
  have ok: "rslot_ok (height r) (rnode r)" "tags_ok (height r) (rnode r)" using assms(1) by (simp_all add: rd_shape_def)
  note p = push_level_spec [OF ok assms(2) h assms(4,5)]
  have mono: "j \<le> u_maxindex (height r) \<Longrightarrow> j \<le> u_maxindex (Suc (height r))" for j by (rule maxindex_mono) simp_all
  show "rd_shape r'" using p(1,2) assms(3) by (simp add: rd_shape_def r')
  show "u_radix_tree_lookup r' = u_radix_tree_lookup r"
  proof
    fix j
    show "u_radix_tree_lookup r' j = u_radix_tree_lookup r j"
      using p(4) [of j] mono [of j] by (cases "j \<le> u_maxindex (height r)") (auto simp: u_radix_tree_lookup_def r' leD)
  qed
  show "rd_tagged r' = rd_tagged r" using p(5) mono by (auto simp: rd_tagged_def fun_eq_iff r')
qed

lemma extend_height_spec:
  assumes "extend_height h i = Some k"
  shows "h \<le> k \<and> k < 12 \<and> i \<le> u_maxindex k"
  using assms
proof (induction h i rule: extend_height.induct)
  case (1 h i)
  then show ?case by (subst (asm) (2) extend_height.simps) (auto simp: RADIX_TREE_MAX_PATH_def RADIX_TREE_MAP_SHIFT_def not_less split: if_splits)
qed

lemma extend_height_total: "h \<le> 11 \<Longrightarrow> extend_height h i \<noteq> None"
proof (induction h i rule: extend_height.induct)
  case (1 h i)
  then show ?case using maxindex_11 [of i]
    by (subst extend_height.simps) (cases "h = 11"; auto simp: RADIX_TREE_MAX_PATH_def RADIX_TREE_MAP_SHIFT_def not_less)
qed

lemma extend_loop_spec:
  assumes "rd_shape r" and "\<not> is_Null (rnode r)" and "height r < k" and "k \<le> 11" and "length bs = 3"
    and "\<And>t. t < 3 \<Longrightarrow> bs ! t = node_tag t (rnode r)" and "extend_loop bs k r m = (e, r', m')"
  shows "rd_shape r' \<and> u_radix_tree_lookup r' = u_radix_tree_lookup r \<and> rd_tagged r' = rd_tagged r \<and>
    nr_nodes r' = nr_nodes r \<and> (e = None \<and> height r' = k \<or> e = Some ENOMEM)"
  using assms
proof (induction bs k r m rule: extend_loop.induct)
  case (1 bs k r m)
  show ?case
  proof (cases "node_alloc m")
    case (Pair ok m1)
    show ?thesis
    proof (cases ok)
      case True
      let ?r = "r\<lparr>rnode := push_level bs (rnode r), height := height r + 1\<rparr>"
      have p: "rd_shape ?r" "u_radix_tree_lookup ?r = u_radix_tree_lookup r" "rd_tagged ?r = rd_tagged r"
        using push_level_root [OF 1(2,3) _ 1(6,7) refl] 1(4,5) by auto
      have "rslot_ok (height r) (rnode r)" "tags_ok (height r) (rnode r)" "height r \<noteq> 0"
        using 1(2,3) by (auto simp: rd_shape_def)
      then have nt: "bs ! t = node_tag t (push_level bs (rnode r))" if "t < 3" for t
        using push_level_spec(3) [OF _ _ 1(3) _ 1(6,7) that] 1(7) [OF that] by simp
      have step: "extend_loop bs k r m = (if k > height ?r then extend_loop bs k ?r m1 else (None, ?r, m1))"
        by (subst extend_loop.simps) (simp add: Pair True Let_def push_level_def radix_consts)
      show ?thesis
      proof (cases "k > height ?r")
        case True
        have "rd_shape r' \<and> u_radix_tree_lookup r' = u_radix_tree_lookup ?r \<and> rd_tagged r' = rd_tagged ?r \<and>
            nr_nodes r' = nr_nodes ?r \<and> (e = None \<and> height r' = k \<or> e = Some ENOMEM)"
          using 1(8) step True nt 1(5,6) p(1) Pair \<open>ok\<close>
          by (intro 1(1) [of _ m1 ?r]) (auto simp: push_level_def radix_consts)
        then show ?thesis using p by simp
      next
        case False
        then show ?thesis using 1(4,8) step p by auto
      qed
    next
      case False
      then show ?thesis using 1(2,8) Pair by (subst (asm) extend_loop.simps) simp
    qed
  qed
qed

definition rdtree_ok :: "'a radix_tree_root \<Rightarrow> bool" where
  "rdtree_ok r \<longleftrightarrow> rd_shape r \<and> nr_nodes r = of_nat (card (dom (u_radix_tree_lookup r)))"

lemma rd_height_null: "is_Null (rnode r) \<Longrightarrow> u_radix_tree_lookup r = (\<lambda>_. None)"
  by (auto simp: u_radix_tree_lookup_def is_Null_def)

lemma rd_lookup_cong:
  "height r' = height r \<Longrightarrow> (\<And>j. lookup_slot (height r) j (rnode r') = lookup_slot (height r) j (rnode r)) \<Longrightarrow>
   u_radix_tree_lookup r' = u_radix_tree_lookup r"
  by (auto simp: u_radix_tree_lookup_def)

text \<open>Making the tree high enough.\<close>

lemma rdtree_extend_spec:
  assumes r: "rd_shape r" and need: "i = 0 \<and> is_Null (rnode r) \<or> i > u_maxindex (height r)"
    and run: "rdtree_extend r i m = Some (e, r', m')"
  shows "rd_shape r' \<and> u_radix_tree_lookup r' = u_radix_tree_lookup r \<and> rd_tagged r' = rd_tagged r \<and>
    nr_nodes r' = nr_nodes r \<and> (e = None \<and> i \<le> u_maxindex (height r') \<and> height r' \<noteq> 0 \<or> e = Some ENOMEM)"
proof -
  obtain k where k: "extend_height (height r + 1) i = Some k"
    using run by (auto simp: rdtree_extend_def split: option.splits)
  note kk = extend_height_spec [OF k]
  show ?thesis
  proof (cases "rnode r")
    case Null
    then have "r' = r\<lparr>height := k\<rparr>" "e = None" using run k by (auto simp: rdtree_extend_def)
    then show ?thesis
      using kk Null by (auto simp: rd_shape_def u_radix_tree_lookup_def rd_tagged_def fun_eq_iff)
  next
    case (Node c sl tg)
    have "map (tag_any tg) [0..<3] ! t = node_tag t (rnode r)" if "t < 3" for t using that by (simp add: Node tag_any_iff)
    moreover have "extend_loop (map (tag_any tg) [0..<3]) k r m = (e, r', m')"
      using run k by (simp add: rdtree_extend_def Node radix_consts)
    ultimately have "rd_shape r' \<and> u_radix_tree_lookup r' = u_radix_tree_lookup r \<and> rd_tagged r' = rd_tagged r \<and>
        nr_nodes r' = nr_nodes r \<and> (e = None \<and> height r' = k \<or> e = Some ENOMEM)"
      using kk r by (intro extend_loop_spec) (simp_all add: Node)
    then show ?thesis using kk by auto
  next
    case (Item x)
    then show ?thesis using r by (auto simp: rd_shape_def)
  qed
qed

lemma radix_insert_spec:
  assumes ok: "rdtree_ok r" and run: "u_radix_tree_insert r i (Some x) m = Some (e, r', m')"
  shows "rdtree_ok r' \<and> u_radix_tree_lookup r' = (if e = None then (u_radix_tree_lookup r)(i \<mapsto> x) else u_radix_tree_lookup r) \<and>
    (if u_radix_tree_lookup r i = None then e = None \<or> e = Some ENOMEM else e = Some EEXIST) \<and>
    (\<forall>t < 3. \<forall>j. rd_tagged r' j t = rd_tagged r j t)"
proof -
  have shape: "rd_shape r" using ok by (simp add: rdtree_ok_def)
  let ?need = "i = 0 \<and> is_Null (rnode r) \<or> i > u_maxindex (height r)"
  obtain e1 r1 m1 where ext: "(if ?need then rdtree_extend r i m else Some (None, r, m)) = Some (e1, r1, m1)"
    using run by (auto simp: u_radix_tree_insert_def split: option.splits if_splits)
  have "height r \<noteq> 0" if "\<not> ?need" using that shape by (cases "height r") (auto simp: rd_shape_def u_maxindex_eq word_gt_0)
  then have r1: "rd_shape r1" "u_radix_tree_lookup r1 = u_radix_tree_lookup r" "rd_tagged r1 = rd_tagged r" "nr_nodes r1 = nr_nodes r"
      "e1 = None \<and> i \<le> u_maxindex (height r1) \<and> height r1 \<noteq> 0 \<or> e1 = Some ENOMEM"
    using ext rdtree_extend_spec [OF shape, of i m e1 r1 m1] shape
    by (auto simp: not_less split: if_splits)
  have none: "u_radix_tree_lookup r i = None" if ?need
    using that by (auto simp: u_radix_tree_lookup_def is_Null_def)
  show ?thesis
  proof (cases e1)
    case (Some e2)
    then have "e = e1" "r' = r1" using run ext by (auto simp: u_radix_tree_insert_def split: if_splits)
    moreover have ?need using ext Some by (auto split: if_splits)
    ultimately show ?thesis using r1 Some none ok by (auto simp: rdtree_ok_def)
  next
    case None
    obtain a s m2 where ins: "insert_slot (height r1) i x (rnode r1) m1 = (e, a, s, m2)"
        and r': "r' = r1\<lparr>rnode := s, nr_nodes := (if e = None then nr_nodes r1 + 1 else nr_nodes r1)\<rparr>"
      using run ext None by (auto simp: u_radix_tree_insert_def split: if_splits prod.splits)
    have b: "i \<le> u_maxindex (height r1)" "height r1 \<noteq> 0" using r1(5) None by auto
    have sh: "rslot_ok (height r1) (rnode r1)" "tags_ok (height r1) (rnode r1)" "height r1 \<le> 11"
      using r1(1) by (auto simp: rd_shape_def)
    note sp = insert_slot_spec [OF sh(1) ins] and st = insert_slot_tags [OF sh(1,2) ins]
    have lk: "u_radix_tree_lookup r' = (if e = None then (u_radix_tree_lookup r)(i \<mapsto> x) else u_radix_tree_lookup r)"
    proof
      fix j
      have "j \<le> u_maxindex (height r1) \<Longrightarrow> agree (height r1) i j = (i = j)" using agree_eq [OF b(1)] by simp
      then show "u_radix_tree_lookup r' j = (if e = None then (u_radix_tree_lookup r)(i \<mapsto> x) else u_radix_tree_lookup r) j"
        using sp b(1) unfolding r1(2) [symmetric] r' by (auto simp: u_radix_tree_lookup_def not_less)
    qed
    have at: "u_radix_tree_lookup r i = lookup_slot (height r1) i (rnode r1)"
      using b(1) unfolding r1(2) [symmetric] by (simp add: u_radix_tree_lookup_def leD)
    have sp2: "(e = Some EEXIST) = (lookup_slot (height r1) i (rnode r1) \<noteq> None)"
        "e = None \<or> e = Some EEXIST \<or> e = Some ENOMEM" using sp by blast+
    have res: "if u_radix_tree_lookup r i = None then e = None \<or> e = Some ENOMEM else e = Some EEXIST"
      using sp2 unfolding at by auto
    have "nr_nodes r' = of_nat (card (dom (u_radix_tree_lookup r')))"
    proof -
      have "nr_nodes r' = (if e = None then nr_nodes r + 1 else nr_nodes r)" by (simp add: r' r1(4))
      then show ?thesis using ok res unfolding lk by (auto simp: rdtree_ok_def domIff split: if_splits)
    qed
    moreover have "rd_shape r'" using sp st sh b(2) by (simp add: rd_shape_def r')
    moreover have "rd_tagged r' j t = rd_tagged r j t" if "t < 3" for j t
      using st that unfolding r1(3) [symmetric] by (simp add: rd_tagged_def r')
    ultimately show ?thesis using lk res by (simp add: rdtree_ok_def)
  qed
qed


text \<open>Only items are tagged.\<close>

lemma tagged_item: "rslot_ok h s \<Longrightarrow> tags_ok h s \<Longrightarrow> t < 3 \<Longrightarrow> tagged h j t s \<Longrightarrow> lookup_slot h j s \<noteq> None"
proof (induction h arbitrary: s)
  case (Suc h)
  obtain c sl tg where s: "s = Node c sl tg" and ok: "\<forall>s \<in> set sl. rslot_ok h s" "length sl = 64"
    using Suc.prems(1,4) by (auto elim: rslot_ok_cases)
  show ?case
  proof (cases "h = 0")
    case True
    have "\<not> is_Null (sl ! calc_offset j 0)"
      using tags_okD(1) [OF Suc.prems(2) [unfolded s] Suc.prems(3) calc_offset_less True] Suc.prems(4) True by (simp add: s)
    moreover have "rslot_ok 0 (sl ! calc_offset j 0)" using ok True by simp
    ultimately show ?thesis using True by (cases "sl ! calc_offset j 0") (auto simp: s)
  next
    case False
    have "lookup_slot h j (sl ! calc_offset j (h * 6)) \<noteq> None"
      using Suc.prems ok False by (intro Suc.IH) (auto simp: s)
    then show ?thesis by (simp add: s radix_consts)
  qed
qed (cases s; auto)

lemma radix_delete_spec:
  assumes ok: "rdtree_ok r" and run: "radix_tree_delete r i m = (v, r', m')"
  shows "rdtree_ok r' \<and> v = u_radix_tree_lookup r i \<and> u_radix_tree_lookup r' = (u_radix_tree_lookup r)(i := None) \<and>
    (\<forall>t < 3. \<forall>j. rd_tagged r' j t = (rd_tagged r j t \<and> j \<noteq> i))"
proof (cases "u_radix_tree_lookup r i")
  case None
  then have eq: "v = None" "r' = r" using run by (simp_all add: radix_tree_delete_def)
  have "\<not> rd_tagged r i t" if "t < 3" for t
  proof
    assume "rd_tagged r i t"
    then have t: "i \<le> u_maxindex (height r)" "tagged (height r) i t (rnode r)" by (simp_all add: rd_tagged_def)
    have "rslot_ok (height r) (rnode r)" "tags_ok (height r) (rnode r)" using ok by (simp_all add: rdtree_ok_def rd_shape_def)
    from tagged_item [OF this that t(2)] show False using None t(1) by (simp add: u_radix_tree_lookup_def leD)
  qed
  then show ?thesis using ok None eq by (auto simp: fun_upd_idem)
next
  case (Some x)
  let ?h = "height r" and ?s = "clear_tags (height r) i (rnode r)"
  have i: "i \<le> u_maxindex ?h" and x: "lookup_slot ?h i (rnode r) = Some x"
    using Some by (auto simp: u_radix_tree_lookup_def not_less split: if_splits)
  have sh: "rslot_ok ?h (rnode r)" "tags_ok ?h (rnode r)" "?h \<le> 11" using ok by (auto simp: rdtree_ok_def rd_shape_def)
  have h: "?h \<noteq> 0" using ok x by (auto simp: rdtree_ok_def rd_shape_def)
  obtain s1 g m1 where del: "delete_slot ?h i ?s m = (s1, g, m1)" by (metis prod_cases3)
  have r': "r' = r\<lparr>rnode := s1, nr_nodes := nr_nodes r - 1, height := (if is_Null s1 then 0 else ?h)\<rparr>" "v = Some x"
    using run Some del by (simp_all add: radix_tree_delete_def)
  have c: "rslot_ok ?h ?s" "tags_ok ?h ?s" "\<And>j. lookup_slot ?h j ?s = lookup_slot ?h j (rnode r)"
      "\<And>t j. t < 3 \<Longrightarrow> tagged ?h j t ?s = (tagged ?h j t (rnode r) \<and> \<not> agree ?h i j)"
    using clear_tags_spec [OF sh(1,2), of i] x by auto
  have "lookup_slot ?h i ?s \<noteq> None" "\<forall>t < 3. \<not> tagged ?h i t ?s" using c x by auto
  note sp = delete_slot_spec [OF c(1) this(1) del] and st = delete_slot_tags [OF c(1,2) this del]
  have ag: "j \<le> u_maxindex ?h \<Longrightarrow> agree ?h i j = (i = j)" for j using agree_eq [OF i] by simp
  have null: "is_Null s1 \<Longrightarrow> lookup_slot ?h j s1 = None" "is_Null s1 \<Longrightarrow> \<not> tagged ?h j t s1" for j t by (auto simp: is_Null_def)
  have lk: "u_radix_tree_lookup r' = (u_radix_tree_lookup r)(i := None)"
  proof
    fix j
    have "u_radix_tree_lookup r' j = (if j > u_maxindex ?h then None else lookup_slot ?h j s1)"
      using null [of j] by (auto simp: u_radix_tree_lookup_def r' is_Null_def)
    then show "u_radix_tree_lookup r' j = ((u_radix_tree_lookup r)(i := None)) j"
      using sp c(3) ag [of j] by (auto simp: u_radix_tree_lookup_def not_less)
  qed
  have "rd_tagged r' j t = (j \<le> u_maxindex ?h \<and> tagged ?h j t s1)" for j t
    using null(2) [of j t] by (auto simp: rd_tagged_def r' is_Null_def)
  then have "rd_tagged r' j t = (rd_tagged r j t \<and> j \<noteq> i)" if "t < 3" for j t
    using st c(4) [OF that] ag [of j] that by (auto simp: rd_tagged_def)
  moreover have "rd_shape r'" using sp st sh h by (auto simp: rd_shape_def r' is_Null_def)
  moreover have "card (dom (u_radix_tree_lookup r)) = Suc (card (dom (u_radix_tree_lookup r')))"
    using Some card_Suc_Diff1 [of "dom (u_radix_tree_lookup r)" i] unfolding lk by (simp add: domIff)
  ultimately show ?thesis using lk Some ok by (simp add: rdtree_ok_def r')
qed


lemma radix_tag_set_spec:
  assumes ok: "rdtree_ok r" and t: "t < 3" and x: "u_radix_tree_lookup r i \<noteq> None"
  shows "\<exists>r'. radix_tree_tag_set r i t = Some (u_radix_tree_lookup r i, r') \<and> rdtree_ok r' \<and>
    u_radix_tree_lookup r' = u_radix_tree_lookup r \<and>
    (\<forall>t' < 3. \<forall>j. rd_tagged r' j t' = (rd_tagged r j t' \<or> j = i \<and> t' = t))"
proof -
  let ?h = "height r"
  have i: "i \<le> u_maxindex ?h" and y: "lookup_slot ?h i (rnode r) \<noteq> None" "u_radix_tree_lookup r i = lookup_slot ?h i (rnode r)"
    using x by (auto simp: u_radix_tree_lookup_def not_less split: if_splits)
  have sh: "rslot_ok ?h (rnode r)" "tags_ok ?h (rnode r)" "?h \<le> 11" using ok by (auto simp: rdtree_ok_def rd_shape_def)
  have h: "?h \<noteq> 0" using ok y(1) by (auto simp: rdtree_ok_def rd_shape_def)
  from tag_set_slot_spec [OF sh(1,2) y(1) t] obtain s where s: "tag_set_slot ?h i t (rnode r) = Some s" "rslot_ok ?h s" "tags_ok ?h s"
      "\<And>j. lookup_slot ?h j s = lookup_slot ?h j (rnode r)"
      "\<And>t' j. t' < 3 \<Longrightarrow> tagged ?h j t' s = (tagged ?h j t' (rnode r) \<or> t' = t \<and> agree ?h i j)"
    using h by auto
  have lk: "u_radix_tree_lookup (r\<lparr>rnode := s\<rparr>) = u_radix_tree_lookup r" using s(4) by (intro rd_lookup_cong) simp_all
  moreover have "rd_tagged (r\<lparr>rnode := s\<rparr>) j t' = (rd_tagged r j t' \<or> j = i \<and> t' = t)" if "t' < 3" for j t'
    using s(5) [OF that, of j] agree_eq [OF i, of j] i by (auto simp: rd_tagged_def)
  moreover have "rdtree_ok (r\<lparr>rnode := s\<rparr>)" using ok s h sh(3) by (auto simp: rdtree_ok_def rd_shape_def lk)
  ultimately show ?thesis using i s(1,4) t y(2) by (auto simp: radix_tree_tag_set_def radix_consts leD)
qed

lemma radix_tag_clear_spec:
  assumes ok: "rdtree_ok r" and t: "t < 3"
  shows "\<exists>r'. radix_tree_tag_clear r i t = Some (u_radix_tree_lookup r i, r') \<and> rdtree_ok r' \<and>
    u_radix_tree_lookup r' = u_radix_tree_lookup r \<and>
    (u_radix_tree_lookup r i \<noteq> None \<longrightarrow> (\<forall>t' < 3. \<forall>j. rd_tagged r' j t' = (rd_tagged r j t' \<and> \<not> (j = i \<and> t' = t))))"
proof (cases "u_radix_tree_lookup r i")
  case None
  then show ?thesis using ok t by (auto simp: radix_tree_tag_clear_def radix_consts)
next
  case (Some x)
  let ?h = "height r"
  have i: "i \<le> u_maxindex ?h" and y: "lookup_slot ?h i (rnode r) \<noteq> None" "u_radix_tree_lookup r i = lookup_slot ?h i (rnode r)"
    using Some by (auto simp: u_radix_tree_lookup_def not_less split: if_splits)
  have sh: "rslot_ok ?h (rnode r)" "tags_ok ?h (rnode r)" "?h \<le> 11" using ok by (auto simp: rdtree_ok_def rd_shape_def)
  have h: "?h \<noteq> 0" using ok y(1) by (auto simp: rdtree_ok_def rd_shape_def)
  obtain s c where run: "clear_node_tag ?h i t (rnode r) = (s, c)" by fastforce
  note s = clear_node_tag_spec [OF sh(1,2) y(1) t run]
  have lk: "u_radix_tree_lookup (r\<lparr>rnode := s\<rparr>) = u_radix_tree_lookup r" using s by (intro rd_lookup_cong) simp_all
  moreover have "rd_tagged (r\<lparr>rnode := s\<rparr>) j t' = (rd_tagged r j t' \<and> \<not> (j = i \<and> t' = t))" if "t' < 3" for j t'
    using s that agree_eq [OF i, of j] i by (auto simp: rd_tagged_def)
  moreover have "rdtree_ok (r\<lparr>rnode := s\<rparr>)" using ok s h sh(3) by (simp add: rdtree_ok_def rd_shape_def lk)
  ultimately show ?thesis using Some t run by (simp add: radix_tree_tag_clear_def radix_consts)
qed

lemma radix_tag_get_spec:
  assumes ok: "rdtree_ok r" and t: "t < 3"
  shows "radix_tree_tag_get r i t = Some (rd_tagged r i t)"
proof -
  have sh: "rslot_ok (height r) (rnode r)" "tags_ok (height r) (rnode r)" "height r = 0 \<longrightarrow> rnode r = Null"
    using ok by (auto simp: rdtree_ok_def rd_shape_def)
  from tag_get_slot_spec [OF sh(1,2) t sh(3), of i False] show ?thesis
    using t by (auto simp: radix_tree_tag_get_def rd_tagged_def radix_consts leD not_less split: prod.splits)
qed

text \<open>A node with a tagged slot leads to a tagged item.\<close>

lemma join_offset:
  assumes k: "k < 64" "k * 2 ^ (6 * h) < 2 ^ 64" and b: "b \<le> u_maxindex h"
  defines "j \<equiv> b OR push_bit (6 * h) (of_nat k) :: u64"
  shows "calc_offset j (h * 6) = k" and "agree h j b" and "j \<le> u_maxindex (Suc h)"
proof -
  have b0: "\<not> bit b n" if "6 * h \<le> n" for n
    using b that unfolding le_maxindex by (metis bit_take_bit_iff not_less)
  have kn: "n < 6 \<and> 6 * h + n < 64" if "bit k n" for n
  proof -
    have "2 ^ n \<le> k" using that by (metis bit_iff_odd div_less even_zero not_less)
    then have "2 ^ n < (2 :: nat) ^ 6" "2 ^ n * 2 ^ (6 * h) < (2 :: nat) ^ 64"
      using k by (auto intro: le_less_trans [OF mult_le_mono1])
    then have "2 ^ n < (2 :: nat) ^ 6" "2 ^ (6 * h + n) < (2 :: nat) ^ 64" by (simp_all add: power_add mult.commute)
    then show ?thesis using power_less_imp_less_exp [of "2 :: nat"] one_less_numeral_iff semiring_norm(76) by blast
  qed
  have bj: "bit j n = (bit b n \<or> 6 * h \<le> n \<and> bit k (n - 6 * h))" for n
    using kn [of "n - 6 * h"] unfolding j_def by (auto simp: bit_simps)
  have "take_bit 6 (drop_bit (h * 6) j) = of_nat k"
    by (rule bit_word_eqI) (use kn in \<open>auto simp: bit_simps bj b0 mult.commute\<close>)
  then show "calc_offset j (h * 6) = k" using k(1) by (simp add: calc_offset_eq unat_of_nat)
  show "agree h j b" unfolding agree_def by (rule bit_word_eqI) (auto simp: bit_simps bj)
  have "n < 6 * Suc h" if "bit j n" for n
    using that kn [of "n - 6 * h"] b0 [of n] unfolding bj by (cases "6 * h \<le> n") auto
  then show "j \<le> u_maxindex (Suc h)" unfolding le_maxindex by (intro bit_word_eqI) (auto simp: bit_simps)
qed

lemma tagged_agree: "agree h i j \<Longrightarrow> tagged h i t s = tagged h j t s"
proof (induction h arbitrary: s)
  case (Suc h)
  then show ?case by (cases s) (auto simp: agree_Suc)
qed (cases s; simp)

lemma node_tag_tagged:
  assumes "rslot_ok h s" and "tags_ok h s" and "t < 3" and "node_tag t s" and "h \<noteq> 0"
  shows "\<exists>j. j \<le> u_maxindex h \<and> tagged h j t s"
  using assms
proof (induction h arbitrary: s)
  case (Suc h)
  obtain c sl tg where s: "s = Node c sl tg" and ok: "\<forall>s \<in> set sl. rslot_ok h s" "length sl = 64"
    using Suc.prems(1,4) by (auto elim: rslot_ok_cases)
  from Suc.prems(4) obtain k where k: "k < 64" "test_bit k (tg ! t)" by (auto simp: s)
  have "\<not> is_Null (sl ! k)" using tags_okD [OF Suc.prems(2) [unfolded s] Suc.prems(3) k(1)] k(2) by (cases "h = 0"; cases "sl ! k") auto
  then have fits: "k * 2 ^ (6 * h) < 2 ^ 64" using Suc.prems(1) k(1) by (simp add: s)
  obtain b where b: "b \<le> u_maxindex h" "h \<noteq> 0 \<longrightarrow> tagged h b t (sl ! k)"
  proof (cases "h = 0")
    case False
    have "node_tag t (sl ! k)" using tags_okD(2) [OF Suc.prems(2) [unfolded s] Suc.prems(3) k(1) False] k(2) by simp
    then show thesis using Suc.IH [of "sl ! k"] Suc.prems(2,3) ok k(1) False that by (auto simp: s)
  qed (use that [of 0] in simp)
  let ?j = "b OR push_bit (6 * h) (of_nat k) :: u64"
  note j = join_offset [OF k(1) fits b(1)]
  have "tagged (Suc h) ?j t s"
    using j(1) k(2) b(2) tagged_agree [OF j(2), of t "sl ! k"] by (cases "h = 0") (simp_all add: s)
  then show ?case using j(3) by blast
qed simp

lemma radix_tagged_spec:
  assumes ok: "rdtree_ok r" and t: "t < 3"
  shows "radix_tree_tagged r t = Some (\<exists>j. rd_tagged r j t)"
proof -
  have sh: "rslot_ok (height r) (rnode r)" "tags_ok (height r) (rnode r)" "height r = 0 \<longrightarrow> rnode r = Null"
    using ok by (auto simp: rdtree_ok_def rd_shape_def)
  have "radix_tree_tagged r t = Some (node_tag t (rnode r))"
    using t sh by (cases "rnode r") (auto simp: radix_tree_tagged_def radix_consts tag_any_iff)
  moreover have "node_tag t (rnode r) \<Longrightarrow> \<exists>j. rd_tagged r j t"
    using node_tag_tagged [OF sh(1,2) t] sh(3) by (auto simp: rd_tagged_def)
  moreover have "rd_tagged r j t \<Longrightarrow> node_tag t (rnode r)" for j
    using tagged_node_tag [OF sh(2,1) t, of j] by (simp add: rd_tagged_def)
  ultimately show ?thesis by auto
qed

section \<open>The interface\<close>

text \<open>The inline functions of the header, on the pair of root and node memory.\<close>

definition radix_tree_insert ::
    "'a radix_tree_root \<times> node_mem \<Rightarrow> u64 \<Rightarrow> 'a \<Rightarrow> (errno option \<times> 'a radix_tree_root \<times> node_mem) option" where
  "radix_tree_insert s index item = u_radix_tree_insert (fst s) index (Some item) (snd s)"

definition radix_tree_lookup :: "'a radix_tree_root \<times> node_mem \<Rightarrow> u64 \<Rightarrow> 'a option" where
  "radix_tree_lookup s index = u_radix_tree_lookup (fst s) index"

definition radix_tree_remove :: "'a radix_tree_root \<times> node_mem \<Rightarrow> u64 \<Rightarrow> 'a option \<times> 'a radix_tree_root \<times> node_mem" where
  "radix_tree_remove s index = radix_tree_delete (fst s) index (snd s)"

lemma radix_tree_lookup_fst: "radix_tree_lookup s = u_radix_tree_lookup (fst s)"
  by (simp add: radix_tree_lookup_def fun_eq_iff)

interpretation rdmap: index_map "\<lambda>s. rdtree_ok (fst s)" radix_tree_lookup radix_tree_insert radix_tree_remove
proof
  fix s s' :: "'a radix_tree_root \<times> node_mem" and k v e r
  assume ok: "rdtree_ok (fst s)"
  { assume "radix_tree_insert s k v = Some (e, s')"
    then have "u_radix_tree_insert (fst s) k (Some v) (snd s) = Some (e, fst s', snd s')" by (simp add: radix_tree_insert_def)
    note sp = radix_insert_spec [OF ok this]
    from sp show "rdtree_ok (fst s')" by blast
    from sp show "radix_tree_lookup s' = (if e = None then (radix_tree_lookup s)(k \<mapsto> v) else radix_tree_lookup s)"
      unfolding radix_tree_lookup_fst by blast
    from sp show "if radix_tree_lookup s k = None then e = None \<or> e = Some ENOMEM else e = Some EEXIST"
      unfolding radix_tree_lookup_fst by blast }
  { assume "radix_tree_remove s k = (r, s')"
    then have "radix_tree_delete (fst s) k (snd s) = (r, fst s', snd s')" by (simp add: radix_tree_remove_def)
    note sp = radix_delete_spec [OF ok this]
    from sp show "rdtree_ok (fst s')" by blast
    from sp show "r = radix_tree_lookup s k \<and> radix_tree_lookup s' = (radix_tree_lookup s)(k := None)"
      unfolding radix_tree_lookup_fst by blast }
qed

lemma rdtree_ok_INIT: "rdtree_ok INIT_RADIX_TREE"
  by (simp add: rdtree_ok_def INIT_RADIX_TREE_def rd_shape_def u_radix_tree_lookup_def dom_def)

lemma lookup_INIT: "radix_tree_lookup (INIT_RADIX_TREE, m) = Map.empty"
  by (simp add: radix_tree_lookup_def u_radix_tree_lookup_def INIT_RADIX_TREE_def fun_eq_iff)

section \<open>Memory\<close>

text \<open>A tree without empty nodes, and the number of its nodes.\<close>

fun dense :: "nat \<Rightarrow> 'a rslot \<Rightarrow> bool" where
  "dense (Suc h) (Node c sl tg) \<longleftrightarrow> c \<noteq> 0 \<and> (\<forall>s \<in> set sl. dense h s)"
| "dense h s \<longleftrightarrow> True"

fun nodes :: "nat \<Rightarrow> 'a rslot \<Rightarrow> nat" where
  "nodes (Suc h) (Node c sl tg) = Suc (sum_list (map (nodes h) sl))"
| "nodes h s = 0"

lemma sum_list_update_nat:
  "i < length xs \<Longrightarrow> sum_list (map f (xs[i := y])) + f (xs ! i) = sum_list (map f xs) + (f y :: nat)"
proof (induction xs arbitrary: i)
  case (Cons x xs)
  then show ?case by (cases i) fastforce+
qed simp

lemma node_alloc_props:
  assumes "node_alloc m = (ok, m')"
  shows "alloc_mm m' = (if ok then alloc_mm m + sizeof_node else alloc_mm m) \<and> (ok \<longleftrightarrow> 0 < tls_nr m + avail m) \<and>
    tls_nr m' + avail m' = tls_nr m + avail m - of_bool ok"
proof -
  have pre: "alloc_mm (radix_tree_preload m) = alloc_mm m \<and>
      tls_nr (radix_tree_preload m) + avail (radix_tree_preload m) = tls_nr m + avail m \<and>
      (tls_nr (radix_tree_preload m) = 0 \<longrightarrow> avail (radix_tree_preload m) = 0)" for m
  proof (induction m rule: radix_tree_preload.induct)
    case (1 m)
    show ?case
    proof (cases "tls_nr m < NODE_CACAH_MAX div 2 \<and> 0 < avail m")
      case True
      then show ?thesis using 1 by (subst (1 2 3 4 5) radix_tree_preload.simps) simp
    next
      case False
      then show ?thesis
        by (subst (1 2 3 4 5) radix_tree_preload.simps)
          (auto simp: NODE_CACAH_MAX_def RADIX_TREE_MAX_PATH_def RADIX_TREE_MAP_SHIFT_def)
    qed
  qed
  show ?thesis using assms pre [of m] by (auto simp: node_alloc_def Let_def split: if_splits)
qed

text \<open>What the memory record says of the nodes in the tree.\<close>

definition mm_diff :: "nat \<Rightarrow> node_mem \<Rightarrow> nat \<Rightarrow> node_mem \<Rightarrow> bool" where
  "mm_diff n m n' m' \<longleftrightarrow> alloc_mm m' - sizeof_node * of_nat n' = alloc_mm m - sizeof_node * of_nat n"

lemma mm_diff_shift: "mm_diff a m b m' \<Longrightarrow> n' + a = n + b \<Longrightarrow> mm_diff n m n' m'"
proof -
  assume d: "mm_diff a m b m'" and n: "n' + a = n + b"
  from n have "of_nat n' = (of_nat n + of_nat b - of_nat a :: u32)" by (metis add_diff_cancel_right' of_nat_add)
  moreover from d have "alloc_mm m' = alloc_mm m - sizeof_node * of_nat a + sizeof_node * of_nat b"
    unfolding mm_diff_def by (metis diff_add_cancel)
  ultimately show ?thesis unfolding mm_diff_def by (elim ssubst) (simp add: algebra_simps)
qed

lemma node_count_pos: "rslot_ok (Suc h) (Node c sl tg) \<Longrightarrow> i < 64 \<Longrightarrow> \<not> is_Null (sl ! i) \<Longrightarrow> c \<noteq> 0"
  using node_count_bounds(2) [of h c sl tg i] by auto

lemma insert_slot_memory:
  assumes "rslot_ok h s" and "insert_slot h i x s m = (e, added, s', m')"
  shows "mm_diff (nodes h s) m (nodes h s') m' \<and> (dense h s \<longrightarrow> e \<noteq> Some ENOMEM \<longrightarrow> dense h s' \<and> \<not> is_Null s')"
  using assms
proof (induction h arbitrary: s m e added s' m')
  case 0
  then show ?case by (cases s) (auto simp: mm_diff_def)
next
  case (Suc h)
  from Suc.prems show ?case
  proof (cases rule: insert_slot_Suc)
    case fail
    then show ?thesis using node_alloc_props [OF fail(5)] by (simp add: mm_diff_def)
  next
    case (down c sl tg m1 a1 s1)
    let ?o = "calc_offset i (h * 6)"
    have len: "length sl = 64" using down(4) by simp
    note IH = Suc.IH [OF down(5,6)]
    have "sum_list (map (nodes h) (sl[?o := s1])) + nodes h (sl ! ?o) = sum_list (map (nodes h) sl) + nodes h s1"
      using len by (intro sum_list_update_nat) simp
    then have "mm_diff (nodes (Suc h) (Node c sl tg)) m1 (nodes (Suc h) s') m'"
      by (intro mm_diff_shift [OF conjunct1 [OF IH]]) (simp add: down(8))
    moreover have "mm_diff (nodes (Suc h) s) m (nodes (Suc h) (Node c sl tg)) m1"
    proof (cases "is_Null s")
      case True
      then have a: "node_alloc m = (True, m1)" using down(2,3) by (cases "node_alloc m") simp
      have n1: "nodes (Suc h) (Node c sl tg) = 1" using True down(1) by (simp add: new_node_def radix_consts sum_list_replicate)
      show ?thesis unfolding n1 using node_alloc_props [OF a] True by (auto simp: mm_diff_def is_Null_def)
    qed (use down(1,2) in \<open>simp add: mm_diff_def\<close>)
    ultimately have "mm_diff (nodes (Suc h) s) m (nodes (Suc h) s') m'"
      unfolding mm_diff_def by simp
    moreover have "dense (Suc h) s' \<and> \<not> is_Null s'" if d: "dense (Suc h) s" "e \<noteq> Some ENOMEM"
    proof -
      have "dense h y" if "y \<in> set sl" for y
        using d(1) down(1) that by (cases "is_Null s") (auto simp: new_node_def radix_consts split: if_splits)
      then have "dense h s1" "\<not> is_Null s1" "\<And>y. y \<in> set (sl[?o := s1]) \<Longrightarrow> dense h y"
        using IH d(2) len set_update_subset_insert [of sl ?o s1] by auto
      moreover have "rslot_ok (Suc h) s'" using insert_slot_spec [OF Suc.prems] by blast
      ultimately show ?thesis using node_count_pos [of h _ "sl[?o := s1]" tg ?o] len by (simp add: down(8))
    qed
    ultimately show ?thesis by blast
  qed
qed


lemma delete_slot_memory:
  assumes "rslot_ok h s" and "lookup_slot h i s \<noteq> None" and "delete_slot h i s m = (s', gone, m')"
  shows "mm_diff (nodes h s) m (nodes h s') m' \<and> (dense h s \<longrightarrow> dense h s')"
  using assms
proof (induction h arbitrary: s m s' gone m')
  case 0
  then show ?case by (cases s) (auto simp: mm_diff_def)
next
  case (Suc h)
  obtain c sl tg where s: "s = Node c sl tg" and len: "length sl = 64" and ok: "\<forall>s \<in> set sl. rslot_ok h s"
    using Suc.prems(1,2) by (auto elim: rslot_ok_cases)
  let ?o = "calc_offset i (h * 6)"
  obtain s1 g1 m1 where rec: "delete_slot h i (sl ! ?o) m = (s1, g1, m1)" by (metis prod_cases3)
  have child: "rslot_ok h (sl ! ?o)" "lookup_slot h i (sl ! ?o) \<noteq> None"
    using ok len Suc.prems(2) by (simp_all add: s radix_consts)
  note IH = Suc.IH [OF child rec] and sp = delete_slot_spec [OF child rec]
  have sum: "sum_list (map (nodes h) (sl[?o := s1])) + nodes h (sl ! ?o) = sum_list (map (nodes h) sl) + nodes h s1"
    using len by (intro sum_list_update_nat) simp
  have d: "mm_diff (nodes (Suc h) s) m (nodes (Suc h) (Node c' (sl[?o := s1]) tg)) m1" for c'
    using sum by (intro mm_diff_shift [OF conjunct1 [OF IH]]) (simp add: s)
  have dn: "dense h y" if "dense (Suc h) s" "y \<in> set (sl[?o := s1])" for y
    using that IH len set_update_subset_insert [of sl ?o s1] by (auto simp: s)
  consider "\<not> g1" "s' = Node c (sl[?o := s1]) tg" "m' = m1" | "g1" "c - 1 = 0" "s' = Null" "m' = node_free m1"
    | "g1" "c - 1 \<noteq> 0" "s' = Node (c - 1) (sl[?o := s1]) tg" "m' = m1"
    using Suc.prems(3) rec by (auto simp: s Let_def radix_consts split: if_splits)
  then show ?case
  proof cases
    case 1
    then show ?thesis using d dn by (simp add: s)
  next
    case 2
    have nn: "\<not> is_Null (sl ! ?o)" using child(2) by (auto simp: is_Null_def)
    have "rslot_ok (Suc h) (Node (c - 1) (sl[?o := s1]) tg)"
      using Suc.prems(1) [unfolded s] sp 2(1) len node_count_bounds(2) [OF Suc.prems(1) [unfolded s] calc_offset_less nn] nn
      by (intro rslot_ok_update [of h c sl tg]) auto
    then have "filter (\<lambda>s. \<not> is_Null s) (sl[?o := s1]) = []" using 2(2) by simp
    then have "nodes h y = 0" if "y \<in> set (sl[?o := s1])" for y
      using that by (cases h) (auto simp: filter_empty_conv is_Null_def)
    then have "nodes (Suc h) (Node c (sl[?o := s1]) tg) = 1" by (simp add: sum_list_eq_0_iff)
    with d [of c] have "mm_diff (nodes (Suc h) s) m 1 m1" by metis
    moreover have "alloc_mm (node_free m1) = alloc_mm m1 - sizeof_node" by (simp add: node_free_def Let_def)
    ultimately show ?thesis using 2 by (simp add: mm_diff_def)
  next
    case 3
    then show ?thesis using d dn by (simp add: s)
  qed
qed

lemma clear_node_tag_memory: "nodes h (fst (clear_node_tag h i t s)) = nodes h s \<and> (dense h s \<longrightarrow> dense h (fst (clear_node_tag h i t s)))"
  if "rslot_ok h s" "lookup_slot h i s \<noteq> None"
  using that
proof (induction h arbitrary: s)
  case (Suc h)
  obtain c sl tg where s: "s = Node c sl tg" and len: "length sl = 64" and ok: "\<forall>s \<in> set sl. rslot_ok h s"
    using Suc.prems by (auto elim: rslot_ok_cases)
  let ?o = "calc_offset i (h * 6)"
  obtain s1 c1 where rec: "clear_node_tag h i t (sl ! ?o) = (s1, c1)" by fastforce
  have "rslot_ok h (sl ! ?o)" "lookup_slot h i (sl ! ?o) \<noteq> None"
    using ok len Suc.prems(2) by (simp_all add: s radix_consts)
  note IH = Suc.IH [OF this, unfolded rec fst_conv]
  have "sum_list (map (nodes h) (sl[?o := s1])) + nodes h (sl ! ?o) = sum_list (map (nodes h) sl) + nodes h s1"
    using len by (intro sum_list_update_nat) simp
  then have "sum_list (map (nodes h) (sl[?o := s1])) = sum_list (map (nodes h) sl)" using IH by simp
  moreover have "dense h y" if "dense (Suc h) s" "y \<in> set (sl[?o := s1])" for y
    using that IH len set_update_subset_insert [of sl ?o s1] by (auto simp: s)
  moreover have "\<exists>tg'. fst (clear_node_tag (Suc h) i t s) = Node c (sl[?o := s1]) tg'"
    by (auto simp: s Let_def radix_consts rec)
  ultimately show ?case by (auto simp: s)
qed simp

lemma lookup_agree: "agree h i j \<Longrightarrow> lookup_slot h i s = lookup_slot h j s" if "rslot_ok h s" for s :: "'a rslot"
  using that
proof (induction h arbitrary: s)
  case (Suc h)
  then show ?case by (cases s) (auto simp: agree_Suc radix_consts)
qed simp

text \<open>A tree without empty nodes has an item below every node.\<close>

lemma dense_item:
  assumes "rslot_ok h s" and "dense h s" and "\<not> is_Null s"
  shows "\<exists>j \<le> u_maxindex h. lookup_slot h j s \<noteq> None"
  using assms
proof (induction h arbitrary: s)
  case 0
  then show ?case by (cases s) auto
next
  case (Suc h)
  obtain c sl tg where s: "s = Node c sl tg" and len: "length sl = 64" and ok: "\<forall>s \<in> set sl. rslot_ok h s"
    using Suc.prems(1,3) by (auto elim: rslot_ok_cases)
  have "filter (\<lambda>s. \<not> is_Null s) sl \<noteq> []" using Suc.prems(1,2) by (auto simp: s unat_eq_zero)
  then obtain k where k: "k < 64" "\<not> is_Null (sl ! k)" using len by (auto simp: filter_empty_conv in_set_conv_nth)
  have fits: "k * 2 ^ (6 * h) < 2 ^ 64" using Suc.prems(1) k by (simp add: s)
  obtain b where b: "b \<le> u_maxindex h" "lookup_slot h b (sl ! k) \<noteq> None"
    using Suc.IH [of "sl ! k"] Suc.prems(2) ok k len by (auto simp: s)
  note j = join_offset [OF k(1) fits b(1)]
  have "lookup_slot h (b OR push_bit (6 * h) (of_nat k)) (sl ! k) \<noteq> None" using b(2) lookup_agree [OF _ j(2), of "sl ! k"] ok k(1) len by simp
  then show ?case using j(1,3) by (intro exI [of _ "b OR push_bit (6 * h) (of_nat k)"]) (simp add: s radix_consts)
qed

lemma push_level_memory:
  assumes "h \<noteq> 0"
  shows "nodes (Suc h) (push_level bs s) = Suc (nodes h s)" and "dense h s \<Longrightarrow> dense (Suc h) (push_level bs s)"
proof -
  have "sum_list (map (nodes h) ((replicate 64 Null)[0 := s])) + nodes h (Null :: 'a rslot) = 0 + nodes h s"
    using sum_list_update_nat [of 0 "replicate 64 Null" "nodes h" s] by (cases h) (simp_all add: sum_list_replicate)
  moreover have "nodes h (Null :: 'a rslot) = 0" by (cases h) simp_all
  ultimately show "nodes (Suc h) (push_level bs s) = Suc (nodes h s)" by (simp add: push_level_def)
  have "dense h (Null :: 'a rslot)" by (cases h) simp_all
  then show "dense h s \<Longrightarrow> dense (Suc h) (push_level bs s)"
    using set_update_subset_insert [of "replicate 64 Null" 0 s] by (fastforce simp: push_level_def)
qed

abbreviation root_nodes :: "'a radix_tree_root \<Rightarrow> nat" where
  "root_nodes r \<equiv> nodes (height r) (rnode r)"

lemma extend_loop_memory:
  assumes "extend_loop bs k r m = (e, r', m')" and "height r \<noteq> 0" and "height r < k"
  shows "mm_diff (root_nodes r) m (root_nodes r') m' \<and> (dense (height r) (rnode r) \<longrightarrow> dense (height r') (rnode r')) \<and>
    (\<not> is_Null (rnode r) \<longrightarrow> \<not> is_Null (rnode r')) \<and>
    (k - height r \<le> tls_nr m + avail m \<longrightarrow> e = None \<and> tls_nr m' + avail m' = tls_nr m + avail m - (k - height r))"
  using assms
proof (induction bs k r m rule: extend_loop.induct)
  case (1 bs k r m)
  obtain ok m1 where a: "node_alloc m = (ok, m1)" by fastforce
  note ap = node_alloc_props [OF a]
  show ?case
  proof (cases ok)
    case True
    let ?r = "r\<lparr>rnode := push_level bs (rnode r), height := height r + 1\<rparr>"
    have d: "mm_diff (root_nodes r) m (root_nodes ?r) m1"
      using ap True push_level_memory(1) [OF 1(3), of bs "rnode r"] by (simp add: mm_diff_def algebra_simps)
    have de: "dense (height r) (rnode r) \<Longrightarrow> dense (height ?r) (rnode ?r)" using push_level_memory(2) [OF 1(3), of "rnode r" bs] by simp
    have nn: "\<not> is_Null (rnode ?r)" by (simp add: push_level_def)
    have step: "extend_loop bs k r m = (if k > height ?r then extend_loop bs k ?r m1 else (None, ?r, m1))"
      by (subst extend_loop.simps) (simp add: a True Let_def push_level_def radix_consts)
    show ?thesis
    proof (cases "k > height ?r")
      case k: True
      have "mm_diff (root_nodes ?r) m1 (root_nodes r') m' \<and> (dense (height ?r) (rnode ?r) \<longrightarrow> dense (height r') (rnode r')) \<and>
          (\<not> is_Null (rnode ?r) \<longrightarrow> \<not> is_Null (rnode r')) \<and>
          (k - height ?r \<le> tls_nr m1 + avail m1 \<longrightarrow> e = None \<and> tls_nr m' + avail m' = tls_nr m1 + avail m1 - (k - height ?r))"
        using 1(2) step k a True by (intro 1(1) [of _ m1 ?r]) (auto simp: push_level_def radix_consts)
      then show ?thesis using d de nn ap True k by (auto simp: mm_diff_def)
    next
      case False
      then show ?thesis using 1(2,4) step d de nn ap True by auto
    qed
  next
    case False
    then show ?thesis using 1(2,4) a ap by (subst (asm) extend_loop.simps) (auto simp: mm_diff_def)
  qed
qed

lemma insert_slot_no_enomem:
  assumes "rslot_ok h s" and "insert_slot h i x s m = (e, added, s', m')" and "h \<le> tls_nr m + avail m"
  shows "e \<noteq> Some ENOMEM"
  using assms
proof (induction h arbitrary: s m e added s' m')
  case 0
  then show ?case by (auto split: if_splits)
next
  case (Suc h)
  from Suc.prems(1,2) show ?case
  proof (cases rule: insert_slot_Suc)
    case fail
    then show ?thesis using node_alloc_props [OF fail(5)] Suc.prems(3) by simp
  next
    case (down c sl tg m1 a1 s1)
    have "h \<le> tls_nr m1 + avail m1"
      using node_alloc_props [of m "fst (node_alloc m)" "snd (node_alloc m)", OF prod.collapse [symmetric]] down(2,3) Suc.prems(3)
      by (cases "is_Null s") auto
    then show ?thesis using Suc.IH [OF down(5,6)] by simp
  qed
qed

text \<open>Everything the tree holds is accounted for, and nothing is held without an item.\<close>

definition rd_tidy :: "'a radix_tree_root \<times> node_mem \<Rightarrow> bool" where
  "rd_tidy s \<longleftrightarrow> dense (height (fst s)) (rnode (fst s)) \<and> (is_Null (rnode (fst s)) \<longrightarrow> height (fst s) = 0) \<and>
     alloc_mm (snd s) = sizeof_node * of_nat (root_nodes (fst s))"

lemma rdtree_extend_memory:
  assumes r: "rd_shape r" and t: "rd_tidy (r, m)" and run: "rdtree_extend r i m = Some (e, r', m')"
  shows "dense (height r') (rnode r') \<and> alloc_mm m' = sizeof_node * of_nat (root_nodes r')"
proof -
  obtain k where k: "extend_height (height r + 1) i = Some k"
    using run by (auto simp: rdtree_extend_def split: option.splits)
  show ?thesis
  proof (cases "rnode r")
    case Null
    then have "r' = r\<lparr>height := k\<rparr>" "m' = m" using run k by (auto simp: rdtree_extend_def)
    then show ?thesis using t Null by (cases k; cases "height r") (simp_all add: rd_tidy_def)
  next
    case (Node c sl tg)
    have "extend_loop (map (tag_any tg) [0..<3]) k r m = (e, r', m')"
      using run k by (simp add: rdtree_extend_def Node radix_consts)
    from extend_loop_memory [OF this] show ?thesis
      using extend_height_spec [OF k] r t Node by (auto simp: rd_shape_def rd_tidy_def mm_diff_def)
  next
    case (Item x)
    then show ?thesis using r by (auto simp: rd_shape_def)
  qed
qed

lemma radix_insert_tidy:
  assumes ok: "rdtree_ok r" and t: "rd_tidy (r, m)" and run: "u_radix_tree_insert r i (Some x) m = Some (e, r', m')"
    and e: "e \<noteq> Some ENOMEM"
  shows "rd_tidy (r', m')"
proof -
  have shape: "rd_shape r" using ok by (simp add: rdtree_ok_def)
  let ?need = "i = 0 \<and> is_Null (rnode r) \<or> i > u_maxindex (height r)"
  obtain e1 r1 m1 where ext: "(if ?need then rdtree_extend r i m else Some (None, r, m)) = Some (e1, r1, m1)"
    using run by (auto simp: u_radix_tree_insert_def split: option.splits if_splits)
  have r1: "rd_shape r1" "dense (height r1) (rnode r1)" "alloc_mm m1 = sizeof_node * of_nat (root_nodes r1)"
      "e1 = None \<or> e1 = Some ENOMEM"
    using ext rdtree_extend_spec [OF shape, of i m e1 r1 m1] rdtree_extend_memory [OF shape t, of i e1 r1 m1] shape t
    by (auto simp: rd_tidy_def split: if_splits)
  have "e1 = None" using r1(4) e run ext by (auto simp: u_radix_tree_insert_def split: if_splits)
  then obtain a s m2 where ins: "insert_slot (height r1) i x (rnode r1) m1 = (e, a, s, m')"
      and r': "r' = r1\<lparr>rnode := s, nr_nodes := (if e = None then nr_nodes r1 + 1 else nr_nodes r1)\<rparr>"
    using run ext by (auto simp: u_radix_tree_insert_def split: if_splits prod.splits)
  have "rslot_ok (height r1) (rnode r1)" using r1(1) by (simp add: rd_shape_def)
  from insert_slot_memory [OF this ins] show ?thesis
    using r1(2,3) e by (simp add: rd_tidy_def r' mm_diff_def)
qed

lemma radix_delete_tidy:
  assumes ok: "rdtree_ok r" and t: "rd_tidy (r, m)" and run: "radix_tree_delete r i m = (v, r', m')"
  shows "rd_tidy (r', m')"
proof (cases "u_radix_tree_lookup r i")
  case None
  then show ?thesis using run t by (simp add: radix_tree_delete_def)
next
  case (Some x)
  let ?h = "height r" and ?s = "clear_tags (height r) i (rnode r)"
  have x: "lookup_slot ?h i (rnode r) \<noteq> None" using Some by (auto simp: u_radix_tree_lookup_def split: if_splits)
  have sh: "rslot_ok ?h (rnode r)" "tags_ok ?h (rnode r)" using ok by (auto simp: rdtree_ok_def rd_shape_def)
  let ?f = "\<lambda>t s. fst (clear_node_tag ?h i t s)"
  have step: "(rslot_ok ?h (?f t s) \<and> tags_ok ?h (?f t s) \<and> lookup_slot ?h i (?f t s) \<noteq> None) \<and>
      nodes ?h (?f t s) = nodes ?h s \<and> (dense ?h s \<longrightarrow> dense ?h (?f t s))"
    if "rslot_ok ?h s \<and> tags_ok ?h s \<and> lookup_slot ?h i s \<noteq> None" "t < 3" for t and s :: "'a rslot"
    using clear_node_tag_spec [of ?h s i t "?f t s" "snd (clear_node_tag ?h i t s)"] clear_node_tag_memory [of ?h s i t] that by auto
  have eq: "?s = ?f 2 (?f 1 (?f 0 (rnode r)))" by (simp add: clear_tags_def radix_consts upt_rec numeral_2_eq_2)
  have c: "rslot_ok ?h ?s" "lookup_slot ?h i ?s \<noteq> None" "nodes ?h ?s = root_nodes r" "dense ?h (rnode r) \<longrightarrow> dense ?h ?s"
    unfolding eq using step [of "rnode r" 0] step [of "?f 0 (rnode r)" 1] step [of "?f 1 (?f 0 (rnode r))" 2] sh x by auto
  obtain s1 g m1 where del: "delete_slot ?h i ?s m = (s1, g, m1)" by (metis prod_cases3)
  have r': "r' = r\<lparr>rnode := s1, nr_nodes := nr_nodes r - 1, height := (if is_Null s1 then 0 else ?h)\<rparr>" "m' = m1"
    using run Some del by (simp_all add: radix_tree_delete_def)
  have z: "is_Null s1 \<Longrightarrow> nodes h s1 = 0 \<and> dense h s1" for h by (cases h) (auto simp: is_Null_def)
  from delete_slot_memory [OF c(1,2) del] show ?thesis
    using c(3,4) t z by (auto simp: rd_tidy_def r' mm_diff_def)
qed

section \<open>Properties\<close>

text \<open>C2: Whatever sequence of insertions, deletions and lookups is run on an empty tree, with memory running out
  at any point, the results it returns are those of a map from 64-bit indices to items, and the tree holds that map.\<close>

theorem radix_tree_refines_map:
  assumes "map_runs radix_tree_insert radix_tree_remove radix_tree_lookup (INIT_RADIX_TREE, m) calls s"
  shows "map_trace Map.empty calls = Some (radix_tree_lookup s) \<and> rdtree_ok (fst s)"
  using rdmap.runs_refine [OF assms] rdtree_ok_INIT unfolding lookup_INIT by simp

definition rd_mem :: node_mem where "rd_mem = \<lparr>tls_nr = 0, avail = 100, alloc_mm = 0\<rparr>"

definition rd_calls :: "(u64, nat) map_call list" where
  "rd_calls = [Insert 5000 7 None, Insert 5000 8 (Some EEXIST), Insert 3 9 None, Lookup 5000 (Some 7), Delete 5000 (Some 7), Lookup 5000 None]"

lemma rd_example_run:
  "\<exists>s. map_runs radix_tree_insert radix_tree_remove radix_tree_lookup (INIT_RADIX_TREE, rd_mem) rd_calls s"
proof -
  have "exec_calls radix_tree_insert radix_tree_remove radix_tree_lookup (INIT_RADIX_TREE, rd_mem) rd_calls \<noteq> None"
    by code_simp
  then show ?thesis by (auto intro: exec_calls_runs)
qed

text \<open>Witness: insertions at the indices 5000, twice, and 3, and the deletion of the first.\<close>

theorem radix_tree_refines_map_witness:
  "\<exists>s. map_runs radix_tree_insert radix_tree_remove radix_tree_lookup (INIT_RADIX_TREE, rd_mem) rd_calls s \<and>
     radix_tree_lookup s 3 = Some 9 \<and> radix_tree_lookup s 5000 = None"
proof -
  obtain s where s: "map_runs radix_tree_insert radix_tree_remove radix_tree_lookup (INIT_RADIX_TREE, rd_mem) rd_calls s"
    using rd_example_run ..
  have "map_trace Map.empty rd_calls = Some (Map.empty(3 \<mapsto> 9))"
    by (simp add: rd_calls_def)
  then have "radix_tree_lookup s = Map.empty(3 \<mapsto> 9)" using radix_tree_refines_map [OF s] by simp
  then show ?thesis using s by (intro exI [of _ s]) simp
qed

text \<open>C31: Setting the tag of an item, clearing it and deleting the item change the tag of that index only; the
  tree-wide test tells whether some index is tagged; the consistency check in the read never fires.\<close>

theorem radix_tree_tags_exact:
  assumes "rdtree_ok r" and "t < 3"
  shows "(u_radix_tree_lookup r i \<noteq> None \<longrightarrow>
      (\<exists>r'. radix_tree_tag_set r i t = Some (u_radix_tree_lookup r i, r') \<and> rdtree_ok r' \<and>
        u_radix_tree_lookup r' = u_radix_tree_lookup r \<and>
        (\<forall>t' < 3. \<forall>j. radix_tree_tag_get r' j t' = Some (radix_tree_tag_get r j t' = Some True \<or> j = i \<and> t' = t)))) \<and>
    (u_radix_tree_lookup r i \<noteq> None \<longrightarrow>
      (\<exists>r'. radix_tree_tag_clear r i t = Some (u_radix_tree_lookup r i, r') \<and> rdtree_ok r' \<and>
        u_radix_tree_lookup r' = u_radix_tree_lookup r \<and>
        (\<forall>t' < 3. \<forall>j. radix_tree_tag_get r' j t' = Some (radix_tree_tag_get r j t' = Some True \<and> \<not> (j = i \<and> t' = t))))) \<and>
    (\<forall>v r' m m'. radix_tree_delete r i m = (v, r', m') \<longrightarrow>
        (\<forall>j. radix_tree_tag_get r' j t = Some (radix_tree_tag_get r j t = Some True \<and> j \<noteq> i))) \<and>
    radix_tree_tagged r t = Some (\<exists>j. radix_tree_tag_get r j t = Some True)"
proof -
  note get = radix_tag_get_spec [OF assms(1)]
  have "\<exists>r'. radix_tree_tag_set r i t = Some (u_radix_tree_lookup r i, r') \<and> rdtree_ok r' \<and>
        u_radix_tree_lookup r' = u_radix_tree_lookup r \<and>
        (\<forall>t' < 3. \<forall>j. radix_tree_tag_get r' j t' = Some (radix_tree_tag_get r j t' = Some True \<or> j = i \<and> t' = t))"
    if "u_radix_tree_lookup r i \<noteq> None"
    using radix_tag_set_spec [OF assms that] by (auto simp: get radix_tag_get_spec)
  moreover have "\<exists>r'. radix_tree_tag_clear r i t = Some (u_radix_tree_lookup r i, r') \<and> rdtree_ok r' \<and>
        u_radix_tree_lookup r' = u_radix_tree_lookup r \<and>
        (\<forall>t' < 3. \<forall>j. radix_tree_tag_get r' j t' = Some (radix_tree_tag_get r j t' = Some True \<and> \<not> (j = i \<and> t' = t)))"
    if "u_radix_tree_lookup r i \<noteq> None"
    using radix_tag_clear_spec [OF assms, of i] that by (auto simp: get radix_tag_get_spec)
  moreover have "radix_tree_tag_get r' j t = Some (radix_tree_tag_get r j t = Some True \<and> j \<noteq> i)"
    if "radix_tree_delete r i m = (v, r', m')" for v r' m m' j
    using radix_delete_spec [OF assms(1) that] assms(2) by (auto simp: get radix_tag_get_spec)
  moreover have "radix_tree_tagged r t = Some (\<exists>j. radix_tree_tag_get r j t = Some True)"
    using radix_tagged_spec [OF assms] by (simp add: get assms(2))
  ultimately show ?thesis by blast
qed

definition rd_one :: "nat radix_tree_root" where
  "rd_one = (case radix_tree_insert (INIT_RADIX_TREE, rd_mem) 3 7 of Some (_, r, _) \<Rightarrow> r)"

lemma rd_one: "rdtree_ok rd_one" "u_radix_tree_lookup rd_one 3 = Some 7"
proof -
  have "map_option fst (radix_tree_insert (INIT_RADIX_TREE, rd_mem) 3 (7 :: nat)) = Some None" by code_simp
  then obtain m where "u_radix_tree_insert INIT_RADIX_TREE 3 (Some 7) rd_mem = Some (None, rd_one, m)"
    by (auto simp: rd_one_def radix_tree_insert_def)
  from radix_insert_spec [OF rdtree_ok_INIT this] show "rdtree_ok rd_one" "u_radix_tree_lookup rd_one 3 = Some 7" by simp_all
qed

text \<open>Witness: tagging the only item.\<close>

theorem radix_tree_tags_exact_witness:
  "rdtree_ok rd_one \<and> (\<exists>r. radix_tree_tag_set rd_one 3 1 = Some (Some 7, r) \<and> radix_tree_tag_get r 3 1 = Some True)"
  using radix_tree_tags_exact [OF rd_one(1), of 1 3] rd_one by auto


lemma radix_insert_total:
  assumes "rdtree_ok r" and "\<not> is_Null (rnode r) \<or> height r < 11"
  shows "u_radix_tree_insert r i (Some x) m \<noteq> None"
proof -
  have h: "height r \<le> 11" using assms(1) by (simp add: rdtree_ok_def rd_shape_def)
  have "extend_height (height r + 1) i \<noteq> None" if "i = 0 \<and> is_Null (rnode r) \<or> i > u_maxindex (height r)"
  proof (rule extend_height_total)
    have "height r \<noteq> 11" using that assms(2) maxindex_11 [of i] by (auto simp: leD)
    then show "height r + 1 \<le> 11" using h by simp
  qed
  then show ?thesis by (auto simp: u_radix_tree_insert_def rdtree_extend_def split: prod.splits option.splits)
qed

text \<open>C32: With memory for 22 nodes an insertion at a free index succeeds, whatever the index. (The height is
  below eleven in an empty tree, unless failed insertions raised it.)\<close>

theorem radix_tree_insert_succeeds:
  assumes ok: "rdtree_ok r" and free: "u_radix_tree_lookup r i = None" and mem: "22 \<le> tls_nr m + avail m"
    and h: "\<not> is_Null (rnode r) \<or> height r < 11"
  shows "\<exists>r' m'. u_radix_tree_insert r i (Some x) m = Some (None, r', m') \<and> u_radix_tree_lookup r' = (u_radix_tree_lookup r)(i \<mapsto> x)"
proof -
  obtain e r' m' where run: "u_radix_tree_insert r i (Some x) m = Some (e, r', m')"
    using radix_insert_total [OF ok h] by (metis option.exhaust prod_cases3)
  have shape: "rd_shape r" using ok by (simp add: rdtree_ok_def)
  let ?need = "i = 0 \<and> is_Null (rnode r) \<or> i > u_maxindex (height r)"
  obtain e1 r1 m1 where ext: "(if ?need then rdtree_extend r i m else Some (None, r, m)) = Some (e1, r1, m1)"
    using run by (auto simp: u_radix_tree_insert_def split: option.splits if_splits)
  have r1: "rd_shape r1 \<and> e1 = None \<and> 11 \<le> tls_nr m1 + avail m1"
  proof (cases ?need)
    case True
    then have run1: "rdtree_extend r i m = Some (e1, r1, m1)" using ext by simp
    obtain k where k: "extend_height (height r + 1) i = Some k"
      using run1 by (auto simp: rdtree_extend_def split: option.splits)
    note kk = extend_height_spec [OF k]
    have "e1 = None \<and> 11 \<le> tls_nr m1 + avail m1"
    proof (cases "rnode r")
      case (Node c sl tg)
      have "extend_loop (map (tag_any tg) [0..<3]) k r m = (e1, r1, m1)"
        using run1 k by (simp add: rdtree_extend_def Node radix_consts)
      from extend_loop_memory [OF this] show ?thesis using kk mem shape Node by (auto simp: rd_shape_def)
    qed (use run1 k mem shape in \<open>auto simp: rdtree_extend_def rd_shape_def\<close>)
    then show ?thesis using rdtree_extend_spec [OF shape True run1] by simp
  qed (use ext shape mem in auto)
  then obtain a s m2 where ins: "insert_slot (height r1) i x (rnode r1) m1 = (e, a, s, m2)"
    using run ext by (auto simp: u_radix_tree_insert_def split: if_splits prod.splits)
  have "e \<noteq> Some ENOMEM" using r1 by (intro insert_slot_no_enomem [OF _ ins]) (auto simp: rd_shape_def)
  then have "e = None" using radix_insert_spec [OF ok run] free by auto
  then show ?thesis using radix_insert_spec [OF ok run] run by auto
qed

text \<open>Witness: the greatest index goes into a tree with one item.\<close>

theorem radix_tree_insert_succeeds_witness:
  "rdtree_ok rd_one \<and> (\<exists>r' m'. u_radix_tree_insert rd_one (-1) (Some 8) rd_mem = Some (None, r', m'))"
proof -
  have "u_radix_tree_lookup rd_one (-1) = None" by code_simp
  moreover have "height rd_one < 11" by code_simp
  ultimately show ?thesis
    using radix_tree_insert_succeeds [OF rd_one(1), of "-1" rd_mem 8] rd_one(1) by (auto simp: rd_mem_def)
qed

lemma tidy_runs:
  assumes "map_runs radix_tree_insert radix_tree_remove radix_tree_lookup s calls s'"
    and "rdtree_ok (fst s)" and "rd_tidy s" and "\<forall>k v. Insert k v (Some ENOMEM) \<notin> set calls"
  shows "rd_tidy s'"
  using assms
proof (induction rule: map_runs.induct)
  case (ins s k v e s1 cs s2)
  have "u_radix_tree_insert (fst s) k (Some v) (snd s) = Some (e, fst s1, snd s1)" using ins(1) by (simp add: radix_tree_insert_def)
  from radix_insert_tidy [OF ins.prems(1) _ this] have "rd_tidy s1" using ins.prems(2,3) by auto
  moreover have "rdtree_ok (fst s1)" using rdmap.insert_inv [OF ins.prems(1) ins(1)] .
  ultimately show ?case using ins by simp
next
  case (del s k r s1 cs s2)
  have "radix_tree_delete (fst s) k (snd s) = (r, fst s1, snd s1)" using del(1) by (simp add: radix_tree_remove_def)
  from radix_delete_tidy [OF del.prems(1) _ this] have "rd_tidy s1" using del.prems(2) by auto
  moreover have "rdtree_ok (fst s1)" using rdmap.delete_inv [OF del.prems(1) del(1)] .
  ultimately show ?case using del by simp
qed simp_all

text \<open>C33: As long as no insertion ran out of memory, a tree from which every item was deleted is the empty tree
  again: no node is left, the height is zero and the memory count is back at zero.\<close>

theorem radix_tree_no_leak:
  assumes run: "map_runs radix_tree_insert radix_tree_remove radix_tree_lookup (INIT_RADIX_TREE, m) calls s"
    and "alloc_mm m = 0" and "\<forall>k v. Insert k v (Some ENOMEM) \<notin> set calls" and "map_trace Map.empty calls = Some Map.empty"
  shows "fst s = INIT_RADIX_TREE \<and> alloc_mm (snd s) = 0"
proof -
  have ref: "map_trace Map.empty calls = Some (radix_tree_lookup s)" "rdtree_ok (fst s)"
    using rdmap.runs_refine [OF run, unfolded fst_conv, OF rdtree_ok_INIT] unfolding lookup_INIT by simp_all
  have none: "u_radix_tree_lookup (fst s) = Map.empty" using ref(1) assms(4) unfolding radix_tree_lookup_fst by simp
  have "rd_tidy (INIT_RADIX_TREE, m)" using assms(2) by (simp add: rd_tidy_def INIT_RADIX_TREE_def)
  then have tidy: "rd_tidy s" using tidy_runs [OF run] rdtree_ok_INIT assms(3) by simp
  have sh: "rslot_ok (height (fst s)) (rnode (fst s))" using ref(2) by (simp add: rdtree_ok_def rd_shape_def)
  have null: "is_Null (rnode (fst s))"
  proof (rule ccontr)
    assume nn: "\<not> is_Null (rnode (fst s))"
    have "dense (height (fst s)) (rnode (fst s))" using tidy by (simp add: rd_tidy_def)
    from dense_item [OF sh this nn] obtain j where "j \<le> u_maxindex (height (fst s))" "lookup_slot (height (fst s)) j (rnode (fst s)) \<noteq> None"
      by blast
    then have "u_radix_tree_lookup (fst s) j \<noteq> None" by (simp add: u_radix_tree_lookup_def leD)
    then show False by (simp add: none)
  qed
  then have "height (fst s) = 0" "alloc_mm (snd s) = 0" using tidy by (auto simp: rd_tidy_def is_Null_def)
  moreover have "nr_nodes (fst s) = 0" using ref(2) by (simp add: rdtree_ok_def none)
  ultimately show ?thesis using null by (simp add: INIT_RADIX_TREE_def is_Null_def radix_tree_root.equality)
qed

text \<open>Witness: an item at index 5000 comes and goes.\<close>

theorem radix_tree_no_leak_witness:
  "\<exists>s. map_runs radix_tree_insert radix_tree_remove radix_tree_lookup (INIT_RADIX_TREE, rd_mem)
      [Insert 5000 (7 :: nat) None, Delete 5000 (Some 7)] s \<and> fst s = INIT_RADIX_TREE \<and> alloc_mm (snd s) = 0"
proof -
  let ?cs = "[Insert 5000 (7 :: nat) None, Delete 5000 (Some 7)]"
  have "exec_calls radix_tree_insert radix_tree_remove radix_tree_lookup (INIT_RADIX_TREE, rd_mem) ?cs \<noteq> None" by code_simp
  then obtain s where s: "map_runs radix_tree_insert radix_tree_remove radix_tree_lookup (INIT_RADIX_TREE, rd_mem) ?cs s"
    using exec_calls_runs by (metis option.exhaust)
  have "map_trace Map.empty ?cs = Some Map.empty" by simp
  then show ?thesis using radix_tree_no_leak [OF s] s by (intro exI [of _ s]) (simp add: rd_mem_def)
qed

text \<open>A first insertion that finds no memory leaves a height without a node.\<close>

lemma radix_tree_failed_insert:
  "u_radix_tree_insert INIT_RADIX_TREE 5000 (Some x) \<lparr>tls_nr = 0, avail = 0, alloc_mm = 0\<rparr> =
     Some (Some ENOMEM, \<lparr>height = 3, nr_nodes = 0, rnode = Null\<rparr>, \<lparr>tls_nr = 0, avail = 0, alloc_mm = 0\<rparr>)"
proof -
  have "extend_height 1 5000 = Some 3" by code_simp
  moreover have "node_alloc \<lparr>tls_nr = 0, avail = 0, alloc_mm = 0\<rparr> = (False, \<lparr>tls_nr = 0, avail = 0, alloc_mm = 0\<rparr>)" by code_simp
  moreover have "u_maxindex 0 = 0" by (simp add: u_maxindex_eq)
  ultimately show ?thesis
    by (simp add: u_radix_tree_insert_def rdtree_extend_def INIT_RADIX_TREE_def numeral_3_eq_3)
qed

end
