(* ===== verification/Idr.thy ===== *)
theory Idr
  imports Bitmap Radix_Tree
begin

text \<open>
  \<open>include/skp/adt/idr.h\<close> and \<open>src/adt/idr.c\<close>: allocators of small integers. \<open>idt\<close> keeps one bit for
  every id, in pages that are allocated when first needed, and hands out ids in a round; \<open>idr\<close> adds a
  radix tree that maps each id in use to a pointer.

  The 32-bit unsigned fields are natural numbers, with the reduction written out where the source can
  wrap around. One call is one step; whether \<open>malloc\<close> succeeds is an argument.
\<close>

section \<open>State\<close>

definition BITS_PER_PAGE :: nat where "BITS_PER_PAGE = 4096 * 8"

definition U32_MAX :: nat where "U32_MAX = 2 ^ 32 - 1"

definition S32_MAX :: nat where "S32_MAX = 2 ^ 31 - 1"

record idmap =
  map_free :: nat
  map_bits :: nat
  page :: "ulongs option"

record idt =
  nr_free :: nat
  offset :: nat
  nr_bit :: nat
  last_id :: nat
  idmaps :: "idmap list"

definition idt_pages :: "idt \<Rightarrow> nat" where "idt_pages t = DIV_ROUND_UP (nr_bit t) BITS_PER_PAGE"

definition idt_nr_free :: "idt \<Rightarrow> nat" where "idt_nr_free t = nr_free t"

definition idt_nr_ids :: "idt \<Rightarrow> nat" where "idt_nr_ids t = nr_bit t - nr_free t"

section \<open>Operations on ids\<close>

definition check_idt :: "idt \<Rightarrow> int \<Rightarrow> bool" where
  "check_idt t i = (\<not> (i < 0 \<or> nat i < offset t \<or> nat i \<ge> (offset t + nr_bit t) mod 2 ^ 32))"

text \<open>\<open>None\<close> is a \<open>BUG_ON\<close>; the inner result is the error of a failed allocation.\<close>

definition idt_init :: "bool \<Rightarrow> nat \<Rightarrow> nat \<Rightarrow> (errno + idt) option" where
  "idt_init malloc_ok start end' =
     (let nr = (2 ^ 32 + end' - start + 1) mod 2 ^ 32 in
      if end' \<le> start \<or> start \<ge> S32_MAX \<or> end' \<ge> S32_MAX \<or> nr \<ge> S32_MAX then None
      else if \<not> malloc_ok then Some (Inl ENOMEM)
      else
        let pages = DIV_ROUND_UP nr BITS_PER_PAGE;
            last_bits = (if nr mod BITS_PER_PAGE \<noteq> 0 then nr mod BITS_PER_PAGE else BITS_PER_PAGE)
        in Some (Inr \<lparr>nr_free = nr, offset = start, nr_bit = nr, last_id = U32_MAX,
             idmaps = replicate (pages - 1) \<lparr>map_free = BITS_PER_PAGE, map_bits = BITS_PER_PAGE, page = None\<rparr> @
                      [\<lparr>map_free = last_bits, map_bits = last_bits, page = None\<rparr>]\<rparr>))"

definition mk_id :: "nat \<Rightarrow> nat \<Rightarrow> nat" where
  "mk_id k off = k * BITS_PER_PAGE + off"

text \<open>The pages from the one of the given id on are searched for the next id in use.\<close>

fun next_loop :: "idmap list \<Rightarrow> nat \<Rightarrow> nat \<Rightarrow> nat option" where
  "next_loop [] k off = None"
| "next_loop (mp # mps) k off =
     (case page mp of
        None \<Rightarrow> next_loop mps (k + 1) 0
      | Some pg \<Rightarrow>
          let off' = find_next_bit pg (map_bits mp) off
          in if off' < map_bits mp then Some (mk_id k off') else next_loop mps (k + 1) 0)"

definition idt_next :: "idt \<Rightarrow> int \<Rightarrow> errno + int" where
  "idt_next t i =
     (if \<not> check_idt t i then Inl ENOENT
      else
        let j = nat i - offset t; k = j div BITS_PER_PAGE
        in (case next_loop (drop k (idmaps t)) k (j mod BITS_PER_PAGE) of
              None \<Rightarrow> Inl ENOENT
            | Some r \<Rightarrow> Inr (int r + int (offset t))))"

text \<open>The inner loop of the allocation: the first free bit from an offset on is set.\<close>

function set_free_bit :: "ulongs \<Rightarrow> nat \<Rightarrow> nat \<Rightarrow> (nat \<times> ulongs) option" where
  "set_free_bit pg bits off =
     (case test_and_set_bit off pg of
        (was, pg') \<Rightarrow>
          if \<not> was then Some (off, pg')
          else
            let off' = find_next_zero_bit pg bits off
            in if off' \<ge> bits then None else set_free_bit pg bits off')"
  by pat_completeness auto
termination
proof (relation "measure (\<lambda>(pg, bits, off). bits - off)")
  fix pg bits off was and pg' :: ulongs and off'
  assume "(was, pg') = test_and_set_bit off pg" and "\<not> \<not> was" and "off' = find_next_zero_bit pg bits off" and "\<not> bits \<le> off'"
  then have "variable_test_bit off pg" "next_such (\<lambda>j. \<not> test_bit j pg) bits off off'" "off' < bits"
    using find_next_zero_bit_spec [of pg bits off] by (auto simp: test_and_set_bit_def)
  then have "off < off'" unfolding next_such_def by (metis le_neq_implies_less less_imp_le min_def not_le order.strict_trans2)
  then show "((pg, bits, off'), (pg, bits, off)) \<in> measure (\<lambda>(pg, bits, off). bits - off)" using \<open>off' < bits\<close> by simp
qed simp

declare set_free_bit.simps [simp del]

text \<open>The outer loop: \<open>n\<close> more pages are looked at, from page \<open>k\<close> and offset \<open>off\<close> on. The id that the source
  computes along with them is \<open>mk_id k off\<close>.\<close>

fun alloc_scan :: "(nat \<Rightarrow> bool) \<Rightarrow> nat \<Rightarrow> nat \<Rightarrow> nat \<Rightarrow> idt \<Rightarrow> (errno + int) \<times> idt" where
  "alloc_scan malloc_ok 0 k off t = (Inl ENOSPC, t)"
| "alloc_scan malloc_ok (Suc n) k off t =
     (case (case page (idmaps t ! k) of Some pg \<Rightarrow> Some pg | None \<Rightarrow> if malloc_ok n then Some (\<lambda>_. 0) else None) of
        None \<Rightarrow> (Inl ENOSPC, t)
      | Some pg \<Rightarrow>
          let mp = (idmaps t ! k)\<lparr>page := Some pg\<rparr>;
              t = t\<lparr>idmaps := (idmaps t)[k := mp]\<rparr>
          in (case (if map_free mp \<noteq> 0 then set_free_bit pg (map_bits mp) off else None) of
                Some (off', pg') \<Rightarrow>
                  (Inr (int (mk_id k off' + offset t)),
                   t\<lparr>idmaps := (idmaps t)[k := mp\<lparr>page := Some pg', map_free := map_free mp - 1\<rparr>],
                     nr_free := nr_free t - 1, last_id := mk_id k off'\<rparr>)
              | None \<Rightarrow> alloc_scan malloc_ok n (if k < idt_pages t - 1 then k + 1 else 0) 0 t))"

definition idt_alloc :: "(nat \<Rightarrow> bool) \<Rightarrow> idt \<Rightarrow> (errno + int) \<times> idt" where
  "idt_alloc malloc_ok t =
     (if nr_free t = 0 then (Inl ENOSPC, t)
      else
        let i0 = (last_id t + 1) mod 2 ^ 32;
            i = (if i0 \<ge> nr_bit t then 0 else i0);
            off = i mod BITS_PER_PAGE;
            max_scan = idt_pages t - (if off = 0 then 1 else 0)
        in alloc_scan malloc_ok (max_scan + 1) (i div BITS_PER_PAGE) off t)"

definition u_idt_remove :: "idt \<Rightarrow> int \<Rightarrow> bool \<Rightarrow> bool \<times> idt" where
  "u_idt_remove t i ring =
     (if \<not> check_idt t i then (False, t)
      else
        let j = nat i - offset t; off = j mod BITS_PER_PAGE; k = j div BITS_PER_PAGE; mp = idmaps t ! k
        in (case page mp of
              None \<Rightarrow> (False, t)
            | Some pg \<Rightarrow>
                (case test_and_clear_bit off pg of
                   (was, pg') \<Rightarrow>
                     if \<not> was then (False, t\<lparr>idmaps := (idmaps t)[k := mp\<lparr>page := Some pg'\<rparr>]\<rparr>)
                     else
                       (True, t\<lparr>last_id := (if ring \<and> j \<le> last_id t \<and> last_id t \<noteq> U32_MAX then (2 ^ 32 + j - 1) mod 2 ^ 32 else last_id t),
                                nr_free := nr_free t + 1,
                                idmaps := (idmaps t)[k := mp\<lparr>page := Some pg', map_free := map_free mp + 1\<rparr>]\<rparr>))))"

definition idt_remove :: "idt \<Rightarrow> int \<Rightarrow> bool \<times> idt" where
  "idt_remove t i = u_idt_remove t i False"

definition idt_ring_remove :: "idt \<Rightarrow> int \<Rightarrow> bool \<times> idt" where
  "idt_ring_remove t i = u_idt_remove t i True"

section \<open>Ids with pointers\<close>

record 'a idr =
  ids :: idt
  rdtree :: "'a radix_tree_root \<times> node_mem"

definition idr_init_base :: "bool \<Rightarrow> node_mem \<Rightarrow> nat \<Rightarrow> nat \<Rightarrow> (errno + 'a idr) option" where
  "idr_init_base malloc_ok m start end' =
     (case idt_init malloc_ok start end' of
        None \<Rightarrow> None
      | Some (Inl e) \<Rightarrow> Some (Inl e)
      | Some (Inr t) \<Rightarrow> Some (Inr \<lparr>ids = t, rdtree = (INIT_RADIX_TREE, m)\<rparr>))"

text \<open>\<open>None\<close> is the \<open>BUG_ON\<close> for an id that is free in the bits and taken in the tree, or an insertion whose
  behaviour is not defined.\<close>

definition idr_alloc :: "(nat \<Rightarrow> bool) \<Rightarrow> 'a idr \<Rightarrow> 'a option \<Rightarrow> ((errno + int) \<times> 'a idr) option" where
  "idr_alloc malloc_ok d ptr =
     (case ptr of
        None \<Rightarrow> Some (Inl EINVAL, d)
      | Some p \<Rightarrow>
          (case idt_alloc malloc_ok (ids d) of
             (Inl e, t) \<Rightarrow> Some (Inl e, d\<lparr>ids := t\<rparr>)
           | (Inr i, t) \<Rightarrow>
               (case radix_tree_insert (rdtree d) (of_int (i - int (offset t))) p of
                  None \<Rightarrow> None
                | Some (None, r) \<Rightarrow> Some (Inr i, d\<lparr>ids := t, rdtree := r\<rparr>)
                | Some (Some EEXIST, r) \<Rightarrow> None
                | Some (Some e, r) \<Rightarrow> Some (Inl ENOMEM, d\<lparr>ids := snd (idt_remove t i), rdtree := r\<rparr>))))"

definition idr_remove :: "'a idr \<Rightarrow> int \<Rightarrow> ('a option \<times> 'a idr) option" where
  "idr_remove d i =
     (if \<not> check_idt (ids d) i then Some (None, d)
      else
        (case radix_tree_remove (rdtree d) (of_int (i - int (offset (ids d)))) of
           (None, r) \<Rightarrow> Some (None, d\<lparr>rdtree := r\<rparr>)
         | (Some p, r) \<Rightarrow>
             (case idt_remove (ids d) i of
                (False, t) \<Rightarrow> None
              | (True, t) \<Rightarrow> Some (Some p, d\<lparr>ids := t, rdtree := r\<rparr>))))"

definition idr_find :: "'a idr \<Rightarrow> int \<Rightarrow> 'a option" where
  "idr_find d i =
     (if \<not> check_idt (ids d) i then None
      else radix_tree_lookup (rdtree d) (of_int (i - int (offset (ids d)))))"

section \<open>Invariant\<close>

text \<open>The ids in use in a page, and in the whole map, counted from the first id.\<close>

definition page_used :: "idmap \<Rightarrow> nat set" where
  "page_used mp = (case page mp of None \<Rightarrow> {} | Some pg \<Rightarrow> {j. j < map_bits mp \<and> test_bit j pg})"

definition id_used :: "idt \<Rightarrow> nat set" where
  "id_used t = {i. i < nr_bit t \<and> i mod BITS_PER_PAGE \<in> page_used (idmaps t ! (i div BITS_PER_PAGE))}"

text \<open>The number of ids in a page: the last one may have less.\<close>

definition bits_of :: "nat \<Rightarrow> nat \<Rightarrow> nat" where
  "bits_of nr k = (if nr \<le> k * BITS_PER_PAGE then 0 else min BITS_PER_PAGE (nr - k * BITS_PER_PAGE))"

definition idt_ok :: "idt \<Rightarrow> bool" where
  "idt_ok t \<longleftrightarrow> 0 < nr_bit t \<and> offset t + nr_bit t < 2 ^ 31 \<and> length (idmaps t) = idt_pages t \<and> last_id t < 2 ^ 32 \<and>
     nr_free t + card (id_used t) = nr_bit t \<and>
     (\<forall>k < idt_pages t. map_bits (idmaps t ! k) = bits_of (nr_bit t) k \<and>
        map_free (idmaps t ! k) + card (page_used (idmaps t ! k)) = bits_of (nr_bit t) k)"

lemma bpp_pos [simp]: "0 < BITS_PER_PAGE"
  by (simp add: BITS_PER_PAGE_def)

lemma idt_pages_less: "k < idt_pages t \<longleftrightarrow> k * BITS_PER_PAGE < nr_bit t"
proof -
  have "k < (n + B - 1) div B \<longleftrightarrow> k * B < n" if "0 < B" for n B :: nat
  proof -
    have "k < (n + B - 1) div B \<longleftrightarrow> Suc k * B \<le> n + B - 1"
      using less_eq_div_iff_mult_less_eq [OF that, of "Suc k"] by (simp add: Suc_le_eq)
    also have "\<dots> \<longleftrightarrow> k * B < n" using that by auto
    finally show ?thesis .
  qed
  then show ?thesis by (simp add: idt_pages_def DIV_ROUND_UP_def)
qed

lemma id_split: "i < nr_bit t \<longleftrightarrow> i div BITS_PER_PAGE < idt_pages t \<and> i mod BITS_PER_PAGE < bits_of (nr_bit t) (i div BITS_PER_PAGE)"
proof -
  define q r where "q = i div BITS_PER_PAGE * BITS_PER_PAGE" and "r = i mod BITS_PER_PAGE"
  have "i = q + r" "r < BITS_PER_PAGE" by (simp_all add: q_def r_def)
  then show ?thesis unfolding idt_pages_less bits_of_def q_def [symmetric] r_def [symmetric] by auto
qed

lemma mk_id_div: "off < BITS_PER_PAGE \<Longrightarrow> mk_id k off div BITS_PER_PAGE = k \<and> mk_id k off mod BITS_PER_PAGE = off"
  by (simp add: mk_id_def)

lemma bits_of_le: "bits_of n k \<le> BITS_PER_PAGE"
  by (simp add: bits_of_def)

lemma mk_id_less: "k < idt_pages t \<Longrightarrow> off < bits_of (nr_bit t) k \<Longrightarrow> mk_id k off < nr_bit t"
  unfolding id_split using mk_id_div [of off k] bits_of_le [of "nr_bit t" k] by simp

lemma id_used_mk: "k < idt_pages t \<Longrightarrow> off < bits_of (nr_bit t) k \<Longrightarrow> mk_id k off \<in> id_used t \<longleftrightarrow> off \<in> page_used (idmaps t ! k)"
  using mk_id_less [of k t off] mk_id_div [of off k] bits_of_le [of "nr_bit t" k] by (simp add: id_used_def)

text \<open>The inner loop sets the first free bit, or finds none.\<close>

lemma set_free_bit_spec:
  "case set_free_bit pg bits off of
     None \<Rightarrow> \<forall>j. off \<le> j \<and> j < bits \<longrightarrow> test_bit j pg
   | Some (o', pg') \<Rightarrow> off \<le> o' \<and> \<not> test_bit o' pg \<and> (off < bits \<longrightarrow> o' < bits) \<and> (\<forall>j. test_bit j pg' \<longleftrightarrow> j = o' \<or> test_bit j pg)"
proof (induction pg bits off rule: set_free_bit.induct)
  case (1 pg bits off)
  show ?case
  proof (cases "test_bit off pg")
    case True
    let ?o = "find_next_zero_bit pg bits off"
    have n: "next_such (\<lambda>j. \<not> test_bit j pg) bits off ?o" by (rule find_next_zero_bit_spec)
    have step: "set_free_bit pg bits off = (if bits \<le> ?o then None else set_free_bit pg bits ?o)"
      by (subst set_free_bit.simps) (simp add: test_and_set_bit_def True Let_def)
    show ?thesis
    proof (cases "bits \<le> ?o")
      case True
      then show ?thesis using n step by (auto simp: next_such_def)
    next
      case False
      have "case set_free_bit pg bits ?o of None \<Rightarrow> \<forall>j. ?o \<le> j \<and> j < bits \<longrightarrow> test_bit j pg
         | Some (o', pg') \<Rightarrow> ?o \<le> o' \<and> \<not> test_bit o' pg \<and> (?o < bits \<longrightarrow> o' < bits) \<and> (\<forall>j. test_bit j pg' \<longleftrightarrow> j = o' \<or> test_bit j pg)"
        using 1 [of True "set_bit_at off pg" ?o] True False by (simp add: test_and_set_bit_def)
      then show ?thesis using n step False by (auto simp: next_such_def split: option.splits)
    qed
  qed (subst set_free_bit.simps, simp add: test_and_set_bit_def bit_spec)
qed


section \<open>Changing one page\<close>

lemma finite_page_used [simp]: "finite (page_used mp)"
  by (auto simp: page_used_def split: option.split)

lemma finite_id_used [simp]: "finite (id_used t)"
  by (simp add: id_used_def)

lemma id_used_le: "id_used t \<subseteq> {..<nr_bit t}"
  by (auto simp: id_used_def)

definition set_map :: "nat \<Rightarrow> idmap \<Rightarrow> idt \<Rightarrow> idt" where
  "set_map k mp t = t\<lparr>idmaps := (idmaps t)[k := mp]\<rparr>"

lemma set_map_simps [simp]:
  "nr_free (set_map k mp t) = nr_free t" "offset (set_map k mp t) = offset t" "nr_bit (set_map k mp t) = nr_bit t"
  "last_id (set_map k mp t) = last_id t" "idmaps (set_map k mp t) = (idmaps t)[k := mp]" "idt_pages (set_map k mp t) = idt_pages t"
  by (simp_all add: set_map_def idt_pages_def)

lemma id_used_set_map:
  assumes "length (idmaps t) = idt_pages t" and "k < idt_pages t"
  shows "i \<in> id_used (set_map k mp t) \<longleftrightarrow>
    i < nr_bit t \<and> (if i div BITS_PER_PAGE = k then i mod BITS_PER_PAGE \<in> page_used mp else i \<in> id_used t)"
  using assms id_split [of i t] by (auto simp: id_used_def)

lemma idt_ok_length: "idt_ok t \<Longrightarrow> length (idmaps t) = idt_pages t"
  by (simp add: idt_ok_def)

lemma id_used_same_page:
  assumes "idt_ok t" and "k < idt_pages t" and "page_used mp = page_used (idmaps t ! k)"
  shows "id_used (set_map k mp t) = id_used t"
proof (rule set_eqI)
  fix i
  show "i \<in> id_used (set_map k mp t) \<longleftrightarrow> i \<in> id_used t"
    unfolding id_used_set_map [OF idt_ok_length [OF assms(1)] assms(2)] using assms(3) by (auto simp: id_used_def)
qed

lemma id_used_insert_page:
  assumes "idt_ok t" and "k < idt_pages t" and "page_used mp = insert off (page_used (idmaps t ! k))" and "off < bits_of (nr_bit t) k"
  shows "id_used (set_map k mp t) = insert (mk_id k off) (id_used t)"
proof (rule set_eqI)
  fix i
  have b: "off < BITS_PER_PAGE" using assms(4) bits_of_le [of "nr_bit t" k] by simp
  have "i = mk_id k off \<longleftrightarrow> i div BITS_PER_PAGE = k \<and> i mod BITS_PER_PAGE = off"
    using mk_id_div [OF b, of k] by (metis div_mult_mod_eq mk_id_def)
  then show "i \<in> id_used (set_map k mp t) \<longleftrightarrow> i \<in> insert (mk_id k off) (id_used t)"
    unfolding id_used_set_map [OF idt_ok_length [OF assms(1)] assms(2)] using assms(3) mk_id_less [OF assms(2,4)]
    by (auto simp: id_used_def)
qed

lemma id_used_remove_page:
  assumes "idt_ok t" and "k < idt_pages t" and "page_used mp = page_used (idmaps t ! k) - {off}" and "off < bits_of (nr_bit t) k"
  shows "id_used (set_map k mp t) = id_used t - {mk_id k off}"
proof (rule set_eqI)
  fix i
  have b: "off < BITS_PER_PAGE" using assms(4) bits_of_le [of "nr_bit t" k] by simp
  have "i = mk_id k off \<longleftrightarrow> i div BITS_PER_PAGE = k \<and> i mod BITS_PER_PAGE = off"
    using mk_id_div [OF b, of k] by (metis div_mult_mod_eq mk_id_def)
  then show "i \<in> id_used (set_map k mp t) \<longleftrightarrow> i \<in> id_used t - {mk_id k off}"
    unfolding id_used_set_map [OF idt_ok_length [OF assms(1)] assms(2)] using assms(3) by (auto simp: id_used_def)
qed

text \<open>A change that keeps the counts of the page and of the map right keeps the invariant.\<close>

lemma idt_ok_set_map:
  assumes "idt_ok t" and "k < idt_pages t" and "map_bits mp = bits_of (nr_bit t) k"
    and "map_free mp + card (page_used mp) = bits_of (nr_bit t) k"
    and "fr + card (id_used (set_map k mp t)) = nr_bit t" and "la < 2 ^ 32"
  shows "idt_ok ((set_map k mp t)\<lparr>nr_free := fr, last_id := la\<rparr>)"
proof -
  have "id_used ((set_map k mp t)\<lparr>nr_free := fr, last_id := la\<rparr>) = id_used (set_map k mp t)" by (simp add: id_used_def)
  moreover have "idt_pages ((set_map k mp t)\<lparr>nr_free := fr, last_id := la\<rparr>) = idt_pages t" by (simp add: idt_pages_def)
  ultimately show ?thesis using assms by (simp add: idt_ok_def nth_list_update)
qed

lemma page_full:
  assumes "idt_ok t" and "k < idt_pages t" and "map_free (idmaps t ! k) = 0"
  shows "page_used (idmaps t ! k) = {..<bits_of (nr_bit t) k}"
proof -
  have "page_used (idmaps t ! k) \<subseteq> {..<bits_of (nr_bit t) k}"
    using assms(1,2) by (auto simp: page_used_def idt_ok_def split: option.splits)
  moreover have "card (page_used (idmaps t ! k)) = bits_of (nr_bit t) k" using assms by (auto simp: idt_ok_def)
  ultimately show ?thesis by (simp add: card_subset_eq)
qed

section \<open>Allocation\<close>

definition same_ids :: "idt \<Rightarrow> idt \<Rightarrow> bool" where
  "same_ids t t' \<longleftrightarrow> offset t' = offset t \<and> nr_bit t' = nr_bit t"

text \<open>The pages looked at are full from the offset on.\<close>

definition scanned_full :: "idt \<Rightarrow> nat \<Rightarrow> nat \<Rightarrow> nat \<Rightarrow> bool" where
  "scanned_full t n k off \<longleftrightarrow> (\<forall>i j. i < n \<and> (i = 0 \<longrightarrow> off \<le> j) \<and> j < bits_of (nr_bit t) ((k + i) mod idt_pages t) \<longrightarrow>
     j \<in> page_used (idmaps t ! ((k + i) mod idt_pages t)))"

lemma scanned_full_Suc:
  assumes "k < idt_pages t" and "\<And>j. off \<le> j \<Longrightarrow> j < bits_of (nr_bit t) k \<Longrightarrow> j \<in> page_used (idmaps t ! k)"
    and "scanned_full t n ((k + 1) mod idt_pages t) 0"
  shows "scanned_full t (Suc n) k off"
  unfolding scanned_full_def
proof (intro allI impI)
  fix i j assume h: "i < Suc n \<and> (i = 0 \<longrightarrow> off \<le> j) \<and> j < bits_of (nr_bit t) ((k + i) mod idt_pages t)"
  show "j \<in> page_used (idmaps t ! ((k + i) mod idt_pages t))"
  proof (cases i)
    case 0
    then show ?thesis using h assms(1,2) by simp
  next
    case (Suc i')
    have "((k + 1) mod idt_pages t + i') mod idt_pages t = (k + i) mod idt_pages t" by (simp add: Suc mod_simps)
    then show ?thesis using assms(3) h Suc unfolding scanned_full_def by (metis Suc_less_SucD le0)
  qed
qed

lemma alloc_scan_spec:
  assumes "idt_ok t" and "k < idt_pages t" and "off < bits_of (nr_bit t) k" and "alloc_scan malloc_ok n k off t = (r, t')"
  shows "idt_ok t' \<and> same_ids t t' \<and>
    (case r of
       Inr i \<Rightarrow> \<exists>j. i = int (j + offset t) \<and> j < nr_bit t \<and> j \<notin> id_used t \<and> id_used t' = insert j (id_used t) \<and> last_id t' = j
     | Inl e \<Rightarrow> e = ENOSPC \<and> id_used t' = id_used t \<and> ((\<forall>m < n. malloc_ok m) \<longrightarrow> scanned_full t n k off))"
  using assms
proof (induction n arbitrary: k off t)
  case 0
  then show ?case by (auto simp: same_ids_def scanned_full_def)
next
  case (Suc n)
  let ?mp = "idmaps t ! k"
  define pgo where "pgo = (case page ?mp of Some pg \<Rightarrow> Some pg | None \<Rightarrow> if malloc_ok n then Some (\<lambda>_. 0) else None)"
  have mb: "map_bits ?mp = bits_of (nr_bit t) k" "map_free ?mp + card (page_used ?mp) = bits_of (nr_bit t) k"
      "length (idmaps t) = idt_pages t" "nr_free t + card (id_used t) = nr_bit t" "last_id t < 2 ^ 32"
    using Suc.prems(1,2) by (auto simp: idt_ok_def)
  show ?case
  proof (cases pgo)
    case None
    then have "\<not> malloc_ok n" "r = Inl ENOSPC" "t' = t"
      using Suc.prems(4) by (auto simp: pgo_def split: option.splits if_splits)
    then show ?thesis using Suc.prems(1) by (auto simp: same_ids_def)
  next
    case (Some pg)
    let ?m = "?mp\<lparr>page := Some pg\<rparr>"
    let ?t = "set_map k ?m t"
    have pu: "page_used ?m = page_used ?mp" "page_used ?mp = {j. j < bits_of (nr_bit t) k \<and> test_bit j pg}"
      using Some mb(1) by (auto simp: pgo_def page_used_def split: option.splits if_splits)
    have u: "id_used ?t = id_used t" by (rule id_used_same_page [OF Suc.prems(1,2) pu(1)])
    have "idt_ok (?t\<lparr>nr_free := nr_free t, last_id := last_id t\<rparr>)"
      using Suc.prems(1,2) mb pu(1) u by (intro idt_ok_set_map) auto
    moreover have "?t\<lparr>nr_free := nr_free t, last_id := last_id t\<rparr> = ?t" by (simp add: set_map_def)
    ultimately have ok: "idt_ok ?t" by (simp only:)
    define found where "found = (if map_free ?m \<noteq> 0 then set_free_bit pg (map_bits ?m) off else None)"
    let ?k = "if k < idt_pages t - 1 then k + 1 else 0"
    have k': "?k = (k + 1) mod idt_pages t" "?k < idt_pages t" using Suc.prems(2) by (auto simp: mod_if)
    have step: "alloc_scan malloc_ok (Suc n) k off t =
        (case found of
           Some (off', pg') \<Rightarrow> (Inr (int (mk_id k off' + offset t)),
             (set_map k (?m\<lparr>page := Some pg', map_free := map_free ?m - 1\<rparr>) t)\<lparr>nr_free := nr_free t - 1, last_id := mk_id k off'\<rparr>)
         | None \<Rightarrow> alloc_scan malloc_ok n ?k 0 ?t)"
      using Some unfolding pgo_def [symmetric] alloc_scan.simps found_def
      by (auto simp: Let_def set_map_def idt_pages_def split: option.splits)
    show ?thesis
    proof (cases found)
      case None
      have full: "j \<in> page_used ?mp" if "off \<le> j" "j < bits_of (nr_bit t) k" for j
      proof (cases "map_free ?mp = 0")
        case True
        then show ?thesis using page_full [OF Suc.prems(1,2)] that by simp
      next
        case False
        then have "set_free_bit pg (bits_of (nr_bit t) k) off = None" using None mb(1) by (simp add: found_def)
        then show ?thesis using set_free_bit_spec [where pg = pg and bits = "bits_of (nr_bit t) k" and off = off] that pu(2) by simp
      qed
      have pos: "0 < bits_of (nr_bit t) ?k" using k'(2) unfolding idt_pages_less bits_of_def by auto
      have run: "alloc_scan malloc_ok n ?k 0 ?t = (r, t')" using Suc.prems(4) step None by simp
      have IH: "idt_ok t' \<and> same_ids ?t t' \<and>
          (case r of
             Inr i \<Rightarrow> \<exists>j. i = int (j + offset ?t) \<and> j < nr_bit ?t \<and> j \<notin> id_used ?t \<and> id_used t' = insert j (id_used ?t) \<and> last_id t' = j
           | Inl e \<Rightarrow> e = ENOSPC \<and> id_used t' = id_used ?t \<and> ((\<forall>m < n. malloc_ok m) \<longrightarrow> scanned_full ?t n ?k 0))"
        using ok k'(2) pos run by (intro Suc.IH) simp_all
      have "page_used (idmaps ?t ! x) = page_used (idmaps t ! x)" for x using pu(1) mb(3) Suc.prems(2) by (cases "x = k") simp_all
      then have "scanned_full ?t n ?k 0 = scanned_full t n ?k 0" by (simp add: scanned_full_def)
      moreover have "scanned_full t n ?k 0 \<Longrightarrow> scanned_full t (Suc n) k off"
        using scanned_full_Suc [OF Suc.prems(2) full] k'(1) by simp
      ultimately show ?thesis using IH u by (auto simp: same_ids_def split: sum.splits)
    next
      case (Some op)
      obtain o' pg' where op: "op = (o', pg')" by force
      let ?m' = "?m\<lparr>page := Some pg', map_free := map_free ?m - 1\<rparr>"
      have f: "map_free ?mp \<noteq> 0" "o' < bits_of (nr_bit t) k" "\<not> test_bit o' pg" "\<And>j. test_bit j pg' \<longleftrightarrow> j = o' \<or> test_bit j pg"
        using Some op mb(1) Suc.prems(3) set_free_bit_spec [where pg = pg and bits = "bits_of (nr_bit t) k" and off = off]
        by (auto simp: found_def split: if_splits)
      have pu': "page_used ?m' = insert o' (page_used ?mp)" using f(2,4) pu(2) mb(1) by (auto simp: page_used_def)
      have new: "o' \<notin> page_used ?mp" using f(3) pu(2) by simp
      have used: "id_used (set_map k ?m' t) = insert (mk_id k o') (id_used t)"
        by (rule id_used_insert_page [OF Suc.prems(1,2) pu' f(2)])
      have nu: "mk_id k o' \<notin> id_used t" using id_used_mk [OF Suc.prems(2) f(2)] new by simp
      have lt: "mk_id k o' < nr_bit t" by (rule mk_id_less [OF Suc.prems(2) f(2)])
      have "card (insert (mk_id k o') (id_used t)) \<le> nr_bit t" using card_mono [of "{..<nr_bit t}"] id_used_le [of t] lt by fastforce
      then have fr: "nr_free t - 1 + card (id_used (set_map k ?m' t)) = nr_bit t" unfolding used using nu mb(4) by simp
      have lb: "mk_id k o' < 2 ^ 32" using lt Suc.prems(1) by (simp add: idt_ok_def)
      have "idt_ok ((set_map k ?m' t)\<lparr>nr_free := nr_free t - 1, last_id := mk_id k o'\<rparr>)"
        using mb(1,2) f(1) new pu' by (intro idt_ok_set_map [OF Suc.prems(1,2) _ _ fr lb]) auto
      moreover have "r = Inr (int (mk_id k o' + offset t))" "t' = (set_map k ?m' t)\<lparr>nr_free := nr_free t - 1, last_id := mk_id k o'\<rparr>"
        using Suc.prems(4) step Some op by auto
      moreover have "id_used ((set_map k ?m' t)\<lparr>nr_free := nr_free t - 1, last_id := mk_id k o'\<rparr>) = id_used (set_map k ?m' t)"
        by (simp add: id_used_def)
      ultimately show ?thesis using used nu lt by (simp add: same_ids_def)
    qed
  qed
qed


lemma start_page:
  assumes "idt_ok t" and "i = (if (last_id t + 1) mod 2 ^ 32 \<ge> nr_bit t then 0 else (last_id t + 1) mod 2 ^ 32)"
  shows "i div BITS_PER_PAGE < idt_pages t" and "i mod BITS_PER_PAGE < bits_of (nr_bit t) (i div BITS_PER_PAGE)"
proof -
  have "i < nr_bit t" using assms by (auto simp: idt_ok_def)
  then show "i div BITS_PER_PAGE < idt_pages t" "i mod BITS_PER_PAGE < bits_of (nr_bit t) (i div BITS_PER_PAGE)"
    unfolding id_split by simp_all
qed

text \<open>A full round sees every page from its beginning.\<close>

lemma scanned_all:
  assumes "scanned_full t n k off" and "idt_pages t \<le> n" and "off \<noteq> 0 \<longrightarrow> idt_pages t < n" and "k < idt_pages t" and "i < nr_bit t"
  shows "i \<in> id_used t"
proof -
  let ?P = "idt_pages t" and ?q = "i div BITS_PER_PAGE"
  have q: "?q < ?P" "i mod BITS_PER_PAGE < bits_of (nr_bit t) ?q" using assms(5) unfolding id_split by simp_all
  define d where "d = (?q + ?P - k) mod ?P"
  have d: "(k + d) mod ?P = ?q" "d < ?P" using q(1) assms(4) by (auto simp: d_def mod_simps)
  obtain x where x: "x < n" "(k + x) mod ?P = ?q" "x = 0 \<longrightarrow> off = 0"
  proof (cases "d = 0 \<and> off \<noteq> 0")
    case True
    then show thesis using that [of ?P] d assms(3) q(1) by auto
  next
    case False
    then show thesis using that [of d] d assms(2) by auto
  qed
  then have "i mod BITS_PER_PAGE \<in> page_used (idmaps t ! ?q)" using assms(1) q(2) unfolding scanned_full_def by (metis le0)
  then show ?thesis using assms(5) by (simp add: id_used_def)
qed

lemma idt_alloc_spec:
  assumes ok: "idt_ok t" and run: "idt_alloc malloc_ok t = (r, t')"
  shows "idt_ok t' \<and> same_ids t t' \<and>
    (case r of
       Inr i \<Rightarrow> \<exists>j. i = int (j + offset t) \<and> j < nr_bit t \<and> j \<notin> id_used t \<and> id_used t' = insert j (id_used t)
     | Inl e \<Rightarrow> e = ENOSPC \<and> id_used t' = id_used t \<and> ((\<forall>m. malloc_ok m) \<longrightarrow> id_used t = {..<nr_bit t}))"
proof (cases "nr_free t = 0")
  case True
  then have "card (id_used t) = nr_bit t" using ok by (simp add: idt_ok_def)
  then have "id_used t = {..<nr_bit t}" using id_used_le [of t] by (simp add: card_subset_eq)
  moreover have "r = Inl ENOSPC" "t' = t" using run True by (simp_all add: idt_alloc_def)
  ultimately show ?thesis using ok by (simp add: same_ids_def)
next
  case False
  define i where "i = (if (last_id t + 1) mod 2 ^ 32 \<ge> nr_bit t then 0 else (last_id t + 1) mod 2 ^ 32)"
  let ?k = "i div BITS_PER_PAGE" and ?o = "i mod BITS_PER_PAGE"
  let ?n = "idt_pages t - (if ?o = 0 then 1 else 0) + 1"
  note st = start_page [OF ok i_def]
  have "alloc_scan malloc_ok ?n ?k ?o t = (r, t')" 
    using run False unfolding idt_alloc_def Let_def i_def [symmetric] by (simp del: alloc_scan.simps)
  note sp = alloc_scan_spec [OF ok st this]
  have "id_used t = {..<nr_bit t}" if "scanned_full t ?n ?k ?o"
  proof
    show "{..<nr_bit t} \<subseteq> id_used t" using scanned_all [OF that] st(1) by auto
  qed (rule id_used_le)
  then show ?thesis using sp by (auto split: sum.splits)
qed

lemma check_idt_iff: "idt_ok t \<Longrightarrow> check_idt t i \<longleftrightarrow> (\<exists>j < nr_bit t. i = int (j + offset t))"
proof -
  assume "idt_ok t"
  then have "(offset t + nr_bit t) mod 2 ^ 32 = offset t + nr_bit t" by (simp add: idt_ok_def)
  then show ?thesis unfolding check_idt_def by (auto intro!: exI [of _ "nat i - offset t"])
qed

lemma u_idt_remove_spec:
  assumes ok: "idt_ok t" and run: "u_idt_remove t i ring = (b, t')"
  shows "idt_ok t' \<and> same_ids t t' \<and>
    (if \<exists>j \<in> id_used t. i = int (j + offset t) then b \<and> id_used t' = id_used t - {nat i - offset t} else \<not> b \<and> id_used t' = id_used t)"
proof (cases "check_idt t i")
  case False
  then have "\<not> (\<exists>j \<in> id_used t. i = int (j + offset t))" using check_idt_iff [OF ok] id_used_le [of t] by blast
  then show ?thesis using False run ok by (auto simp: u_idt_remove_def same_ids_def)
next
  case True
  then obtain j where j: "j < nr_bit t" "i = int (j + offset t)" using check_idt_iff [OF ok] by auto
  let ?k = "j div BITS_PER_PAGE" and ?o = "j mod BITS_PER_PAGE"
  let ?mp = "idmaps t ! ?k"
  have k: "?k < idt_pages t" "?o < bits_of (nr_bit t) ?k" using j(1) unfolding id_split by simp_all
  have mb: "map_bits ?mp = bits_of (nr_bit t) ?k" "map_free ?mp + card (page_used ?mp) = bits_of (nr_bit t) ?k"
      "nr_free t + card (id_used t) = nr_bit t" "last_id t < 2 ^ 32"
    using ok k(1) by (auto simp: idt_ok_def)
  have ju: "j \<in> id_used t \<longleftrightarrow> ?o \<in> page_used ?mp" using j(1) by (simp add: id_used_def)
  have nj: "nat i - offset t = j" using j(2) by simp
  have ex: "(\<exists>j \<in> id_used t. i = int (j + offset t)) \<longleftrightarrow> j \<in> id_used t" using j(2) by auto
  show ?thesis
  proof (cases "page ?mp")
    case None
    then have "b = False" "t' = t" using run True by (simp_all add: u_idt_remove_def Let_def nj)
    moreover have "j \<notin> id_used t" using None ju by (simp add: page_used_def)
    ultimately show ?thesis using ok unfolding ex by (simp add: same_ids_def)
  next
    case (Some pg)
    let ?pg = "clear_bit_at ?o pg"
    have bit: "?o \<in> page_used ?mp \<longleftrightarrow> test_bit ?o pg" using k(2) mb(1) Some by (simp add: page_used_def)
    have pu: "page_used (?mp\<lparr>page := Some ?pg, map_free := f\<rparr>) = page_used ?mp - {?o}" for f
      using Some by (auto simp: page_used_def bit_spec)
    have jm: "mk_id ?k ?o = j" by (simp add: mk_id_def)
    show ?thesis
    proof (cases "test_bit ?o pg")
      case False
      let ?m = "?mp\<lparr>page := Some ?pg\<rparr>"
      have p: "page_used ?m = page_used ?mp" using pu [of "map_free ?mp"] False bit by simp
      have "idt_ok ((set_map ?k ?m t)\<lparr>nr_free := nr_free t, last_id := last_id t\<rparr>)"
        using mb p id_used_same_page [OF ok k(1) p] by (intro idt_ok_set_map [OF ok k(1)]) auto
      moreover have "(set_map ?k ?m t)\<lparr>nr_free := nr_free t, last_id := last_id t\<rparr> = set_map ?k ?m t" by (simp add: set_map_def)
      moreover have "b = False" "t' = set_map ?k ?m t"
        using run True Some False by (simp_all add: u_idt_remove_def Let_def nj test_and_clear_bit_def set_map_def)
      ultimately show ?thesis
        using ju bit False id_used_same_page [OF ok k(1) p] unfolding ex by (simp add: same_ids_def)
    next
      case True
      let ?m = "?mp\<lparr>page := Some ?pg, map_free := map_free ?mp + 1\<rparr>"
      let ?la = "if ring \<and> j \<le> last_id t \<and> last_id t \<noteq> U32_MAX then (2 ^ 32 + j - 1) mod 2 ^ 32 else last_id t"
      let ?t = "(set_map ?k ?m t)\<lparr>nr_free := nr_free t + 1, last_id := ?la\<rparr>"
      have used: "id_used (set_map ?k ?m t) = id_used t - {j}" using id_used_remove_page [OF ok k(1) pu k(2)] unfolding jm .
      have mem: "j \<in> id_used t" using ju bit True by simp
      have "card (id_used t) = Suc (card (id_used t - {j}))" using mem by (simp only: card_Suc_Diff1 finite_id_used)
      moreover have "card (page_used ?mp) = Suc (card (page_used ?mp - {?o}))" using True bit by (simp only: card_Suc_Diff1 finite_page_used)
      ultimately have "idt_ok ?t"
        using mb used pu by (intro idt_ok_set_map [OF ok k(1)]) auto
      moreover have "b" "t' = ?t"
        using run \<open>check_idt t i\<close> Some True by (auto simp: u_idt_remove_def Let_def nj test_and_clear_bit_def set_map_def)
      moreover have "id_used ?t = id_used (set_map ?k ?m t)" by (simp add: id_used_def)
      ultimately show ?thesis using used mem unfolding ex nj by (simp add: same_ids_def)
    qed
  qed
qed


section \<open>Initial state and contract\<close>

lemma bits_of_last:
  assumes "0 < n"
  shows "bits_of n (DIV_ROUND_UP n BITS_PER_PAGE - 1) = (if n mod BITS_PER_PAGE \<noteq> 0 then n mod BITS_PER_PAGE else BITS_PER_PAGE)"
    and "k < DIV_ROUND_UP n BITS_PER_PAGE - 1 \<Longrightarrow> bits_of n k = BITS_PER_PAGE" and "0 < DIV_ROUND_UP n BITS_PER_PAGE"
proof -
  let ?B = BITS_PER_PAGE
  define q r where "q = n div ?B" and "r = n mod ?B"
  have n: "n = q * ?B + r" "r < ?B" by (simp_all add: q_def r_def)
  have P: "DIV_ROUND_UP n ?B = (if r = 0 then q else q + 1)"
  proof (cases "r = 0")
    case True
    have "n + ?B - 1 = q * ?B + (?B - 1)" using True n(1) by (simp add: Suc_le_eq)
    moreover have "(q * ?B + (?B - 1)) div ?B = q" by simp
    ultimately show ?thesis using True by (simp add: DIV_ROUND_UP_def)
  next
    case False
    have "n + ?B - 1 = (r - 1) + (q + 1) * ?B" using False n(1) by simp
    moreover have "((r - 1) + (q + 1) * ?B) div ?B = (q + 1) + (r - 1) div ?B" by (rule div_mult_self1) simp
    moreover have "(r - 1) div ?B = 0" using n(2) by simp
    ultimately show ?thesis using False by (simp add: DIV_ROUND_UP_def)
  qed
  show "0 < DIV_ROUND_UP n ?B" using assms n P by (auto intro: gr0I)
  show "bits_of n (DIV_ROUND_UP n ?B - 1) = (if n mod ?B \<noteq> 0 then n mod ?B else ?B)"
  proof (cases "r = 0")
    case True
    then obtain p where p: "q = Suc p" using assms n(1) by (cases q) auto
    have nn: "n = p * ?B + ?B" using n(1) True p by simp
    have "bits_of n p = ?B" unfolding bits_of_def nn by simp
    then show ?thesis using True P p unfolding r_def by simp
  next
    case False
    have "bits_of n q = r" unfolding bits_of_def using False n by simp
    then show ?thesis using False P unfolding r_def by simp
  qed
  show "bits_of n k = ?B" if "k < DIV_ROUND_UP n ?B - 1"
  proof -
    have "k + 1 \<le> q" using that P by (auto split: if_splits)
    then have "(k + 1) * ?B \<le> q * ?B" by (rule mult_le_mono1)
    then show ?thesis using n by (simp add: bits_of_def)
  qed
qed

lemma idt_init_spec:
  assumes "start < fin" and "fin < 2 ^ 31 - 1" and "fin - start + 1 < 2 ^ 31 - 1"
  shows "\<exists>t. idt_init True start fin = Some (Inr t) \<and> idt_ok t \<and> id_used t = {} \<and> offset t = start \<and> nr_bit t = fin - start + 1"
proof -
  let ?n = "fin - start + 1"
  let ?P = "DIV_ROUND_UP ?n BITS_PER_PAGE"
  let ?lb = "if ?n mod BITS_PER_PAGE \<noteq> 0 then ?n mod BITS_PER_PAGE else BITS_PER_PAGE"
  let ?ms = "replicate (?P - 1) \<lparr>map_free = BITS_PER_PAGE, map_bits = BITS_PER_PAGE, page = None\<rparr> @
      [\<lparr>map_free = ?lb, map_bits = ?lb, page = None\<rparr>]"
  let ?t = "\<lparr>nr_free = ?n, offset = start, nr_bit = ?n, last_id = U32_MAX, idmaps = ?ms\<rparr>"
  have nr: "(2 ^ 32 + fin - start + 1) mod 2 ^ 32 = ?n"
  proof -
    have e: "2 ^ 32 + fin - start + 1 = ?n + 2 ^ 32" using assms(1) by simp
    have "?n < 2 ^ 32" using assms(3) by simp
    then show ?thesis unfolding e by (simp only: mod_add_self2 mod_less)
  qed
  have mp: "?ms ! k = (if k = ?P - 1 then \<lparr>map_free = ?lb, map_bits = ?lb, page = None\<rparr>
      else \<lparr>map_free = BITS_PER_PAGE, map_bits = BITS_PER_PAGE, page = None\<rparr>)" if "k < ?P" for k
    using that by (auto simp: nth_append)
  have pg: "idt_pages ?t = ?P" by (simp add: idt_pages_def)
  have "page_used (?ms ! k) = {}" if "k < ?P" for k using mp [OF that] by (simp add: page_used_def)
  then have used: "id_used ?t = {}"
    using id_split [of _ ?t] unfolding pg by (auto simp: id_used_def)
  have "map_bits (?ms ! k) = bits_of ?n k \<and> map_free (?ms ! k) + card (page_used (?ms ! k)) = bits_of ?n k" if "k < ?P" for k
  proof (cases "k = ?P - 1")
    case True
    show ?thesis unfolding mp [OF that] using True bits_of_last(1) [of ?n] by (simp add: page_used_def del: add_is_0)
  next
    case False
    show ?thesis unfolding mp [OF that] using False that bits_of_last(2) [of ?n k] by (simp add: page_used_def)
  qed
  moreover have "length ?ms = ?P" using bits_of_last(3) [of ?n] by simp
  moreover have "start + ?n < 2 ^ 31" "U32_MAX < 2 ^ 32" using assms by (simp_all add: U32_MAX_def)
  ultimately have "idt_ok ?t" unfolding idt_ok_def pg used by simp
  moreover have "idt_init True start fin = Some (Inr ?t)"
    using assms nr by (simp add: idt_init_def Let_def S32_MAX_def)
  ultimately show ?thesis using used by (intro exI [of _ ?t]) simp
qed

section \<open>The next id in use\<close>

lemma next_loop_spec:
  assumes "idt_ok t" and "k \<le> idt_pages t" and "ms = drop k (idmaps t)" and "off < BITS_PER_PAGE"
  shows "case next_loop ms k off of
      None \<Rightarrow> \<forall>i \<in> id_used t. i < mk_id k off
    | Some r \<Rightarrow> r \<in> id_used t \<and> mk_id k off \<le> r \<and> (\<forall>i \<in> id_used t. i < mk_id k off \<or> r \<le> i)"
  using assms
proof (induction ms k off rule: next_loop.induct)
  case (1 k off)
  have "idt_pages t \<le> k" using 1 idt_ok_length [of t] by simp
  then have "nr_bit t \<le> k * BITS_PER_PAGE" using idt_pages_less [of k t] by simp
  then show ?case using id_used_le [of t] by (auto simp: mk_id_def)
next
  case (2 mp ms k off)
  let ?B = BITS_PER_PAGE
  have len: "length (idmaps t) = idt_pages t" using 2(3) by (rule idt_ok_length)
  have k: "k < idt_pages t" using 2(5) len by (metis drop_all list.discI not_less)
  have mp: "mp = idmaps t ! k" "ms = drop (k + 1) (idmaps t)"
    using 2(5) k len by (metis Cons_nth_drop_Suc list.inject Suc_eq_plus1)+
  have mb: "map_bits mp = bits_of (nr_bit t) k" using 2(3) k by (simp add: idt_ok_def mp)
  have nxt: "mk_id (k + 1) 0 = k * ?B + ?B" by (simp add: mk_id_def)
  have inpage: "i mod ?B \<in> page_used mp \<and> i = k * ?B + i mod ?B" if "i \<in> id_used t" "mk_id k off \<le> i" "i < mk_id (k + 1) 0" for i
  proof -
    have "k * ?B \<le> i" "i < Suc k * ?B" using that(2,3) by (simp_all add: mk_id_def)
    then have "i div ?B = k" by (simp add: div_nat_eqI mult.commute)
    then show ?thesis using that(1) by (auto simp: id_used_def mp)
  qed
  have skip: ?case if none: "\<And>i. i \<in> id_used t \<Longrightarrow> mk_id k off \<le> i \<Longrightarrow> i < mk_id (k + 1) 0 \<Longrightarrow> False"
    and run: "next_loop (mp # ms) k off = next_loop ms (k + 1) 0"
    and IH: "case next_loop ms (k + 1) 0 of None \<Rightarrow> \<forall>i \<in> id_used t. i < mk_id (k + 1) 0
      | Some r \<Rightarrow> r \<in> id_used t \<and> mk_id (k + 1) 0 \<le> r \<and> (\<forall>i \<in> id_used t. i < mk_id (k + 1) 0 \<or> r \<le> i)"
  proof -
    have le: "mk_id k off \<le> mk_id (k + 1) 0" using 2(6) by (simp add: mk_id_def)
    have lo: "i < mk_id k off \<or> mk_id (k + 1) 0 \<le> i" if "i \<in> id_used t" for i using none [OF that] by (meson not_less)
    then show ?thesis using IH run le by (auto split: option.splits) (meson le_less_trans less_le_trans not_less)+
  qed
  show ?case
  proof (cases "page mp")
    case None
    show ?thesis
      using 2(1) [OF None 2(3) _ mp(2)] k inpage None by (intro skip) (auto simp: page_used_def)
  next
    case (Some pg)
    let ?o = "find_next_bit pg (map_bits mp) off"
    have n: "next_such (\<lambda>j. test_bit j pg) (map_bits mp) off ?o" by (rule find_next_bit_spec)
    have pu: "page_used mp = {j. j < map_bits mp \<and> test_bit j pg}" using Some by (simp add: page_used_def)
    show ?thesis
    proof (cases "?o < map_bits mp")
      case True
      have o: "off \<le> ?o" "?o \<in> page_used mp" "\<And>j. off \<le> j \<Longrightarrow> j < ?o \<Longrightarrow> j \<notin> page_used mp"
        using n True pu by (auto simp: next_such_def min_def split: if_splits)
      have "?o < bits_of (nr_bit t) k" using True mb by simp
      then have "mk_id k ?o \<in> id_used t" using id_used_mk [OF k] o(2) mp(1) by simp
      moreover have "i < mk_id k off \<or> mk_id k ?o \<le> i" if "i \<in> id_used t" for i
      proof (rule ccontr)
        assume c: "\<not> (i < mk_id k off \<or> mk_id k ?o \<le> i)"
        have "mk_id k ?o \<le> mk_id (k + 1) 0" using True mb bits_of_le [of "nr_bit t" k] by (simp add: mk_id_def)
        then have "i mod ?B \<in> page_used mp" "i = k * ?B + i mod ?B" using inpage [OF that] c by auto
        then show False using o(3) [of "i mod ?B"] c by (auto simp: mk_id_def)
      qed
      ultimately show ?thesis using Some True o(1) by (simp add: Let_def mk_id_def)
    next
      case False
      have "\<And>j. off \<le> j \<Longrightarrow> j \<notin> page_used mp" using n False pu by (auto simp: next_such_def)
      then have none: "i \<in> id_used t \<Longrightarrow> mk_id k off \<le> i \<Longrightarrow> i < mk_id (k + 1) 0 \<Longrightarrow> False" for i
        using inpage [of i] by (metis add_le_cancel_left mk_id_def)
      show ?thesis
        using 2(2) [OF Some refl False 2(3) _ mp(2)] k Some False none by (intro skip) (auto simp: Let_def)
    qed
  qed
qed

section \<open>Contract\<close>

text \<open>A pool of ids: what one call may return, on the set of ids in use.\<close>

datatype id_call = Alloc "errno + int" | Release int bool

fun id_accept :: "int set \<Rightarrow> int set \<Rightarrow> id_call \<Rightarrow> int set option" where
  "id_accept U S (Alloc (Inr i)) = (if i \<in> U - S then Some (insert i S) else None)"
| "id_accept U S (Alloc (Inl e)) = (if e = ENOSPC then Some S else None)"
| "id_accept U S (Release i b) = (if b = (i \<in> S) then Some (S - {i}) else None)"

fun id_trace :: "int set \<Rightarrow> int set \<Rightarrow> id_call list \<Rightarrow> int set option" where
  "id_trace U S [] = Some S"
| "id_trace U S (c # cs) = (case id_accept U S c of None \<Rightarrow> None | Some S' \<Rightarrow> id_trace U S' cs)"

inductive id_runs :: "('s \<Rightarrow> (errno + int) \<times> 's \<Rightarrow> bool) \<Rightarrow> ('s \<Rightarrow> int \<Rightarrow> bool \<times> 's) \<Rightarrow> 's \<Rightarrow> id_call list \<Rightarrow> 's \<Rightarrow> bool"
  for alloc release where
  stop: "id_runs alloc release s [] s"
| alloc: "alloc s (r, s1) \<Longrightarrow> id_runs alloc release s1 cs s2 \<Longrightarrow> id_runs alloc release s (Alloc r # cs) s2"
| release: "release s i = (b, s1) \<Longrightarrow> id_runs alloc release s1 cs s2 \<Longrightarrow> id_runs alloc release s (Release i b # cs) s2"

locale id_pool =
  fixes inv :: "'s \<Rightarrow> bool" and all_ids :: "'s \<Rightarrow> int set" and in_use :: "'s \<Rightarrow> int set"
    and alloc :: "'s \<Rightarrow> (errno + int) \<times> 's \<Rightarrow> bool" and release :: "'s \<Rightarrow> int \<Rightarrow> bool \<times> 's"
  assumes alloc_inv: "inv s \<Longrightarrow> alloc s (r, s') \<Longrightarrow> inv s' \<and> all_ids s' = all_ids s"
    and alloc_fresh: "inv s \<Longrightarrow> alloc s (Inr i, s') \<Longrightarrow> i \<in> all_ids s - in_use s \<and> in_use s' = insert i (in_use s)"
    and alloc_error: "inv s \<Longrightarrow> alloc s (Inl e, s') \<Longrightarrow> e = ENOSPC \<and> in_use s' = in_use s"
    and release_inv: "inv s \<Longrightarrow> release s i = (b, s') \<Longrightarrow> inv s' \<and> all_ids s' = all_ids s"
    and release_result: "inv s \<Longrightarrow> release s i = (b, s') \<Longrightarrow> b = (i \<in> in_use s) \<and> in_use s' = in_use s - {i}"
begin

lemma runs_refine: "id_runs alloc release s cs s' \<Longrightarrow> inv s \<Longrightarrow> id_trace (all_ids s) (in_use s) cs = Some (in_use s') \<and> inv s'"
proof (induction rule: id_runs.induct)
  case (alloc s r s1 cs s2)
  then show ?case using alloc_inv [of s r s1] alloc_fresh [of s _ s1] alloc_error [of s _ s1] by (cases r) auto
next
  case (release s i b s1 cs s2)
  then show ?case using release_inv [of s i b s1] release_result [of s i b s1] by auto
qed simp

end

definition idt_range :: "idt \<Rightarrow> int set" where
  "idt_range t = (\<lambda>j. int (j + offset t)) ` {..<nr_bit t}"

definition idt_in_use :: "idt \<Rightarrow> int set" where
  "idt_in_use t = (\<lambda>j. int (j + offset t)) ` id_used t"

definition idt_alloc_any :: "idt \<Rightarrow> (errno + int) \<times> idt \<Rightarrow> bool" where
  "idt_alloc_any t r \<longleftrightarrow> (\<exists>malloc_ok. idt_alloc malloc_ok t = r)"

lemma in_use_iff: "int (j + offset t) \<in> idt_in_use t \<longleftrightarrow> j \<in> id_used t"
  by (auto simp: idt_in_use_def)

interpretation idtp: id_pool idt_ok idt_range idt_in_use idt_alloc_any "\<lambda>t i. u_idt_remove t i ring" for ring
proof
  fix s s' :: idt and r e i b
  assume ok: "idt_ok s"
  show "idt_ok s' \<and> idt_range s' = idt_range s" if "idt_alloc_any s (r, s')"
    using that idt_alloc_spec [OF ok] by (auto simp: idt_alloc_any_def idt_range_def same_ids_def)
  show "i \<in> idt_range s - idt_in_use s \<and> idt_in_use s' = insert i (idt_in_use s)" if a: "idt_alloc_any s (Inr i, s')"
  proof -
    obtain f where "idt_alloc f s = (Inr i, s')" using a by (auto simp: idt_alloc_any_def)
    from idt_alloc_spec [OF ok this] obtain j where j: "i = int (j + offset s)" "j < nr_bit s" "j \<notin> id_used s"
        "id_used s' = insert j (id_used s)" "offset s' = offset s" by (auto simp: same_ids_def)
    have "i \<notin> idt_in_use s" unfolding j(1) in_use_iff by (rule j(3))
    moreover have "idt_in_use s' = insert i (idt_in_use s)" by (simp add: idt_in_use_def j(1,4,5))
    ultimately show ?thesis using j(1,2) by (auto simp: idt_range_def)
  qed
  show "e = ENOSPC \<and> idt_in_use s' = idt_in_use s" if "idt_alloc_any s (Inl e, s')"
    using that idt_alloc_spec [OF ok, of _ "Inl e" s'] by (auto simp: idt_alloc_any_def same_ids_def idt_in_use_def)
  show "idt_ok s' \<and> idt_range s' = idt_range s" if "u_idt_remove s i ring = (b, s')"
    using u_idt_remove_spec [OF ok that] by (simp add: idt_range_def same_ids_def)
  show "b = (i \<in> idt_in_use s) \<and> idt_in_use s' = idt_in_use s - {i}" if r: "u_idt_remove s i ring = (b, s')"
  proof (cases "\<exists>j \<in> id_used s. i = int (j + offset s)")
    case True
    then obtain j where j: "j \<in> id_used s" "i = int (j + offset s)" ..
    have "nat i - offset s = j" using j(2) by simp
    then have "b" "id_used s' = id_used s - {j}" "offset s' = offset s"
      using u_idt_remove_spec [OF ok r] True by (simp_all add: same_ids_def)
    moreover have "i \<in> idt_in_use s" unfolding j(2) in_use_iff by (rule j(1))
    ultimately show ?thesis unfolding idt_in_use_def j(2) by (simp add: inj_on_def image_set_diff)
  next
    case False
    then have "\<not> b" "id_used s' = id_used s" "offset s' = offset s"
      using u_idt_remove_spec [OF ok r] by (simp_all add: same_ids_def)
    moreover have "i \<notin> idt_in_use s" using False by (auto simp: idt_in_use_def)
    ultimately show ?thesis by (simp add: idt_in_use_def)
  qed
qed


section \<open>Ids and pointers together\<close>

definition idr_ok :: "'a idr \<Rightarrow> bool" where
  "idr_ok d \<longleftrightarrow> idt_ok (ids d) \<and> rdtree_ok (fst (rdtree d)) \<and> dom (radix_tree_lookup (rdtree d)) = of_nat ` id_used (ids d)"

lemma of_nat_u64_inj: "i < 2 ^ 31 \<Longrightarrow> j < 2 ^ 31 \<Longrightarrow> (of_nat i :: u64) = of_nat j \<longleftrightarrow> i = j"
  by (simp add: word_of_nat_eq_iff take_bit_nat_eq_self)

lemma id_used_small: "idt_ok t \<Longrightarrow> j \<in> id_used t \<Longrightarrow> j < 2 ^ 31"
  using id_used_le [of t] by (auto simp: idt_ok_def)

lemma idr_dom_iff:
  assumes "idr_ok d" and "j < nr_bit (ids d)"
  shows "radix_tree_lookup (rdtree d) (of_nat j) \<noteq> None \<longleftrightarrow> j \<in> id_used (ids d)"
proof -
  have "j < 2 ^ 31" using assms by (auto simp: idr_ok_def idt_ok_def)
  then have "of_nat j \<in> (of_nat ` id_used (ids d) :: u64 set) \<longleftrightarrow> j \<in> id_used (ids d)"
    using id_used_small [of "ids d"] of_nat_u64_inj [of j] assms(1) by (auto simp: idr_ok_def)
  then show ?thesis using assms(1) unfolding idr_ok_def by blast
qed

lemma idr_find_at:
  assumes "idt_ok (ids d)"
  shows "idr_find d i = (if \<exists>j < nr_bit (ids d). i = int (j + offset (ids d))
    then radix_tree_lookup (rdtree d) (of_nat (nat i - offset (ids d))) else None)"
  using check_idt_iff [OF assms, of i] by (auto simp: idr_find_def)

lemma idr_alloc_spec:
  assumes ok: "idr_ok d" and run: "idr_alloc malloc_ok d (Some p) = Some (r, d')"
  shows "idr_ok d' \<and> idt_range (ids d') = idt_range (ids d) \<and>
    (case r of
       Inr i \<Rightarrow> i \<in> idt_range (ids d) \<and> idr_find d i = None \<and> idr_find d' = (idr_find d)(i \<mapsto> p)
     | Inl e \<Rightarrow> (e = ENOSPC \<or> e = ENOMEM) \<and> idr_find d' = idr_find d)"
proof -
  have t: "idt_ok (ids d)" and rd: "rdtree_ok (fst (rdtree d))" and dm: "dom (radix_tree_lookup (rdtree d)) = of_nat ` id_used (ids d)"
    using ok by (auto simp: idr_ok_def)
  obtain r1 t1 where al: "idt_alloc malloc_ok (ids d) = (r1, t1)" by fastforce
  note sp = idt_alloc_spec [OF t al]
  show ?thesis
  proof (cases r1)
    case (Inl e)
    then have "r = Inl e" "d' = d\<lparr>ids := t1\<rparr>" using run al by (auto simp: idr_alloc_def)
    then show ?thesis using sp Inl rd dm t
      by (auto simp: idr_ok_def same_ids_def idt_range_def idr_find_def check_idt_def fun_eq_iff)
  next
    case (Inr i)
    obtain j where j: "i = int (j + offset (ids d))" "j < nr_bit (ids d)" "j \<notin> id_used (ids d)"
        "id_used t1 = insert j (id_used (ids d))" "idt_ok t1" "offset t1 = offset (ids d)" "nr_bit t1 = nr_bit (ids d)"
      using sp Inr by (auto simp: same_ids_def)
    let ?i = "of_nat j :: u64"
    have ii: "(of_int (i - int (offset t1)) :: u64) = ?i" by (simp add: j(1,6))
    obtain e s where ins: "radix_tree_insert (rdtree d) ?i p = Some (e, s)"
      using run al Inr ii by (auto simp: idr_alloc_def split: option.splits)
    note ri = rdmap.insert_inv [OF rd ins] and rl = rdmap.insert_lookup [OF rd ins] and rr = rdmap.insert_result [OF rd ins]
    have none: "radix_tree_lookup (rdtree d) ?i = None" using idr_dom_iff [OF ok j(2)] j(3) by blast
    have rng: "i \<in> idt_range (ids d)" using j(1,2) by (auto simp: idt_range_def)
    show ?thesis
    proof (cases e)
      case None
      then have res: "r = Inr i" "d' = d\<lparr>ids := t1, rdtree := s\<rparr>" using run al Inr ii ins by (auto simp: idr_alloc_def)
      have lk: "radix_tree_lookup s = (radix_tree_lookup (rdtree d))(?i \<mapsto> p)" using rl None by simp
      have "dom (radix_tree_lookup s) = of_nat ` id_used t1" using dm by (simp add: lk j(4))
      then have ok': "idr_ok d'" using ri j(5) by (simp add: idr_ok_def res)
      have "idr_find d' x = ((idr_find d)(i \<mapsto> p)) x" for x
      proof (cases "check_idt (ids d) x")
        case True
        then obtain k where k: "k < nr_bit (ids d)" "x = int (k + offset (ids d))" using check_idt_iff [OF t] by blast
        have "(of_nat k = ?i) = (k = j)" using of_nat_u64_inj [of k j] k(1) j(2) t by (auto simp: idt_ok_def)
        then show ?thesis
          using k idr_find_at [OF t, of x] idr_find_at [of d' x] j(1,5-7) by (auto simp: res lk)
      next
        case False
        then have "x \<noteq> i" using j(1,2) check_idt_iff [OF t] by blast
        then show ?thesis using False j(6,7) by (simp add: idr_find_def res check_idt_def)
      qed
      moreover have "idr_find d i = None" using none idr_find_at [OF t, of i] j(1,2) by auto
      ultimately show ?thesis using ok' rng res(1) j(6,7) by (auto simp: res(2) idt_range_def)
    next
      case (Some e')
      then have e: "e' = ENOMEM" using rr none by auto
      then have res: "r = Inl ENOMEM" "d' = d\<lparr>ids := snd (idt_remove t1 i), rdtree := s\<rparr>"
        using run al Inr ii ins Some by (auto simp: idr_alloc_def)
      obtain b t2 where rm: "idt_remove t1 i = (b, t2)" by fastforce
      have "nat i - offset t1 = j" "\<exists>k \<in> id_used t1. i = int (k + offset t1)" using j(1,4,6) by auto
      then have t2: "idt_ok t2" "same_ids t1 t2" "id_used t2 = id_used (ids d)"
        using u_idt_remove_spec [OF j(5) rm [unfolded idt_remove_def]] j(3,4) by simp_all
      have lk: "radix_tree_lookup s = radix_tree_lookup (rdtree d)" using rl Some by simp
      have "idr_ok d'" using t2 ri dm lk by (simp add: idr_ok_def res rm)
      moreover have "idr_find d' = idr_find d"
        using t2(2) j(6,7) lk by (simp add: idr_find_def fun_eq_iff check_idt_def res rm same_ids_def)
      ultimately show ?thesis using res t2(2) j(6,7) rm by (simp add: idt_range_def same_ids_def)
    qed
  qed
qed

lemma idr_remove_spec:
  assumes ok: "idr_ok d"
  shows "\<exists>d'. idr_remove d i = Some (idr_find d i, d') \<and> idr_ok d' \<and> idr_find d' = (idr_find d)(i := None) \<and>
    idt_range (ids d') = idt_range (ids d)"
proof -
  have t: "idt_ok (ids d)" and rd: "rdtree_ok (fst (rdtree d))" and dm: "dom (radix_tree_lookup (rdtree d)) = of_nat ` id_used (ids d)"
    using ok by (auto simp: idr_ok_def)
  show ?thesis
  proof (cases "check_idt (ids d) i")
    case False
    then have "idr_find d i = None" by (simp add: idr_find_def)
    then show ?thesis using ok False by (auto simp: idr_remove_def fun_upd_idem)
  next
    case True
    then obtain j where j: "j < nr_bit (ids d)" "i = int (j + offset (ids d))" using check_idt_iff [OF t] by auto
    let ?i = "of_nat j :: u64"
    have ii: "(of_int (i - int (offset (ids d))) :: u64) = ?i" by (simp add: j(2))
    obtain v s where del: "radix_tree_remove (rdtree d) ?i = (v, s)" by (metis surj_pair)
    note ri = rdmap.delete_inv [OF rd del] and rl = rdmap.delete_result [OF rd del]
    have fv: "idr_find d i = v" using idr_find_at [OF t, of i] j rl by auto
    obtain b t2 where rm: "idt_remove (ids d) i = (b, t2)" by fastforce
    note sp = u_idt_remove_spec [OF t rm [unfolded idt_remove_def]]
    have used: "(\<exists>k \<in> id_used (ids d). i = int (k + offset (ids d))) \<longleftrightarrow> v \<noteq> None"
      using idr_dom_iff [OF ok j(1)] rl j(2) by auto
    show ?thesis
    proof (cases v)
      case None
      have lk: "radix_tree_lookup s = radix_tree_lookup (rdtree d)" using rl None by auto
      have "idr_ok (d\<lparr>rdtree := s\<rparr>)" using ok ri by (simp add: idr_ok_def lk)
      moreover have "idr_find (d\<lparr>rdtree := s\<rparr>) = idr_find d" by (rule ext) (simp add: idr_find_def lk)
      ultimately show ?thesis using True None ii del fv by (simp add: idr_remove_def fun_upd_idem)
    next
      case (Some p)
      let ?d = "d\<lparr>ids := t2, rdtree := s\<rparr>"
      have "nat i - offset (ids d) = j" using j(2) by simp
      then have b: "b" "id_used t2 = id_used (ids d) - {j}" "idt_ok t2" "same_ids (ids d) t2"
        using sp used Some by simp_all
      have "j < 2 ^ 31" using j(1) t by (auto simp: idt_ok_def)
      then have inj: "inj_on (of_nat :: nat \<Rightarrow> u64) (insert j (id_used (ids d)))"
        using id_used_small [OF t] of_nat_u64_inj by (fastforce simp: inj_on_def)
      have "dom (radix_tree_lookup s) = of_nat ` (id_used (ids d)) - {?i}" using rl dm by (simp add: dom_fun_upd)
      also have "\<dots> = of_nat ` id_used t2" unfolding b(2) using inj_on_image_set_diff [OF inj, of "id_used (ids d)" "{j}"] by auto
      finally have "dom (radix_tree_lookup s) = of_nat ` id_used t2" .
      then have ok': "idr_ok ?d" using ri b(3) by (simp add: idr_ok_def)
      have "idr_find ?d x = ((idr_find d)(i := None)) x" for x
      proof (cases "check_idt (ids d) x")
        case True
        then obtain k where k: "k < nr_bit (ids d)" "x = int (k + offset (ids d))" using check_idt_iff [OF t] by blast
        have "(of_nat k = ?i) = (k = j)" using of_nat_u64_inj [of k j] k(1) j(1) t by (auto simp: idt_ok_def)
        then show ?thesis
          using k idr_find_at [OF t, of x] idr_find_at [of ?d x] b(3,4) rl j(2) by (auto simp: same_ids_def)
      next
        case False
        then show ?thesis using b(4) by (simp add: idr_find_def check_idt_def same_ids_def)
      qed
      then show ?thesis using \<open>check_idt (ids d) i\<close> Some ii del fv rm b ok'
        by (auto simp: idr_remove_def idt_range_def same_ids_def)
    qed
  qed
qed


section \<open>Properties\<close>

lemma idt_init_ok:
  assumes "idt_init ok start fin = Some (Inr t)" and "start < 2 ^ 32" and "fin < 2 ^ 32"
  shows "idt_ok t \<and> idt_in_use t = {} \<and> idt_range t = {int start..int fin}"
proof -
  have c: "ok" "start < fin" "fin < 2 ^ 31 - 1" "(2 ^ 32 + fin - start + 1) mod 2 ^ 32 < 2 ^ 31 - 1"
    using assms by (auto simp: idt_init_def Let_def S32_MAX_def not_le split: if_splits)
  have "2 ^ 32 + fin - start + 1 = (fin - start + 1) + 2 ^ 32" using c(2) by simp
  moreover have "fin - start + 1 < 2 ^ 32" using c(3) by simp
  ultimately have "(2 ^ 32 + fin - start + 1) mod 2 ^ 32 = fin - start + 1" by (simp only: mod_add_self2 mod_less)
  then have "fin - start + 1 < 2 ^ 31 - 1" using c(4) by simp
  from idt_init_spec [OF c(2,3) this] have t: "idt_ok t" "id_used t = {}" "offset t = start" "nr_bit t = fin - start + 1"
    using assms(1) c(1) by auto
  have "idt_range t = {int start..int fin}"
  proof (intro set_eqI iffI)
    fix x assume "x \<in> {int start..int fin}"
    then show "x \<in> idt_range t" unfolding idt_range_def t(3,4) by (intro image_eqI [of _ _ "nat x - start"]) auto
  qed (use c(2) in \<open>auto simp: idt_range_def t(3,4)\<close>)
  then show ?thesis using t(1,2) by (simp add: idt_in_use_def)
qed

text \<open>C13: From a fresh allocator for the ids \<open>start\<close> to \<open>end\<close>, in any sequence of allocations and releases, with
  the allocation of pages failing at any point: an id is handed out only when it is in the range and not in use, and a
  release succeeds exactly for an id in use.\<close>

theorem idt_refines_set:
  assumes "idt_init ok start fin = Some (Inr t)" and "start < 2 ^ 32" and "fin < 2 ^ 32"
    and "id_runs idt_alloc_any (\<lambda>t i. u_idt_remove t i ring) t calls t'"
  shows "id_trace {int start..int fin} {} calls = Some (idt_in_use t')"
  using idtp.runs_refine [OF assms(4)] idt_init_ok [OF assms(1-3)] by simp

lemma idt_example_run:
  assumes "idt_ok t"
  shows "\<exists>r t2 b. id_runs idt_alloc_any (\<lambda>t i. u_idt_remove t i ring) t [Alloc r, Release i b] t2"
proof -
  obtain r t1 where "idt_alloc (\<lambda>_. True) t = (r, t1)" by fastforce
  then have "idt_alloc_any t (r, t1)" by (auto simp: idt_alloc_any_def)
  moreover obtain b t2 where "u_idt_remove t1 i ring = (b, t2)" by fastforce
  ultimately show ?thesis by (blast intro: id_runs.intros)
qed

text \<open>Witness: ids 10 to 100000, one allocation and a release of id 10, which then succeeds.\<close>

theorem idt_refines_set_witness:
  "\<exists>t r b t'. idt_init True 10 100000 = Some (Inr t) \<and>
     id_runs idt_alloc_any (\<lambda>t i. u_idt_remove t i False) t [Alloc r, Release 10 b] t' \<and>
     id_trace {10..100000} {} [Alloc r, Release 10 b] = Some (idt_in_use t')"
proof -
  obtain t where t: "idt_init True 10 100000 = Some (Inr t)" "idt_ok t" using idt_init_spec [of 10 100000] by auto
  obtain r b t' where r: "id_runs idt_alloc_any (\<lambda>t i. u_idt_remove t i False) t [Alloc r, Release 10 b] t'"
    using idt_example_run [OF t(2), of False 10] by blast
  show ?thesis using idt_refines_set [OF t(1) _ _ r] t r by (intro exI conjI) auto
qed

text \<open>C34: When memory can be had the search for an id misses none: the allocation fails only when every id is in use.
  The search for the next id in use returns the least one from the given id on.\<close>

theorem idt_search_complete:
  assumes "idt_ok t"
  shows "(fst (idt_alloc (\<lambda>_. True) t) = Inl ENOSPC \<longleftrightarrow> idt_in_use t = idt_range t) \<and>
    (i \<in> idt_range t \<longrightarrow>
      (case idt_next t i of
         Inl e \<Rightarrow> e = ENOENT \<and> (\<forall>x \<in> idt_in_use t. x < i)
       | Inr r \<Rightarrow> r \<in> idt_in_use t \<and> i \<le> r \<and> (\<forall>x \<in> idt_in_use t. x < i \<or> r \<le> x)))"
proof (intro conjI impI)
  obtain r t' where run: "idt_alloc (\<lambda>_. True) t = (r, t')" by fastforce
  note sp = idt_alloc_spec [OF assms run]
  have inj: "inj (\<lambda>j. int (j + offset t))" by (simp add: inj_on_def)
  have eq: "idt_in_use t = idt_range t \<longleftrightarrow> id_used t = {..<nr_bit t}"
    unfolding idt_in_use_def idt_range_def by (rule inj_image_eq_iff [OF inj])
  show "fst (idt_alloc (\<lambda>_. True) t) = Inl ENOSPC \<longleftrightarrow> idt_in_use t = idt_range t"
    unfolding eq using sp by (cases r) (auto simp: run)
next
  assume "i \<in> idt_range t"
  then obtain j where j: "j < nr_bit t" "i = int (j + offset t)" by (auto simp: idt_range_def)
  let ?k = "j div BITS_PER_PAGE" and ?o = "j mod BITS_PER_PAGE"
  have chk: "check_idt t i" using check_idt_iff [OF assms] j by auto
  have nj: "nat i - offset t = j" using j(2) by simp
  have k: "?k \<le> idt_pages t" using j(1) unfolding id_split by simp
  have jm: "mk_id ?k ?o = j" by (simp add: mk_id_def)
  have nx: "idt_next t i = (case next_loop (drop ?k (idmaps t)) ?k ?o of None \<Rightarrow> Inl ENOENT | Some r \<Rightarrow> Inr (int r + int (offset t)))"
    using chk by (simp add: idt_next_def Let_def nj)
  have "?o < BITS_PER_PAGE" by simp
  note sp = next_loop_spec [OF assms k refl this, unfolded jm]
  show "case idt_next t i of Inl e \<Rightarrow> e = ENOENT \<and> (\<forall>x \<in> idt_in_use t. x < i)
      | Inr r \<Rightarrow> r \<in> idt_in_use t \<and> i \<le> r \<and> (\<forall>x \<in> idt_in_use t. x < i \<or> r \<le> x)"
  proof (cases "next_loop (drop ?k (idmaps t)) ?k ?o")
    case None
    then show ?thesis using sp nx j(2) by (auto simp: idt_in_use_def)
  next
    case (Some r)
    then show ?thesis using sp nx j(2) by (auto simp: idt_in_use_def)
  qed
qed

text \<open>Witness: a fresh allocator has ids to give.\<close>

theorem idt_search_complete_witness:
  "\<exists>t. idt_init True 0 70000 = Some (Inr t) \<and> fst (idt_alloc (\<lambda>_. True) t) \<noteq> Inl ENOSPC"
proof -
  obtain t where t: "idt_init True 0 70000 = Some (Inr t)" "idt_ok t" using idt_init_spec [of 0 70000] by auto
  have u: "idt_in_use t = {}" "idt_range t = {0..70000}" using idt_init_ok [OF t(1)] by auto
  have "idt_in_use t \<noteq> idt_range t" unfolding u by simp
  then show ?thesis using idt_search_complete [OF t(2), of 0] t(1) by blast
qed

text \<open>C12: The ids in use and the keys of the tree stay the same set. An allocation stores the pointer under an
  id that had none, or reports the error and changes nothing; a removal returns the pointer and frees the id; the
  checks for a disagreement of the two structures never fire.\<close>

theorem idr_operations_exact:
  assumes "idr_ok d" and "\<not> is_Null (rnode (fst (rdtree d))) \<or> height (fst (rdtree d)) < 11"
  shows "(\<exists>r d'. idr_alloc malloc_ok d (Some p) = Some (r, d') \<and> idr_ok d' \<and>
      (case r of
         Inr i \<Rightarrow> i \<in> idt_range (ids d) \<and> idr_find d i = None \<and> idr_find d' = (idr_find d)(i \<mapsto> p)
       | Inl e \<Rightarrow> (e = ENOSPC \<or> e = ENOMEM) \<and> idr_find d' = idr_find d)) \<and>
    (\<exists>d'. idr_remove d i = Some (idr_find d i, d') \<and> idr_ok d' \<and> idr_find d' = (idr_find d)(i := None))"
proof (intro conjI)
  have ok: "idt_ok (ids d)" "rdtree_ok (fst (rdtree d))" using assms(1) by (auto simp: idr_ok_def)
  have "idr_alloc malloc_ok d (Some p) \<noteq> None"
  proof (cases "idt_alloc malloc_ok (ids d)")
    case (Pair r1 t1)
    show ?thesis
    proof (cases r1)
      case (Inr x)
      obtain j where j: "x = int (j + offset (ids d))" "j < nr_bit (ids d)" "j \<notin> id_used (ids d)" "offset t1 = offset (ids d)"
        using idt_alloc_spec [OF ok(1) Pair] Inr by (auto simp: same_ids_def)
      have ii: "(of_int (x - int (offset t1)) :: u64) = of_nat j" by (simp add: j(1,4))
      obtain e s where ins: "radix_tree_insert (rdtree d) (of_nat j) p = Some (e, s)"
        using radix_insert_total [OF ok(2) assms(2), of "of_nat j" p "snd (rdtree d)"] by (auto simp: radix_tree_insert_def)
      have "radix_tree_lookup (rdtree d) (of_nat j) = None" using idr_dom_iff [OF assms(1) j(2)] j(3) by blast
      then have "e = None \<or> e = Some ENOMEM" using rdmap.insert_result [OF ok(2) ins] by simp
      then show ?thesis using Pair Inr ii ins by (auto simp: idr_alloc_def)
    qed (simp add: Pair idr_alloc_def)
  qed
  then obtain r d' where run: "idr_alloc malloc_ok d (Some p) = Some (r, d')" by auto
  show "\<exists>r d'. idr_alloc malloc_ok d (Some p) = Some (r, d') \<and> idr_ok d' \<and>
      (case r of
         Inr i \<Rightarrow> i \<in> idt_range (ids d) \<and> idr_find d i = None \<and> idr_find d' = (idr_find d)(i \<mapsto> p)
       | Inl e \<Rightarrow> (e = ENOSPC \<or> e = ENOMEM) \<and> idr_find d' = idr_find d)"
    using idr_alloc_spec [OF assms(1) run] run by blast
  show "\<exists>d'. idr_remove d i = Some (idr_find d i, d') \<and> idr_ok d' \<and> idr_find d' = (idr_find d)(i := None)"
    using idr_remove_spec [OF assms(1), of i] by blast
qed

lemma idr_init_ok:
  assumes "idr_init_base ok m start fin = Some (Inr d)" and "start < 2 ^ 32" and "fin < 2 ^ 32"
  shows "idr_ok d \<and> fst (rdtree d) = INIT_RADIX_TREE \<and> idr_find d = Map.empty"
proof -
  obtain t where t: "idt_init ok start fin = Some (Inr t)" "d = \<lparr>ids = t, rdtree = (INIT_RADIX_TREE, m)\<rparr>"
    using assms(1) by (auto simp: idr_init_base_def split: option.splits sum.splits)
  have "idt_ok t" "id_used t = {}" using idt_init_ok [OF t(1) assms(2,3)] by (auto simp: idt_in_use_def)
  then show ?thesis using t(2) by (auto simp: idr_ok_def idr_find_def fun_eq_iff lookup_INIT rdtree_ok_INIT)
qed

text \<open>Witness: the first allocation of a fresh table.\<close>

theorem idr_operations_exact_witness:
  "\<exists>d :: nat idr. idr_init_base True rd_mem 1 40000 = Some (Inr d) \<and>
     (\<exists>r d'. idr_alloc (\<lambda>_. True) d (Some 7) = Some (r, d') \<and> idr_ok d')"
proof -
  obtain t where "idt_init True 1 40000 = Some (Inr t)" using idt_init_spec [of 1 40000] by auto
  then obtain d :: "nat idr" where d: "idr_init_base True rd_mem 1 40000 = Some (Inr d)" by (simp add: idr_init_base_def)
  have "idr_ok d" "height (fst (rdtree d)) < 11" using idr_init_ok [OF d] by (auto simp: INIT_RADIX_TREE_def)
  then show ?thesis using idr_operations_exact [of d "\<lambda>_. True" 7 0] d by blast
qed

end
