(* ===== verification/Hash.thy ===== *)
theory Hash
  imports Pbuff
begin

text \<open>
  The hash functions and the CRC of \<open>src/utils/hash.c\<close> and \<open>include/skp/utils/hash.h\<close>.  A key
  is the bytes that can be read from its pointer (\<open>None\<close> is the null pointer); reading past them is
  the result \<open>None\<close>.
\<close>

section \<open>Keys\<close>

text \<open>
  The bytes a hash function reads: a negative length stands for \<open>strlen\<close>.
\<close>

definition key_bytes :: "u8 list \<Rightarrow> int \<Rightarrow> u8 list option" where
  "key_bytes mem keyLen =
     (if keyLen < 0 then (if 0 \<in> set mem then Some (takeWhile (\<lambda>b. b \<noteq> 0) mem) else None)
      else if nat keyLen \<le> length mem then Some (take (nat keyLen) mem) else None)"

section \<open>String hashes\<close>

fun murmur_loop :: "u64 \<Rightarrow> u8 list \<Rightarrow> u64 \<times> u8 list" where
  "murmur_loop hv (b0 # b1 # b2 # b3 # rest) =
     (let k = load_le [b0, b1, b2, b3] * 0x5bd1e995 :: u32;
          k = k XOR drop_bit 24 k;
          k = k * 0x5bd1e995
      in murmur_loop (hv * 0x5bd1e995 XOR ucast k) rest)"
| "murmur_loop hv rest = (hv, rest)"

fun murmur_tail :: "u64 \<Rightarrow> u8 list \<Rightarrow> u64" where
  "murmur_tail hv [b0, b1, b2] = (hv XOR push_bit 16 (ucast b2) XOR push_bit 8 (ucast b1) XOR ucast b0) * 0x5bd1e995"
| "murmur_tail hv [b0, b1] = (hv XOR push_bit 8 (ucast b1) XOR ucast b0) * 0x5bd1e995"
| "murmur_tail hv [b0] = (hv XOR ucast b0) * 0x5bd1e995"
| "murmur_tail hv _ = hv"

definition MurmurHash2 :: "u8 list option \<Rightarrow> int \<Rightarrow> u32 option" where
  "MurmurHash2 key keyLen = (case key of None \<Rightarrow> Some 0
   | Some mem \<Rightarrow> map_option (\<lambda>bs.
       let hv = 0x1507 XOR word_of_nat (length bs) :: u64;
           (hv, rest) = murmur_loop hv bs;
           hv = murmur_tail hv rest;
           hv = hv XOR drop_bit 13 hv;
           hv = hv * 0x5bd1e995;
           hv = hv XOR drop_bit 15 hv
       in ucast hv) (key_bytes mem keyLen))"

definition HashFlower :: "u8 list option \<Rightarrow> int \<Rightarrow> u32 option" where
  "HashFlower key keyLen = (case key of None \<Rightarrow> Some 0
   | Some mem \<Rightarrow> map_option (foldl (\<lambda>h b. h * 16777619 XOR ucast b) 0) (key_bytes mem keyLen))"

definition HashTime33 :: "u8 list option \<Rightarrow> int \<Rightarrow> u32 option" where
  "HashTime33 key keyLen = (case key of None \<Rightarrow> Some 0
   | Some mem \<Rightarrow> map_option (foldl (\<lambda>h b. h * 33 + ucast b) 0) (key_bytes mem keyLen))"

definition HashIgnoreCaseTime33 :: "u8 list option \<Rightarrow> int \<Rightarrow> u32 option" where
  "HashIgnoreCaseTime33 key keyLen = (case key of None \<Rightarrow> Some 0
   | Some mem \<Rightarrow> map_option (foldl (\<lambda>h b. h * 33 + (ucast b OR 0x20)) 0) (key_bytes mem keyLen))"

text \<open>
  \<open>HashReduceBit\<close> narrows the length that \<open>strlen\<close> returns to \<open>int\<close>; a length that turns negative
  ends the loop at once.
\<close>

definition reduce_len :: "int \<Rightarrow> u8 list \<Rightarrow> int" where
  "reduce_len keyLen bs = (if keyLen < 0 then signed_take_bit 31 (int (length bs)) else keyLen)"

definition HashReduceBit :: "u8 list option \<Rightarrow> int \<Rightarrow> u32 option" where
  "HashReduceBit key keyLen = (case key of None \<Rightarrow> Some (NOT 0)
   | Some mem \<Rightarrow> map_option (\<lambda>bs.
       let n = reduce_len keyLen bs;
           h = foldl (\<lambda>h b. (push_bit 9 h OR drop_bit (4 * 8 - 9) h) + ucast b) (word_of_int n) (take (nat n) bs)
       in if h \<noteq> 0 then h else NOT 0) (key_bytes mem keyLen))"

definition pjw_step :: "u32 \<Rightarrow> u8 \<Rightarrow> u32" where
  "pjw_step h b =
     (let h = push_bit 4 h + ucast b;
          g = h AND push_bit (32 - 4) 0xf;
          h = (if g \<noteq> 0 then h XOR drop_bit (32 - 8) g else h)
      in h AND NOT g)"

definition HashPJW :: "u8 list option \<Rightarrow> int \<Rightarrow> u32 option" where
  "HashPJW key keyLen = (case key of None \<Rightarrow> Some 0
   | Some mem \<Rightarrow> map_option (\<lambda>bs. foldl pjw_step (word_of_nat (length bs)) bs) (key_bytes mem keyLen))"

section \<open>Jenkins hash\<close>

definition u_jhash_mix :: "u32 \<times> u32 \<times> u32 \<Rightarrow> u32 \<times> u32 \<times> u32" where
  "u_jhash_mix abc = (let (a, b, c) = abc;
     a = a - c; a = a XOR rol32 c 4; c = c + b;
     b = b - a; b = b XOR rol32 a 6; a = a + c;
     c = c - b; c = c XOR rol32 b 8; b = b + a;
     a = a - c; a = a XOR rol32 c 16; c = c + b;
     b = b - a; b = b XOR rol32 a 19; a = a + c;
     c = c - b; c = c XOR rol32 b 4; b = b + a
   in (a, b, c))"

definition u_jhash_final :: "u32 \<times> u32 \<times> u32 \<Rightarrow> u32 \<times> u32 \<times> u32" where
  "u_jhash_final abc = (let (a, b, c) = abc;
     c = c XOR b; c = c - rol32 b 14;
     a = a XOR c; a = a - rol32 c 11;
     b = b XOR a; b = b - rol32 a 25;
     c = c XOR b; c = c - rol32 b 16;
     a = a XOR c; a = a - rol32 c 4;
     b = b XOR a; b = b - rol32 a 14;
     c = c XOR b; c = c - rol32 b 24
   in (a, b, c))"

definition JHASH_INITVAL :: u32 where
  "JHASH_INITVAL = 0xdeadbeef"

text \<open>The words are those left to hash; a list is as long as the remaining \<open>length\<close>.\<close>

fun jhash2_loop :: "u32 \<times> u32 \<times> u32 \<Rightarrow> u32 list \<Rightarrow> u32" where
  "jhash2_loop (a, b, c) (k0 # k1 # k2 # k3 # ks) =
     jhash2_loop (u_jhash_mix (a + k0, b + k1, c + k2)) (k3 # ks)"
| "jhash2_loop (a, b, c) [k0, k1, k2] = snd (snd (u_jhash_final (a + k0, b + k1, c + k2)))"
| "jhash2_loop (a, b, c) [k0, k1] = snd (snd (u_jhash_final (a + k0, b + k1, c)))"
| "jhash2_loop (a, b, c) [k0] = snd (snd (u_jhash_final (a + k0, b, c)))"
| "jhash2_loop (a, b, c) [] = c"

definition jhash2 :: "u32 list \<Rightarrow> u32 \<Rightarrow> u32 \<Rightarrow> u32 option" where
  "jhash2 k len initval = (if unat len \<le> length k
     then (let a = JHASH_INITVAL + push_bit 2 len + initval
           in Some (jhash2_loop (a, a, a) (take (unat len) k)))
     else None)"

text \<open>The byte version: twelve bytes a round, and a last block of at most twelve.\<close>

definition jhash_last :: "u32 \<times> u32 \<times> u32 \<Rightarrow> u8 list \<Rightarrow> u32" where
  "jhash_last abc k = (let (a, b, c) = abc; l = length k;
     c = (if 12 \<le> l then c + push_bit 24 (ucast (k ! 11)) else c);
     c = (if 11 \<le> l then c + push_bit 16 (ucast (k ! 10)) else c);
     c = (if 10 \<le> l then c + push_bit 8 (ucast (k ! 9)) else c);
     c = (if 9 \<le> l then c + ucast (k ! 8) else c);
     b = (if 8 \<le> l then b + push_bit 24 (ucast (k ! 7)) else b);
     b = (if 7 \<le> l then b + push_bit 16 (ucast (k ! 6)) else b);
     b = (if 6 \<le> l then b + push_bit 8 (ucast (k ! 5)) else b);
     b = (if 5 \<le> l then b + ucast (k ! 4) else b);
     a = (if 4 \<le> l then a + push_bit 24 (ucast (k ! 3)) else a);
     a = (if 3 \<le> l then a + push_bit 16 (ucast (k ! 2)) else a);
     a = (if 2 \<le> l then a + push_bit 8 (ucast (k ! 1)) else a);
     a = (if 1 \<le> l then a + ucast (k ! 0) else a)
   in if 1 \<le> l then snd (snd (u_jhash_final (a, b, c))) else c)"

function jhash_loop :: "u32 \<times> u32 \<times> u32 \<Rightarrow> u8 list \<Rightarrow> u32" where
  "jhash_loop abc k =
     (if length k > 12 then
        (let (a, b, c) = abc;
             a = a + load_le (take 4 k);
             b = b + load_le (take 4 (drop 4 k));
             c = c + load_le (take 4 (drop 8 k))
         in jhash_loop (u_jhash_mix (a, b, c)) (drop 12 k))
      else jhash_last abc k)"
  by pat_completeness auto
termination
  by (relation "measure (\<lambda>(abc, k). length k)") auto

definition jhash :: "u8 list \<Rightarrow> u32 \<Rightarrow> u32 \<Rightarrow> u32 option" where
  "jhash key len initval = (if unat len \<le> length key
     then (let a = JHASH_INITVAL + len + initval
           in Some (jhash_loop (a, a, a) (take (unat len) key)))
     else None)"

definition u_jhash_nwords :: "u32 \<Rightarrow> u32 \<Rightarrow> u32 \<Rightarrow> u32 \<Rightarrow> u32" where
  "u_jhash_nwords a b c initval = snd (snd (u_jhash_final (a + initval, b + initval, c + initval)))"

definition jhash_3words :: "u32 \<Rightarrow> u32 \<Rightarrow> u32 \<Rightarrow> u32 \<Rightarrow> u32" where
  "jhash_3words a b c initval = u_jhash_nwords a b c (initval + JHASH_INITVAL + push_bit 2 3)"

definition jhash_2words :: "u32 \<Rightarrow> u32 \<Rightarrow> u32 \<Rightarrow> u32" where
  "jhash_2words a b initval = u_jhash_nwords a b 0 (initval + JHASH_INITVAL + push_bit 2 2)"

definition jhash_1word :: "u32 \<Rightarrow> u32 \<Rightarrow> u32" where
  "jhash_1word a initval = u_jhash_nwords a 0 0 (initval + JHASH_INITVAL + push_bit 2 1)"

section \<open>Multiplicative hashes\<close>

definition GOLDEN_RATIO_32 :: u32 where
  "GOLDEN_RATIO_32 = 0x61C88647"

definition GOLDEN_RATIO_64 :: u64 where
  "GOLDEN_RATIO_64 = 0x61C8864680B583EB"

definition u_hash_32 :: "u32 \<Rightarrow> u32" where
  "u_hash_32 val = val * GOLDEN_RATIO_32"

definition u_hash_64 :: "u64 \<Rightarrow> u64" where
  "u_hash_64 val = val * GOLDEN_RATIO_64"

text \<open>The shift distances are defined for \<open>bits\<close> from 1 to the width.\<close>

definition hash_32 :: "u32 \<Rightarrow> nat \<Rightarrow> u32" where
  "hash_32 val bits = drop_bit (32 - bits) (u_hash_32 val)"

definition hash_64 :: "u64 \<Rightarrow> nat \<Rightarrow> u32" where
  "hash_64 val bits = ucast (drop_bit (64 - bits) (u_hash_64 val))"

definition hash_ptr :: "u64 \<Rightarrow> nat \<Rightarrow> u32" where
  "hash_ptr p bits = hash_64 p bits"

definition hash32_ptr :: "u64 \<Rightarrow> u32" where
  "hash32_ptr p = ucast (p XOR drop_bit 32 p)"

section \<open>CRC\<close>

definition crc32table :: "u32 list" where
  "crc32table =
  [0x00000000, 0x04c11db7, 0x09823b6e, 0x0d4326d9, 0x130476dc, 0x17c56b6b, 0x1a864db2, 0x1e475005,
   0x2608edb8, 0x22c9f00f, 0x2f8ad6d6, 0x2b4bcb61, 0x350c9b64, 0x31cd86d3, 0x3c8ea00a, 0x384fbdbd,
   0x4c11db70, 0x48d0c6c7, 0x4593e01e, 0x4152fda9, 0x5f15adac, 0x5bd4b01b, 0x569796c2, 0x52568b75,
   0x6a1936c8, 0x6ed82b7f, 0x639b0da6, 0x675a1011, 0x791d4014, 0x7ddc5da3, 0x709f7b7a, 0x745e66cd,
   0x9823b6e0, 0x9ce2ab57, 0x91a18d8e, 0x95609039, 0x8b27c03c, 0x8fe6dd8b, 0x82a5fb52, 0x8664e6e5,
   0xbe2b5b58, 0xbaea46ef, 0xb7a96036, 0xb3687d81, 0xad2f2d84, 0xa9ee3033, 0xa4ad16ea, 0xa06c0b5d,
   0xd4326d90, 0xd0f37027, 0xddb056fe, 0xd9714b49, 0xc7361b4c, 0xc3f706fb, 0xceb42022, 0xca753d95,
   0xf23a8028, 0xf6fb9d9f, 0xfbb8bb46, 0xff79a6f1, 0xe13ef6f4, 0xe5ffeb43, 0xe8bccd9a, 0xec7dd02d,
   0x34867077, 0x30476dc0, 0x3d044b19, 0x39c556ae, 0x278206ab, 0x23431b1c, 0x2e003dc5, 0x2ac12072,
   0x128e9dcf, 0x164f8078, 0x1b0ca6a1, 0x1fcdbb16, 0x018aeb13, 0x054bf6a4, 0x0808d07d, 0x0cc9cdca,
   0x7897ab07, 0x7c56b6b0, 0x71159069, 0x75d48dde, 0x6b93dddb, 0x6f52c06c, 0x6211e6b5, 0x66d0fb02,
   0x5e9f46bf, 0x5a5e5b08, 0x571d7dd1, 0x53dc6066, 0x4d9b3063, 0x495a2dd4, 0x44190b0d, 0x40d816ba,
   0xaca5c697, 0xa864db20, 0xa527fdf9, 0xa1e6e04e, 0xbfa1b04b, 0xbb60adfc, 0xb6238b25, 0xb2e29692,
   0x8aad2b2f, 0x8e6c3698, 0x832f1041, 0x87ee0df6, 0x99a95df3, 0x9d684044, 0x902b669d, 0x94ea7b2a,
   0xe0b41de7, 0xe4750050, 0xe9362689, 0xedf73b3e, 0xf3b06b3b, 0xf771768c, 0xfa325055, 0xfef34de2,
   0xc6bcf05f, 0xc27dede8, 0xcf3ecb31, 0xcbffd686, 0xd5b88683, 0xd1799b34, 0xdc3abded, 0xd8fba05a,
   0x690ce0ee, 0x6dcdfd59, 0x608edb80, 0x644fc637, 0x7a089632, 0x7ec98b85, 0x738aad5c, 0x774bb0eb,
   0x4f040d56, 0x4bc510e1, 0x46863638, 0x42472b8f, 0x5c007b8a, 0x58c1663d, 0x558240e4, 0x51435d53,
   0x251d3b9e, 0x21dc2629, 0x2c9f00f0, 0x285e1d47, 0x36194d42, 0x32d850f5, 0x3f9b762c, 0x3b5a6b9b,
   0x0315d626, 0x07d4cb91, 0x0a97ed48, 0x0e56f0ff, 0x1011a0fa, 0x14d0bd4d, 0x19939b94, 0x1d528623,
   0xf12f560e, 0xf5ee4bb9, 0xf8ad6d60, 0xfc6c70d7, 0xe22b20d2, 0xe6ea3d65, 0xeba91bbc, 0xef68060b,
   0xd727bbb6, 0xd3e6a601, 0xdea580d8, 0xda649d6f, 0xc423cd6a, 0xc0e2d0dd, 0xcda1f604, 0xc960ebb3,
   0xbd3e8d7e, 0xb9ff90c9, 0xb4bcb610, 0xb07daba7, 0xae3afba2, 0xaafbe615, 0xa7b8c0cc, 0xa379dd7b,
   0x9b3660c6, 0x9ff77d71, 0x92b45ba8, 0x9675461f, 0x8832161a, 0x8cf30bad, 0x81b02d74, 0x857130c3,
   0x5d8a9099, 0x594b8d2e, 0x5408abf7, 0x50c9b640, 0x4e8ee645, 0x4a4ffbf2, 0x470cdd2b, 0x43cdc09c,
   0x7b827d21, 0x7f436096, 0x7200464f, 0x76c15bf8, 0x68860bfd, 0x6c47164a, 0x61043093, 0x65c52d24,
   0x119b4be9, 0x155a565e, 0x18197087, 0x1cd86d30, 0x029f3d35, 0x065e2082, 0x0b1d065b, 0x0fdc1bec,
   0x3793a651, 0x3352bbe6, 0x3e119d3f, 0x3ad08088, 0x2497d08d, 0x2056cd3a, 0x2d15ebe3, 0x29d4f654,
   0xc5a92679, 0xc1683bce, 0xcc2b1d17, 0xc8ea00a0, 0xd6ad50a5, 0xd26c4d12, 0xdf2f6bcb, 0xdbee767c,
   0xe3a1cbc1, 0xe760d676, 0xea23f0af, 0xeee2ed18, 0xf0a5bd1d, 0xf464a0aa, 0xf9278673, 0xfde69bc4,
   0x89b8fd09, 0x8d79e0be, 0x803ac667, 0x84fbdbd0, 0x9abc8bd5, 0x9e7d9662, 0x933eb0bb, 0x97ffad0c,
   0xafb010b1, 0xab710d06, 0xa6322bdf, 0xa2f33668, 0xbcb4666d, 0xb8757bda, 0xb5365d03, 0xb1f740b4]"

definition byteCrc32 :: "u8 list \<Rightarrow> nat \<Rightarrow> u32 \<Rightarrow> u32 option" where
  "byteCrc32 buf n init = (if n \<le> length buf
     then Some (foldl (\<lambda>crc b. push_bit 8 crc XOR crc32table ! unat ((drop_bit 24 crc XOR ucast b) AND 255)) init (take n buf))
     else None)"

section \<open>The table-driven CRC is the division by the polynomial\<close>

text \<open>
  One step of the division by \<open>x^32 + x^26 + ... + 1\<close> (0x04c11db7) on a 32-bit remainder, one bit of
  the message at a time, most significant bit first.
\<close>

definition crc_bit :: "u32 \<Rightarrow> bool \<Rightarrow> u32" where
  "crc_bit crc b = (if bit crc 31 \<noteq> b then push_bit 1 crc XOR 0x04c11db7 else push_bit 1 crc)"

definition msb_bits :: "u8 \<Rightarrow> bool list" where
  "msb_bits b = map (bit b) [7, 6, 5, 4, 3, 2, 1, 0]"

definition crc_spec :: "u32 \<Rightarrow> bool list \<Rightarrow> u32" where
  "crc_spec = foldl crc_bit"

definition crc_shift :: "u32 \<Rightarrow> u32" where
  "crc_shift crc = (if bit crc 31 then push_bit 1 crc XOR 0x04c11db7 else push_bit 1 crc)"

lemma crc_shift_xor: "crc_shift (x XOR y) = crc_shift x XOR crc_shift y"
  by (auto simp: crc_shift_def bit_simps push_bit_xor ac_simps)

lemma crc_bit_shift: "crc_bit crc b = crc_shift (crc XOR push_bit 31 (of_bool b))"
proof -
  have "push_bit 1 (push_bit 31 (of_bool b)) = (0 :: u32)"
    by (rule bit_word_eqI) (auto simp: bit_simps)
  then show ?thesis
    by (auto simp: crc_bit_def crc_shift_def bit_simps push_bit_xor simp del: push_bit_of_1 push_bit_push_bit)
qed

lemma crc_shift_pow: "(crc_shift ^^ k) (x XOR y) = (crc_shift ^^ k) x XOR (crc_shift ^^ k) y"
  by (induction k) (simp_all add: crc_shift_xor)

lemma crc_shift_low: "\<not> bit x 31 \<Longrightarrow> crc_shift x = push_bit 1 x"
  by (simp add: crc_shift_def)

lemma crc_shift_low_8:
  assumes "drop_bit 24 x = 0"
  shows "(crc_shift ^^ 8) x = push_bit 8 x"
proof -
  have nb: "\<not> bit x j" if "24 \<le> j" for j
    using arg_cong [OF assms, of "\<lambda>w. bit w (j - 24)"] that by (simp add: bit_simps)
  have "(crc_shift ^^ k) x = push_bit k x" if "k \<le> 8" for k
    using that
  proof (induction k)
    case (Suc k)
    then have "\<not> bit (push_bit k x) 31" by (simp add: bit_simps nb)
    with Suc show ?case by (simp add: crc_shift_low)
  qed simp
  then show ?thesis by simp
qed

lemma crc32table_doubling:
  "crc32table = concat (map (\<lambda>t. [crc_shift t, crc_shift t XOR 0x04c11db7]) (take 128 crc32table))"
  by (simp add: crc32table_def crc_shift_def)

lemma nth_concat_pairs:
  "i < 2 * length ts \<Longrightarrow> concat (map (\<lambda>t. [f t, g t]) ts) ! i = (if even i then f else g) (ts ! (i div 2))"
proof (induction ts arbitrary: i)
  case (Cons t ts)
  consider "i = 0" | "i = 1" | k where "i = Suc (Suc k)"
    by (metis One_nat_def not0_implies_Suc)
  then show ?case
    using Cons by cases auto
qed simp

lemma length_crc32table: "length crc32table = 256"
  by (simp add: crc32table_def)

lemma crc32table_step:
  "i < 256 \<Longrightarrow> crc32table ! i = crc_shift (crc32table ! (i div 2)) XOR (if odd i then 0x04c11db7 else 0)"
  by (subst crc32table_doubling, subst nth_concat_pairs) (simp_all add: length_crc32table)

lemma funpow_8: "(f ^^ 8) x = f (f (f (f (f (f (f (f x)))))))"
  by (simp add: eval_nat_numeral)

lemma crc_shift_zero: "(crc_shift ^^ 8) 0 = 0"
  by (simp add: funpow_8 crc_shift_def)

lemma crc_shift_poly: "(crc_shift ^^ 8) (push_bit 24 1) = 0x04c11db7"
  by (simp add: funpow_8 crc_shift_def)

lemma low_bit: "push_bit 24 (word_of_nat i :: u32) = push_bit 25 (word_of_nat (i div 2)) XOR push_bit 24 (of_bool (odd i))"
proof (rule bit_word_eqI)
  fix n assume n: "n < LENGTH(32)"
  have S: "bit i (Suc m) = bit (i div 2) m" for m by (rule bit_Suc)
  consider "n < 24" | "n = 24" | m where "n = 25 + m"
    using le_Suc_ex [of 25 n] by force
  then show "bit (push_bit 24 (word_of_nat i :: u32)) n = bit (push_bit 25 (word_of_nat (i div 2)) XOR push_bit 24 (of_bool (odd i)) :: u32) n"
    using n by cases (simp_all add: bit_push_bit_iff bit_xor_iff bit_of_nat_iff bit_of_bool_iff S bit_0 del: push_bit_of_1)
qed

lemma crc32table_divides: "i < 256 \<Longrightarrow> crc32table ! i = (crc_shift ^^ 8) (push_bit 24 (word_of_nat i))"
proof (induction i rule: less_induct)
  case (less i)
  show ?case
  proof (cases "i = 0")
    case True
    then show ?thesis using crc_shift_zero by (simp add: crc32table_def)
  next
    case False
    define k where "k = i div 2"
    have k: "k < i" "k < 128" using False less.prems by (auto simp: k_def)
    have "\<not> bit (push_bit 24 (word_of_nat k :: u32)) 31"
      using k(2) by (simp add: bit_simps) (simp add: bit_iff_odd)
    then have dbl: "crc_shift (push_bit 24 (word_of_nat k)) = push_bit 25 (word_of_nat k :: u32)"
      by (simp add: crc_shift_low)
    have "crc32table ! i = crc_shift ((crc_shift ^^ 8) (push_bit 24 (word_of_nat k))) XOR (if odd i then 0x04c11db7 else 0)"
      using crc32table_step [OF less.prems] less.IH [OF k(1)] k(2) by (simp add: k_def)
    also have "crc_shift ((crc_shift ^^ 8) (push_bit 24 (word_of_nat k))) = (crc_shift ^^ 8) (push_bit 25 (word_of_nat k))"
      by (subst funpow_swap1) (simp only: dbl)
    also have "(if odd i then 0x04c11db7 else 0) = (crc_shift ^^ 8) (push_bit 24 (of_bool (odd i)))"
      using crc_shift_poly crc_shift_zero by (cases "odd i") simp_all
    finally show ?thesis by (simp only: low_bit [of i] k_def crc_shift_pow)
  qed
qed

lemma crc32table_nth: "crc32table ! unat (w AND 255) = (crc_shift ^^ 8) (push_bit 24 w)"
proof -
  have w: "w AND 255 = w AND mask 8" by (simp add: mask_numeral)
  have "unat (w AND 255) < 256"
    unfolding w unat_mask_eq by simp
  then have "crc32table ! unat (w AND 255) = (crc_shift ^^ 8) (push_bit 24 (w AND 255))"
    by (simp add: crc32table_divides)
  also have "push_bit 24 (w AND 255) = push_bit 24 w"
    unfolding w by (rule bit_word_eqI) (auto simp: bit_simps)
  finally show ?thesis .
qed

lemma crc_byte_step:
  "push_bit 8 crc XOR crc32table ! unat ((drop_bit 24 crc XOR ucast b) AND 255)
   = (crc_shift ^^ 8) (crc XOR push_bit 24 (ucast b))"
proof -
  have "(crc_shift ^^ 8) (crc AND mask 24) = push_bit 8 (crc AND mask 24)"
    by (rule crc_shift_low_8, rule bit_word_eqI) (simp add: bit_simps)
  also have "\<dots> = push_bit 8 crc"
    by (rule bit_word_eqI) (auto simp: bit_simps)
  finally have "push_bit 8 crc XOR crc32table ! unat ((drop_bit 24 crc XOR ucast b) AND 255)
    = (crc_shift ^^ 8) (crc AND mask 24) XOR (crc_shift ^^ 8) (push_bit 24 (drop_bit 24 crc XOR ucast b))"
    by (simp add: crc32table_nth)
  also have "\<dots> = (crc_shift ^^ 8) (crc AND mask 24 XOR push_bit 24 (drop_bit 24 crc XOR ucast b))"
    by (simp only: crc_shift_pow)
  also have "crc AND mask 24 XOR push_bit 24 (drop_bit 24 crc XOR ucast b) = crc XOR push_bit 24 (ucast b)"
    by (rule bit_word_eqI) (auto simp: bit_simps)
  finally show ?thesis .
qed

lemma crc_shift_bit:
  assumes "j < 8"
  shows "(crc_shift ^^ j) (push_bit (31 - j) (of_bool q)) = push_bit 31 (of_bool q)"
proof -
  have "(crc_shift ^^ i) (push_bit (31 - j) (of_bool q)) = push_bit (31 - j + i) (of_bool q)" if "i \<le> j" for i
    using that
  proof (induction i)
    case (Suc i)
    have "\<not> bit (push_bit (31 - j + i) (of_bool q) :: u32) 31"
      using Suc.prems assms by (auto simp: bit_simps simp del: push_bit_of_1)
    with Suc show ?case
      by (simp add: crc_shift_low del: push_bit_of_1)
  qed simp
  from this [of j] show ?thesis using assms by simp
qed

lemma crc_top_bit:
  "push_bit 24 (ucast (b AND NOT (mask m) :: u8)) =
   push_bit 24 (ucast (b AND NOT (mask (Suc m)))) XOR (push_bit (24 + m) (of_bool (bit b m)) :: u32)"
proof (rule bit_word_eqI)
  fix n assume n: "n < LENGTH(32)"
  consider "n < 24" | "n = 24 + m" | i where "n = 24 + i" "i \<noteq> m"
    using le_Suc_ex [of 24 n] by force
  then show "bit (push_bit 24 (ucast (b AND NOT (mask m))) :: u32) n =
    bit (push_bit 24 (ucast (b AND NOT (mask (Suc m)))) XOR push_bit (24 + m) (of_bool (bit b m)) :: u32) n"
    using n by cases (simp_all add: bit_push_bit_iff bit_and_iff bit_not_iff bit_mask_iff bit_xor_iff bit_unsigned_iff
    bit_of_bool_iff less_Suc_eq del: push_bit_of_1)
qed

lemma crc_bits_prefix:
  "j \<le> 8 \<Longrightarrow> foldl crc_bit crc (map (bit b) (rev [8 - j..<8]))
     = (crc_shift ^^ j) (crc XOR push_bit 24 (ucast (b AND NOT (mask (8 - j)) :: u8)))"
proof (induction j)
  case 0
  have "b AND NOT (mask 8) = 0" by (rule bit_word_eqI) (simp add: bit_simps)
  then show ?case by simp
next
  case (Suc j)
  have rng: "[8 - Suc j..<8] = (7 - j) # [8 - j..<8]"
    using Suc.prems upt_conv_Cons [of "7 - j" 8] Suc_diff_le [of j 7] by simp
  define m where "m = 7 - j"
  have m: "8 - Suc j = m" "8 - j = Suc m" "31 - j = 24 + m" "7 - j = m"
    using Suc.prems by (auto simp: m_def)
  have split: "push_bit 24 (ucast (b AND NOT (mask (8 - Suc j)))) =
    push_bit 24 (ucast (b AND NOT (mask (8 - j)))) XOR (push_bit (31 - j) (of_bool (bit b (7 - j))) :: u32)"
    unfolding m by (rule crc_top_bit)
  have "foldl crc_bit crc (map (bit b) (rev [8 - Suc j..<8])) = crc_shift ((crc_shift ^^ j)
      (crc XOR push_bit 24 (ucast (b AND NOT (mask (8 - j))))) XOR (crc_shift ^^ j) (push_bit (31 - j) (of_bool (bit b (7 - j)))))"
    using Suc.IH Suc.prems
    by (simp only: rng rev.simps map_append foldl_append list.map foldl.simps crc_bit_shift [symmetric])
       (simp add: crc_bit_shift crc_shift_bit del: of_bool_eq_1_iff)
  then show ?case
    by (simp only: split crc_shift_pow [symmetric] funpow.simps comp_apply xor.assoc)
qed

lemma msb_bits_crc: "crc_spec crc (msb_bits b) = (crc_shift ^^ 8) (crc XOR push_bit 24 (ucast b))"
proof -
  have "msb_bits b = map (bit b) (rev [8 - 8..<8])"
    by (simp add: msb_bits_def upt_rec) (simp add: eval_nat_numeral)
  then show ?thesis
    using crc_bits_prefix [of 8 crc b] by (simp add: crc_spec_def)
qed

lemma crc_bytes: "foldl (\<lambda>crc b. push_bit 8 crc XOR crc32table ! unat ((drop_bit 24 crc XOR ucast b) AND 255)) init bs
  = crc_spec init (concat (map msb_bits bs))"
  by (induction bs arbitrary: init) (simp_all add: crc_byte_step msb_bits_crc[symmetric] crc_spec_def)

lemma byteCrc32_spec:
  "n \<le> length buf \<Longrightarrow> byteCrc32 buf n init = Some (crc_spec init (concat (map msb_bits (take n buf))))"
  by (simp add: byteCrc32_def crc_bytes)

text \<open>
  C17: for every buffer and every length within it, \<open>byteCrc32\<close> returns the remainder of the
  bit-by-bit division of the message by the polynomial 0x04c11db7, started from the initial value;
  a message can be fed in two parts, the first result being the initial value of the second call.
\<close>

theorem byteCrc32_divides:
  assumes "n \<le> length buf"
  shows "byteCrc32 buf n init = Some (crc_spec init (concat (map msb_bits (take n buf))))
    \<and> (\<forall>buf2 m crc. byteCrc32 buf n init = Some crc \<longrightarrow>
         byteCrc32 (take n buf @ buf2) (n + m) init = byteCrc32 buf2 m crc)"
  using assms by (auto simp: byteCrc32_def crc_bytes crc_spec_def)

theorem byteCrc32_divides_witness:
  "byteCrc32 [0x31, 0x32, 0x33] 2 0 = Some (crc_spec 0 (msb_bits 0x31 @ msb_bits 0x32))
   \<and> byteCrc32 [0x31, 0x32, 0x33] 2 0 \<noteq> Some 0"
proof -
  have "byteCrc32 [0x31, 0x32, 0x33] 2 0 \<noteq> Some 0"
    by (simp add: byteCrc32_def crc32table_def)
  then show ?thesis
    using byteCrc32_divides [of 2 "[0x31, 0x32, 0x33]" 0] by simp
qed

subsection \<open>Errors the CRC detects\<close>

lemma crc_shift_eq_0: "crc_shift x = 0 \<Longrightarrow> x = 0"
proof -
  assume z: "crc_shift x = 0"
  have nb: "\<not> bit x 31"
  proof
    assume "bit x 31"
    then have "bit (crc_shift x) 0"
      by (simp only: crc_shift_def if_True bit_xor_iff bit_push_bit_iff) simp
    then show False by (simp add: z)
  qed
  then have p: "push_bit 1 x = 0" using z by (simp only: crc_shift_def if_False)
  show "x = 0"
  proof (rule bit_word_eqI)
    fix j assume "j < LENGTH(32)"
    then show "bit x j = bit 0 j"
      using nb arg_cong [OF p, of "\<lambda>w. bit w (Suc j)"] by (cases "j = 31") (simp_all only: bit_push_bit_iff possible_bit_word bit_0_eq bot_apply, auto)
  qed
qed

lemma xor_cancel: "(z XOR x = z XOR y) = (x = (y :: 'a::len word))" "(x XOR z = y XOR z) = (x = y)"
  by (auto simp: bit_eq_iff bit_xor_iff)

lemma crc_shift_inj: "crc_shift x = crc_shift y \<longleftrightarrow> x = y"
  using crc_shift_eq_0 [of "x XOR y"] xor_cancel(1) [of x y x]
  by (auto simp: crc_shift_xor xor.assoc [symmetric])

lemma crc_shift_pow_inj: "(crc_shift ^^ k) x = (crc_shift ^^ k) y \<longleftrightarrow> x = y"
  by (induction k) (simp_all add: crc_shift_inj)

primrec pack_be :: "u8 list \<Rightarrow> u32" where
  "pack_be [] = 0"
| "pack_be (b # bs) = push_bit 24 (ucast b) XOR drop_bit 8 (pack_be bs)"

lemma pack_be_low: "i < 32 - 8 * length bs \<Longrightarrow> \<not> bit (pack_be bs) i"
  by (induction bs arbitrary: i) (auto simp: bit_simps)

lemma crc_packed:
  "length bs \<le> 4 \<Longrightarrow> crc_spec crc (concat (map msb_bits bs)) = (crc_shift ^^ (8 * length bs)) (crc XOR pack_be bs)"
proof (induction bs arbitrary: crc)
  case (Cons b bs)
  have "(crc_shift ^^ 8) (drop_bit 8 (pack_be bs)) = push_bit 8 (drop_bit 8 (pack_be bs))"
    by (rule crc_shift_low_8, rule bit_word_eqI) (simp add: bit_simps)
  also have "\<dots> = pack_be bs"
  proof (rule bit_word_eqI)
    fix n assume "n < LENGTH(32)"
    then show "bit (push_bit 8 (drop_bit 8 (pack_be bs))) n = bit (pack_be bs) n"
      using Cons.prems pack_be_low [of n bs] by (cases "8 \<le> n") (auto simp: bit_simps)
  qed
  finally have p: "(crc_shift ^^ 8) (drop_bit 8 (pack_be bs)) = pack_be bs" .
  have "crc_spec crc (concat (map msb_bits (b # bs)))
    = crc_spec ((crc_shift ^^ 8) (crc XOR push_bit 24 (ucast b))) (concat (map msb_bits bs))"
    by (simp add: msb_bits_crc [symmetric]) (simp add: crc_spec_def)
  also have "\<dots> = (crc_shift ^^ (8 * length bs)) ((crc_shift ^^ 8) (crc XOR pack_be (b # bs)))"
    using Cons by (simp add: crc_shift_pow p xor.assoc)
  also have "\<dots> = (crc_shift ^^ (8 * length bs + 8)) (crc XOR pack_be (b # bs))"
    by (simp only: funpow_add comp_apply)
  finally show ?case by (simp add: add.commute)
qed (simp add: crc_spec_def)

lemma pack_be_inj: "length xs = length ys \<Longrightarrow> length xs \<le> 4 \<Longrightarrow> pack_be xs = pack_be ys \<Longrightarrow> xs = ys"
proof (induction xs ys rule: list_induct2)
  case (Cons x xs y ys)
  have b: "bit (pack_be (x # xs)) i = bit (pack_be (y # ys)) i" for i using Cons.prems by simp
  have "bit x i = bit y i" if "i < 8" for i
    using b [of "24 + i"] that bit_imp_le_length [of "pack_be _" "32 + i"] by (auto simp: bit_simps)
  then have "x = y" by (intro bit_word_eqI) simp
  have "bit (pack_be xs) i = bit (pack_be ys) i" if "i < 32" for i
  proof (cases "8 \<le> i")
    case True
    then obtain k where "i = 8 + k" using le_Suc_ex by blast
    then show ?thesis using b [of k] that \<open>x = y\<close> by (auto simp: bit_simps)
  next
    case False
    then show ?thesis using pack_be_low [of i xs] pack_be_low [of i ys] Cons by simp
  qed
  then have "pack_be xs = pack_be ys" by (intro bit_word_eqI) simp
  then show ?case using Cons \<open>x = y\<close> by simp
qed simp

lemma crc_spec_append: "crc_spec c (xs @ ys) = crc_spec (crc_spec c xs) ys"
  by (simp add: crc_spec_def)

lemma crc_spec_inj: "crc_spec x bs = crc_spec y bs \<longleftrightarrow> x = y"
  by (induction bs arbitrary: x y) (simp_all add: crc_spec_def crc_bit_shift crc_shift_inj xor_cancel)

text \<open>
  C35: two messages of the same length that differ only within four consecutive bytes have different
  checksums, whatever the initial value and whatever precedes and follows the difference.
\<close>

theorem byteCrc32_detects_burst:
  assumes "length xs = length ys" and "length xs \<le> 4" and "xs \<noteq> ys"
  shows "byteCrc32 (pre @ xs @ post) (length (pre @ xs @ post)) init
       \<noteq> byteCrc32 (pre @ ys @ post) (length (pre @ ys @ post)) init"
  using assms pack_be_inj [of xs ys]
  by (auto simp: xor_cancel byteCrc32_spec crc_spec_append crc_spec_inj crc_packed crc_shift_pow_inj)

theorem byteCrc32_detects_burst_witness:
  "byteCrc32 [1, 2, 3, 4, 5, 6] 6 0 \<noteq> byteCrc32 [1, 9, 3, 0, 5, 6] 6 0"
proof -
  have len: "length ([1] @ [2, 3, 4] @ [5, 6 :: u8]) = 6" "length ([1] @ [9, 3, 0] @ [5, 6 :: u8]) = 6"
    by simp_all
  show ?thesis
    using byteCrc32_detects_burst [of "[2, 3, 4]" "[9, 3, 0]" "[1]" "[5, 6]" 0, unfolded len] by simp
qed

section \<open>Jenkins hash: words and bytes, and the mixing step\<close>

lemma bytes_of_word:
  "push_bit 24 (ucast (store_le 4 w ! 3)) + push_bit 16 (ucast (store_le 4 w ! 2))
   + push_bit 8 (ucast (store_le 4 w ! 1)) + ucast (store_le 4 w ! 0) = (w :: u32)"
proof -
  let ?b = "\<lambda>i. ucast (store_le 4 w ! i) :: u32"
  have or_add: "x + y = x OR y" if "\<And>n. bit x n \<Longrightarrow> bit y n \<Longrightarrow> False" for x y :: u32
    by (rule disjunctive_add_eq_or, rule bit_word_eqI) (use that in \<open>auto simp: bit_and_iff\<close>)
  have "push_bit 24 (?b 3) + push_bit 16 (?b 2) + push_bit 8 (?b 1) + ?b 0
      = push_bit 24 (?b 3) OR push_bit 16 (?b 2) OR push_bit 8 (?b 1) OR ?b 0"
    by (subst or_add, force simp: bit_simps store_le_nth)+ (simp add: or.assoc)
  also have "\<dots> = w"
  proof (rule bit_word_eqI)
    fix n assume n: "n < LENGTH(32)"
    consider "n < 8" | "8 \<le> n" "n < 16" | "16 \<le> n" "n < 24" | "24 \<le> n"
      by linarith
    then show "bit (push_bit 24 (?b 3) OR push_bit 16 (?b 2) OR push_bit 8 (?b 1) OR ?b 0) n = bit w n"
      using n by cases (auto simp: bit_simps store_le_nth)
  qed
  finally show ?thesis .
qed

lemma add_bytes_of_word:
  "a + push_bit 24 (ucast (store_le 4 w ! 3)) + push_bit 16 (ucast (store_le 4 w ! 2))
   + push_bit 8 (ucast (store_le 4 w ! 1)) + ucast (store_le 4 w ! 0) = a + (w :: u32)"
  using arg_cong [OF bytes_of_word [of w], of "\<lambda>x. a + x"] by (simp only: add.assoc)

lemma length_concat_words [simp]: "length (concat (map (store_le 4) ws)) = 4 * length ws"
  by (induction ws) simp_all

lemma jhash_last_words:
  "jhash_last (a, b, c) (store_le 4 k0 @ store_le 4 k1 @ store_le 4 k2) = snd (snd (u_jhash_final (a + k0, b + k1, c + k2)))"
  "jhash_last (a, b, c) (store_le 4 k0 @ store_le 4 k1) = snd (snd (u_jhash_final (a + k0, b + k1, c)))"
  "jhash_last (a, b, c) (store_le 4 k0) = snd (snd (u_jhash_final (a + k0, b, c)))"
  "jhash_last (a, b, c) [] = c"
  by (simp_all add: jhash_last_def nth_append add_bytes_of_word [unfolded One_nat_def])

lemma jhash_loop_words: "jhash_loop abc (concat (map (store_le 4) ws)) = jhash2_loop abc ws"
proof (induction abc ws rule: jhash2_loop.induct)
  case (1 a b c k0 k1 k2 k3 ks)
  then show ?case
    by (subst jhash_loop.simps) (simp add: load_store_le)
qed (simp_all add: jhash_last_words)

lemma u_jhash_mix_inj: "u_jhash_mix p = u_jhash_mix q \<longleftrightarrow> p = q"
  by (cases p; cases q) (auto simp: u_jhash_mix_def Let_def xor_cancel)

text \<open>
  C36: hashing an array of 32-bit words with \<open>jhash2\<close> gives what \<open>jhash\<close> gives on its bytes, and the
  functions for one, two and three words are \<open>jhash2\<close> on arrays of that length; the mixing step of
  both loops loses no information.
\<close>

theorem jhash_words_bytes:
  assumes "length ws < 2 ^ 30"
  shows "jhash (concat (map (store_le 4) ws)) (word_of_nat (4 * length ws)) initval = jhash2 ws (word_of_nat (length ws)) initval
    \<and> jhash2 ws (word_of_nat (length ws)) initval \<noteq> None
    \<and> jhash2 [a, b, c] 3 initval = Some (jhash_3words a b c initval)
    \<and> jhash2 [a, b] 2 initval = Some (jhash_2words a b initval)
    \<and> jhash2 [a] 1 initval = Some (jhash_1word a initval)
    \<and> inj u_jhash_mix"
proof (intro conjI)
  have len: "unat (word_of_nat n :: u32) = n" if "n < 2 ^ 32" for n
    using that by (simp add: unat_of_nat take_bit_nat_eq_self)
  have n: "unat (word_of_nat (length ws) :: u32) = length ws" "unat (word_of_nat (4 * length ws) :: u32) = 4 * length ws"
    using assms by (intro len; simp)+
  have p: "push_bit 2 (word_of_nat (length ws)) = (word_of_nat (4 * length ws) :: u32)"
    by (simp add: push_bit_eq_mult mult.commute)
  show "jhash (concat (map (store_le 4) ws)) (word_of_nat (4 * length ws)) initval = jhash2 ws (word_of_nat (length ws)) initval"
    by (simp only: jhash_def jhash2_def n p length_concat_words jhash_loop_words take_all order.refl if_True Let_def)
  show "jhash2 ws (word_of_nat (length ws)) initval \<noteq> None"
    by (simp add: jhash2_def n Let_def)
  show "inj u_jhash_mix"
    by (simp add: inj_def u_jhash_mix_inj)
  have "unat (3 :: u32) = length [a, b, c]" "unat (2 :: u32) = length [a, b]" "unat (1 :: u32) = length [a]"
    by simp_all
  note w = this [THEN eq_refl] this
  show "jhash2 [a, b, c] 3 initval = Some (jhash_3words a b c initval)"
    "jhash2 [a, b] 2 initval = Some (jhash_2words a b initval)"
    "jhash2 [a] 1 initval = Some (jhash_1word a initval)"
    by (simp_all only: jhash2_def w take_all if_True Let_def order.refl jhash2_loop.simps jhash_3words_def jhash_2words_def
        jhash_1word_def u_jhash_nwords_def ac_simps add_0_left)
qed

theorem jhash_words_bytes_witness:
  "jhash (store_le 4 (7 :: u32) @ store_le 4 (9 :: u32)) 8 5 = jhash2 [7, 9] 2 5"
  using jhash_words_bytes [of "[7, 9]" 5 0 0 0] by simp

section \<open>Ranges of the other hashes\<close>

lemma hash_32_bound: "bits \<le> 32 \<Longrightarrow> unat (hash_32 v bits) < 2 ^ bits"
  by (rule no_bit_less_pow2) (auto simp: hash_32_def bit_simps dest: bit_imp_le_length)

lemma hash_64_bound: "bits \<le> 32 \<Longrightarrow> unat (hash_64 v bits) < 2 ^ bits"
  by (rule no_bit_less_pow2) (auto simp: hash_64_def bit_simps dest: bit_imp_le_length)

lemma HashReduceBit_nonzero: "HashReduceBit key n \<noteq> Some 0"
  by (auto simp: HashReduceBit_def Let_def split: option.splits if_splits)

lemma HashIgnoreCase_same:
  assumes "list_all2 (\<lambda>x y. x OR 0x20 = y OR (0x20 :: u8)) xs ys"
  shows "HashIgnoreCaseTime33 (Some xs) (int (length xs)) = HashIgnoreCaseTime33 (Some ys) (int (length ys))"
proof -
  have case_bit: "ucast x OR 0x20 = (ucast y OR 0x20 :: u32)" if "x OR 0x20 = y OR (0x20 :: u8)" for x y
    using arg_cong [OF that, of "\<lambda>w. ucast w :: u32"] by (simp add: unsigned_or_eq)
  have "foldl (\<lambda>h b. h * 33 + (ucast b OR 0x20)) h xs = foldl (\<lambda>h b. h * 33 + (ucast b OR 0x20)) (h :: u32) ys" for h
    
    using assms
  proof (induction xs arbitrary: ys h)
    case (Cons x xs)
    then obtain y ys' where y: "ys = y # ys'" "x OR 0x20 = y OR 0x20" "list_all2 (\<lambda>x y. x OR 0x20 = y OR 0x20) xs ys'"
      by (auto simp: list_all2_Cons1)
    show ?case
      by (simp only: y(1) foldl.simps case_bit [OF y(2)] Cons.IH [OF y(3)])
  qed simp
  from this [of 0] show ?thesis
    by (simp add: HashIgnoreCaseTime33_def key_bytes_def)
qed

lemma pjw_step_bound: "unat (pjw_step h b) < 2 ^ 28"
proof (rule no_bit_less_pow2)
  fix j :: nat
  assume j: "28 \<le> j"
  define x where "x = push_bit 4 h + ucast b"
  define g where "g = x AND push_bit 28 (mask 4)"
  have "pjw_step h b = (if g \<noteq> 0 then x XOR drop_bit 24 g else x) AND NOT g"
    by (simp add: pjw_step_def Let_def x_def g_def mask_numeral)
  then show "\<not> bit (pjw_step h b) j"
    using j by (auto simp: g_def bit_simps dest: bit_imp_le_length)
qed

lemma HashPJW_bound:
  assumes "HashPJW (Some mem) keyLen = Some h" and "key_bytes mem keyLen = Some bs" and "bs \<noteq> []"
  shows "unat h < 2 ^ 28"
  using assms pjw_step_bound by (cases bs rule: rev_cases) (auto simp: HashPJW_def)

end
