(* ===== verification/Dict.thy ===== *)
theory Dict
  imports Bitmap Hash
begin

text \<open>
  The hash table of \<open>src/adt/dict.c\<close> and \<open>include/skp/adt/dict.h\<close>: two tables of chains, a bitmap of
  the non-empty chains of each, and a rehash that moves the chains to the other table a few at a
  time.  Nodes are addresses (0 is the null pointer) and their fields, the links among them, are in a
  store; the user's callbacks are a record of functions.  A result \<open>None\<close> is a \<open>BUG_ON\<close> that fires,
  an access outside a table, or a walk that does not end.
\<close>

section \<open>Data\<close>

definition DICT_NODE_POSITION :: nat where
  "DICT_NODE_POSITION = 0xdead"

record dict_node =
  dnext :: nat
  hvalue :: u32
  whichb :: nat
  bindex :: u32

definition dict_node_init :: dict_node where
  "dict_node_init = \<lparr>dnext = DICT_NODE_POSITION, hvalue = -1, whichb = 1, bindex = take_bit 31 (-1)\<rparr>"

text \<open>An unallocated table has no buckets and no mapping.\<close>

record dict_table =
  nr_nodes :: u32
  tsize :: u32
  bucket :: "nat list"
  mapping :: "ulongs option"

record 'k dict_ops =
  calc_hash :: "'k \<Rightarrow> u32"
  compare_key :: "nat \<Rightarrow> 'k \<Rightarrow> u32 \<Rightarrow> int"
  compare_node :: "nat \<Rightarrow> nat \<Rightarrow> int"

record dict =
  rehashidx :: int
  expand_ratio :: u16
  reduce_ratio :: u16
  init_size :: u32
  active :: nat
  rehash :: nat
  tables :: "nat \<Rightarrow> dict_table"
  nodes :: "nat \<Rightarrow> dict_node"

record dict_attr =
  attr_expand_ratio :: u16
  attr_reduce_ratio :: u16
  attr_init_size :: u32

definition DICT_INIT_SIZE :: u32 where "DICT_INIT_SIZE = push_bit 7 1"
definition DICT_EXPAND_RATIO :: u16 where "DICT_EXPAND_RATIO = 8"
definition DICT_REDUCE_RATIO :: u16 where "DICT_REDUCE_RATIO = 2"

definition upd_table :: "nat \<Rightarrow> (dict_table \<Rightarrow> dict_table) \<Rightarrow> dict \<Rightarrow> dict" where
  "upd_table t f d = d\<lparr>tables := (tables d)(t := f (tables d t))\<rparr>"

definition upd_node :: "nat \<Rightarrow> (dict_node \<Rightarrow> dict_node) \<Rightarrow> dict \<Rightarrow> dict" where
  "upd_node n f d = d\<lparr>nodes := (nodes d)(n := f (nodes d n))\<rparr>"

section \<open>Buckets\<close>

text \<open>A \<open>dictnode_t *\<close>: the address of the head of a bucket or of the \<open>next\<close> field of a node.\<close>

datatype dlink = Head nat nat | Next nat

fun read_link :: "dict \<Rightarrow> dlink \<Rightarrow> nat" where
  "read_link d (Head t i) = bucket (tables d t) ! i"
| "read_link d (Next n) = dnext (nodes d n)"

fun write_link :: "dict \<Rightarrow> dlink \<Rightarrow> nat \<Rightarrow> dict" where
  "write_link d (Head t i) v = upd_table t (\<lambda>tb. tb\<lparr>bucket := (bucket tb)[i := v]\<rparr>) d"
| "write_link d (Next n) v = upd_node n (\<lambda>x. x\<lparr>dnext := v\<rparr>) d"

definition u_bucket_empty :: "dict \<Rightarrow> nat \<Rightarrow> nat \<Rightarrow> bool" where
  "u_bucket_empty d t i = (read_link d (Head t i) = 0)"

definition u_dnode_linked :: "dict \<Rightarrow> nat \<Rightarrow> bool" where
  "u_dnode_linked d n = (n \<noteq> 0 \<and> dnext (nodes d n) \<noteq> DICT_NODE_POSITION)"

definition u_erase_first_node :: "dict \<Rightarrow> nat \<Rightarrow> nat \<Rightarrow> nat \<times> dict" where
  "u_erase_first_node d t i =
     (let node = read_link d (Head t i)
      in (node, if node \<noteq> 0 then write_link d (Head t i) (dnext (nodes d node)) else d))"

definition u_insert_node :: "dict \<Rightarrow> nat \<Rightarrow> dlink \<Rightarrow> dict" where
  "u_insert_node d node link =
     write_link (upd_node node (\<lambda>x. x\<lparr>dnext := read_link d link\<rparr>) d) link node"

definition u_erase_node :: "dict \<Rightarrow> nat \<Rightarrow> dlink \<Rightarrow> dict" where
  "u_erase_node d node link = write_link d link (dnext (nodes d node))"

text \<open>The walk of both lookup functions, up to the first node that compares equal or the null link.\<close>

partial_function (option) bucket_walk :: "(nat \<Rightarrow> bool) \<Rightarrow> dict \<Rightarrow> dlink \<Rightarrow> (nat \<times> dlink) option" where
  [code]: "bucket_walk found d link =
     (let n = read_link d link in
      if n = 0 \<or> found n then Some (n, link) else bucket_walk found d (Next n))"

definition u_bucket_lookup_key :: "'k dict_ops \<Rightarrow> dict \<Rightarrow> nat \<Rightarrow> nat \<Rightarrow> 'k \<Rightarrow> u32 \<Rightarrow> (nat \<times> dlink) option" where
  "u_bucket_lookup_key ops d t i key hv = bucket_walk (\<lambda>n. compare_key ops n key hv = 0) d (Head t i)"

definition u_bucket_lookup_node :: "'k dict_ops \<Rightarrow> dict \<Rightarrow> nat \<Rightarrow> nat \<Rightarrow> nat \<Rightarrow> (nat \<times> dlink) option" where
  "u_bucket_lookup_node ops d t i src = bucket_walk (\<lambda>n. compare_node ops n src = 0) d (Head t i)"

definition u_erase_node_after :: "dict \<Rightarrow> nat \<Rightarrow> nat \<Rightarrow> dict" where
  "u_erase_node_after d t idx =
     (let d = upd_table t (\<lambda>tb. tb\<lparr>nr_nodes := nr_nodes tb - 1\<rparr>) d
      in if u_bucket_empty d t idx
         then upd_table t (\<lambda>tb. tb\<lparr>mapping := map_option (clear_bit_at idx) (mapping tb)\<rparr>) d else d)"

definition u_insert_node_before :: "dict \<Rightarrow> nat \<Rightarrow> nat \<Rightarrow> dict" where
  "u_insert_node_before d t idx =
     (let d = (if u_bucket_empty d t idx
               then upd_table t (\<lambda>tb. tb\<lparr>mapping := map_option (set_bit_at idx) (mapping tb)\<rparr>) d else d)
      in upd_table t (\<lambda>tb. tb\<lparr>nr_nodes := nr_nodes tb + 1\<rparr>) d)"

text \<open>The index of the bucket of a hash value; \<open>None\<close> when the table has no such bucket.\<close>

definition u_get_bucket :: "dict_table \<Rightarrow> u32 \<Rightarrow> u32 option" where
  "u_get_bucket tb hv =
     (let idx = hv AND (tsize tb - 1) in if unat idx < length (bucket tb) then Some idx else None)"

definition table_no :: "nat \<Rightarrow> nat" where
  "table_no t = (if t = 0 then 0 else 1)"

partial_function (option) u_bucket_rehash :: "dict \<Rightarrow> nat \<Rightarrow> dict option" where
  [code]: "u_bucket_rehash d b =
     (let (node, d) = u_erase_first_node d (active d) b in
      if node = 0 then Some d
      else
        let d = u_erase_node_after d (active d) b in
        (case u_get_bucket (tables d (rehash d)) (hvalue (nodes d node)) of
           None \<Rightarrow> None
         | Some idx \<Rightarrow>
             let d = u_insert_node_before d (rehash d) (unat idx);
                 d = u_insert_node d node (Head (rehash d) (unat idx));
                 d = upd_node node (\<lambda>x. x\<lparr>bindex := take_bit 31 idx, whichb := table_no (rehash d)\<rparr>) d
             in u_bucket_rehash d b))"

section \<open>Tables\<close>

definition u_dict_is_rehashing :: "dict \<Rightarrow> bool" where
  "u_dict_is_rehashing d = (rehashidx d \<noteq> -1)"

definition dict_nodes :: "dict \<Rightarrow> u32" where
  "dict_nodes d = nr_nodes (tables d (active d)) +
     (if rehashidx d > -1 then nr_nodes (tables d (rehash d)) else 0)"

text \<open>
  What the two calls of \<open>malloc\<close> return: a block of arbitrary contents for the mapping, or null, and
  whether there is memory for the buckets.
\<close>

type_synonym dict_mem = "ulongs option \<times> bool"

definition dict_table_init :: "dict_mem \<Rightarrow> dict \<Rightarrow> nat \<Rightarrow> u32 \<Rightarrow> errno option \<times> dict" where
  "dict_table_init mem d t sz =
     (let d = upd_table t (\<lambda>tb. \<lparr>nr_nodes = 0, tsize = sz, bucket = [], mapping = None\<rparr>) d in
      if sz = 0 then
        (None, if t = rehash d \<and> u_dict_is_rehashing d then d\<lparr>rehashidx := -1\<rparr> else d)
      else if fst mem = None then (Some ENOMEM, d)
      else if \<not> snd mem then (Some ENOMEM, d)
      else
        (let d = upd_table t (\<lambda>tb. tb\<lparr>bucket := replicate (unat sz) 0, mapping := Some (bitmap_zero False (the (fst mem)) (unat sz))\<rparr>) d
         in (None, if t = rehash d then d\<lparr>rehashidx := 0\<rparr> else d)))"

definition table_release :: "dict \<Rightarrow> nat \<Rightarrow> dict" where
  "table_release d t = snd (dict_table_init (None, False) d t 0)"

text \<open>One turn of the loop of \<open>__dict_rehash\<close> moves one bucket or, when the active table is empty,
  ends the rehash.\<close>

primrec u_dict_rehash_loop :: "dict \<Rightarrow> nat \<Rightarrow> (bool \<times> dict) option" where
  "u_dict_rehash_loop d 0 = Some (True, d)"
| "u_dict_rehash_loop d (Suc step) =
     (if nr_nodes (tables d (active d)) = 0
      then let d = d\<lparr>active := rehash d, rehash := active d\<rparr>
           in Some (False, table_release d (rehash d))
      else
        (case mapping (tables d (active d)) of None \<Rightarrow> None
         | Some mp \<Rightarrow>
             let index = find_next_bit mp (unat (tsize (tables d (active d)))) (nat (rehashidx d));
                 d = d\<lparr>rehashidx := int index + 1\<rparr>
             in if index < length (bucket (tables d (active d)))
                then (case u_bucket_rehash d index of None \<Rightarrow> None
                      | Some d \<Rightarrow> u_dict_rehash_loop d step)
                else None))"

definition u_dict_rehash :: "dict \<Rightarrow> nat \<Rightarrow> (bool \<times> dict) option" where
  "u_dict_rehash d step = (if u_dict_is_rehashing d then u_dict_rehash_loop d step else Some (False, d))"

definition dict_check_rehashing :: "dict \<Rightarrow> (bool \<times> dict) option" where
  "dict_check_rehashing d =
     (if u_dict_is_rehashing d
      then let curs = nr_nodes (tables d (active d)) div tsize (tables d (active d))
           in u_dict_rehash d (unat (min (max curs 2) 8))
      else Some (False, d))"

text \<open>
  The size test compares the quotient of two 32-bit numbers, computed in \<open>double\<close>, with a ratio; a
  table size is a power of two, so the quotient is exact and the comparison is the one of the
  products.
\<close>

definition u_dict_resize_if_needed :: "dict_mem \<Rightarrow> dict \<Rightarrow> bool \<Rightarrow> bool \<times> dict" where
  "u_dict_resize_if_needed mem d isexpand =
     (let cur = nr_nodes (tables d (active d));
          old = tsize (tables d (active d))
      in if cur = 0 \<or> u_dict_is_rehashing d then (False, d)
         else
           (let sz = (if isexpand \<and> expand_ratio d \<noteq> -1 \<and> old \<le> cur \<and> unat (expand_ratio d) * unat old < unat cur
                      then Some (max old (push_bit 1 old))
                      else if \<not> isexpand \<and> cur < old \<and> expand_ratio d \<noteq> 1 \<and> unat cur < unat (reduce_ratio d) * unat old
                      then Some (max (init_size d) (drop_bit 1 old))
                      else None)
            in case sz of None \<Rightarrow> (False, d)
               | Some sz \<Rightarrow>
                   if sz = old \<or> sz = 0 then (False, d)
                   else (case dict_table_init mem d (rehash d) sz of
                           (Some e, d) \<Rightarrow> (False, d)
                         | (None, d) \<Rightarrow> (True, d))))"

section \<open>Operations\<close>

definition dict_init :: "dict_mem \<Rightarrow> (nat \<Rightarrow> dict_node) \<Rightarrow> dict_attr \<Rightarrow> (errno option \<times> dict) option" where
  "dict_init mem store attr =
     (let unset = \<lparr>nr_nodes = 0, tsize = 0, bucket = [], mapping = None\<rparr>;
          isz = (if attr_init_size attr = 0 then DICT_INIT_SIZE else attr_init_size attr);
          d = \<lparr>rehashidx = -1,
               expand_ratio = (if attr_expand_ratio attr = 0 then DICT_EXPAND_RATIO else attr_expand_ratio attr),
               reduce_ratio = (if attr_reduce_ratio attr = 0 then DICT_REDUCE_RATIO else attr_reduce_ratio attr),
               init_size = ucast (u_roundup_pow_of_two (ucast isz)),
               active = 0, rehash = 1, tables = (\<lambda>_. unset), nodes = store\<rparr>
      in if expand_ratio d \<le> reduce_ratio d then None
         else (case dict_table_init mem d (active d) (init_size d) of
                 (Some e, d) \<Rightarrow> Some (Some e, d)
               | (None, d) \<Rightarrow> Some (None, snd (dict_table_init mem d (rehash d) 0))))"

text \<open>\<open>__start_lookup\<close>: the node found or null, and the table, bucket and link where the walk ended.\<close>

definition u_start_lookup :: "'k dict_ops \<Rightarrow> dict \<Rightarrow> 'k \<Rightarrow> (nat \<times> nat \<times> u32 \<times> u32 \<times> dlink) option" where
  "u_start_lookup ops d key =
     (let hv = calc_hash ops key in
      case u_get_bucket (tables d (active d)) hv of None \<Rightarrow> None
      | Some idx \<Rightarrow>
          (case u_bucket_lookup_key ops d (active d) (unat idx) key hv of None \<Rightarrow> None
           | Some (n, link) \<Rightarrow>
               if n = 0 \<and> u_dict_is_rehashing d then
                 (case u_get_bucket (tables d (rehash d)) hv of None \<Rightarrow> None
                  | Some idx \<Rightarrow>
                      (case u_bucket_lookup_key ops d (rehash d) (unat idx) key hv of None \<Rightarrow> None
                       | Some (n, link) \<Rightarrow> Some (n, rehash d, hv, idx, link)))
               else Some (n, active d, hv, idx, link)))"

definition dict_insert :: "'k dict_ops \<Rightarrow> dict_mem \<Rightarrow> dict \<Rightarrow> 'k \<Rightarrow> nat \<Rightarrow> (nat \<times> dict) option" where
  "dict_insert ops mem d key node =
     (case dict_check_rehashing d of None \<Rightarrow> None
      | Some (_, d) \<Rightarrow>
          let d = snd (u_dict_resize_if_needed mem d True) in
          (case u_start_lookup ops d key of None \<Rightarrow> None
           | Some (old, t, hv, idx, link) \<Rightarrow>
               if old \<noteq> 0 then Some (old, d)
               else
                 let d = upd_node node (\<lambda>x. x\<lparr>hvalue := hv, whichb := table_no t, bindex := take_bit 31 idx\<rparr>) d;
                     d = u_insert_node_before d t (unat idx);
                     d = u_insert_node d node link
                 in Some (0, d)))"

definition dict_lookup :: "'k dict_ops \<Rightarrow> dict \<Rightarrow> 'k \<Rightarrow> nat option" where
  "dict_lookup ops d key =
     (if dict_nodes d = 0 then Some 0 else map_option fst (u_start_lookup ops d key))"

definition dict_lookup_remove :: "'k dict_ops \<Rightarrow> dict_mem \<Rightarrow> dict \<Rightarrow> 'k \<Rightarrow> (nat \<times> dict) option" where
  "dict_lookup_remove ops mem d key =
     (case dict_check_rehashing d of None \<Rightarrow> None
      | Some (_, d) \<Rightarrow>
          if dict_nodes d = 0 then Some (0, d)
          else
            (case u_start_lookup ops d key of None \<Rightarrow> None
             | Some (node, t, hv, idx, link) \<Rightarrow>
                 if node = 0 then Some (0, d)
                 else
                   let d = u_erase_node d node link;
                       d = u_erase_node_after d t (unat idx);
                       d = snd (u_dict_resize_if_needed mem d False);
                       d = upd_node node (\<lambda>_. dict_node_init) d
                   in Some (node, d)))"

definition dict_direct_remove :: "'k dict_ops \<Rightarrow> dict_mem \<Rightarrow> dict \<Rightarrow> nat \<Rightarrow> (errno option \<times> dict) option" where
  "dict_direct_remove ops mem d node =
     (if \<not> u_dnode_linked d node then Some (Some EINVAL, d)
      else
        let t = whichb (nodes d node) in
        (case u_get_bucket (tables d t) (hvalue (nodes d node)) of None \<Rightarrow> None
         | Some idx \<Rightarrow>
             if idx \<noteq> bindex (nodes d node) then None
             else
               (case u_bucket_lookup_node ops d t (unat idx) node of None \<Rightarrow> None
                | Some (tmp, link) \<Rightarrow>
                    if tmp \<noteq> node then None
                    else
                      let d = u_erase_node d node link;
                          d = u_erase_node_after d t (unat idx);
                          d = snd (u_dict_resize_if_needed mem d False);
                          d = upd_node node (\<lambda>_. dict_node_init) d
                      in Some (None, d))))"

section \<open>Iteration\<close>

text \<open>The iterator is its \<open>next\<close> field; \<open>None\<close> is an access outside the table.\<close>

definition dict_iter_init :: "dict \<Rightarrow> nat option" where
  "dict_iter_init d =
     (if dict_nodes d \<noteq> 0 then
        (case mapping (tables d (active d)) of None \<Rightarrow> None
         | Some mp \<Rightarrow>
             let b = find_next_bit mp (unat (tsize (tables d (active d)))) 0 in
             if b < length (bucket (tables d (active d))) \<and> bucket (tables d (active d)) ! b \<noteq> 0
             then Some (bucket (tables d (active d)) ! b) else None)
      else Some 0)"

definition iter_scan :: "dict \<Rightarrow> nat \<Rightarrow> nat \<Rightarrow> nat option option" where
  "iter_scan d t start =
     (case mapping (tables d t) of None \<Rightarrow> None
      | Some mp \<Rightarrow>
          let b = find_next_bit mp (unat (tsize (tables d t))) start in
          if b \<ge> unat (tsize (tables d t)) then Some None
          else if b < length (bucket (tables d t)) then Some (Some (bucket (tables d t) ! b)) else None)"

definition iter_try :: "dict \<Rightarrow> nat \<Rightarrow> nat option" where
  "iter_try d t =
     (if t = rehash d \<or> \<not> u_dict_is_rehashing d then Some 0
      else (case iter_scan d (rehash d) 0 of None \<Rightarrow> None
            | Some None \<Rightarrow> Some 0
            | Some (Some h) \<Rightarrow> Some h))"

text \<open>The node returned and the new \<open>next\<close> field.\<close>

definition dict_iter_next :: "dict \<Rightarrow> nat \<Rightarrow> (nat \<times> nat) option" where
  "dict_iter_next d nxt =
     (if nxt = 0 then Some (0, 0)
      else if dnext (nodes d nxt) \<noteq> 0 then Some (nxt, dnext (nodes d nxt))
      else
        let t = whichb (nodes d nxt); b = bindex (nodes d nxt) in
        if tsize (tables d t) \<le> b then map_option (Pair nxt) (iter_try d t)
        else (case iter_scan d t (unat b + 1) of None \<Rightarrow> None
              | Some None \<Rightarrow> map_option (Pair nxt) (iter_try d t)
              | Some (Some h) \<Rightarrow> Some (nxt, h)))"

text \<open>The nodes that \<open>dict_for_each\<close> visits.\<close>

partial_function (option) dict_for_each :: "dict \<Rightarrow> nat \<Rightarrow> nat list option" where
  [code]: "dict_for_each d nxt =
     (case dict_iter_next d nxt of None \<Rightarrow> None
      | Some (p, nxt) \<Rightarrow>
          if p = 0 then Some []
          else if nxt = 0 then Some [p]
          else Option.bind (dict_for_each d nxt) (\<lambda>ps. Some (p # ps)))"

text \<open>
  The nodes handed to \<open>free_fn\<close>, which the flag says is given, and the released dictionary.
\<close>

definition dict_release :: "dict \<Rightarrow> bool \<Rightarrow> (nat list \<times> dict) option" where
  "dict_release d freeing =
     (case (if freeing then Option.bind (dict_iter_init d) (dict_for_each d) else Some []) of
        None \<Rightarrow> None
      | Some ps \<Rightarrow>
          let d = foldl (\<lambda>d p. upd_table (whichb (nodes d p)) (\<lambda>tb. tb\<lparr>nr_nodes := nr_nodes tb - 1\<rparr>) d) d ps;
              d = table_release d (active d);
              d = (if u_dict_is_rehashing d then table_release d (rehash d) else d)
          in Some (ps, d\<lparr>rehashidx := -1\<rparr>))"

section \<open>Chains\<close>

fun chain :: "(nat \<Rightarrow> nat) \<Rightarrow> nat \<Rightarrow> nat list \<Rightarrow> bool" where
  "chain nx h [] = (h = 0)"
| "chain nx h (n # ns) = (h = n \<and> n \<noteq> 0 \<and> chain nx (nx n) ns)"

lemma chain_frame: "n \<notin> set ns \<Longrightarrow> chain (nx(n := v)) h ns = chain nx h ns"
  by (induction ns arbitrary: h) auto

lemma chain_cong: "(\<And>n. n \<in> set ns \<Longrightarrow> nx n = nx' n) \<Longrightarrow> chain nx h ns = chain nx' h ns"
  by (induction ns arbitrary: h) auto

lemma chain_splice:
  "chain nx h (pre @ [l] @ ns) \<Longrightarrow> distinct (pre @ [l]) \<Longrightarrow> l \<notin> set ns' \<Longrightarrow> chain nx v ns' \<Longrightarrow>
   chain (nx(l := v)) h (pre @ [l] @ ns')"
proof (induction pre arbitrary: h)
  case Nil
  then show ?case using chain_frame [of l ns' nx v v] by (simp del: fun_upd_apply) simp
qed auto

lemma chain_nonzero: "chain nx h ns \<Longrightarrow> 0 \<notin> set ns"
  by (induction ns arbitrary: h) auto

text \<open>The link at which the part of a chain after \<open>pre\<close> hangs, and what it holds.\<close>

definition end_link :: "dlink \<Rightarrow> nat list \<Rightarrow> dlink" where
  "end_link l pre = (if pre = [] then l else Next (last pre))"

definition end_val :: "(nat \<Rightarrow> nat) \<Rightarrow> nat \<Rightarrow> nat list \<Rightarrow> nat" where
  "end_val nx h pre = (if pre = [] then h else nx (last pre))"

lemma end_val_Cons: "end_val nx h (n # ns) = end_val nx (nx n) ns"
  by (simp add: end_val_def)

lemma chain_append: "chain nx h (pre @ ns) \<Longrightarrow> chain nx (end_val nx h pre) ns"
  by (induction pre arbitrary: h) (auto simp: end_val_Cons, simp add: end_val_def)

lemma chain_val: "chain nx h ns \<Longrightarrow> h = (case ns of [] \<Rightarrow> 0 | n # _ \<Rightarrow> n)"
  by (cases ns) auto

fun walk_end :: "(nat \<Rightarrow> bool) \<Rightarrow> dlink \<Rightarrow> nat list \<Rightarrow> nat \<times> dlink" where
  "walk_end f l [] = (0, l)"
| "walk_end f l (n # ns) = (if f n then (n, l) else walk_end f (Next n) ns)"

lemma bucket_walk_chain:
  "chain (\<lambda>n. dnext (nodes d n)) (read_link d l) ns \<Longrightarrow> bucket_walk f d l = Some (walk_end f l ns)"
proof (induction ns arbitrary: l)
  case Nil
  then show ?case by (subst bucket_walk.simps) simp
next
  case (Cons n ns)
  then show ?case by (subst bucket_walk.simps) (simp add: Let_def)
qed

lemma walk_end_none: "(\<And>n. n \<in> set ns \<Longrightarrow> \<not> f n) \<Longrightarrow> walk_end f l ns = (0, end_link l ns)"
  by (induction ns arbitrary: l) (auto simp: end_link_def)

lemma walk_end_found:
  "(\<And>p. p \<in> set pre \<Longrightarrow> \<not> f p) \<Longrightarrow> f n \<Longrightarrow> walk_end f l (pre @ n # post) = (n, end_link l pre)"
  by (induction pre arbitrary: l) (auto simp: end_link_def)

lemma walk_end_cases:
  obtains (none) "\<And>n. n \<in> set ns \<Longrightarrow> \<not> f n" "walk_end f l ns = (0, end_link l ns)"
  | (found) pre n post where "ns = pre @ n # post" "f n" "\<And>p. p \<in> set pre \<Longrightarrow> \<not> f p"
      "walk_end f l ns = (n, end_link l pre)"
proof (cases "\<exists>n \<in> set ns. f n")
  case True
  then obtain pre n post where "ns = pre @ n # post" "f n" "\<forall>p \<in> set pre. \<not> f p"
    by (metis split_list_first_prop)
  then show ?thesis using walk_end_found [of pre f n l post] found by blast
next
  case False
  then show ?thesis using none walk_end_none [of ns f l] by blast
qed

section \<open>What a table represents\<close>

text \<open>\<open>H n\<close> is the hash value of the key of node \<open>n\<close>.\<close>

definition node_ok :: "(nat \<Rightarrow> u32) \<Rightarrow> nat \<Rightarrow> u32 \<Rightarrow> nat \<Rightarrow> nat \<Rightarrow> dict_node \<Rightarrow> bool" where
  "node_ok H t sz i n x \<longleftrightarrow> whichb x = t \<and> unat (bindex x) = i \<and> hvalue x = H n \<and>
     unat (H n AND (sz - 1)) = i \<and> dnext x \<noteq> DICT_NODE_POSITION \<and> n \<noteq> 0"

definition pow2_size :: "u32 \<Rightarrow> bool" where
  "pow2_size sz \<longleftrightarrow> (\<exists>k \<le> 31. unat sz = 2 ^ k)"

definition map_rep :: "ulongs option \<Rightarrow> nat \<Rightarrow> (nat \<Rightarrow> nat list) \<Rightarrow> bool" where
  "map_rep mo N C \<longleftrightarrow> (\<exists>mp. mo = Some mp \<and> (\<forall>i < N. test_bit i mp = (C i \<noteq> [])))"

definition tab_rep :: "(nat \<Rightarrow> u32) \<Rightarrow> nat \<Rightarrow> dict_table \<Rightarrow> (nat \<Rightarrow> dict_node) \<Rightarrow> (nat \<Rightarrow> nat list) \<Rightarrow> bool" where
  "tab_rep H t tb st C \<longleftrightarrow> pow2_size (tsize tb) \<and> length (bucket tb) = unat (tsize tb) \<and>
     map_rep (mapping tb) (unat (tsize tb)) C \<and>
     unat (nr_nodes tb) = (\<Sum>i < unat (tsize tb). length (C i)) \<and>
     (\<forall>i. if i < unat (tsize tb) then chain (\<lambda>n. dnext (st n)) (bucket tb ! i) (C i) \<and> distinct (C i) else C i = []) \<and>
     (\<forall>i. \<forall>n \<in> set (C i). node_ok H t (tsize tb) i n (st n))"

lemma pow2_mask:
  assumes "pow2_size sz"
  shows "unat (hv AND (sz - 1)) < unat sz" and "0 < unat sz" and "unat (hv AND (sz - 1)) < 2 ^ 31"
proof -
  obtain k where k: "k \<le> 31" "unat sz = 2 ^ k" using assms by (auto simp: pow2_size_def)
  have "sz = push_bit k 1" using k unat_pow2 [of k, where 'a = 32] by (simp add: word_unat_eq_iff)
  then have "sz - 1 = mask k" by (simp add: mask_eq_exp_minus_1)
  then have *: "unat (hv AND (sz - 1)) < 2 ^ k" by (simp add: unat_mask_eq)
  then show "unat (hv AND (sz - 1)) < unat sz" "0 < unat sz" using k by simp_all
  have "(2 :: nat) ^ k \<le> 2 ^ 31" using k by (intro power_increasing) auto
  with * show "unat (hv AND (sz - 1)) < 2 ^ 31" by linarith
qed

lemma sum_upd:
  fixes N :: nat
  assumes "i < N"
  shows "(\<Sum>j<N. length ((C(i := X)) j)) + length (C i) = (\<Sum>j<N. length (C j)) + length X"
proof -
  have "(\<Sum>j<N. length ((C(i := X)) j)) = length X + (\<Sum>j\<in>{..<N} - {i}. length (C j))"
    using assms by (simp add: sum.remove [of _ i])
  moreover have "(\<Sum>j<N. length (C j)) = length (C i) + (\<Sum>j\<in>{..<N} - {i}. length (C j))"
    using assms by (simp add: sum.remove [of _ i])
  ultimately show ?thesis by simp
qed

lemma tab_repI:
  assumes "pow2_size (tsize tb)" and "length (bucket tb) = unat (tsize tb)"
    and "map_rep (mapping tb) (unat (tsize tb)) C"
    and "unat (nr_nodes tb) = (\<Sum>i < unat (tsize tb). length (C i))"
    and "\<And>i. i < unat (tsize tb) \<Longrightarrow> chain (\<lambda>n. dnext (st n)) (bucket tb ! i) (C i) \<and> distinct (C i)"
    and "\<And>i. \<not> i < unat (tsize tb) \<Longrightarrow> C i = []"
    and "\<And>i n. n \<in> set (C i) \<Longrightarrow> node_ok H t (tsize tb) i n (st n)"
  shows "tab_rep H t tb st C"
  using assms by (simp add: tab_rep_def)

lemma tab_rep_size:
  "tab_rep H t tb st C \<Longrightarrow> pow2_size (tsize tb)"
  "tab_rep H t tb st C \<Longrightarrow> length (bucket tb) = unat (tsize tb)"
  "tab_rep H t tb st C \<Longrightarrow> unat (nr_nodes tb) = (\<Sum>i < unat (tsize tb). length (C i))"
  "tab_rep H t tb st C \<Longrightarrow> map_rep (mapping tb) (unat (tsize tb)) C"
  "tab_rep H t tb st C \<Longrightarrow> \<not> i < unat (tsize tb) \<Longrightarrow> C i = []"
  by (simp_all add: tab_rep_def)

lemma tab_rep_chain:
  assumes "tab_rep H t tb st C" and "i < unat (tsize tb)"
  shows "chain (\<lambda>n. dnext (st n)) (bucket tb ! i) (C i)" and "distinct (C i)"
  using assms by (auto simp: tab_rep_def split: if_splits)

lemma tab_rep_node: "tab_rep H t tb st C \<Longrightarrow> n \<in> set (C i) \<Longrightarrow> node_ok H t (tsize tb) i n (st n)"
  by (auto simp: tab_rep_def)

lemma tab_rep_range: "tab_rep H t tb st C \<Longrightarrow> n \<in> set (C i) \<Longrightarrow> i < unat (tsize tb)"
  by (auto simp: tab_rep_def) (metis empty_iff empty_set)

lemma tab_rep_frame:
  assumes "tab_rep H t tb st C" and "\<And>n i. n \<in> set (C i) \<Longrightarrow> st' n = st n"
  shows "tab_rep H t tb st' C"
proof -
  have "chain (\<lambda>n. dnext (st' n)) h (C i) = chain (\<lambda>n. dnext (st n)) h (C i)" for h i
    by (rule chain_cong) (simp add: assms(2))
  then show ?thesis using assms by (simp add: tab_rep_def)
qed

definition link_write :: "nat list \<Rightarrow> nat \<Rightarrow> nat \<Rightarrow> dict_table \<Rightarrow> dict_table" where
  "link_write pre i v tb = (if pre = [] then tb\<lparr>bucket := (bucket tb)[i := v]\<rparr> else tb)"

definition store_write :: "nat list \<Rightarrow> nat \<Rightarrow> (nat \<Rightarrow> dict_node) \<Rightarrow> nat \<Rightarrow> dict_node" where
  "store_write pre v st = (if pre = [] then st else st(last pre := (st (last pre))\<lparr>dnext := v\<rparr>))"

lemma chain_store_write:
  assumes "chain (\<lambda>n. dnext (st n)) h (pre @ ns)" and "distinct pre" and "set pre \<inter> set ns' = {}"
    and "chain (\<lambda>n. dnext (st n)) v ns'"
  shows "chain (\<lambda>n. dnext (store_write pre v st n)) (if pre = [] then v else h) (pre @ ns')"
proof (cases pre rule: rev_cases)
  case (snoc p l)
  have "(\<lambda>n. dnext (store_write pre v st n)) = (\<lambda>n. dnext (st n))(l := v)"
    by (auto simp: store_write_def snoc)
  then show ?thesis
    using chain_splice [of "\<lambda>n. dnext (st n)" h p l ns ns' v] assms snoc by simp
qed (use assms in \<open>simp add: store_write_def\<close>)

lemma node_ok_dnext: "node_ok H t sz i n x \<Longrightarrow> v \<noteq> DICT_NODE_POSITION \<Longrightarrow> node_ok H t sz i n (x\<lparr>dnext := v\<rparr>)"
  by (simp add: node_ok_def)

lemma store_write_ok:
  assumes "node_ok H t sz i n (st n)" and "v \<noteq> DICT_NODE_POSITION"
  shows "node_ok H t sz i n (store_write pre v st n)"
  using assms by (auto simp: store_write_def node_ok_dnext)

text \<open>Taking a node out of a chain, with the count and the mapping kept.\<close>

lemma tab_erase_at:
  assumes rep: "tab_rep H t tb st C" and C: "C i = pre @ n # post" and i: "i < unat (tsize tb)"
    and tb': "tb' = (link_write pre i (dnext (st n)) tb)\<lparr>nr_nodes := nr_nodes tb - 1,
               mapping := (if pre @ post = [] then map_option (clear_bit_at i) (mapping tb) else mapping tb)\<rparr>"
    and st': "st' = store_write pre (dnext (st n)) st"
  shows "tab_rep H t tb' st' (C(i := pre @ post))"
proof -
  let ?nx = "\<lambda>n. dnext (st n)"
  have ch: "chain ?nx (bucket tb ! i) (pre @ n # post)" and dist: "distinct (pre @ n # post)"
    using tab_rep_chain [OF rep i] C by simp_all
  have chp: "chain ?nx (dnext (st n)) post" using chain_append [OF ch] by simp
  have v: "dnext (st n) \<noteq> DICT_NODE_POSITION"
    using tab_rep_node [OF rep, of n i] C by (simp add: node_ok_def)
  have other: "chain (\<lambda>n. dnext (st' n)) h (C j) = chain ?nx h (C j)" if "j \<noteq> i" for h j
  proof (rule chain_cong)
    fix m assume m: "m \<in> set (C j)"
    have "m \<notin> set pre" using tab_rep_node [OF rep m] tab_rep_node [OF rep, of m i] C that by (auto simp: node_ok_def)
    then show "dnext (st' m) = dnext (st m)" by (auto simp: st' store_write_def)
  qed
  have here: "chain (\<lambda>n. dnext (st' n)) (bucket tb' ! i) (pre @ post)"
    using chain_store_write [OF ch, of post "dnext (st n)"] dist chp i tab_rep_size(2) [OF rep]
    by (cases "pre = []") (simp_all add: st' tb' link_write_def)
  have sz: "tsize tb' = tsize tb" "length (bucket tb') = length (bucket tb)" "\<And>j. j \<noteq> i \<Longrightarrow> bucket tb' ! j = bucket tb ! j"
    by (simp_all add: tb' link_write_def)
  have "unat (nr_nodes tb) > 0"
    using tab_rep_size(3) [OF rep] C sum_upd [OF i, of C "[]"] by simp
  then have "unat (nr_nodes tb') = unat (nr_nodes tb) - 1"
    by (simp add: tb' unat_minus_one unat_gt_0)
  then have nr: "unat (nr_nodes tb') = (\<Sum>j < unat (tsize tb). length ((C(i := pre @ post)) j))"
    using C sum_upd [OF i, of C "pre @ post"] tab_rep_size(3) [OF rep] by simp
  have mp: "map_rep (mapping tb') (unat (tsize tb)) (C(i := pre @ post))"
    using tab_rep_size(4) [OF rep] C i by (auto simp: map_rep_def tb' link_write_def bit_spec)
  have ok: "node_ok H t (tsize tb) j m (st' m)" if "m \<in> set ((C(i := pre @ post)) j)" for j m
    unfolding st' using that C v tab_rep_node [OF rep, of m j]
    by (intro store_write_ok) (auto split: if_splits)
  show ?thesis
  proof (rule tab_repI)
    show "pow2_size (tsize tb')" "length (bucket tb') = unat (tsize tb')"
      "map_rep (mapping tb') (unat (tsize tb')) (C(i := pre @ post))"
      "unat (nr_nodes tb') = (\<Sum>j < unat (tsize tb'). length ((C(i := pre @ post)) j))"
      using tab_rep_size [OF rep] mp nr by (simp_all only: sz)
  next
    fix j assume "j < unat (tsize tb')"
    then show "chain (\<lambda>n. dnext (st' n)) (bucket tb' ! j) ((C(i := pre @ post)) j) \<and> distinct ((C(i := pre @ post)) j)"
      using here tab_rep_chain [OF rep, of j] dist other [of j] sz by (cases "j = i") simp_all
  next
    show "(C(i := pre @ post)) j = []" if "\<not> j < unat (tsize tb')" for j
      using that i sz tab_rep_size(5) [OF rep, of j] by auto
  next
    show "node_ok H t (tsize tb') j m (st' m)" if "m \<in> set ((C(i := pre @ post)) j)" for j m
      using ok [OF that] sz by simp
  qed
qed

text \<open>Putting a node into a chain.\<close>

lemma tab_insert_at:
  assumes rep: "tab_rep H t tb st C" and C: "C i = pre @ post" and i: "i < unat (tsize tb)"
    and new: "\<And>j. n \<notin> set (C j)" "n \<noteq> 0" "n \<noteq> DICT_NODE_POSITION" "unat (H n AND (tsize tb - 1)) = i"
    and nodes: "\<And>j m. m \<in> set (C j) \<Longrightarrow> m \<noteq> DICT_NODE_POSITION"
    and room: "unat (nr_nodes tb) < 2 ^ 32 - 1"
    and tb': "tb' = (link_write pre i n tb)\<lparr>nr_nodes := nr_nodes tb + 1,
               mapping := (if C i = [] then map_option (set_bit_at i) (mapping tb) else mapping tb)\<rparr>"
    and x: "x = \<lparr>dnext = end_val (\<lambda>n. dnext (st n)) (bucket tb ! i) pre, hvalue = H n, whichb = t, bindex = word_of_nat i\<rparr>"
    and st': "st' = store_write pre n (st(n := x))"
  shows "tab_rep H t tb' st' (C(i := pre @ n # post))"
proof -
  let ?nx = "\<lambda>n. dnext (st n)" and ?st = "st(n := x)"
  have ch: "chain ?nx (bucket tb ! i) (pre @ post)" and dist: "distinct (pre @ post)"
    using tab_rep_chain [OF rep i] C by simp_all
  have nn: "n \<notin> set pre" "n \<notin> set post" using new(1) [of i] C by auto
  have chn: "chain (\<lambda>m. dnext (?st m)) h ns = chain ?nx h ns" if "n \<notin> set ns" for h ns
    by (rule chain_cong) (use that in auto)
  have chp: "chain (\<lambda>m. dnext (?st m)) n (n # post)"
    using chain_append [OF ch] new chn nn by (simp add: x)
  have v: "dnext x \<noteq> DICT_NODE_POSITION"
  proof -
    have "chain ?nx (dnext x) post" using chain_append [OF ch] by (simp add: x)
    then have "dnext x = 0 \<or> dnext x \<in> set post" by (cases post) auto
    then show ?thesis using nodes [of "dnext x" i] C by (auto simp: DICT_NODE_POSITION_def)
  qed
  have other: "chain (\<lambda>n. dnext (st' n)) h (C j) = chain ?nx h (C j)" if "j \<noteq> i" for h j
  proof (rule chain_cong)
    fix m assume m: "m \<in> set (C j)"
    have "m \<notin> set pre" using tab_rep_node [OF rep m] tab_rep_node [OF rep, of m i] C that by (auto simp: node_ok_def)
    moreover have "m \<noteq> n" using m new(1) by blast
    ultimately show "dnext (st' m) = dnext (st m)" by (cases "pre = []") (auto simp: st' store_write_def)
  qed
  have here: "chain (\<lambda>n. dnext (st' n)) (bucket tb' ! i) (pre @ n # post)"
    using chain_store_write [of ?st "bucket tb ! i" pre post "n # post" n] dist chp ch chn [of "pre @ post"] i nn
      tab_rep_size(2) [OF rep]
    by (cases "pre = []") (simp_all add: st' tb' link_write_def del: fun_upd_apply)
  have sz: "tsize tb' = tsize tb" "length (bucket tb') = length (bucket tb)" "\<And>j. j \<noteq> i \<Longrightarrow> bucket tb' ! j = bucket tb ! j"
    by (simp_all add: tb' link_write_def)
  have "unat (nr_nodes tb') = unat (nr_nodes tb) + 1"
    using room by (simp add: tb' unat_word_ariths)
  then have nr: "unat (nr_nodes tb') = (\<Sum>j < unat (tsize tb). length ((C(i := pre @ n # post)) j))"
    using C sum_upd [OF i, of C "pre @ n # post"] tab_rep_size(3) [OF rep] by simp
  have mp: "map_rep (mapping tb') (unat (tsize tb)) (C(i := pre @ n # post))"
    using tab_rep_size(4) [OF rep] C i by (auto simp: map_rep_def tb' link_write_def bit_spec)
  have bi: "unat (word_of_nat i :: u32) = i"
    using i unat_lt_2p [of "tsize tb"] by (simp add: unat_of_nat take_bit_nat_eq_self)
  have ok: "node_ok H t (tsize tb) j m (st' m)" if "m \<in> set ((C(i := pre @ n # post)) j)" for j m
    unfolding st'
  proof (rule store_write_ok)
    show "node_ok H t (tsize tb) j m (?st m)"
      using that C v new bi tab_rep_node [OF rep, of m j] by (auto simp: x node_ok_def split: if_splits)
  qed (rule new(3))
  show ?thesis
  proof (rule tab_repI)
    show "pow2_size (tsize tb')" "length (bucket tb') = unat (tsize tb')"
      "map_rep (mapping tb') (unat (tsize tb')) (C(i := pre @ n # post))"
      "unat (nr_nodes tb') = (\<Sum>j < unat (tsize tb'). length ((C(i := pre @ n # post)) j))"
      using tab_rep_size [OF rep] mp nr by (simp_all only: sz)
  next
    fix j assume "j < unat (tsize tb')"
    then show "chain (\<lambda>n. dnext (st' n)) (bucket tb' ! j) ((C(i := pre @ n # post)) j) \<and> distinct ((C(i := pre @ n # post)) j)"
      using here tab_rep_chain [OF rep, of j] dist nn other [of j] sz by (cases "j = i") simp_all
  next
    show "(C(i := pre @ n # post)) j = []" if "\<not> j < unat (tsize tb')" for j
      using that i sz tab_rep_size(5) [OF rep, of j] by auto
  next
    show "node_ok H t (tsize tb') j m (st' m)" if "m \<in> set ((C(i := pre @ n # post)) j)" for j m
      using ok [OF that] sz by simp
  qed
qed

section \<open>The operations on chains, as state changes\<close>

definition erase_tab :: "nat list \<Rightarrow> nat \<Rightarrow> nat list \<Rightarrow> nat \<Rightarrow> dict \<Rightarrow> dict_table \<Rightarrow> dict_table" where
  "erase_tab pre n post i d tb = (link_write pre i (dnext (nodes d n)) tb)\<lparr>nr_nodes := nr_nodes tb - 1,
     mapping := (if pre @ post = [] then map_option (clear_bit_at i) (mapping tb) else mapping tb)\<rparr>"

definition insert_tab :: "nat list \<Rightarrow> nat \<Rightarrow> nat list \<Rightarrow> nat \<Rightarrow> dict_table \<Rightarrow> dict_table" where
  "insert_tab pre n post i tb = (link_write pre i n tb)\<lparr>nr_nodes := nr_nodes tb + 1,
     mapping := (if pre @ post = [] then map_option (set_bit_at i) (mapping tb) else mapping tb)\<rparr>"

definition insert_rec :: "(nat \<Rightarrow> u32) \<Rightarrow> nat list \<Rightarrow> nat \<Rightarrow> nat \<Rightarrow> nat \<Rightarrow> dict \<Rightarrow> dict_node" where
  "insert_rec H pre n t i d = \<lparr>dnext = end_val (\<lambda>n. dnext (nodes d n)) (bucket (tables d t) ! i) pre,
     hvalue = H n, whichb = t, bindex = word_of_nat i\<rparr>"

lemma read_end_link: "read_link d (end_link (Head t i) pre) = end_val (\<lambda>n. dnext (nodes d n)) (bucket (tables d t) ! i) pre"
  by (simp add: end_link_def end_val_def)

lemma write_end_link:
  "write_link d (end_link (Head t i) pre) v
   = d\<lparr>tables := (tables d)(t := link_write pre i v (tables d t)), nodes := store_write pre v (nodes d)\<rparr>"
  by (auto simp: end_link_def link_write_def store_write_def upd_table_def upd_node_def)

lemma empty_chain: "chain nx h ns \<Longrightarrow> h = 0 \<longleftrightarrow> ns = []"
  by (cases ns) auto

lemma erase_node_state:
  assumes rep: "tab_rep H t (tables d t) (nodes d) C" and C: "C i = pre @ n # post" and i: "i < unat (tsize (tables d t))"
  shows "u_erase_node_after (u_erase_node d n (end_link (Head t i) pre)) t i
    = d\<lparr>tables := (tables d)(t := erase_tab pre n post i d (tables d t)), nodes := store_write pre (dnext (nodes d n)) (nodes d)\<rparr>"
proof -
  let ?h = "bucket (tables d t) ! i"
  have ch: "chain (\<lambda>n. dnext (nodes d n)) ?h (pre @ n # post)"
    using tab_rep_chain [OF rep i] C by simp
  have "dnext (nodes d n) = 0 \<longleftrightarrow> post = []" using chain_append [OF ch] empty_chain by force
  moreover have "pre \<noteq> [] \<Longrightarrow> ?h \<noteq> 0" using empty_chain [OF ch] by simp
  moreover have "i < length (bucket (tables d t))" using i tab_rep_size(2) [OF rep] by simp
  ultimately show ?thesis
    by (auto simp: u_erase_node_def write_end_link u_erase_node_after_def u_bucket_empty_def upd_table_def Let_def
        erase_tab_def link_write_def)
qed

lemma dict_table_upd_swap: "tb\<lparr>mapping := a, nr_nodes := b\<rparr> = tb\<lparr>nr_nodes := b, mapping := a\<rparr>"
  by simp

lemma insert_node_state:
  assumes rep: "tab_rep H t (tables d t) (nodes d) C" and C: "C i = pre @ post" and i: "i < unat (tsize (tables d t))"
    and n: "n \<notin> set (C i)"
    and f: "\<And>x. f x = x\<lparr>hvalue := H n, whichb := t, bindex := word_of_nat i\<rparr>"
    and g: "\<And>x. hvalue x = H n \<Longrightarrow> g x = x\<lparr>bindex := word_of_nat i, whichb := t\<rparr>"
    and d': "d' = d\<lparr>tables := (tables d)(t := insert_tab pre n post i (tables d t)),
        nodes := store_write pre n ((nodes d)(n := insert_rec H pre n t i d))\<rparr>"
  shows "u_insert_node (u_insert_node_before (upd_node n f d) t i) n (end_link (Head t i) pre) = d'"
    and "hvalue (nodes d n) = H n \<Longrightarrow>
      upd_node n g (u_insert_node (u_insert_node_before d t i) n (end_link (Head t i) pre)) = d'"
proof -
  let ?h = "bucket (tables d t) ! i"
  have ch: "chain (\<lambda>n. dnext (nodes d n)) ?h (pre @ post)"
    using tab_rep_chain [OF rep i] C by simp
  then have e: "?h = 0 \<longleftrightarrow> pre @ post = []" by (rule empty_chain)
  have np: "pre \<noteq> [] \<Longrightarrow> last pre \<noteq> n" using n C last_in_set by force
  have rl: "read_link d2 (end_link (Head t i) pre) = end_val (\<lambda>n. dnext (nodes d n)) ?h pre"
    if "bucket (tables d2 t) = bucket (tables d t)" "\<And>m. m \<noteq> n \<Longrightarrow> nodes d2 m = nodes d m" for d2
    using that np by (auto simp: end_link_def end_val_def)
  have before: "u_insert_node_before d2 t i = d2\<lparr>tables := (tables d2)(t := (tables d2 t)\<lparr>nr_nodes := nr_nodes (tables d2 t) + 1,
     mapping := (if pre @ post = [] then map_option (set_bit_at i) (mapping (tables d2 t)) else mapping (tables d2 t))\<rparr>)\<rparr>"
    if "bucket (tables d2 t) = bucket (tables d t)" for d2
    using that e by (auto simp: u_insert_node_before_def u_bucket_empty_def upd_table_def Let_def dict_table_upd_swap)
  show "u_insert_node (u_insert_node_before (upd_node n f d) t i) n (end_link (Head t i) pre) = d'"
    using np
    by (simp add: before upd_node_def u_insert_node_def rl write_end_link d' f)
       (auto simp: insert_tab_def link_write_def insert_rec_def store_write_def read_end_link fun_eq_iff)
  show "upd_node n g (u_insert_node (u_insert_node_before d t i) n (end_link (Head t i) pre)) = d'"
    if h: "hvalue (nodes d n) = H n"
    using np h
    by (simp add: before upd_node_def u_insert_node_def rl write_end_link d')
       (auto simp: insert_tab_def link_write_def insert_rec_def store_write_def read_end_link fun_eq_iff g)
qed

section \<open>What a dictionary represents\<close>

definition live :: "(nat \<Rightarrow> nat \<Rightarrow> nat list) \<Rightarrow> nat set" where
  "live C = (\<Union>t i. set (C t i))"

definition dict_rep :: "(nat \<Rightarrow> u32) \<Rightarrow> dict \<Rightarrow> (nat \<Rightarrow> nat \<Rightarrow> nat list) \<Rightarrow> bool" where
  "dict_rep H d C \<longleftrightarrow> active d < 2 \<and> rehash d < 2 \<and> active d \<noteq> rehash d \<and>
     -1 \<le> rehashidx d \<and> pow2_size (init_size d) \<and>
     tab_rep H (active d) (tables d (active d)) (nodes d) (C (active d)) \<and>
     (if u_dict_is_rehashing d then tab_rep H (rehash d) (tables d (rehash d)) (nodes d) (C (rehash d))
      else \<forall>i. C (rehash d) i = []) \<and>
     (\<forall>t. t \<noteq> active d \<longrightarrow> t \<noteq> rehash d \<longrightarrow> (\<forall>i. C t i = [])) \<and>
     DICT_NODE_POSITION \<notin> live C \<and> 0 \<notin> live C \<and>
     (\<forall>n. n \<noteq> 0 \<longrightarrow> dnext (nodes d n) \<noteq> DICT_NODE_POSITION \<longrightarrow> n \<in> live C) \<and>
     card (live C) < 2 ^ 32"

text \<open>The buckets of the active table before the position of the rehash are empty.\<close>

definition scan_ok :: "dict \<Rightarrow> (nat \<Rightarrow> nat \<Rightarrow> nat list) \<Rightarrow> bool" where
  "scan_ok d C \<longleftrightarrow> (\<forall>i. int i < rehashidx d \<longrightarrow> C (active d) i = [])"

definition dict_holds :: "(nat \<Rightarrow> u32) \<Rightarrow> dict \<Rightarrow> nat set \<Rightarrow> bool" where
  "dict_holds H d L \<longleftrightarrow> (\<exists>C. dict_rep H d C \<and> scan_ok d C \<and> live C = L)"

abbreviation uses_tab :: "dict \<Rightarrow> nat \<Rightarrow> bool" where
  "uses_tab d t \<equiv> t = active d \<or> (t = rehash d \<and> u_dict_is_rehashing d)"

lemma dict_rep_tab: "dict_rep H d C \<Longrightarrow> uses_tab d t \<Longrightarrow> tab_rep H t (tables d t) (nodes d) (C t)"
  by (auto simp: dict_rep_def)

lemma dict_rep_live: "dict_rep H d C \<Longrightarrow> n \<in> set (C t i) \<Longrightarrow> uses_tab d t"
  by (auto simp: dict_rep_def split: if_splits)

lemma dict_rep_unique: "dict_rep H d C \<Longrightarrow> n \<in> set (C t i) \<Longrightarrow> n \<in> set (C t' i') \<Longrightarrow> t = t' \<and> i = i'"
  using dict_rep_live [of H d C n] dict_rep_tab [of H d C] tab_rep_node [of H _ _ "nodes d" "C _" n]
  by (metis node_ok_def)

lemma finite_tab: "tab_rep H t tb st C \<Longrightarrow> (\<Union>i. set (C i)) = (\<Union>i < unat (tsize tb). set (C i))"
  using tab_rep_range by fastforce

lemma tab_card:
  assumes "tab_rep H t tb st C"
  shows "finite (\<Union>i. set (C i))" and "unat (nr_nodes tb) = card (\<Union>i. set (C i))"
proof -
  show "finite (\<Union>i. set (C i))" by (simp add: finite_tab [OF assms])
  have "card (\<Union>i < unat (tsize tb). set (C i)) = (\<Sum>i < unat (tsize tb). card (set (C i)))"
    using tab_rep_node [OF assms] by (intro card_UN_disjoint) (auto simp: node_ok_def)
  also have "\<dots> = (\<Sum>i < unat (tsize tb). length (C i))"
    using tab_rep_chain(2) [OF assms] by (intro sum.cong) (auto simp: distinct_card)
  finally show "unat (nr_nodes tb) = card (\<Union>i. set (C i))"
    using tab_rep_size(3) [OF assms] by (simp add: finite_tab [OF assms])
qed

lemma live_two:
  assumes "dict_rep H d C"
  shows "live C = (\<Union>i. set (C (active d) i)) \<union> (\<Union>i. set (C (rehash d) i))"
  using dict_rep_live [OF assms] by (fastforce simp: live_def)

lemma live_finite:
  assumes rep: "dict_rep H d C"
  shows "finite (live C)"
proof -
  have "finite (\<Union>i. set (C (rehash d) i))"
  proof (cases "u_dict_is_rehashing d")
    case True
    then show ?thesis using tab_card(1) [OF dict_rep_tab [OF rep]] by blast
  next
    case False
    then show ?thesis using rep by (simp add: dict_rep_def)
  qed
  then show ?thesis
    using tab_card(1) [OF dict_rep_tab [OF rep, of "active d"]] by (simp add: live_two [OF rep])
qed

lemma tab_room:
  assumes "dict_rep H d C" and "uses_tab d t" and "card (live C) < 2 ^ 32 - 1"
  shows "unat (nr_nodes (tables d t)) < 2 ^ 32 - 1"
proof -
  have "card (\<Union>i. set (C t i)) \<le> card (live C)"
    by (rule card_mono [OF live_finite [OF assms(1)]]) (auto simp: live_def)
  then show ?thesis using tab_card(2) [OF dict_rep_tab [OF assms(1,2)]] assms(3) by simp
qed

lemma dict_nodes_card:
  assumes rep: "dict_rep H d C"
  shows "unat (dict_nodes d) = card (live C)"
proof (cases "u_dict_is_rehashing d")
  case True
  have "(\<Union>i. set (C (active d) i)) \<inter> (\<Union>i. set (C (rehash d) i)) = {}"
    using dict_rep_unique [OF rep] rep by (fastforce simp: dict_rep_def)
  moreover note A = tab_card [OF dict_rep_tab [OF rep]]
  ultimately have "card (live C) = unat (nr_nodes (tables d (active d))) + unat (nr_nodes (tables d (rehash d)))"
    using True A [of "active d"] A [of "rehash d"] by (simp add: live_two [OF rep] card_Un_disjoint)
  moreover have "rehashidx d > -1" "card (live C) < 2 ^ 32"
    using True rep by (auto simp: dict_rep_def u_dict_is_rehashing_def)
  ultimately show ?thesis by (simp add: dict_nodes_def unat_word_ariths)
next
  case False
  then have "(\<Union>i. set (C (rehash d) i)) = {}" "\<not> rehashidx d > -1"
    using rep by (auto simp: dict_rep_def u_dict_is_rehashing_def)
  then show ?thesis
    using tab_card(2) [OF dict_rep_tab [OF rep, of "active d"]] by (simp add: live_two [OF rep] dict_nodes_def)
qed

section \<open>Rehashing keeps the nodes\<close>

lemma get_bucket_rep:
  assumes "tab_rep H t tb st C"
  shows "u_get_bucket tb hv = Some (hv AND (tsize tb - 1))" and "unat (hv AND (tsize tb - 1)) < unat (tsize tb)"
    and "take_bit 31 (hv AND (tsize tb - 1)) = hv AND (tsize tb - 1)"
  using pow2_mask(1,3) [OF tab_rep_size(1) [OF assms], of hv] tab_rep_size(2) [OF assms]
  by (simp_all add: u_get_bucket_def Let_def word_unat_eq_iff unsigned_take_bit_eq take_bit_nat_eq_self del: take_bit_and)

lemma table_no_less: "t < 2 \<Longrightarrow> table_no t = t"
  by (auto simp: table_no_def)

text \<open>One turn of the loop of \<open>__bucket_rehash\<close>.\<close>

definition move_node :: "(nat \<Rightarrow> u32) \<Rightarrow> dict \<Rightarrow> nat \<Rightarrow> nat \<Rightarrow> nat list \<Rightarrow> nat list \<Rightarrow> nat \<Rightarrow> dict" where
  "move_node H d b n post old idx = d\<lparr>
     tables := (tables d)(active d := erase_tab [] n post b d (tables d (active d)),
                          rehash d := insert_tab [] n old idx (tables d (rehash d))),
     nodes := (nodes d)(n := insert_rec H [] n (rehash d) idx d)\<rparr>"

lemma bucket_rehash_turn:
  assumes rep: "dict_rep H d C" and rh: "u_dict_is_rehashing d" and b: "b < unat (tsize (tables d (active d)))"
    and C: "C (active d) b = n # post" and idx: "idx = H n AND (tsize (tables d (rehash d)) - 1)"
  shows "u_bucket_rehash d b = u_bucket_rehash (move_node H d b n post (C (rehash d) (unat idx)) (unat idx)) b"
proof -
  let ?a = "active d" and ?r = "rehash d"
  have ra: "?r \<noteq> ?a" "?r < 2" using rep by (auto simp: dict_rep_def)
  note A = dict_rep_tab [OF rep, of ?a, simplified] and R = dict_rep_tab [OF rep, of ?r, simplified rh, simplified]
  have n: "n \<noteq> 0" "hvalue (nodes d n) = H n" using tab_rep_node [OF A, of n b] C by (auto simp: node_ok_def)
  have hd: "bucket (tables d ?a) ! b = n" using tab_rep_chain(1) [OF A b] C by simp
  define d1 where "d1 = d\<lparr>tables := (tables d)(?a := erase_tab [] n post b d (tables d ?a))\<rparr>"
  have e: "u_erase_node_after (write_link d (Head ?a b) (dnext (nodes d n))) ?a b = d1"
    using erase_node_state [OF A, of b "[]" n post] b C
    by (simp add: u_erase_node_def end_link_def store_write_def d1_def)
  have d1: "tables d1 ?r = tables d ?r" "nodes d1 = nodes d" "rehash d1 = ?r" "active d1 = ?a"
    using ra by (simp_all add: d1_def)
  have i: "unat idx < unat (tsize (tables d ?r))" "word_of_nat (unat idx) = idx" "take_bit 31 idx = idx"
    using get_bucket_rep [OF R, of "H n"] by (simp_all add: idx)
  have nR: "n \<notin> set (C ?r (unat idx))" using dict_rep_unique [OF rep, of n ?a b ?r] C ra by auto
  have "upd_node n (\<lambda>x. x\<lparr>bindex := take_bit 31 idx, whichb := table_no ?r\<rparr>)
      (u_insert_node (u_insert_node_before d1 ?r (unat idx)) n (end_link (Head ?r (unat idx)) []))
    = d1\<lparr>tables := (tables d1)(?r := insert_tab [] n (C ?r (unat idx)) (unat idx) (tables d1 ?r)),
        nodes := store_write [] n ((nodes d1)(n := insert_rec H [] n ?r (unat idx) d1))\<rparr>"
    using R i nR n
    by (intro insert_node_state(2) [where C = "C ?r"]) (simp_all add: d1 table_no_less [OF ra(2)])
  also have "\<dots> = move_node H d b n post (C ?r (unat idx)) (unat idx)"
    using ra by (simp add: move_node_def d1_def store_write_def insert_rec_def fun_upd_twist)
  finally have m: "upd_node n (\<lambda>x. x\<lparr>bindex := take_bit 31 idx, whichb := table_no ?r\<rparr>)
      (u_insert_node (u_insert_node_before d1 ?r (unat idx)) n (Head ?r (unat idx)))
      = move_node H d b n post (C ?r (unat idx)) (unat idx)"
    by (simp add: end_link_def)
  have keep: "rehash (u_insert_node_before d1 ?r (unat idx)) = ?r"
     "rehash (u_insert_node (u_insert_node_before d1 ?r (unat idx)) n (Head ?r (unat idx))) = ?r"
     "active (write_link d (Head ?a b) (dnext (nodes d n))) = ?a"
    by (simp_all add: u_insert_node_before_def u_insert_node_def upd_table_def upd_node_def Let_def d1)
  have f: "u_erase_first_node d ?a b = (n, write_link d (Head ?a b) (dnext (nodes d n)))"
    using n hd by (simp add: u_erase_first_node_def del: write_link.simps)
  show ?thesis
    by (subst u_bucket_rehash.simps)
       (simp del: write_link.simps add: f keep e n d1 Let_def get_bucket_rep(1) [OF R] idx [symmetric] m)
qed


definition move_chains :: "dict \<Rightarrow> nat \<Rightarrow> nat \<Rightarrow> nat list \<Rightarrow> nat \<Rightarrow> (nat \<Rightarrow> nat \<Rightarrow> nat list) \<Rightarrow> nat \<Rightarrow> nat \<Rightarrow> nat list" where
  "move_chains d b n post idx C = C(active d := (C (active d))(b := post),
     rehash d := (C (rehash d))(idx := n # C (rehash d) idx))"

lemma live_iff: "n \<in> live C \<longleftrightarrow> (\<exists>t i. n \<in> set (C t i))"
  by (simp add: live_def)

lemma live_move:
  assumes "active d \<noteq> rehash d" and "C (active d) b = n # post"
  shows "live (move_chains d b n post idx C) = live C"
proof -
  let ?C = "move_chains d b n post idx C"
  have "set (?C t i) \<subseteq> set (C t i) \<union> {n}" "set (C t i) \<subseteq> set (?C t i) \<union> {n}" for t i
    using assms by (auto simp: move_chains_def)
  moreover have "n \<in> set (C (active d) b)" "n \<in> set (?C (rehash d) idx)"
    using assms by (auto simp: move_chains_def)
  ultimately show ?thesis by (fastforce simp: set_eq_iff live_iff)
qed

lemma move_rep:
  assumes rep: "dict_rep H d C" and rh: "u_dict_is_rehashing d" and b: "b < unat (tsize (tables d (active d)))"
    and C: "C (active d) b = n # post" and idx: "idx = unat (H n AND (tsize (tables d (rehash d)) - 1))"
  shows "dict_rep H (move_node H d b n post (C (rehash d) idx) idx) (move_chains d b n post idx C)"
proof -
  let ?a = "active d" and ?r = "rehash d"
  let ?d = "move_node H d b n post (C ?r idx) idx" and ?C = "move_chains d b n post idx C"
  have ra: "?r \<noteq> ?a" using rep by (auto simp: dict_rep_def)
  note A = dict_rep_tab [OF rep, of ?a, simplified] and R = dict_rep_tab [OF rep, of ?r, simplified rh, simplified]
  have n0: "n \<noteq> 0" using tab_rep_node [OF A, of n b] C by (auto simp: node_ok_def)
  have nl: "n \<in> live C" unfolding live_iff by (rule exI [of _ ?a], rule exI [of _ b]) (simp add: C)
  have pos: "m \<noteq> DICT_NODE_POSITION" if "m \<in> set (C t i)" for m t i
    using that rep by (auto simp: dict_rep_def live_iff)
  have nR: "n \<notin> set (C ?r j)" for j using dict_rep_unique [OF rep, of n ?a b ?r j] C ra by auto
  have nA: "n \<notin> set (((C ?a)(b := post)) j)" for j
    using dict_rep_unique [OF rep, of n ?a b ?a j] C tab_rep_chain(2) [OF A b] by auto
  have i: "idx < unat (tsize (tables d ?r))" using get_bucket_rep(2) [OF R] by (simp add: idx)
  have lv: "live ?C = live C" using ra C by (intro live_move) auto
  have sel: "tables ?d ?a = erase_tab [] n post b d (tables d ?a)" "tables ?d ?r = insert_tab [] n (C ?r idx) idx (tables d ?r)"
    "nodes ?d = (nodes d)(n := insert_rec H [] n ?r idx d)" "?C ?a = (C ?a)(b := post)"
    "?C ?r = (C ?r)(idx := n # C ?r idx)" "\<And>t. t \<noteq> ?a \<Longrightarrow> t \<noteq> ?r \<Longrightarrow> ?C t = C t"
    "active ?d = ?a" "rehash ?d = ?r" "rehashidx ?d = rehashidx d" "init_size ?d = init_size d"
    using ra by (simp_all add: move_node_def move_chains_def)
  have "tab_rep H ?a (tables ?d ?a) (nodes d) (?C ?a)"
    using tab_erase_at [OF A, of b "[]" n post] C b by (simp add: sel erase_tab_def store_write_def)
  then have A': "tab_rep H ?a (tables ?d ?a) (nodes ?d) (?C ?a)"
    by (rule tab_rep_frame) (use nA in \<open>auto simp: sel\<close>)
  have "(\<Union>j. set (C ?r j)) \<noteq> live C" using nl nR by blast
  then have "(\<Union>j. set (C ?r j)) \<subset> live C" by (auto simp: live_def)
  then have "card (\<Union>j. set (C ?r j)) < card (live C)"
    by (rule psubset_card_mono [OF live_finite [OF rep]])
  then have room: "unat (nr_nodes (tables d ?r)) < 2 ^ 32 - 1"
    using tab_card(2) [OF R] rep by (simp add: dict_rep_def)
  have "tab_rep H ?r (insert_tab [] n (C ?r idx) idx (tables d ?r))
    (store_write [] n ((nodes d)(n := insert_rec H [] n ?r idx d))) ((C ?r)(idx := [] @ n # C ?r idx))"
  proof (rule tab_insert_at [OF R, where pre = "[]"])
    show "insert_rec H [] n ?r idx d = \<lparr>dnext = end_val (\<lambda>n. dnext (nodes d n)) (bucket (tables d ?r) ! idx) [],
      hvalue = H n, whichb = ?r, bindex = word_of_nat idx\<rparr>"
      by (simp add: insert_rec_def)
  qed (use i nR n0 pos nl room C in \<open>auto simp: idx [symmetric] insert_tab_def store_write_def live_iff\<close>)
  then have R': "tab_rep H ?r (tables ?d ?r) (nodes ?d) (?C ?r)"
    by (simp add: sel store_write_def)
  have "(\<exists>t i. m \<in> set (C t i))" if "m \<noteq> 0" "dnext (nodes ?d m) \<noteq> DICT_NODE_POSITION" for m
    using that nl rep by (cases "m = n") (auto simp: sel live_iff dict_rep_def)
  with A' R' show ?thesis
    using rep rh lv by (auto simp: dict_rep_def sel u_dict_is_rehashing_def live_iff)
qed

lemma move_node_sel [simp]:
  "active (move_node H d b n post old idx) = active d" "rehash (move_node H d b n post old idx) = rehash d"
  "rehashidx (move_node H d b n post old idx) = rehashidx d" "init_size (move_node H d b n post old idx) = init_size d"
  "u_dict_is_rehashing (move_node H d b n post old idx) = u_dict_is_rehashing d"
  "active d \<noteq> rehash d \<Longrightarrow> tsize (tables (move_node H d b n post old idx) (active d)) = tsize (tables d (active d))"
  by (simp_all add: move_node_def u_dict_is_rehashing_def erase_tab_def link_write_def)

lemma bucket_rehash_moves:
  assumes "dict_rep H d C" and "u_dict_is_rehashing d" and "b < unat (tsize (tables d (active d)))"
  shows "\<exists>d' C'. u_bucket_rehash d b = Some d' \<and> dict_rep H d' C' \<and> live C' = live C \<and>
    C' (active d) = (C (active d))(b := []) \<and> active d' = active d \<and> rehash d' = rehash d \<and> rehashidx d' = rehashidx d \<and>
    tsize (tables d' (active d)) = tsize (tables d (active d))"
  using assms
proof (induction "C (active d) b" arbitrary: d C)
  case Nil
  have "read_link d (Head (active d) b) = 0"
    using tab_rep_chain(1) [OF dict_rep_tab [OF Nil(2)] Nil(4)] Nil(1) by (auto simp: Nil(1) [symmetric])
  then have "u_bucket_rehash d b = Some d"
    by (subst u_bucket_rehash.simps) (simp add: u_erase_first_node_def)
  then show ?case using Nil by (metis fun_upd_triv)
next
  case (Cons n post)
  define idx where "idx = H n AND (tsize (tables d (rehash d)) - 1)"
  define d1 where "d1 = move_node H d b n post (C (rehash d) (unat idx)) (unat idx)"
  define C1 where "C1 = move_chains d b n post (unat idx) C"
  have ra: "active d \<noteq> rehash d" using Cons(3) by (simp add: dict_rep_def)
  have C: "C (active d) b = n # post" using Cons(2) by simp
  have rep1: "dict_rep H d1 C1"
    unfolding d1_def C1_def by (rule move_rep [OF Cons(3,4,5) C]) (simp add: idx_def)
  have a1: "active d1 = active d" "rehash d1 = rehash d" "rehashidx d1 = rehashidx d" "u_dict_is_rehashing d1"
    "tsize (tables d1 (active d)) = tsize (tables d (active d))"
    using ra Cons(4) by (simp_all add: d1_def)
  have C1: "C1 (active d) = (C (active d))(b := post)"
    using ra by (simp add: C1_def move_chains_def)
  obtain d' C' where "u_bucket_rehash d1 b = Some d'" "dict_rep H d' C'" "live C' = live C1"
    "C' (active d) = (C1 (active d))(b := [])" "active d' = active d" "rehash d' = rehash d" "rehashidx d' = rehashidx d"
    "tsize (tables d' (active d)) = tsize (tables d (active d))"
    using Cons(1) [of C1 d1] rep1 a1 C1 Cons(5) by auto
  moreover have "live C1 = live C" unfolding C1_def using ra C by (rule live_move)
  moreover have "u_bucket_rehash d b = u_bucket_rehash d1 b"
    unfolding d1_def using bucket_rehash_turn [OF Cons(3,4,5) C idx_def] .
  ultimately show ?case using C1 by auto
qed

subsection \<open>The end of a rehash, and a table made empty\<close>

lemma bitmap_zero_clear: "i < n \<Longrightarrow> \<not> test_bit i (bitmap_zero False g n)"
  using less_BITS_TO_LONGS_iff [of "i div 64" n] times_div_less_eq_dividend [of 64 i]
  by (simp add: bitmap_zero_def small_const_nbits_def variable_test_bit_def)

lemma dict_table_init_rehash:
  assumes rep: "dict_rep H d C" and sc: "scan_ok d C" and nr: "\<not> u_dict_is_rehashing d" and sz: "pow2_size sz"
  shows "dict_holds H (snd (dict_table_init mem d (rehash d) sz)) (live C)"
proof -
  let ?r = "rehash d" and ?a = "active d"
  have ra: "?r \<noteq> ?a" using rep by (auto simp: dict_rep_def)
  have C: "C ?r i = []" for i using rep nr by (simp add: dict_rep_def)
  let ?fail = "fst mem = None \<or> \<not> snd mem"
  define d' where "d' = snd (dict_table_init mem d ?r sz)"
  have s0: "sz \<noteq> 0" using sz by (auto simp: pow2_size_def)
  have ri: "rehashidx d = -1" using nr by (simp add: u_dict_is_rehashing_def)
  have sel: "active d' = ?a" "rehash d' = ?r" "rehashidx d' = (if ?fail then -1 else 0)" "nodes d' = nodes d"
    "init_size d' = init_size d" "tables d' ?a = tables d ?a"
    "\<not> ?fail \<Longrightarrow> tables d' ?r = \<lparr>nr_nodes = 0, tsize = sz, bucket = replicate (unat sz) 0,
       mapping = Some (bitmap_zero False (the (fst mem)) (unat sz))\<rparr>"
    using ra s0 ri by (auto simp: d'_def dict_table_init_def upd_table_def Let_def)
  have "tab_rep H ?r (tables d' ?r) (nodes d) (C ?r)" if "\<not> ?fail"
    using sz bitmap_zero_clear by (simp add: sel(7) [OF that] tab_rep_def C map_rep_def)
  then have "dict_rep H d' C"
    using rep C by (simp add: dict_rep_def sel u_dict_is_rehashing_def)
  moreover have "scan_ok d' C" by (simp add: scan_ok_def sel)
  ultimately show ?thesis unfolding d'_def [symmetric] dict_holds_def by blast
qed

lemma max_pow2: "pow2_size a \<Longrightarrow> pow2_size b \<Longrightarrow> pow2_size (max a b)"
  by (simp add: max_def)

lemma pow2_size_iff: "pow2_size a \<longleftrightarrow> (\<exists>k \<le> 31. a = push_bit k 1)"
proof -
  have "unat a = 2 ^ k \<longleftrightarrow> a = push_bit k 1" if "k \<le> 31" for k
    using that unat_pow2 [of k, where 'a = 32] by (simp add: word_unat_eq_iff del: push_bit_of_1)
  then show ?thesis by (auto simp: pow2_size_def)
qed

lemma pow2_double:
  assumes "pow2_size a" and nz: "push_bit 1 a \<noteq> 0"
  shows "pow2_size (push_bit 1 a)"
proof -
  obtain k where k: "k \<le> 31" "a = push_bit k 1" using assms(1) by (auto simp: pow2_size_iff)
  have "push_bit 1 a = push_bit (Suc k) 1" by (simp add: k push_bit_push_bit)
  moreover have "push_bit 32 1 = (0 :: u32)" by simp
  ultimately have "Suc k \<noteq> 32" using nz by metis
  then show ?thesis
    using k(1) \<open>push_bit 1 a = push_bit (Suc k) 1\<close> by (auto simp: pow2_size_iff intro!: exI [of _ "Suc k"])
qed

lemma pow2_half:
  assumes "pow2_size a" and nz: "drop_bit 1 a \<noteq> 0"
  shows "pow2_size (drop_bit 1 a)"
proof -
  obtain k where k: "k \<le> 31" "unat a = 2 ^ k" using assms(1) by (auto simp: pow2_size_def)
  have u: "unat (drop_bit 1 a) = 2 ^ k div 2" by (simp only: unat_div_pow2 k power_one_right)
  have "k \<noteq> 0" using u nz by (cases k) (simp_all add: unat_eq_0)
  then obtain j where "k = Suc j" by (cases k) auto
  then show ?thesis using u k(1) by (auto simp: pow2_size_def intro!: exI [of _ j])
qed

lemma resize_holds:
  assumes "dict_holds H d L"
  shows "dict_holds H (snd (u_dict_resize_if_needed mem d e)) L"
proof -
  obtain C where C: "dict_rep H d C" "scan_ok d C" "live C = L" using assms by (auto simp: dict_holds_def)
  let ?old = "tsize (tables d (active d))"
  have old: "pow2_size ?old" using tab_rep_size(1) [OF dict_rep_tab [OF C(1)]] by blast
  have isz: "pow2_size (init_size d)" using C(1) by (simp add: dict_rep_def)
  have p1: "pow2_size (max ?old (push_bit 1 ?old))"
    using old max_pow2 pow2_double [OF old] by (cases "push_bit 1 ?old = 0") (auto simp: max_def)
  have p2: "pow2_size (max (init_size d) (drop_bit 1 ?old))"
    using isz max_pow2 pow2_half [OF old] by (cases "drop_bit 1 ?old = 0") (auto simp: max_def)
  have init: "dict_holds H (snd (case dict_table_init mem d (rehash d) sz of (Some e, d) \<Rightarrow> (False, d) | (None, d) \<Rightarrow> (True, d))) L"
    if "pow2_size sz" "\<not> u_dict_is_rehashing d" for sz
    using dict_table_init_rehash [OF C(1,2) that(2,1), of mem] C(3) by (auto split: prod.splits option.splits)
  show ?thesis
    using assms p1 p2 init by (auto simp: u_dict_resize_if_needed_def Let_def simp del: push_bit_of_1 split: option.split if_splits)
qed

lemma rehash_complete:
  assumes rep: "dict_rep H d C" and rh: "u_dict_is_rehashing d" and z: "nr_nodes (tables d (active d)) = 0"
    and d': "d' = table_release (d\<lparr>active := rehash d, rehash := active d\<rparr>) (active d)"
  shows "dict_rep H d' C \<and> \<not> u_dict_is_rehashing d'"
proof -
  let ?a = "active d" and ?r = "rehash d"
  have ra: "?r \<noteq> ?a" using rep by (auto simp: dict_rep_def)
  note A = dict_rep_tab [OF rep, of ?a, simplified] and R = dict_rep_tab [OF rep, of ?r, simplified rh, simplified]
  have "card (\<Union>i. set (C ?a i)) = 0" using tab_card(2) [OF A] z by simp
  then have C: "C ?a i = []" for i using tab_card(1) [OF A] by auto
  have sel: "active d' = ?r" "rehash d' = ?a" "rehashidx d' = -1" "nodes d' = nodes d" "init_size d' = init_size d"
    "tables d' ?r = tables d ?r"
    using rh ra by (simp_all add: d' table_release_def dict_table_init_def upd_table_def u_dict_is_rehashing_def Let_def)
  show ?thesis
    using rep R C ra rh by (simp add: dict_rep_def sel u_dict_is_rehashing_def)
qed

text \<open>
  The loop of \<open>__dict_rehash\<close> either ends the rehash or moves its position on by at least one bucket
  a turn.
\<close>

lemma rehash_loop:
  assumes "dict_rep H d C" and "scan_ok d C" and "u_dict_is_rehashing d" and "rehashidx d \<le> uint (tsize (tables d (active d)))"
  shows "\<exists>r d' C'. u_dict_rehash_loop d step = Some (r, d') \<and> dict_rep H d' C' \<and> scan_ok d' C' \<and> live C' = live C \<and>
    r = u_dict_is_rehashing d' \<and>
    (r \<longrightarrow> rehashidx d + int step \<le> rehashidx d' \<and> rehashidx d' \<le> uint (tsize (tables d' (active d'))) \<and>
         tsize (tables d' (active d')) = tsize (tables d (active d)))"
  using assms
proof (induction step arbitrary: d C)
  case 0
  then show ?case by auto
next
  case (Suc step)
  let ?a = "active d"
  show ?case
  proof (cases "nr_nodes (tables d ?a) = 0")
    case True
    define d' where "d' = table_release (d\<lparr>active := rehash d, rehash := ?a\<rparr>) ?a"
    have "dict_rep H d' C" "\<not> u_dict_is_rehashing d'"
      using rehash_complete [OF Suc.prems(1,3) True d'_def] by auto
    moreover have "scan_ok d' C" using calculation by (simp add: scan_ok_def u_dict_is_rehashing_def)
    moreover have "u_dict_rehash_loop d (Suc step) = Some (False, d')"
      using True by (simp add: d'_def)
    ultimately show ?thesis by auto
  next
    case False
    note A = dict_rep_tab [OF Suc.prems(1), of ?a, simplified]
    obtain mp where mp: "mapping (tables d ?a) = Some mp" "\<And>i. i < unat (tsize (tables d ?a)) \<Longrightarrow> test_bit i mp = (C ?a i \<noteq> [])"
      using tab_rep_size(4) [OF A] by (auto simp: map_rep_def)
    define ix where "ix = find_next_bit mp (unat (tsize (tables d ?a))) (nat (rehashidx d))"
    have nx: "next_such (\<lambda>j. test_bit j mp) (unat (tsize (tables d ?a))) (nat (rehashidx d)) ix"
      unfolding ix_def by (rule find_next_bit_spec)
    have r0: "0 \<le> rehashidx d" using Suc.prems(1,3) by (auto simp: dict_rep_def u_dict_is_rehashing_def)
    have "unat (nr_nodes (tables d ?a)) \<noteq> 0" using False by (simp add: unat_eq_0)
    then obtain j where j: "C ?a j \<noteq> []" using tab_card(2) [OF A] by fastforce
    have js: "j < unat (tsize (tables d ?a))" using tab_rep_size(5) [OF A, of j] j by blast
    have "nat (rehashidx d) \<le> j" using Suc.prems(2) j r0 by (auto simp: scan_ok_def not_less [symmetric])
    then have lt: "ix < unat (tsize (tables d ?a))" and ge: "nat (rehashidx d) \<le> ix"
      and gap: "\<And>i. nat (rehashidx d) \<le> i \<Longrightarrow> i < ix \<Longrightarrow> \<not> test_bit i mp"
      using nx js j mp(2) [OF js] by (auto simp: next_such_def)
    define d1 where "d1 = d\<lparr>rehashidx := int ix + 1\<rparr>"
    have rep1: "dict_rep H d1 C" and rh1: "u_dict_is_rehashing d1" and a1: "active d1 = ?a" "tables d1 = tables d"
      using Suc.prems(1,3) by (auto simp: dict_rep_def d1_def u_dict_is_rehashing_def)
    obtain d2 C2 where m: "u_bucket_rehash d1 ix = Some d2" "dict_rep H d2 C2" "live C2 = live C"
      "C2 ?a = (C ?a)(ix := [])" "active d2 = ?a" "rehashidx d2 = int ix + 1"
      "tsize (tables d2 ?a) = tsize (tables d ?a)"
      using bucket_rehash_moves [OF rep1 rh1, of ix] lt by (auto simp: a1 d1_def)
    have "C2 ?a i = []" if "i < ix + 1" for i
      using that gap [of i] mp(2) [of i] lt Suc.prems(2) r0 m(4) by (cases "i < nat (rehashidx d)") (auto simp: scan_ok_def)
    then have sc2: "scan_ok d2 C2" using m by (auto simp: scan_ok_def)
    have rh2: "u_dict_is_rehashing d2" using m(6) by (simp add: u_dict_is_rehashing_def)
    have "int ix < uint (tsize (tables d ?a))" using lt by (simp only: uint_nat of_nat_less_iff)
    then have le2: "rehashidx d2 \<le> uint (tsize (tables d2 (active d2)))"
      using m by simp
    have turn: "u_dict_rehash_loop d (Suc step) = u_dict_rehash_loop d2 step"
      using False mp(1) lt tab_rep_size(2) [OF A] m(1) by (simp add: ix_def [symmetric] Let_def d1_def)
    have q: "rehashidx d \<le> int ix" using ge r0 by linarith
    obtain r d' C' where "u_dict_rehash_loop d2 step = Some (r, d')" "dict_rep H d' C'" "scan_ok d' C'" "live C' = live C2"
      "r = u_dict_is_rehashing d'"
      "r \<longrightarrow> rehashidx d2 + int step \<le> rehashidx d' \<and> rehashidx d' \<le> uint (tsize (tables d' (active d'))) \<and>
         tsize (tables d' (active d')) = tsize (tables d2 (active d2))"
      using Suc.IH [OF m(2) sc2 rh2 le2] by blast
    then show ?thesis
      unfolding turn using m q by (intro exI [of _ r] exI [of _ d'] exI [of _ C']) auto
  qed
qed

text \<open>During a rehash the position stays within the active table.\<close>

definition dict_inv :: "(nat \<Rightarrow> u32) \<Rightarrow> dict \<Rightarrow> nat set \<Rightarrow> bool" where
  "dict_inv H d L \<longleftrightarrow> (\<exists>C. dict_rep H d C \<and> scan_ok d C \<and> live C = L) \<and>
     rehashidx d \<le> uint (tsize (tables d (active d)))"

lemma check_rehashing_inv:
  assumes "dict_inv H d L"
  shows "\<exists>r d'. dict_check_rehashing d = Some (r, d') \<and> dict_inv H d' L \<and>
    r = u_dict_is_rehashing d' \<and>
    (r \<longrightarrow> rehashidx d + 2 \<le> rehashidx d' \<and> tsize (tables d' (active d')) = tsize (tables d (active d)))"
proof (cases "u_dict_is_rehashing d")
  case True
  obtain C where C: "dict_rep H d C" "scan_ok d C" "live C = L" "rehashidx d \<le> uint (tsize (tables d (active d)))"
    using assms by (auto simp: dict_inv_def)
  define steps where "steps = unat (min (max (nr_nodes (tables d (active d)) div tsize (tables d (active d))) 2) 8)"
  have "(2 :: u32) \<le> min (max (nr_nodes (tables d (active d)) div tsize (tables d (active d))) 2) 8"
    by simp
  then have "2 \<le> steps"
    unfolding steps_def word_le_nat_alt by simp
  then have "2 \<le> int steps" by simp
  moreover obtain r d' C' where "u_dict_rehash_loop d steps = Some (r, d')" "dict_rep H d' C'" "scan_ok d' C'" "live C' = live C"
      "r = u_dict_is_rehashing d'"
      "r \<longrightarrow> rehashidx d + int steps \<le> rehashidx d' \<and> rehashidx d' \<le> uint (tsize (tables d' (active d'))) \<and>
         tsize (tables d' (active d')) = tsize (tables d (active d))"
    using rehash_loop [OF C(1,2) True C(4), of steps] by blast
  moreover have "rehashidx d' \<le> uint (tsize (tables d' (active d')))"
  proof (cases r)
    case False
    have "(0 :: int) \<le> uint (tsize (tables d' (active d')))" by simp
    moreover have "rehashidx d' = -1" using False \<open>r = u_dict_is_rehashing d'\<close> by (simp add: u_dict_is_rehashing_def)
    ultimately show ?thesis by linarith
  qed (use calculation in auto)
  ultimately show ?thesis
    using C(3) True
    by (intro exI [of _ r] exI [of _ d'])
       (auto simp: dict_check_rehashing_def u_dict_rehash_def steps_def [symmetric] dict_inv_def Let_def)
next
  case False
  then show ?thesis
    using assms by (intro exI [of _ False] exI [of _ d]) (simp add: dict_check_rehashing_def)
qed

lemma resize_inv:
  assumes "dict_inv H d L"
  shows "dict_inv H (snd (u_dict_resize_if_needed mem d e)) L"
proof -
  let ?d = "snd (u_dict_resize_if_needed mem d e)"
  have "dict_holds H d L" using assms by (auto simp: dict_inv_def dict_holds_def)
  then have "dict_holds H ?d L" by (rule resize_holds)
  moreover have "rehashidx ?d \<le> 0 \<or> ?d = d"
    by (auto simp: u_dict_resize_if_needed_def dict_table_init_def upd_table_def u_dict_is_rehashing_def Let_def
        split: option.split if_split)
  ultimately show ?thesis
    using assms by (auto simp: dict_inv_def dict_holds_def intro: order_trans)
qed

text \<open>Iterating \<open>dict_check_rehashing\<close>.\<close>

primrec rehash_calls :: "nat \<Rightarrow> dict \<Rightarrow> dict option" where
  "rehash_calls 0 d = Some d"
| "rehash_calls (Suc k) d = (case dict_check_rehashing d of None \<Rightarrow> None | Some (_, d') \<Rightarrow> rehash_calls k d')"

lemma rehash_calls_idle: "\<not> u_dict_is_rehashing d \<Longrightarrow> rehash_calls k d = Some d"
  by (induction k) (simp_all add: dict_check_rehashing_def)

lemma rehash_calls_end:
  assumes "dict_inv H d L"
  shows "\<exists>d'. rehash_calls k d = Some d' \<and> dict_inv H d' L \<and>
    (u_dict_is_rehashing d' \<longrightarrow> rehashidx d + 2 * int k \<le> rehashidx d' \<and> rehashidx d' \<le> uint (tsize (tables d (active d))))"
  using assms
proof (induction k arbitrary: d)
  case 0
  then show ?case by (simp add: dict_inv_def)
next
  case (Suc k)
  obtain r d1 where d1: "dict_check_rehashing d = Some (r, d1)" "dict_inv H d1 L" "r = u_dict_is_rehashing d1"
    "r \<longrightarrow> rehashidx d + 2 \<le> rehashidx d1 \<and> tsize (tables d1 (active d1)) = tsize (tables d (active d))"
    using check_rehashing_inv [OF Suc.prems] by blast
  show ?case
  proof (cases r)
    case True
    then show ?thesis using Suc.IH [OF d1(2)] d1 by auto
  next
    case False
    then show ?thesis using d1 rehash_calls_idle [of d1 k] by auto
  qed
qed

section \<open>Lookup, insertion and removal\<close>

text \<open>What the callbacks must do: \<open>key\<close> is the key of the structure a node is embedded in.\<close>

definition ops_ok :: "'k dict_ops \<Rightarrow> (nat \<Rightarrow> 'k) \<Rightarrow> bool" where
  "ops_ok ops key \<longleftrightarrow> (\<forall>n k. compare_key ops n k (calc_hash ops k) = 0 \<longleftrightarrow> key n = k) \<and>
     (\<forall>a b. compare_node ops a b = 0 \<longleftrightarrow> key a = key b)"

abbreviation node_hash :: "'k dict_ops \<Rightarrow> (nat \<Rightarrow> 'k) \<Rightarrow> nat \<Rightarrow> u32" where
  "node_hash ops key n \<equiv> calc_hash ops (key n)"

lemma bucket_lookup_cases:
  assumes rep: "dict_rep H d C" and t: "uses_tab d t" and i: "i < unat (tsize (tables d t))"
  obtains (none) "\<And>n. n \<in> set (C t i) \<Longrightarrow> \<not> f n" "bucket_walk f d (Head t i) = Some (0, end_link (Head t i) (C t i))"
  | (found) pre n post where "C t i = pre @ n # post" "f n" "bucket_walk f d (Head t i) = Some (n, end_link (Head t i) pre)"
proof -
  have "chain (\<lambda>n. dnext (nodes d n)) (read_link d (Head t i)) (C t i)"
    using tab_rep_chain(1) [OF dict_rep_tab [OF rep t] i] by simp
  then have w: "bucket_walk f d (Head t i) = Some (walk_end f (Head t i) (C t i))"
    by (rule bucket_walk_chain)
  show ?thesis
    by (rule walk_end_cases [of "C t i" f "Head t i"]) (use w none found in force)+
qed

lemma start_lookup_cases:
  assumes ops: "ops_ok ops key" and rep: "dict_rep (node_hash ops key) d C"
  obtains (none) t idx where "\<And>n. n \<in> live C \<Longrightarrow> key n \<noteq> k" "uses_tab d t" "u_dict_is_rehashing d \<Longrightarrow> t = rehash d"
      "idx = calc_hash ops k AND (tsize (tables d t) - 1)"
      "u_start_lookup ops d k = Some (0, t, calc_hash ops k, idx, end_link (Head t (unat idx)) (C t (unat idx)))"
  | (found) t idx pre n post where "uses_tab d t" "C t (unat idx) = pre @ n # post" "key n = k" "n \<noteq> 0"
      "u_start_lookup ops d k = Some (n, t, calc_hash ops k, idx, end_link (Head t (unat idx)) pre)"
proof -
  let ?hv = "calc_hash ops k" and ?f = "\<lambda>n. compare_key ops n k (calc_hash ops k) = 0"
  define ix where "ix t = ?hv AND (tsize (tables d t) - 1)" for t
  have f: "?f n \<longleftrightarrow> key n = k" for n using ops by (simp add: ops_ok_def)
  have at: "i = unat (ix t)" if "n \<in> set (C t i)" "key n = k" for n t i
    using tab_rep_node [OF dict_rep_tab [OF rep dict_rep_live [OF rep that(1)]] that(1)] that(2) by (simp add: node_ok_def ix_def)
  have get: "u_get_bucket (tables d t) ?hv = Some (ix t)" "unat (ix t) < unat (tsize (tables d t))" if "uses_tab d t" for t
    using get_bucket_rep [OF dict_rep_tab [OF rep that], of ?hv] by (simp_all add: ix_def)
  have "0 \<notin> live C" using rep by (simp add: dict_rep_def)
  then have n0: "n \<noteq> 0" if "n \<in> set (C t i)" for n t i using that by (metis live_iff)
  note start = u_start_lookup_def [of ops d k] u_bucket_lookup_key_def Let_def
  have a: "uses_tab d (active d)" by simp
  show ?thesis
  proof (cases rule: bucket_lookup_cases [OF rep a get(2) [OF a], of ?f])
    case (2 pre n post)
    then show ?thesis
      using that(2) [of "active d" "ix (active d)" pre n post] f n0 [of n "active d" "unat (ix (active d))"] get(1) [OF a] 
      by (simp add: start)
  next
    case none1: 1
    show ?thesis
    proof (cases "u_dict_is_rehashing d")
      case False
      have "key n \<noteq> k" if "n \<in> live C" for n
        using that none1(1) f at dict_rep_live [OF rep] False by (auto simp: live_iff) metis
      then show ?thesis
        using that(1) [of "active d" "ix (active d)"] none1(2) False get(1) [OF a] by (simp add: start ix_def)
    next
      case True
      then have r: "uses_tab d (rehash d)" by simp
      show ?thesis
      proof (cases rule: bucket_lookup_cases [OF rep r get(2) [OF r], of ?f])
        case (2 pre n post)
        then show ?thesis
          using that(2) [of "rehash d" "ix (rehash d)" pre n post] f n0 [of n "rehash d" "unat (ix (rehash d))"] get(1) [OF a] get(1) [OF r]
            True none1(2) by (simp add: start)
      next
        case none2: 1
        have "key n \<noteq> k" if "n \<in> live C" for n
          using that none1(1) none2(1) f at dict_rep_live [OF rep] by (auto simp: live_iff) metis
        then show ?thesis
          using that(1) [of "rehash d" "ix (rehash d)"] none1(2) none2(2) True get(1) [OF a] get(1) [OF r]
          by (simp add: start ix_def)
      qed
    qed
  qed
qed

subsection \<open>One chain changed\<close>

definition upd_chain :: "(nat \<Rightarrow> nat \<Rightarrow> nat list) \<Rightarrow> nat \<Rightarrow> nat \<Rightarrow> nat list \<Rightarrow> nat \<Rightarrow> nat \<Rightarrow> nat list" where
  "upd_chain C t i ns = C(t := (C t)(i := ns))"

lemma upd_chain_apply: "upd_chain C t i ns t' i' = (if t' = t \<and> i' = i then ns else C t' i')"
  by (simp add: upd_chain_def)

lemma live_erase:
  assumes rep: "dict_rep H d C" and t: "uses_tab d t" and C: "C t i = pre @ n # post"
  shows "live (upd_chain C t i (pre @ post)) = live C - {n}"
proof -
  have i: "i < unat (tsize (tables d t))" using tab_rep_range [OF dict_rep_tab [OF rep t], of n i] C by simp
  have dist: "distinct (pre @ n # post)" using tab_rep_chain(2) [OF dict_rep_tab [OF rep t] i] C by simp
  have uniq: "t' = t \<and> i' = i" if "n \<in> set (C t' i')" for t' i'
    using dict_rep_unique [OF rep that, of t i] C by simp
  have "m \<in> set (upd_chain C t i (pre @ post) t' i') \<longleftrightarrow> m \<in> set (C t' i') \<and> m \<noteq> n" for m t' i'
    using dist uniq [of t' i'] C by (cases "t' = t \<and> i' = i") (auto simp: upd_chain_apply)
  then show ?thesis by (simp add: live_def set_eq_iff)
qed

lemma live_insert: "C t i = pre @ post \<Longrightarrow> live (upd_chain C t i (pre @ n # post)) = insert n (live C)"
proof -
  assume C: "C t i = pre @ post"
  have "m \<in> set (upd_chain C t i (pre @ n # post) t' i') \<longleftrightarrow> m \<in> set (C t' i') \<or> (m = n \<and> t' = t \<and> i' = i)" for m t' i'
    using C by (auto simp: upd_chain_apply)
  then show ?thesis by (auto simp: live_def set_eq_iff)
qed

lemma store_write_other: "m \<notin> set pre \<Longrightarrow> store_write pre v st m = st m"
  by (auto simp: store_write_def)

lemma dict_repI_upd:
  assumes rep: "dict_rep H d C" and t: "uses_tab d t"
    and tab: "tab_rep H t (tables d' t) (nodes d') (C' t)"
    and frame: "\<And>t' n i. t' \<noteq> t \<Longrightarrow> n \<in> set (C t' i) \<Longrightarrow> nodes d' n = nodes d n"
    and C': "\<And>t'. t' \<noteq> t \<Longrightarrow> C' t' = C t'" and tabs: "\<And>t'. t' \<noteq> t \<Longrightarrow> tables d' t' = tables d t'"
    and same: "active d' = active d" "rehash d' = rehash d" "rehashidx d' = rehashidx d" "init_size d' = init_size d"
    and lv: "DICT_NODE_POSITION \<notin> live C'" "0 \<notin> live C'" "card (live C') < 2 ^ 32"
    and link: "\<And>n. n \<noteq> 0 \<Longrightarrow> dnext (nodes d' n) \<noteq> DICT_NODE_POSITION \<Longrightarrow> n \<in> live C'"
  shows "dict_rep H d' C'"
proof -
  have rh: "u_dict_is_rehashing d' = u_dict_is_rehashing d" using same by (simp add: u_dict_is_rehashing_def)
  have T: "tab_rep H t' (tables d' t') (nodes d') (C' t')" if "uses_tab d t'" for t'
  proof (cases "t' = t")
    case False
    then show ?thesis
      using tab_rep_frame [OF dict_rep_tab [OF rep that], of "nodes d'"] frame C' tabs by simp
  qed (use tab in simp)
  have E: "C' t' i = []" if "\<not> uses_tab d t'" for t' i
    using that t C' [of t'] dict_rep_live [OF rep, of _ t' i] by (metis list.set_intros(1) neq_Nil_conv)
  show ?thesis
    using rep T E lv link by (auto simp: dict_rep_def same rh)
qed

lemma erase_rep:
  assumes rep: "dict_rep H d C" and t: "uses_tab d t" and C: "C t i = pre @ n # post"
    and d': "d' = upd_node n (\<lambda>_. dict_node_init) (u_erase_node_after (u_erase_node d n (end_link (Head t i) pre)) t i)"
  shows "dict_rep H d' (upd_chain C t i (pre @ post))"
    and "active d' = active d" and "rehashidx d' = rehashidx d"
    and "tsize (tables d' t') = tsize (tables d t')"
proof -
  note T = dict_rep_tab [OF rep t]
  have i: "i < unat (tsize (tables d t))" using tab_rep_range [OF T, of n i] C by simp
  have dist: "distinct (pre @ n # post)" using tab_rep_chain(2) [OF T i] C by simp
  have uniq: "t' = t \<and> i' = i" if "m \<in> set (pre @ n # post)" "m \<in> set (C t' i')" for m t' i'
    using dict_rep_unique [OF rep that(2), of t i] that(1) C by simp
  define st where "st = (store_write pre (dnext (nodes d n)) (nodes d))"
  have sel: "tables d' = (tables d)(t := erase_tab pre n post i d (tables d t))" "nodes d' = st(n := dict_node_init)"
    "active d' = active d" "rehash d' = rehash d" "rehashidx d' = rehashidx d" "init_size d' = init_size d"
    unfolding d' erase_node_state [OF T C i] by (simp_all add: upd_node_def st_def)
  then show "active d' = active d" "rehashidx d' = rehashidx d" "tsize (tables d' t') = tsize (tables d t')"
    by (simp_all add: erase_tab_def link_write_def)
  have lv: "live (upd_chain C t i (pre @ post)) = live C - {n}" by (rule live_erase [OF rep t C])
  show "dict_rep H d' (upd_chain C t i (pre @ post))"
  proof (rule dict_repI_upd [OF rep t])
    have "tab_rep H t (erase_tab pre n post i d (tables d t)) st ((C t)(i := pre @ post))"
      using tab_erase_at [OF T C i refl refl] by (simp add: erase_tab_def st_def)
    then show "tab_rep H t (tables d' t) (nodes d') (upd_chain C t i (pre @ post) t)"
      unfolding sel upd_chain_def by simp (rule tab_rep_frame, assumption, use dist uniq in \<open>auto split: if_splits\<close>)
  next
    fix t' m j assume "t' \<noteq> t" "m \<in> set (C t' j)"
    then have "m \<notin> set (pre @ n # post)" using uniq by blast
    then show "nodes d' m = nodes d m" by (simp add: sel st_def store_write_other)
  next
    show "card (live (upd_chain C t i (pre @ post))) < 2 ^ 32"
      using rep card_Diff1_le [of "live C" n] by (simp add: lv dict_rep_def)
  next
    fix m assume m: "m \<noteq> 0" "dnext (nodes d' m) \<noteq> DICT_NODE_POSITION"
    then have "m \<noteq> n" by (auto simp: sel dict_node_init_def)
    moreover have "m \<in> live C"
    proof (cases "m \<in> set pre")
      case True
      then show ?thesis using C by (metis Un_iff live_iff set_append)
    next
      case False
      then have "dnext (nodes d m) \<noteq> DICT_NODE_POSITION" using m \<open>m \<noteq> n\<close> by (simp add: sel st_def store_write_other)
      then show ?thesis using rep m(1) by (simp add: dict_rep_def)
    qed
    ultimately show "m \<in> live (upd_chain C t i (pre @ post))" by (simp add: lv)
  next
    show "DICT_NODE_POSITION \<notin> live (upd_chain C t i (pre @ post))" "0 \<notin> live (upd_chain C t i (pre @ post))"
      using rep by (simp_all add: lv dict_rep_def)
  qed (auto simp: upd_chain_def sel)
qed

lemma insert_rep:
  assumes rep: "dict_rep H d C" and t: "uses_tab d t" and C: "C t i = pre @ post"
    and new: "n \<notin> live C" "n \<noteq> 0" "n \<noteq> DICT_NODE_POSITION" "unat (H n AND (tsize (tables d t) - 1)) = i"
    and room: "card (live C) < 2 ^ 32 - 1"
    and d': "d' = d\<lparr>tables := (tables d)(t := insert_tab pre n post i (tables d t)),
        nodes := store_write pre n ((nodes d)(n := insert_rec H pre n t i d))\<rparr>"
  shows "dict_rep H d' (upd_chain C t i (pre @ n # post))"
proof (rule dict_repI_upd [OF rep t])
  note T = dict_rep_tab [OF rep t]
  have i: "i < unat (tsize (tables d t))" using get_bucket_rep(2) [OF T, of "H n"] new(4) by simp
  have nn: "n \<notin> set (C t' j)" for t' j using new(1) by (auto simp: live_iff)
  have pos: "DICT_NODE_POSITION \<notin> live C" using rep by (simp add: dict_rep_def)
  have lv: "live (upd_chain C t i (pre @ n # post)) = insert n (live C)" using C by (rule live_insert [where C = C and pre = pre and post = post])
  have "tab_rep H t (insert_tab pre n post i (tables d t)) (store_write pre n ((nodes d)(n := insert_rec H pre n t i d)))
    ((C t)(i := pre @ n # post))"
    by (rule tab_insert_at [OF T C i nn new(2,3,4) _ tab_room [OF rep t room] _ _ refl])
       (use pos C in \<open>auto simp: insert_tab_def insert_rec_def live_iff\<close>)
  then show "tab_rep H t (tables d' t) (nodes d') (upd_chain C t i (pre @ n # post) t)"
    by (simp add: d' upd_chain_def)
  show "DICT_NODE_POSITION \<notin> live (upd_chain C t i (pre @ n # post))" "0 \<notin> live (upd_chain C t i (pre @ n # post))"
    using rep new by (auto simp: lv dict_rep_def)
  show "card (live (upd_chain C t i (pre @ n # post))) < 2 ^ 32"
    using room new(1) live_finite [OF rep] by (simp add: lv)
  show "nodes d' m = nodes d m" if "t' \<noteq> t" "m \<in> set (C t' j)" for t' m j
  proof -
    have "m \<notin> set pre" using dict_rep_unique [OF rep that(2), of t i] that(1) C by auto
    then show ?thesis using nn that(2) by (auto simp: d' store_write_other)
  qed
  show "m \<in> live (upd_chain C t i (pre @ n # post))" if "m \<noteq> 0" "dnext (nodes d' m) \<noteq> DICT_NODE_POSITION" for m
  proof (cases "m = n \<or> m \<in> set pre")
    case True
    then show ?thesis using C by (auto simp: lv live_iff) (metis Un_iff set_append)
  next
    case False
    then have "dnext (nodes d m) \<noteq> DICT_NODE_POSITION" using that by (simp add: d' store_write_other)
    then show ?thesis using rep that by (simp add: dict_rep_def lv)
  qed
qed (simp_all add: upd_chain_def d')

section \<open>The operations\<close>

lemma resize_upd_node:
  "snd (u_dict_resize_if_needed mem (upd_node n f d) e) = upd_node n f (snd (u_dict_resize_if_needed mem d e))"
proof -
  have i: "dict_table_init mem (upd_node n f d) t sz = (fst (dict_table_init mem d t sz), upd_node n f (snd (dict_table_init mem d t sz)))" for t sz
    by (simp add: dict_table_init_def upd_node_def upd_table_def u_dict_is_rehashing_def Let_def)
  have s: "active (upd_node n f d) = active d" "tables (upd_node n f d) = tables d" "rehash (upd_node n f d) = rehash d"
    "init_size (upd_node n f d) = init_size d" "expand_ratio (upd_node n f d) = expand_ratio d" "reduce_ratio (upd_node n f d) = reduce_ratio d"
    "u_dict_is_rehashing (upd_node n f d) = u_dict_is_rehashing d"
    by (simp_all add: upd_node_def u_dict_is_rehashing_def)
  show ?thesis
    unfolding u_dict_resize_if_needed_def s i Let_def by (auto split: option.split prod.split)
qed

lemma erase_inv:
  assumes inv: "dict_rep H d C" "scan_ok d C" "rehashidx d \<le> uint (tsize (tables d (active d)))"
    and t: "uses_tab d t" and C: "C t i = pre @ n # post"
  shows "dict_inv H (upd_node n (\<lambda>_. dict_node_init)
    (snd (u_dict_resize_if_needed mem (u_erase_node_after (u_erase_node d n (end_link (Head t i) pre)) t i) False))) (live C - {n})"
  unfolding resize_upd_node [symmetric]
proof (rule resize_inv)
  let ?d = "upd_node n (\<lambda>_. dict_node_init) (u_erase_node_after (u_erase_node d n (end_link (Head t i) pre)) t i)"
  note E = erase_rep [OF inv(1) t C refl]
  have "scan_ok ?d (upd_chain C t i (pre @ post))"
    using inv(2) C by (auto simp: scan_ok_def E upd_chain_apply)
  then show "dict_inv H ?d (live C - {n})"
    using E live_erase [OF inv(1) t C] inv(3) by (auto simp: dict_inv_def)
qed

lemma insert_inv:
  assumes inv: "dict_rep H d C" "scan_ok d C" "rehashidx d \<le> uint (tsize (tables d (active d)))"
    and t: "uses_tab d t" "u_dict_is_rehashing d \<Longrightarrow> t = rehash d"
    and idx: "idx = H n AND (tsize (tables d t) - 1)" and hv: "hv = H n"
    and new: "n \<notin> live C" "n \<noteq> 0" "n \<noteq> DICT_NODE_POSITION" and room: "card (live C) < 2 ^ 32 - 1"
  shows "dict_inv H (u_insert_node (u_insert_node_before
      (upd_node n (\<lambda>x. x\<lparr>hvalue := hv, whichb := table_no t, bindex := take_bit 31 idx\<rparr>) d) t (unat idx)) n
      (end_link (Head t (unat idx)) (C t (unat idx)))) (insert n (live C))" (is "dict_inv H ?d _")
proof -
  note T = dict_rep_tab [OF inv(1) t(1)]
  have ar: "active d < 2" "rehash d < 2" "active d \<noteq> rehash d" using inv(1) by (simp_all add: dict_rep_def)
  have t2: "table_no t = t" using t(1) ar by (auto intro: table_no_less)
  have i: "unat idx < unat (tsize (tables d t))" "take_bit 31 idx = idx" using get_bucket_rep(2,3) [OF T, of "H n"] by (simp_all add: idx)
  let ?C = "upd_chain C t (unat idx) (C t (unat idx) @ [n])"
  define d' where "d' = d\<lparr>tables := (tables d)(t := insert_tab (C t (unat idx)) n [] (unat idx) (tables d t)),
        nodes := store_write (C t (unat idx)) n ((nodes d)(n := insert_rec H (C t (unat idx)) n t (unat idx) d))\<rparr>"
  have nn: "n \<notin> set (C t (unat idx))" using new(1) by (auto simp: live_iff)
  have e: "?d = d'"
    by (rule insert_node_state(1) [OF T _ i(1) nn _ _ d'_def, where g = "\<lambda>x. x\<lparr>bindex := word_of_nat (unat idx), whichb := t\<rparr>"])
       (simp_all add: i(2) hv t2)
  have "dict_rep H d' ?C"
    by (rule insert_rep [OF inv(1) t(1) _ new _ room d'_def]) (simp_all add: idx)
  moreover have "scan_ok d' ?C"
  proof (cases "u_dict_is_rehashing d")
    case True
    then show ?thesis using inv(2) t ar by (auto simp: scan_ok_def d'_def upd_chain_apply)
  next
    case False
    then show ?thesis by (auto simp: scan_ok_def d'_def u_dict_is_rehashing_def)
  qed
  moreover have "live ?C = insert n (live C)" by (rule live_insert) simp
  moreover have "rehashidx d' \<le> uint (tsize (tables d' (active d')))"
    using inv(3) by (auto simp: d'_def insert_tab_def link_write_def)
  ultimately show ?thesis unfolding e dict_inv_def by blast
qed

lemma dict_insert_spec:
  assumes ops: "ops_ok ops key" and inv: "dict_inv (node_hash ops key) d L"
    and new: "n \<notin> L" "n \<noteq> 0" "n \<noteq> DICT_NODE_POSITION" "key n = k" and room: "card L < 2 ^ 32 - 1"
  obtains (existed) old d' where "dict_insert ops mem d k n = Some (old, d')" "old \<in> L" "key old = k" "dict_inv (node_hash ops key) d' L"
  | (inserted) d' where "dict_insert ops mem d k n = Some (0, d')" "\<And>m. m \<in> L \<Longrightarrow> key m \<noteq> k" "dict_inv (node_hash ops key) d' (insert n L)"
proof -
  obtain r d1 where d1: "dict_check_rehashing d = Some (r, d1)" "dict_inv (node_hash ops key) d1 L"
    using check_rehashing_inv [OF inv] by blast
  define d2 where "d2 = snd (u_dict_resize_if_needed mem d1 True)"
  have "dict_inv (node_hash ops key) d2 L" unfolding d2_def using d1(2) by (rule resize_inv)
  then obtain C where C: "dict_rep (node_hash ops key) d2 C" "scan_ok d2 C" "live C = L"
    "rehashidx d2 \<le> uint (tsize (tables d2 (active d2)))" by (auto simp: dict_inv_def)
  have ins: "dict_insert ops mem d k n = (case u_start_lookup ops d2 k of None \<Rightarrow> None
           | Some (old, t, hv, idx, link) \<Rightarrow>
               if old \<noteq> 0 then Some (old, d2)
               else Some (0, u_insert_node (u_insert_node_before (upd_node n (\<lambda>x. x\<lparr>hvalue := hv, whichb := table_no t, bindex := take_bit 31 idx\<rparr>) d2) t (unat idx)) n link))"
    unfolding dict_insert_def d1(1) Let_def d2_def by simp
  show thesis
  proof (cases rule: start_lookup_cases [OF ops C(1), of k])
    case (1 t idx)
    show thesis
      by (rule inserted) (use 1 ins C(3) insert_inv [OF C(1,2,4) 1(2,3) _ _ _ new(2,3)] new room in auto)
  next
    case (2 t idx pre m post)
    have "m \<in> L" using 2(2) C(3) by (metis in_set_conv_decomp live_iff)
    then show thesis using existed [of m d2] 2 ins C by (auto simp: dict_inv_def)
  qed
qed

lemma dict_lookup_spec:
  assumes ops: "ops_ok ops key" and inv: "dict_inv (node_hash ops key) d L"
  shows "\<exists>n. dict_lookup ops d k = Some n \<and> (n \<in> L \<and> key n = k \<and> n \<noteq> 0 \<or> n = 0 \<and> (\<forall>m \<in> L. key m \<noteq> k))"
proof -
  obtain C where C: "dict_rep (node_hash ops key) d C" "live C = L" using inv by (auto simp: dict_inv_def)
  show ?thesis
  proof (cases "dict_nodes d = 0")
    case True
    then have "card L = 0" using dict_nodes_card [OF C(1)] C(2) by simp
    then have "L = {}" using live_finite [OF C(1)] C(2) by simp
    then show ?thesis using True by (simp add: dict_lookup_def)
  next
    case False
    show ?thesis
    proof (cases rule: start_lookup_cases [OF ops C(1), of k])
      case (1 t idx)
      then show ?thesis using False C(2) by (simp add: dict_lookup_def)
    next
      case (2 t idx pre m post)
      have "m \<in> L" using 2(2) C(2) by (metis in_set_conv_decomp live_iff)
      then show ?thesis using 2 False by (simp add: dict_lookup_def)
    qed
  qed
qed

lemma dict_lookup_remove_spec:
  assumes ops: "ops_ok ops key" and inv: "dict_inv (node_hash ops key) d L"
  obtains (removed) n d' where "dict_lookup_remove ops mem d k = Some (n, d')" "n \<in> L" "key n = k" "n \<noteq> 0"
      "dict_inv (node_hash ops key) d' (L - {n})"
  | (absent) d' where "dict_lookup_remove ops mem d k = Some (0, d')" "\<And>m. m \<in> L \<Longrightarrow> key m \<noteq> k" "dict_inv (node_hash ops key) d' L"
proof -
  obtain r d1 where d1: "dict_check_rehashing d = Some (r, d1)" "dict_inv (node_hash ops key) d1 L"
    using check_rehashing_inv [OF inv] by blast
  then obtain C where C: "dict_rep (node_hash ops key) d1 C" "scan_ok d1 C" "live C = L"
    "rehashidx d1 \<le> uint (tsize (tables d1 (active d1)))" by (auto simp: dict_inv_def)
  show thesis
  proof (cases "dict_nodes d1 = 0")
    case True
    then have "card L = 0" using dict_nodes_card [OF C(1)] C(3) by simp
    then have "L = {}" using live_finite [OF C(1)] C(3) by simp
    then show thesis using absent [of d1] True d1 by (simp add: dict_lookup_remove_def)
  next
    case False
    show thesis
    proof (cases rule: start_lookup_cases [OF ops C(1), of k])
      case (1 t idx)
      then show thesis using absent [of d1] False C d1 by (simp add: dict_lookup_remove_def)
    next
      case (2 t idx pre m post)
      have "m \<in> L" using 2(2) C(3) by (metis in_set_conv_decomp live_iff)
      then show thesis
        using removed 2 False C(3) d1(1) erase_inv [OF C(1,2,4) 2(1,2), of mem] by (simp add: dict_lookup_remove_def Let_def)
    qed
  qed
qed

lemma dict_direct_remove_spec:
  assumes ops: "ops_ok ops key" and inv: "dict_inv (node_hash ops key) d L" and inj: "inj_on key L"
  shows "if n \<in> L then \<exists>d'. dict_direct_remove ops mem d n = Some (None, d') \<and> dict_inv (node_hash ops key) d' (L - {n})
    else dict_direct_remove ops mem d n = Some (Some EINVAL, d)"
proof -
  obtain C where C: "dict_rep (node_hash ops key) d C" "scan_ok d C" "live C = L"
    "rehashidx d \<le> uint (tsize (tables d (active d)))" using inv by (auto simp: dict_inv_def)
  show ?thesis
  proof (cases "n \<in> L")
    case False
    then have "\<not> u_dnode_linked d n" using C(1,3) by (auto simp: dict_rep_def u_dnode_linked_def)
    then show ?thesis using False by (simp add: dict_direct_remove_def)
  next
    case True
    then obtain t i where n: "n \<in> set (C t i)" using C(3) by (auto simp: live_iff)
    have t: "uses_tab d t" by (rule dict_rep_live [OF C(1) n])
    note T = dict_rep_tab [OF C(1) t]
    note N = tab_rep_node [OF T n, unfolded node_ok_def]
    have i: "i < unat (tsize (tables d t))" by (rule tab_rep_range [OF T n])
    have b: "calc_hash ops (key n) AND (tsize (tables d t) - 1) = bindex (nodes d n)"
      using N by (auto simp: word_unat_eq_iff)
    have f: "compare_node ops m n = 0 \<longleftrightarrow> m = n" if "m \<in> set (C t i)" for m
      using ops inj that True C(3) by (auto simp: ops_ok_def live_iff inj_on_def)
    have "\<exists>pre post. C t i = pre @ n # post \<and> bucket_walk (\<lambda>m. compare_node ops m n = 0) d (Head t i) = Some (n, end_link (Head t i) pre)"
    proof (cases rule: bucket_lookup_cases [OF C(1) t i, of "\<lambda>m. compare_node ops m n = 0"])
      case 1
      then show ?thesis using f [OF n] n by blast
    next
      case (2 pre m post)
      then show ?thesis using f [of m] by auto
    qed
    then obtain pre post where w: "C t i = pre @ n # post"
      "bucket_walk (\<lambda>m. compare_node ops m n = 0) d (Head t i) = Some (n, end_link (Head t i) pre)" by blast
    have "u_dnode_linked d n" using N by (simp add: u_dnode_linked_def)
    then show ?thesis
      using True N b w(2) get_bucket_rep(1) [OF T, of "calc_hash ops (key n)"] erase_inv [OF C(1,2,4) t w(1), of mem] C(3)
      by (simp add: dict_direct_remove_def u_bucket_lookup_node_def Let_def)
  qed
qed

lemma roundup_pow2_size:
  assumes "isz \<noteq> 0" and "isz \<le> (push_bit 31 1 :: u32)"
  shows "pow2_size (ucast (u_roundup_pow_of_two (ucast isz)))"
proof -
  have u: "unat (ucast isz :: u64) = unat isz"
    by (simp add: unsigned_ucast_eq take_bit_nat_eq_self unsigned_less order_less_trans [OF unat_lt_2p])
  have le: "unat isz \<le> 2 ^ 31"
    using assms(2) unat_pow2 [of 31, where 'a = 32] by (simp add: word_le_nat_alt)
  have "unat isz \<noteq> 0" using assms(1) by (simp add: unat_eq_0)
  then obtain k where k: "unat (u_roundup_pow_of_two (ucast isz)) = 2 ^ k" "2 ^ k < 2 * unat isz"
    using roundup_pow_of_two_bracket [of "ucast isz"] u le by auto
  have "(2 :: nat) ^ k < 2 ^ 32" using k(2) le by simp
  then have k31: "k \<le> 31" using power_less_imp_less_exp [of "2 :: nat" k 32] by simp
  have "unat (ucast (u_roundup_pow_of_two (ucast isz)) :: u32) = 2 ^ k"
    using k(1) k31 by (simp add: unsigned_ucast_eq take_bit_nat_eq_self)
  then show ?thesis using k31 by (auto simp: pow2_size_def)
qed

lemma dict_init_inv:
  assumes sz: "attr_init_size attr \<le> push_bit 31 1" and store: "\<And>n. store n = dict_node_init"
    and init: "dict_init mem store attr = Some (None, d)"
  shows "dict_inv H d {}"
proof -
  define isz where "isz = (if attr_init_size attr = 0 then DICT_INIT_SIZE else attr_init_size attr)"
  define n where "n = (ucast (u_roundup_pow_of_two (ucast isz)) :: u32)"
  have "isz \<noteq> 0" "isz \<le> push_bit 31 1" using sz by (simp_all add: isz_def DICT_INIT_SIZE_def)
  then have p: "pow2_size n" unfolding n_def by (rule roundup_pow2_size)
  then have n0: "n \<noteq> 0" by (auto simp: pow2_size_def)
  let ?C = "\<lambda>t i. [] :: nat list"
  have sel: "active d = 0" "rehash d = 1" "rehashidx d = -1" "nodes d = store" "init_size d = n"
    "tables d 0 = \<lparr>nr_nodes = 0, tsize = n, bucket = replicate (unat n) 0, mapping = Some (bitmap_zero False (the (fst mem)) (unat n))\<rparr>"
    using init n0
    by (auto simp: dict_init_def dict_table_init_def upd_table_def u_dict_is_rehashing_def Let_def isz_def [symmetric] n_def [symmetric]
        split: if_splits prod.splits option.splits)
  have "tab_rep H 0 (tables d 0) store (?C 0)"
    using p bitmap_zero_clear by (simp add: sel tab_rep_def map_rep_def)
  then have "dict_rep H d ?C"
    using p store by (simp add: dict_rep_def sel u_dict_is_rehashing_def live_def dict_node_init_def)
  moreover have "scan_ok d ?C" "live ?C = {}" by (simp_all add: scan_ok_def live_def)
  moreover have "rehashidx d \<le> uint (tsize (tables d (active d)))"
  proof -
    have "(0 :: int) \<le> uint (tsize (tables d (active d)))" by simp
    then show ?thesis unfolding sel(3) by linarith
  qed
  ultimately show ?thesis unfolding dict_inv_def by blast
qed

section \<open>Refinement of a map\<close>

text \<open>The calls of a client and what it sees of their results.\<close>

datatype 'k dict_call = Dinsert 'k nat | Dlookup 'k | Dremove 'k | Ddirect nat | Drehash
datatype dict_result = Rnode nat | Rerr "errno option" | Rdone

fun dict_step :: "'k dict_ops \<Rightarrow> dict \<Rightarrow> dict_mem \<times> 'k dict_call \<Rightarrow> (dict_result \<times> dict) option" where
  "dict_step ops d (mem, Dinsert k n) = map_option (\<lambda>(old, d). (Rnode old, d)) (dict_insert ops mem d k n)"
| "dict_step ops d (mem, Dlookup k) = map_option (\<lambda>n. (Rnode n, d)) (dict_lookup ops d k)"
| "dict_step ops d (mem, Dremove k) = map_option (\<lambda>(n, d). (Rnode n, d)) (dict_lookup_remove ops mem d k)"
| "dict_step ops d (mem, Ddirect n) = map_option (\<lambda>(e, d). (Rerr e, d)) (dict_direct_remove ops mem d n)"
| "dict_step ops d (mem, Drehash) = map_option (\<lambda>(_, d). (Rdone, d)) (dict_check_rehashing d)"

fun dict_run :: "'k dict_ops \<Rightarrow> dict \<Rightarrow> (dict_mem \<times> 'k dict_call) list \<Rightarrow> (dict_result list \<times> dict) option" where
  "dict_run ops d [] = Some ([], d)"
| "dict_run ops d (c # cs) = (case dict_step ops d c of None \<Rightarrow> None
     | Some (r, d) \<Rightarrow> map_option (\<lambda>(rs, d). (r # rs, d)) (dict_run ops d cs))"

text \<open>
  The same calls on a map from keys to nodes; \<open>None\<close> is a call the client must not make: to insert a
  node that is null or already in the dictionary, under a key that is not the node's, or when the
  32-bit counters are full.
\<close>

fun map_step :: "(nat \<Rightarrow> 'k) \<Rightarrow> ('k \<rightharpoonup> nat) \<Rightarrow> 'k dict_call \<Rightarrow> (dict_result \<times> ('k \<rightharpoonup> nat)) option" where
  "map_step key m (Dinsert k n) =
     (if n = 0 \<or> n = DICT_NODE_POSITION \<or> n \<in> ran m \<or> key n \<noteq> k \<or> 2 ^ 32 - 1 \<le> card (dom m) then None
      else Some (case m k of Some old \<Rightarrow> (Rnode old, m) | None \<Rightarrow> (Rnode 0, m(k \<mapsto> n))))"
| "map_step key m (Dlookup k) = Some (Rnode (case m k of None \<Rightarrow> 0 | Some n \<Rightarrow> n), m)"
| "map_step key m (Dremove k) = Some (Rnode (case m k of None \<Rightarrow> 0 | Some n \<Rightarrow> n), m(k := None))"
| "map_step key m (Ddirect n) =
     Some (if n \<in> ran m then (Rerr None, m(key n := None)) else (Rerr (Some EINVAL), m))"
| "map_step key m Drehash = Some (Rdone, m)"

fun map_run :: "(nat \<Rightarrow> 'k) \<Rightarrow> ('k \<rightharpoonup> nat) \<Rightarrow> 'k dict_call list \<Rightarrow> (dict_result list \<times> ('k \<rightharpoonup> nat)) option" where
  "map_run key m [] = Some ([], m)"
| "map_run key m (c # cs) = (case map_step key m c of None \<Rightarrow> None
     | Some (r, m) \<Rightarrow> map_option (\<lambda>(rs, m). (r # rs, m)) (map_run key m cs))"

definition dict_sim :: "'k dict_ops \<Rightarrow> (nat \<Rightarrow> 'k) \<Rightarrow> dict \<Rightarrow> ('k \<rightharpoonup> nat) \<Rightarrow> bool" where
  "dict_sim ops key d m \<longleftrightarrow> dict_inv (node_hash ops key) d (ran m) \<and> (\<forall>k n. m k = Some n \<longrightarrow> key n = k \<and> n \<noteq> 0)"

lemma sim_key: "dict_sim ops key d m \<Longrightarrow> n \<in> ran m \<Longrightarrow> m (key n) = Some n"
  by (auto simp: dict_sim_def ran_def)

lemma sim_inj: "dict_sim ops key d m \<Longrightarrow> inj_on key (ran m)"
  by (rule inj_onI) (metis option.inject sim_key)

lemma sim_card:
  assumes "dict_sim ops key d m"
  shows "card (ran m) = card (dom m)"
proof (rule card_bij_eq [where f = key and g = "\<lambda>k. the (m k)"])
  have "finite (ran m)" using assms live_finite by (fastforce simp: dict_sim_def dict_inv_def)
  then show "finite (ran m)" .
  show "inj_on key (ran m)" by (rule sim_inj [OF assms])
  show "key ` ran m \<subseteq> dom m" using sim_key [OF assms] by auto
  show "inj_on (\<lambda>k. the (m k)) (dom m)"
    using assms by (intro inj_onI) (metis dict_sim_def domD option.sel)
  show "(\<lambda>k. the (m k)) ` dom m \<subseteq> ran m" by (auto simp: ran_def)
  have "dom m = key ` ran m" using sim_key [OF assms] assms by (auto simp: dict_sim_def ran_def image_def)
  then show "finite (dom m)" using \<open>finite (ran m)\<close> by simp
qed

lemma sim_remove:
  assumes "dict_sim ops key d m" and "m k = Some n" and "dict_inv (node_hash ops key) d' (ran m - {n})"
  shows "dict_sim ops key d' (m(k := None))"
proof -
  have "ran (m(k := None)) = ran m - {n}"
    using assms(1,2) by (auto simp: ran_def dict_sim_def) (metis option.inject)+
  then show ?thesis using assms by (auto simp: dict_sim_def)
qed

lemma dict_step_sim:
  assumes ops: "ops_ok ops key" and sim: "dict_sim ops key d m" and step: "map_step key m c = Some (r, m')"
  shows "\<exists>d'. dict_step ops d (mem, c) = Some (r, d') \<and> dict_sim ops key d' m'"
proof -
  let ?H = "node_hash ops key"
  have inv: "dict_inv ?H d (ran m)" using sim by (simp add: dict_sim_def)
  have key: "m (key n) = Some n" if "n \<in> ran m" for n using sim_key [OF sim that] .
  have none: "m k = None" if "\<And>n. n \<in> ran m \<Longrightarrow> key n \<noteq> k" for k
    using that sim by (metis dict_sim_def not_Some_eq ranI)
  have zero: "0 \<notin> ran m" using sim by (auto simp: dict_sim_def ran_def)
  show ?thesis
  proof (cases c)
    case (Dinsert k n)
    then have new: "n \<notin> ran m" "n \<noteq> 0" "n \<noteq> DICT_NODE_POSITION" "key n = k" "card (ran m) < 2 ^ 32 - 1"
      using step sim_card [OF sim] by (auto split: if_splits)
    show ?thesis
    proof (cases rule: dict_insert_spec [OF ops inv new, of mem])
      case (1 old d')
      then show ?thesis using Dinsert step new key [of old] sim sim_card [OF sim] by (auto simp: dict_sim_def split: if_splits)
    next
      case (2 d')
      then have "m k = None" using none by blast
      then show ?thesis
        using Dinsert step new 2 sim sim_card [OF sim] by (auto simp: dict_sim_def ran_map_upd split: if_splits)
    qed
  next
    case (Dlookup k)
    then show ?thesis
      using step dict_lookup_spec [OF ops inv, of k] sim key none by (auto split: option.splits)
  next
    case (Dremove k)
    show ?thesis
    proof (cases rule: dict_lookup_remove_spec [OF ops inv, of mem k])
      case (1 n d')
      then show ?thesis using Dremove step key [of n] sim_remove [OF sim, of k n d'] by auto
    next
      case (2 d')
      then show ?thesis using Dremove step none [of k] sim by (auto simp: dict_sim_def fun_upd_idem)
    qed
  next
    case (Ddirect n)
    show ?thesis
      using dict_direct_remove_spec [OF ops inv sim_inj [OF sim], of n mem] Ddirect step sim sim_remove [OF sim key]
      by (cases "n \<in> ran m") auto
  next
    case Drehash
    then show ?thesis using check_rehashing_inv [OF inv] step sim by (auto simp: dict_sim_def)
  qed
qed

lemma dict_run_sim:
  "ops_ok ops key \<Longrightarrow> dict_sim ops key d m \<Longrightarrow> map_run key m (map snd cs) = Some (rs, m') \<Longrightarrow>
   \<exists>d'. dict_run ops d cs = Some (rs, d') \<and> dict_sim ops key d' m'"
proof (induction cs arbitrary: d m rs)
  case (Cons c cs)
  obtain r m1 rs1 where s: "map_step key m (snd c) = Some (r, m1)" "map_run key m1 (map snd cs) = Some (rs1, m')" "rs = r # rs1"
    using Cons.prems(3) by (auto split: option.splits)
  obtain d1 where "dict_step ops d c = Some (r, d1)" "dict_sim ops key d1 m1"
    using dict_step_sim [OF Cons.prems(1,2) s(1), of "fst c"] by auto
  then show ?case using Cons.IH [OF Cons.prems(1) _ s(2)] s(3) by fastforce
qed auto

section \<open>Iteration\<close>

lemma for_each_step:
  "dict_for_each d p = (case dict_iter_next d p of None \<Rightarrow> None
     | Some (q, nxt) \<Rightarrow> if q = 0 then Some [] else map_option (Cons q) (dict_for_each d nxt))"
proof -
  have z: "dict_for_each d 0 = Some []" by (subst dict_for_each.simps) (simp add: dict_iter_next_def)
  show ?thesis
    by (subst dict_for_each.simps) (auto simp: z split: option.splits bind_splits prod.splits)
qed

definition scan_from :: "dict \<Rightarrow> nat \<Rightarrow> nat \<Rightarrow> nat option" where
  "scan_from d t start = (case iter_scan d t start of None \<Rightarrow> None
     | Some None \<Rightarrow> iter_try d t | Some (Some h) \<Rightarrow> Some h)"

lemma iter_next_rep:
  assumes rep: "dict_rep H d C" and t: "uses_tab d t" and C: "C t b = pre @ p # post"
  shows "dict_iter_next d p = (case post of [] \<Rightarrow> map_option (Pair p) (scan_from d t (b + 1)) | q # _ \<Rightarrow> Some (p, q))"
proof -
  note T = dict_rep_tab [OF rep t]
  have b: "b < unat (tsize (tables d t))" using tab_rep_range [OF T, of p b] C by simp
  have N: "whichb (nodes d p) = t" "unat (bindex (nodes d p)) = b" "p \<noteq> 0"
    using tab_rep_node [OF T, of p b] C by (auto simp: node_ok_def)
  have ch: "chain (\<lambda>n. dnext (nodes d n)) (dnext (nodes d p)) post"
    using chain_append [of "\<lambda>n. dnext (nodes d n)" _ pre "p # post"] tab_rep_chain(1) [OF T b] C by simp
  have "\<not> tsize (tables d t) \<le> bindex (nodes d p)" using b N(2) by (simp add: word_le_nat_alt)
  then show ?thesis
    using ch N by (cases post) (auto simp: dict_iter_next_def scan_from_def Let_def split: option.splits)
qed

lemma for_each_chain:
  assumes rep: "dict_rep H d C" and t: "uses_tab d t" and nxt: "scan_from d t (b + 1) = Some h" "dict_for_each d h = Some rest"
  shows "C t b = pre @ p # post \<Longrightarrow> dict_for_each d p = Some (p # post @ rest)"
proof (induction post arbitrary: pre p)
  case Nil
  have "p \<noteq> 0" using tab_rep_node [OF dict_rep_tab [OF rep t], of p b] Nil by (simp add: node_ok_def)
  then show ?case
    by (subst for_each_step) (simp add: iter_next_rep [OF rep t Nil] nxt [simplified])
next
  case (Cons q post)
  have "p \<noteq> 0" using tab_rep_node [OF dict_rep_tab [OF rep t], of p b] Cons.prems by (simp add: node_ok_def)
  moreover have "dict_for_each d q = Some (q # post @ rest)" using Cons.IH [of "pre @ [p]" q] Cons.prems by simp
  ultimately show ?case
    by (subst for_each_step) (simp add: iter_next_rep [OF rep t Cons.prems])
qed

lemma for_each_scan:
  assumes rep: "dict_rep H d C" and t: "uses_tab d t" and tail: "iter_try d t = Some h0" "dict_for_each d h0 = Some rest"
  shows "start \<le> unat (tsize (tables d t)) \<Longrightarrow>
    \<exists>h. scan_from d t start = Some h \<and>
        dict_for_each d h = Some (concat (map (C t) [start..<unat (tsize (tables d t))]) @ rest)"
proof (induction "unat (tsize (tables d t)) - start" arbitrary: start rule: less_induct)
  case less
  note T = dict_rep_tab [OF rep t]
  let ?sz = "unat (tsize (tables d t))"
  obtain mp where mp: "mapping (tables d t) = Some mp" "\<And>i. i < ?sz \<Longrightarrow> test_bit i mp = (C t i \<noteq> [])"
    using tab_rep_size(4) [OF T] by (auto simp: map_rep_def)
  define b where "b = find_next_bit mp ?sz start"
  have nx: "next_such (\<lambda>j. test_bit j mp) ?sz start b" unfolding b_def by (rule find_next_bit_spec)
  have b: "start \<le> b" "b \<le> ?sz" "b < ?sz \<Longrightarrow> C t b \<noteq> []" and gap: "\<And>j. start \<le> j \<Longrightarrow> j < b \<Longrightarrow> C t j = []"
    using nx less.prems mp(2) by (auto simp: next_such_def)
  have "[start..<?sz] = [start..<b] @ [b..<?sz]" using b by (metis le_add_diff_inverse upt_add_eq_append)
  moreover have "concat (map (C t) [start..<b]) = []" using gap by auto
  ultimately have split: "concat (map (C t) [start..<?sz]) = concat (map (C t) [b..<?sz])" by simp
  have scan: "iter_scan d t start = Some (if ?sz \<le> b then None else Some (bucket (tables d t) ! b))"
    using mp(1) tab_rep_size(2) [OF T] by (simp add: iter_scan_def Let_def b_def)
  show ?case
  proof (cases "b < ?sz")
    case False
    then show ?thesis using split tail scan by (simp add: scan_from_def)
  next
    case True
    then obtain p post where C: "C t b = p # post" using b(3) by (cases "C t b") auto
    have "?sz - (b + 1) < ?sz - start" "b + 1 \<le> ?sz" using True b(1) by auto
    then obtain h where h: "scan_from d t (b + 1) = Some h" "dict_for_each d h = Some (concat (map (C t) [b + 1..<?sz]) @ rest)"
      using less.hyps [of "b + 1"] by blast
    have "bucket (tables d t) ! b = p" using tab_rep_chain(1) [OF T True] C by simp
    moreover have "dict_for_each d p = Some (p # post @ concat (map (C t) [b + 1..<?sz]) @ rest)"
      using for_each_chain [OF rep t h, of "[]"] C by simp
    moreover have "[b..<?sz] = b # [b + 1..<?sz]" using True by (simp add: upt_conv_Cons)
    ultimately show ?thesis using split scan True C by (simp add: scan_from_def)
  qed
qed

definition visit_order :: "dict \<Rightarrow> (nat \<Rightarrow> nat \<Rightarrow> nat list) \<Rightarrow> nat \<Rightarrow> nat list" where
  "visit_order d C t = concat (map (C t) [0..<unat (tsize (tables d t))])"

lemma visit_order_set:
  assumes rep: "dict_rep H d C" and t: "uses_tab d t"
  shows "set (visit_order d C t) = (\<Union>i. set (C t i))" and "distinct (visit_order d C t)"
proof -
  note T = dict_rep_tab [OF rep t]
  show "set (visit_order d C t) = (\<Union>i. set (C t i))"
    using finite_tab [OF T] by (auto simp: visit_order_def)
  have "distinct (concat (map (C t) [0..<k]))" if "k \<le> unat (tsize (tables d t))" for k
    using that
  proof (induction k)
    case (Suc k)
    have "x \<notin> set (C t i)" if "i < k" "x \<in> set (C t k)" for i x
      using that dict_rep_unique [OF rep, of x t i t k] by auto
    then show ?case using Suc tab_rep_chain(2) [OF T, of k] by (auto simp: disjoint_iff)
  qed simp
  then show "distinct (visit_order d C t)" by (simp add: visit_order_def)
qed

lemma dict_iterates:
  assumes inv: "dict_inv H d L"
  shows "nr_nodes (tables d (active d)) \<noteq> 0 \<or> L = {} \<Longrightarrow>
      \<exists>ps. Option.bind (dict_iter_init d) (dict_for_each d) = Some ps \<and> distinct ps \<and> set ps = L"
    and "nr_nodes (tables d (active d)) = 0 \<Longrightarrow> L \<noteq> {} \<Longrightarrow> dict_iter_init d = None"
proof -
  let ?a = "active d" and ?r = "rehash d"
  obtain C where rep: "dict_rep H d C" and L: "live C = L" using inv by (auto simp: dict_inv_def)
  have ra: "?r \<noteq> ?a" using rep by (simp add: dict_rep_def)
  have a: "uses_tab d ?a" by simp
  note A = dict_rep_tab [OF rep a]
  have z: "dict_for_each d 0 = Some []" by (subst for_each_step) (simp add: dict_iter_next_def)
  have nodes: "dict_nodes d = 0 \<longleftrightarrow> L = {}"
    using dict_nodes_card [OF rep] live_finite [OF rep] L by (metis card_eq_0_iff unat_eq_0)
  define rest where "rest = (if u_dict_is_rehashing d then visit_order d C ?r else [])"
  have "\<exists>h0. iter_try d ?a = Some h0 \<and> dict_for_each d h0 = Some rest"
  proof (cases "u_dict_is_rehashing d")
    case True
    have "iter_try d ?r = Some 0" by (simp add: iter_try_def)
    with for_each_scan [OF rep _ this z, of 0] True obtain h where
      h: "scan_from d ?r 0 = Some h" "dict_for_each d h = Some rest" by (auto simp: rest_def visit_order_def)
    have "iter_try d ?a = Some h"
      using h(1) True ra by (auto simp: iter_try_def scan_from_def split: option.splits)
    then show ?thesis using h by blast
  next
    case False
    then show ?thesis using z by (simp add: iter_try_def rest_def)
  qed
  then obtain h0 where h0: "iter_try d ?a = Some h0" "dict_for_each d h0 = Some rest" by blast
  obtain h where h: "scan_from d ?a 0 = Some h" "dict_for_each d h = Some (visit_order d C ?a @ rest)"
    using for_each_scan [OF rep a h0, of 0] by (auto simp: visit_order_def)
  obtain mp where mp: "mapping (tables d ?a) = Some mp" "\<And>i. i < unat (tsize (tables d ?a)) \<Longrightarrow> test_bit i mp = (C ?a i \<noteq> [])"
    using tab_rep_size(4) [OF A] by (auto simp: map_rep_def)
  define b where "b = find_next_bit mp (unat (tsize (tables d ?a))) 0"
  have nx: "next_such (\<lambda>j. test_bit j mp) (unat (tsize (tables d ?a))) 0 b" unfolding b_def by (rule find_next_bit_spec)
  have bl: "length (bucket (tables d ?a)) = unat (tsize (tables d ?a))" using tab_rep_size(2) [OF A] .
  have init: "dict_iter_init d = (if L = {} then Some 0 else if b < unat (tsize (tables d ?a)) \<and> bucket (tables d ?a) ! b \<noteq> 0
      then Some (bucket (tables d ?a) ! b) else None)"
    using nodes mp(1) bl by (simp add: dict_iter_init_def Let_def b_def)
  have rs: "set rest = (\<Union>i. set (C ?r i))" "distinct rest"
    using visit_order_set [OF rep, of ?r] rep by (cases "u_dict_is_rehashing d"; simp add: rest_def dict_rep_def)+
  have set: "set (visit_order d C ?a @ rest) = L"
    using visit_order_set(1) [OF rep a] L live_two [OF rep] rs by simp
  have "(\<Union>i. set (C ?a i)) \<inter> (\<Union>i. set (C ?r i)) = {}"
  proof -
    have "x \<notin> set (C ?r j)" if "x \<in> set (C ?a i)" for x i j
      using that dict_rep_unique [OF rep that, of ?r j] ra by auto
    then show ?thesis by (auto simp: disjoint_iff)
  qed
  then have dist: "distinct (visit_order d C ?a @ rest)"
    using visit_order_set [OF rep a] rs by simp
  show "\<exists>ps. Option.bind (dict_iter_init d) (dict_for_each d) = Some ps \<and> distinct ps \<and> set ps = L"
    if nz: "nr_nodes (tables d ?a) \<noteq> 0 \<or> L = {}"
  proof (cases "L = {}")
    case True
    then show ?thesis using init z by simp
  next
    case False
    then have "unat (nr_nodes (tables d ?a)) \<noteq> 0" using nz by (simp add: unat_eq_0)
    then obtain j where j: "C ?a j \<noteq> []" using tab_card(2) [OF A] by fastforce
    have js: "j < unat (tsize (tables d ?a))" using tab_rep_size(5) [OF A, of j] j by blast
    then have lt: "b < unat (tsize (tables d ?a))" using nx j mp(2) [OF js] by (metis le0 linorder_not_less next_such_def order_less_le_trans)
    then have "C ?a b \<noteq> []" using nx mp(2) by (auto simp: next_such_def)
    then have "bucket (tables d ?a) ! b \<noteq> 0" using tab_rep_chain(1) [OF A lt] empty_chain by blast
    moreover have "h = bucket (tables d ?a) ! b"
      using h(1) lt mp(1) bl by (simp add: scan_from_def iter_scan_def b_def [symmetric] Let_def)
    ultimately show ?thesis using init False lt h(2) set dist by simp
  qed
  show "dict_iter_init d = None" if "nr_nodes (tables d ?a) = 0" "L \<noteq> {}"
  proof -
    have "card (\<Union>i. set (C ?a i)) = 0" using tab_card(2) [OF A] that by simp
    then have "C ?a i = []" for i using tab_card(1) [OF A] by auto
    then have "\<not> b < unat (tsize (tables d ?a))" using nx mp(2) [of b] by (auto simp: next_such_def)
    then show ?thesis using init that by simp
  qed
qed

section \<open>Properties\<close>

lemma dict_run_from_init:
  assumes "ops_ok ops key" and "attr_init_size attr \<le> push_bit 31 1" and "\<And>n. store n = dict_node_init"
    and "dict_init mem store attr = Some (None, d0)"
    and "map_run key Map.empty (map snd calls) = Some (rs, m)"
  shows "\<exists>d. dict_run ops d0 calls = Some (rs, d) \<and> dict_sim ops key d m"
proof -
  have "dict_sim ops key d0 Map.empty"
    using dict_init_inv [OF assms(2-4)] by (simp add: dict_sim_def)
  then show ?thesis using dict_run_sim [OF assms(1) _ assms(5)] by blast
qed

text \<open>
  C1: a dictionary started with \<open>dict_init\<close> and used by any sequence of insertions, lookups, removals
  by key or by node, and calls that advance the rehash, returns exactly what the same calls on a map
  from keys to nodes return. Expansions and reductions happen along the way, with memory available or
  not at each of them; no walk runs forever and no assertion fails. The client inserts only nodes that
  are not in the dictionary, under their own key.
\<close>

theorem dict_refines_map:
  assumes "ops_ok ops key" and "attr_init_size attr \<le> push_bit 31 1" and "\<And>n. store n = dict_node_init"
    and "dict_init mem store attr = Some (None, d0)"
    and "map_run key Map.empty (map snd calls) = Some (rs, m)"
  shows "\<exists>d. dict_run ops d0 calls = Some (rs, d)"
  using dict_run_from_init [OF assms] by blast

text \<open>A dictionary of 32-bit keys hashed with \<open>__hash_32\<close>, the key of a node being its address.\<close>

definition word_ops :: "u32 dict_ops" where
  "word_ops = \<lparr>calc_hash = u_hash_32,
     compare_key = (\<lambda>n k hv. if word_of_nat n = k then 0 else 1),
     compare_node = (\<lambda>a b. if (word_of_nat a :: u32) = word_of_nat b then 0 else 1)\<rparr>"

definition small_attr :: dict_attr where
  "small_attr = \<lparr>attr_expand_ratio = 2, attr_reduce_ratio = 1, attr_init_size = 1\<rparr>"

definition some_mem :: dict_mem where
  "some_mem = (Some (\<lambda>_. 0), True)"

definition small_dict :: dict where
  "small_dict = snd (the (dict_init some_mem (\<lambda>_. dict_node_init) small_attr))"

lemma word_ops_ok: "ops_ok word_ops word_of_nat"
  by (simp add: ops_ok_def word_ops_def)

lemma small_dict_init:
  "attr_init_size small_attr \<le> push_bit 31 1"
  "dict_init some_mem (\<lambda>_. dict_node_init) small_attr = Some (None, small_dict)"
proof -
  show "attr_init_size small_attr \<le> push_bit 31 1" by (simp add: small_attr_def)
  have r: "u_roundup_pow_of_two 1 = 1" by (simp add: u_roundup_pow_of_two_def flsl_def)
  show "dict_init some_mem (\<lambda>_. dict_node_init) small_attr = Some (None, small_dict)"
    by (simp add: small_dict_def dict_init_def dict_table_init_def some_mem_def small_attr_def Let_def r word_le_nat_alt)
qed

definition small_calls :: "(dict_mem \<times> u32 dict_call) list" where
  "small_calls = map (Pair some_mem) [Dinsert 1 1, Dinsert 2 2, Dinsert 3 3, Dinsert 4 4, Dlookup 3, Dremove 2, Dlookup 2]"

lemma small_calls_map:
  "map_run word_of_nat Map.empty (map snd small_calls)
   = Some ([Rnode 0, Rnode 0, Rnode 0, Rnode 0, Rnode 3, Rnode 2, Rnode 0],
           [1 \<mapsto> 1, 2 \<mapsto> 2, 3 \<mapsto> 3, 4 \<mapsto> 4](2 := None))"
  by (simp add: small_calls_def DICT_NODE_POSITION_def)

theorem dict_refines_map_witness:
  "\<exists>d. dict_run word_ops small_dict small_calls = Some ([Rnode 0, Rnode 0, Rnode 0, Rnode 0, Rnode 3, Rnode 2, Rnode 0], d)"
  by (rule dict_refines_map [OF word_ops_ok small_dict_init(1) refl small_dict_init(2) small_calls_map])

text \<open>
  C15: a rehash always ends. In every reachable state of a dictionary, calling \<open>dict_check_rehashing\<close>
  at most half as often as the active table has buckets, and once more, leaves no rehash in progress,
  and every lookup then returns what it returned before.
\<close>

theorem dict_rehash_completes:
  assumes "ops_ok ops key" and "attr_init_size attr \<le> push_bit 31 1" and "\<And>n. store n = dict_node_init"
    and "dict_init mem store attr = Some (None, d0)"
    and "map_run key Map.empty (map snd calls) = Some (rs, m)"
  shows "\<exists>d d'. dict_run ops d0 calls = Some (rs, d) \<and>
    rehash_calls (unat (tsize (tables d (active d))) div 2 + 1) d = Some d' \<and>
    \<not> u_dict_is_rehashing d' \<and> (\<forall>k. dict_lookup ops d' k = dict_lookup ops d k)"
proof -
  obtain d where d: "dict_run ops d0 calls = Some (rs, d)" "dict_sim ops key d m"
    using dict_run_from_init [OF assms] by blast
  have inv: "dict_inv (node_hash ops key) d (ran m)" using d(2) by (simp add: dict_sim_def)
  let ?k = "unat (tsize (tables d (active d))) div 2 + 1"
  obtain d' where d': "rehash_calls ?k d = Some d'" "dict_inv (node_hash ops key) d' (ran m)"
    "u_dict_is_rehashing d' \<longrightarrow> rehashidx d + 2 * int ?k \<le> rehashidx d' \<and> rehashidx d' \<le> uint (tsize (tables d (active d)))"
    using rehash_calls_end [OF inv, of ?k] by blast
  have idle: "\<not> u_dict_is_rehashing d'"
  proof (cases "u_dict_is_rehashing d")
    case True
    then have "0 \<le> rehashidx d" using inv by (auto simp: dict_inv_def dict_rep_def u_dict_is_rehashing_def)
    moreover have "uint (tsize (tables d (active d))) < 2 * int ?k" 
    proof -
      have "unat (tsize (tables d (active d))) < 2 * ?k" by presburger
      then show ?thesis unfolding uint_nat by linarith
    qed
    ultimately show ?thesis using d'(3) by linarith
  next
    case False
    then show ?thesis using rehash_calls_idle [OF False, of ?k] d'(1) by simp
  qed
  have "dict_lookup ops d' k = dict_lookup ops d k" for k
    using dict_lookup_spec [OF assms(1) inv, of k] dict_lookup_spec [OF assms(1) d'(2), of k] sim_inj [OF d(2)]
    by (auto simp: inj_on_def)
  then show ?thesis using d d' idle by blast
qed

theorem dict_rehash_completes_witness:
  "\<exists>d d'. dict_run word_ops small_dict small_calls = Some ([Rnode 0, Rnode 0, Rnode 0, Rnode 0, Rnode 3, Rnode 2, Rnode 0], d) \<and>
    rehash_calls (unat (tsize (tables d (active d))) div 2 + 1) d = Some d' \<and>
    \<not> u_dict_is_rehashing d' \<and> (\<forall>k. dict_lookup word_ops d' k = dict_lookup word_ops d k)"
  by (rule dict_rehash_completes [OF word_ops_ok small_dict_init(1) refl small_dict_init(2) small_calls_map])

text \<open>
  C37: in every reachable state in which the active table holds a node, or no table does, iterating with
  \<open>dict_for_each\<close> visits every node of the dictionary exactly once. When a rehash has emptied the active
  table and the other table still holds the nodes, \<open>dict_iter_init\<close> reads the bucket one past the end
  of the active table.
\<close>

theorem dict_iteration_exact:
  assumes "ops_ok ops key" and "attr_init_size attr \<le> push_bit 31 1" and "\<And>n. store n = dict_node_init"
    and "dict_init mem store attr = Some (None, d0)"
    and "map_run key Map.empty (map snd calls) = Some (rs, m)"
  shows "\<exists>d. dict_run ops d0 calls = Some (rs, d) \<and>
    (if nr_nodes (tables d (active d)) \<noteq> 0 \<or> ran m = {}
     then \<exists>ps. Option.bind (dict_iter_init d) (dict_for_each d) = Some ps \<and> distinct ps \<and> set ps = ran m
     else dict_iter_init d = None)"
proof -
  obtain d where d: "dict_run ops d0 calls = Some (rs, d)" "dict_inv (node_hash ops key) d (ran m)"
    using dict_run_from_init [OF assms] by (auto simp: dict_sim_def)
  then show ?thesis using dict_iterates [OF d(2)] by auto
qed

definition drain_calls :: "(dict_mem \<times> u32 dict_call) list" where
  "drain_calls = map (Pair some_mem) [Dinsert 1 1, Dinsert 2 2, Dinsert 3 3, Dinsert 4 4, Ddirect 1, Ddirect 2, Ddirect 3]"

lemma drain_calls_map:
  "map_run word_of_nat Map.empty (map snd drain_calls)
   = Some ([Rnode 0, Rnode 0, Rnode 0, Rnode 0, Rerr None, Rerr None, Rerr None],
           [1 \<mapsto> 1, 2 \<mapsto> 2, 3 \<mapsto> 3, 4 \<mapsto> 4](1 := None, 2 := None, 3 := None))"
  by (simp add: drain_calls_def DICT_NODE_POSITION_def)

lemmas dict_eval = dict_insert_def dict_check_rehashing_def u_dict_resize_if_needed_def u_start_lookup_def u_get_bucket_def
  u_bucket_lookup_key_def u_bucket_lookup_node_def bucket_walk.simps u_dict_is_rehashing_def upd_node_def upd_table_def
  u_insert_node_before_def u_insert_node_def u_bucket_empty_def u_erase_node_def u_erase_node_after_def dict_direct_remove_def
  u_dnode_linked_def dict_table_init_def table_no_def Let_def word_ops_def u_hash_32_def GOLDEN_RATIO_32_def some_mem_def dict_node_init_def
  DICT_NODE_POSITION_def word_le_nat_alt word_less_nat_alt u_dict_rehash_def

lemma small_dict_eq: "small_dict = \<lparr>rehashidx = -1, expand_ratio = 2, reduce_ratio = 1, init_size = 1, active = 0, rehash = 1,
  tables = (\<lambda>_. \<lparr>nr_nodes = 0, tsize = 0, bucket = [], mapping = None\<rparr>)(0 := \<lparr>nr_nodes = 0, tsize = 1, bucket = [0], mapping = Some (bitmap_zero False (\<lambda>_. 0) 1)\<rparr>),
  nodes = (\<lambda>_. dict_node_init)\<rparr>"
proof -
  have r: "u_roundup_pow_of_two 1 = 1" by (simp add: u_roundup_pow_of_two_def flsl_def)
  show ?thesis
    by (auto simp add: small_dict_def dict_init_def dict_table_init_def some_mem_def small_attr_def Let_def r word_le_nat_alt upd_table_def u_dict_is_rehashing_def fun_eq_iff)
qed
lemma drain_empties_active:
  "map_option (\<lambda>(rs, d). nr_nodes (tables d (active d))) (dict_run word_ops small_dict drain_calls) = Some 0"
  by (simp add: drain_calls_def dict_eval small_dict_eq)

theorem dict_iteration_exact_witness:
  "\<exists>d. dict_run word_ops small_dict drain_calls
     = Some ([Rnode 0, Rnode 0, Rnode 0, Rnode 0, Rerr None, Rerr None, Rerr None], d) \<and> dict_iter_init d = None"
  using dict_iteration_exact [OF word_ops_ok small_dict_init(1) refl small_dict_init(2) drain_calls_map] drain_empties_active
  by (auto split: if_splits)

end
