(* ===== verification/Threads.thy ===== *)
theory Threads
  imports Skp_Prelude
begin

text \<open>
  Threads that share memory.  A thread is at a program point; a step of one thread reads or writes
  the shared memory atomically, as one machine instruction or one critical section does, and moves
  the thread to its next point.  Steps of different threads interleave in any order, on a
  sequentially consistent memory.  The theory also holds the contract of a lock and the abstract lock
  that every implementation refines.
\<close>

section \<open>Interleaving\<close>

type_synonym ('m, 'p) threads = "'m \<times> (nat \<Rightarrow> 'p)"

text \<open>\<open>step i m p m' p'\<close>: thread \<open>i\<close> at point \<open>p\<close> can move to \<open>p'\<close> and change the memory from \<open>m\<close> to \<open>m'\<close>.\<close>

type_synonym ('m, 'p) thread_step = "nat \<Rightarrow> 'm \<Rightarrow> 'p \<Rightarrow> 'm \<Rightarrow> 'p \<Rightarrow> bool"

inductive moves :: "('m, 'p) thread_step \<Rightarrow> nat \<Rightarrow> nat \<Rightarrow> ('m, 'p) threads \<Rightarrow> ('m, 'p) threads \<Rightarrow> bool" for step n where
  move: "i < n \<Longrightarrow> step i m (pcs i) m' p' \<Longrightarrow> moves step n i (m, pcs) (m', pcs(i := p'))"

inductive reachable :: "('m, 'p) thread_step \<Rightarrow> nat \<Rightarrow> 'm \<Rightarrow> 'p \<Rightarrow> ('m, 'p) threads \<Rightarrow> bool" for step n m0 p0 where
  start: "reachable step n m0 p0 (m0, \<lambda>_. p0)"
| step: "reachable step n m0 p0 s \<Longrightarrow> moves step n i s s' \<Longrightarrow> reachable step n m0 p0 s'"

inductive_simps moves_iff: "moves step n i s s'"

lemma reachable_invariant:
  assumes "reachable step n m0 p0 s" and "I m0 (\<lambda>_. p0)"
    and "\<And>i m pcs m' p'. I m pcs \<Longrightarrow> i < n \<Longrightarrow> step i m (pcs i) m' p' \<Longrightarrow> I m' (pcs(i := p'))"
  shows "I (fst s) (snd s)"
  using assms(1)
proof (induction rule: reachable.induct)
  case start
  then show ?case using assms(2) by simp
next
  case (step s i s')
  then obtain m pcs m' p' where "s = (m, pcs)" "s' = (m', pcs(i := p'))" "i < n" "step i m (pcs i) m' p'"
    by (auto elim: moves.cases)
  then show ?case using assms(3) [of m pcs i m' p'] step.IH by (simp del: fun_upd_apply)
qed

lemma reachable_move:
  "reachable step n m0 p0 (m, pcs) \<Longrightarrow> i < n \<Longrightarrow> step i m (pcs i) m' p' \<Longrightarrow> reachable step n m0 p0 (m', pcs(i := p'))"
  by (rule reachable.step, assumption, rule moves.move)

text \<open>Thread \<open>i\<close> is not blocked.\<close>

definition can_move :: "('m, 'p) thread_step \<Rightarrow> nat \<Rightarrow> 'm \<Rightarrow> 'p \<Rightarrow> bool" where
  "can_move step i m p \<longleftrightarrow> (\<exists>m' p'. step i m p m' p')"

text \<open>A run given by the list of the threads that move, for a step function.\<close>

fun run_threads :: "(nat \<Rightarrow> 'm \<Rightarrow> 'p \<Rightarrow> ('m \<times> 'p) option) \<Rightarrow> ('m, 'p) threads \<Rightarrow> nat list \<Rightarrow> ('m, 'p) threads option" where
  "run_threads f s [] = Some s"
| "run_threads f (m, pcs) (i # is) =
     (case f i m (pcs i) of None \<Rightarrow> None | Some (m', p') \<Rightarrow> run_threads f (m', pcs(i := p')) is)"

lemma run_threads_reachable:
  assumes "run_threads f s is = Some s'" and "\<And>i m p m' p'. f i m p = Some (m', p') \<Longrightarrow> step i m p m' p'"
    and "reachable step n m0 p0 s" and "\<forall>i \<in> set is. i < n"
  shows "reachable step n m0 p0 s'"
  using assms
proof (induction f s "is" rule: run_threads.induct)
  case (2 f m pcs i "is")
  then show ?case by (fastforce split: option.splits intro: reachable_move simp del: fun_upd_apply)
qed simp

section \<open>Counting threads\<close>

definition at_pts :: "nat \<Rightarrow> ('p \<Rightarrow> bool) \<Rightarrow> (nat \<Rightarrow> 'p) \<Rightarrow> nat" where
  "at_pts n P pcs = card {i. i < n \<and> P (pcs i)}"

lemma at_pts_le: "at_pts n P pcs \<le> n"
proof -
  have "card {i. i < n \<and> P (pcs i)} \<le> card {..<n}" by (rule card_mono) auto
  then show ?thesis by (simp add: at_pts_def)
qed

lemma at_pts_0: "at_pts n P pcs = 0 \<longleftrightarrow> (\<forall>i < n. \<not> P (pcs i))"
  by (auto simp: at_pts_def)

lemma at_pts_pos: "i < n \<Longrightarrow> P (pcs i) \<Longrightarrow> 0 < at_pts n P pcs"
  by (metis at_pts_0 gr0I)

lemma at_pts_start: "\<not> P p \<Longrightarrow> at_pts n P (\<lambda>_. p) = 0"
  by (simp add: at_pts_0)

text \<open>The count without thread \<open>i\<close>, to which it contributes according to its point.\<close>

definition others :: "nat \<Rightarrow> ('p \<Rightarrow> bool) \<Rightarrow> (nat \<Rightarrow> 'p) \<Rightarrow> nat \<Rightarrow> nat" where
  "others n P pcs i = card {j. j < n \<and> j \<noteq> i \<and> P (pcs j)}"

lemma at_pts_split: "i < n \<Longrightarrow> at_pts n P pcs = others n P pcs i + of_bool (P (pcs i))"
proof -
  assume i: "i < n"
  have "{j. j < n \<and> P (pcs j)} = {j. j < n \<and> j \<noteq> i \<and> P (pcs j)} \<union> (if P (pcs i) then {i} else {})"
    using i by auto
  then show ?thesis by (simp add: at_pts_def others_def)
qed

lemma others_upd [simp]: "others n P (pcs(i := p)) i = others n P pcs i"
  unfolding others_def by (rule arg_cong [where f = card]) auto

lemma others_less:
  assumes "i < n"
  shows "others n P pcs i < n"
proof -
  have "others n P pcs i \<le> others n (\<lambda>_. True) pcs i" unfolding others_def by (rule card_mono) auto
  also have "\<dots> < n" using at_pts_split [OF assms, of "\<lambda>_. True" pcs] at_pts_le [of n "\<lambda>_. True" pcs] by simp
  finally show ?thesis .
qed

lemma at_pts_upd: "i < n \<Longrightarrow> at_pts n P (pcs(i := p)) = others n P pcs i + of_bool (P p)"
  by (simp add: at_pts_split [of i])

lemma at_pts_one:
  assumes "at_pts n P pcs \<le> 1" and "i < n" "j < n" and "P (pcs i)" "P (pcs j)"
  shows "i = j"
proof (rule ccontr)
  assume "i \<noteq> j"
  then have "card {i, j} \<le> card {k. k < n \<and> P (pcs k)}"
    using assms by (intro card_mono) auto
  then show False using assms(1) \<open>i \<noteq> j\<close> by (simp add: at_pts_def)
qed

lemma at_pts_mono: "(\<And>p. P p \<Longrightarrow> Q p) \<Longrightarrow> at_pts n P pcs \<le> at_pts n Q pcs"
  unfolding at_pts_def by (rule card_mono) auto

section \<open>Locks\<close>

text \<open>The abstract lock: free, or held by one thread.\<close>

inductive lock_moves :: "nat \<Rightarrow> nat option \<Rightarrow> nat option \<Rightarrow> bool" where
  stay: "lock_moves i w w"
| acquire: "lock_moves i None (Some i)"
| release: "lock_moves i (Some i) None"

text \<open>
  A lock implementation: a system of threads, the program points at which a thread holds the lock, and
  the promise that no two threads hold it at once.
\<close>

locale exclusive_lock =
  fixes step :: "('m, 'p) thread_step" and m0 :: 'm and p0 :: 'p and holds :: "'p \<Rightarrow> bool" and bound :: "nat"
  assumes exclusive: "reachable step n m0 p0 s \<Longrightarrow> n < bound \<Longrightarrow> at_pts n holds (snd s) \<le> 1"
begin

definition owner :: "nat \<Rightarrow> ('m, 'p) threads \<Rightarrow> nat option" where
  "owner n s = (if at_pts n holds (snd s) = 0 then None else Some (THE i. i < n \<and> holds (snd s i)))"

lemma owner_Some:
  assumes "reachable step n m0 p0 s" and "n < bound"
  shows "owner n s = Some i \<longleftrightarrow> i < n \<and> holds (snd s i)"
proof -
  have le: "at_pts n holds (snd s) \<le> 1" using assms by (rule exclusive)
  have the: "(THE j. j < n \<and> holds (snd s j)) = i" if "i < n" "holds (snd s i)" for i
    using that at_pts_one [OF le] by (intro the_equality) auto
  show ?thesis
  proof
    assume "owner n s = Some i"
    then have *: "at_pts n holds (snd s) \<noteq> 0" "(THE j. j < n \<and> holds (snd s j)) = i"
      by (auto simp: owner_def split: if_splits)
    then obtain k where "k < n" "holds (snd s k)" by (auto simp: at_pts_0)
    then show "i < n \<and> holds (snd s i)" using the * by metis
  next
    assume "i < n \<and> holds (snd s i)"
    then show "owner n s = Some i" using the at_pts_pos [of i n holds "snd s"] by (auto simp: owner_def)
  qed
qed

lemma owner_None:
  assumes "reachable step n m0 p0 s" and "n < bound"
  shows "owner n s = None \<longleftrightarrow> (\<forall>i < n. \<not> holds (snd s i))"
  using owner_Some [OF assms] by (metis not_Some_eq)

text \<open>Every move of an implementation is a move of the abstract lock by the same thread, or none.\<close>

lemma refines_lock:
  assumes r: "reachable step n m0 p0 s" and n: "n < bound" and mv: "moves step n i s s'"
  shows "lock_moves i (owner n s) (owner n s')"
proof -
  have r': "reachable step n m0 p0 s'" using r mv by (rule reachable.step)
  obtain m pcs m' p' where e: "s = (m, pcs)" "s' = (m', pcs(i := p'))" "i < n" using mv by (auto elim: moves.cases)
  have other: "holds (snd s' j) = holds (snd s j)" if "j \<noteq> i" for j using that e by simp
  show ?thesis
  proof (cases "owner n s")
    case None
    then have "owner n s' = None \<or> owner n s' = Some i"
      using owner_None [OF r n] owner_Some [OF r' n] other by (metis not_Some_eq)
    then show ?thesis using None by (auto intro: lock_moves.intros)
  next
    case (Some k)
    show ?thesis
    proof (cases "k = i")
      case True
      then have "owner n s' = None \<or> owner n s' = Some i"
        using Some owner_Some [OF r n] owner_Some [OF r' n] other by (metis not_Some_eq option.inject)
      then show ?thesis using Some True by (auto intro: lock_moves.intros)
    next
      case False
      then have "owner n s' = Some k"
        using Some owner_Some [OF r n] owner_Some [OF r' n] other by metis
      then show ?thesis using Some by (auto intro: lock_moves.intros)
    qed
  qed
qed

end

end
