(* ===== verification/Spinlock.thy ===== *)
theory Spinlock
  imports Threads
begin

text \<open>
  \<open>src/utils/spinlock.c\<close> and \<open>include/skp/utils/spinlock.h\<close>: the queued spin lock.  The lock word has a
  locked byte and a pending byte.  Every program point is the next access to the lock word; the
  function of the points is the code from one access to the next.  A busy-wait loop
  (\<open>__cond_load_acquire\<close>) is a step that is enabled when its condition holds.
\<close>

section \<open>The lock word\<close>

definition Q_LOCKED_MASK :: u32 where "Q_LOCKED_MASK = 0xff"
definition Q_LOCKED_VAL :: u32 where "Q_LOCKED_VAL = 1"
definition Q_PENDING_MASK :: u32 where "Q_PENDING_MASK = 0xff00"
definition Q_PENDING_VAL :: u32 where "Q_PENDING_VAL = 0x100"

text \<open>\<open>atomic_cmpxchg\<close>: the old value, and the new contents.\<close>

definition cmpxchg :: "u32 \<Rightarrow> u32 \<Rightarrow> u32 \<Rightarrow> u32 \<times> u32" where
  "cmpxchg v old new = (v, if v = old then new else v)"

text \<open>A store to the low half of the word, and one to its low byte.\<close>

definition clear_pending_set_locked :: "u32 \<Rightarrow> u32" where
  "clear_pending_set_locked v = (v AND NOT 0xffff) OR Q_LOCKED_VAL"

definition queued_spin_unlock :: "u32 \<Rightarrow> u32" where
  "queued_spin_unlock v = v AND NOT 0xff"

definition queued_spin_is_locked :: "u32 \<Rightarrow> bool" where
  "queued_spin_is_locked v = (v \<noteq> 0)"

definition queued_spin_is_contended :: "u32 \<Rightarrow> bool" where
  "queued_spin_is_contended v = (v AND NOT Q_LOCKED_MASK \<noteq> 0)"

definition SPINLOCK_MAX_CONTENDS :: nat where "SPINLOCK_MAX_CONTENDS = 32"

section \<open>Program points\<close>

datatype spin_pc =
    SIdle
  | TL_read | TL_cas
  | QF_cas | UF_cas nat | UF_wait nat u32
  | QS_cas
  | SP_wait_pending | SP_cas u32 u32 | SP_wait_locked | SP_clear | SP_wait_queue | SP_queue_cas
  | SHeld | UL_store

text \<open>
  The loop of the slow path from a value of the lock word: queue when there is contention, else try to
  set the locked byte, or the pending byte when the lock is held.
\<close>

definition slow_loop :: "u32 \<Rightarrow> spin_pc" where
  "slow_loop val =
     (if val AND NOT Q_LOCKED_MASK \<noteq> 0 then SP_wait_queue
      else SP_cas val (if val = Q_LOCKED_VAL then Q_LOCKED_VAL OR Q_PENDING_VAL else Q_LOCKED_VAL))"

definition slow_try :: "u32 \<Rightarrow> spin_pc" where
  "slow_try val = (if val = Q_PENDING_VAL then SP_wait_pending else slow_loop val)"

fun queued_spin_lock_slowpath :: "spin_pc \<Rightarrow> u32 \<Rightarrow> (u32 \<times> spin_pc) option" where
  "queued_spin_lock_slowpath SP_wait_pending v = (if v \<noteq> Q_PENDING_VAL then Some (v, slow_loop v) else None)"
| "queued_spin_lock_slowpath (SP_cas val new) v =
     (let (old, v) = cmpxchg v val new in
      if old = val then (if new = Q_LOCKED_VAL then Some (v, SHeld) else Some (v, SP_wait_locked))
      else Some (v, slow_loop old))"
| "queued_spin_lock_slowpath SP_wait_locked v = (if v AND Q_LOCKED_MASK = 0 then Some (v, SP_clear) else None)"
| "queued_spin_lock_slowpath SP_clear v = Some (clear_pending_set_locked v, SHeld)"
| "queued_spin_lock_slowpath SP_wait_queue v = (if v AND Q_PENDING_MASK = 0 then Some (v, SP_queue_cas) else None)"
| "queued_spin_lock_slowpath SP_queue_cas v =
     (let (val, v) = cmpxchg v 0 Q_LOCKED_VAL in Some (v, if val = 0 then SHeld else slow_try val))"
| "queued_spin_lock_slowpath _ v = None"

fun u_queued_spin_lock_fast :: "spin_pc \<Rightarrow> u32 \<Rightarrow> (u32 \<times> spin_pc) option" where
  "u_queued_spin_lock_fast (UF_cas i) v =
     (let (val, v) = cmpxchg v 0 Q_LOCKED_VAL in Some (v, if val = 0 then SHeld else UF_wait i val))"
| "u_queued_spin_lock_fast (UF_wait i val) v =
     (if v AND Q_LOCKED_MASK = 0 then Some (v, if i - 1 > 0 then UF_cas (i - 1) else slow_try val) else None)"
| "u_queued_spin_lock_fast _ v = None"

fun queued_spin_lock_fast :: "spin_pc \<Rightarrow> u32 \<Rightarrow> (u32 \<times> spin_pc) option" where
  "queued_spin_lock_fast QF_cas v =
     (let (val, v) = cmpxchg v 0 Q_LOCKED_VAL in Some (v, if val = 0 then SHeld else UF_cas SPINLOCK_MAX_CONTENDS))"
| "queued_spin_lock_fast _ v = None"

fun queued_spin_lock_fair :: "spin_pc \<Rightarrow> u32 \<Rightarrow> (u32 \<times> spin_pc) option" where
  "queued_spin_lock_fair QS_cas v =
     (let (val, v) = cmpxchg v 0 Q_LOCKED_VAL in Some (v, if val = 0 then SHeld else slow_try val))"
| "queued_spin_lock_fair _ v = None"

fun queued_spin_trylock :: "spin_pc \<Rightarrow> u32 \<Rightarrow> (u32 \<times> spin_pc) option" where
  "queued_spin_trylock TL_read v = Some (v, if v = 0 then TL_cas else SIdle)"
| "queued_spin_trylock TL_cas v =
     (let (val, v) = cmpxchg v 0 Q_LOCKED_VAL in Some (v, if val = 0 then SHeld else SIdle))"
| "queued_spin_trylock _ v = None"

section \<open>Threads using the lock\<close>

text \<open>
  An idle thread calls one of the three lock functions, a holder calls unlock; a thread inside a
  function takes its next step.
\<close>

inductive spin_step :: "(u32, spin_pc) thread_step" where
  spin_lock: "spin_step i v SIdle v QF_cas"
| spin_fairlock: "spin_step i v SIdle v QS_cas"
| spin_trylock: "spin_step i v SIdle v TL_read"
| fast: "queued_spin_lock_fast p v = Some (v', p') \<Longrightarrow> spin_step i v p v' p'"
| fast_loop: "u_queued_spin_lock_fast p v = Some (v', p') \<Longrightarrow> spin_step i v p v' p'"
| fair: "queued_spin_lock_fair p v = Some (v', p') \<Longrightarrow> spin_step i v p v' p'"
| slow: "queued_spin_lock_slowpath p v = Some (v', p') \<Longrightarrow> spin_step i v p v' p'"
| trylock: "queued_spin_trylock p v = Some (v', p') \<Longrightarrow> spin_step i v p v' p'"
| spin_unlock: "spin_step i v SHeld v UL_store"
| unlock: "spin_step i v UL_store (queued_spin_unlock v) SIdle"

fun spin_holds :: "spin_pc \<Rightarrow> bool" where
  "spin_holds SHeld = True" | "spin_holds UL_store = True" | "spin_holds _ = False"

fun spin_pends :: "spin_pc \<Rightarrow> bool" where
  "spin_pends SP_wait_locked = True" | "spin_pends SP_clear = True" | "spin_pends _ = False"

text \<open>
  The lock word says whether a thread holds the lock and whether a thread is pending; the pending
  thread that is about to take the lock found it free.
\<close>

definition spin_inv :: "nat \<Rightarrow> u32 \<Rightarrow> (nat \<Rightarrow> spin_pc) \<Rightarrow> bool" where
  "spin_inv n v pcs \<longleftrightarrow> at_pts n spin_holds pcs \<le> 1 \<and> at_pts n spin_pends pcs \<le> 1 \<and>
     v = of_nat (at_pts n spin_holds pcs) + 256 * of_nat (at_pts n spin_pends pcs) \<and>
     (0 < at_pts n (\<lambda>p. p = SP_clear) pcs \<longrightarrow> at_pts n spin_holds pcs = 0)"

lemma spin_words [simp]:
  "(256 :: u32) AND NOT 255 \<noteq> 0" "(257 :: u32) AND NOT 255 \<noteq> 0" "(1 :: u32) AND NOT 255 = 0"
  "queued_spin_unlock 1 = 0" "queued_spin_unlock 257 = 256"
  "clear_pending_set_locked 256 = 1"
  by (simp_all add: queued_spin_unlock_def clear_pending_set_locked_def Q_LOCKED_VAL_def)

lemma slow_points [simp]:
  "\<not> spin_holds (slow_loop v)" "\<not> spin_pends (slow_loop v)" "slow_loop v \<noteq> SP_clear"
  "\<not> spin_holds (slow_try v)" "\<not> spin_pends (slow_try v)" "slow_try v \<noteq> SP_clear"
  by (simp_all add: slow_try_def slow_loop_def)

lemmas spin_defs = cmpxchg_def Q_LOCKED_MASK_def Q_LOCKED_VAL_def Q_PENDING_MASK_def Q_PENDING_VAL_def

text \<open>What one thread knows, the others being summed up by their counts.\<close>

definition spin_local :: "nat \<Rightarrow> nat \<Rightarrow> nat \<Rightarrow> u32 \<Rightarrow> spin_pc \<Rightarrow> bool" where
  "spin_local H P K v p \<longleftrightarrow> H + of_bool (spin_holds p) \<le> 1 \<and> P + of_bool (spin_pends p) \<le> 1 \<and> K \<le> P \<and>
     v = of_nat (H + of_bool (spin_holds p)) + 256 * of_nat (P + of_bool (spin_pends p)) \<and>
     (0 < K + of_bool (p = SP_clear) \<longrightarrow> H + of_bool (spin_holds p) = 0)"

definition cas_ok :: "spin_pc \<Rightarrow> bool" where
  "cas_ok p \<longleftrightarrow> (\<forall>val new. p = SP_cas val new \<longrightarrow> val AND NOT 0xff = 0 \<and> new = (if val = 1 then 257 else 1))"

lemma cas_ok_points [simp]: "cas_ok (slow_loop v)" "cas_ok (slow_try v)" "cas_ok SHeld" "cas_ok SIdle" "cas_ok (UF_cas k)"
  "cas_ok (UF_wait k v)" "cas_ok SP_wait_locked" "cas_ok SP_clear" "cas_ok SP_queue_cas" "cas_ok TL_cas" "cas_ok QF_cas" "cas_ok QS_cas"
  "cas_ok TL_read" "cas_ok UL_store"
  by (simp_all add: cas_ok_def slow_try_def slow_loop_def spin_defs)

lemma spin_step_cas_ok: "spin_step i v p v' p' \<Longrightarrow> cas_ok p'"
  by (cases rule: spin_step.cases, assumption; cases p)
     (auto simp: spin_defs Let_def split: if_splits)

lemma spin_local_cases:
  assumes "spin_local H P K v p"
  obtains (free) "H = 0" "P = 0" "K = 0" | (held) "H = 1" "P = 0" "K = 0" | (pending) "H = 0" "P = 1" "K \<le> 1" | (both) "H = 1" "P = 1" "K = 0"
proof -
  have "H \<le> 1" "P \<le> 1" "K \<le> P" "0 < K \<longrightarrow> H = 0" using assms by (auto simp: spin_local_def)
  then have "H = 0 \<and> P = 0 \<and> K = 0 \<or> H = 1 \<and> P = 0 \<and> K = 0 \<or> H = 0 \<and> P = 1 \<and> K \<le> 1 \<or> H = 1 \<and> P = 1 \<and> K = 0"
    by (auto simp: le_Suc_eq)
  then show thesis using that by blast
qed

text \<open>Each function keeps what its thread knows; the four states of the others are checked in turn.\<close>

lemmas spin_local_simps = spin_local_def spin_defs cas_ok_def Let_def

lemma slow_local:
  assumes "spin_local H P K v p" and "cas_ok p" and "queued_spin_lock_slowpath p v = Some (v', p')"
  shows "spin_local H P K v' p'"
  using assms(1)
proof (cases rule: spin_local_cases)
  case free
  then show ?thesis using assms by (cases p) (auto simp: spin_local_simps split: if_splits)
next
  case held
  then show ?thesis using assms by (cases p) (auto simp: spin_local_simps split: if_splits)
next
  case pending
  then show ?thesis using assms by (cases p) (auto simp: spin_local_simps split: if_splits)
next
  case both
  then show ?thesis using assms by (cases p) (auto simp: spin_local_simps split: if_splits)
qed

lemma fast_local:
  assumes "spin_local H P K v p"
    and "queued_spin_lock_fast p v = Some (v', p') \<or> u_queued_spin_lock_fast p v = Some (v', p') \<or>
         queued_spin_lock_fair p v = Some (v', p') \<or> queued_spin_trylock p v = Some (v', p')"
  shows "spin_local H P K v' p'"
  using assms(1)
proof (cases rule: spin_local_cases)
  case free
  then show ?thesis using assms by (cases p) (auto simp: spin_local_simps split: if_splits)
next
  case held
  then show ?thesis using assms by (cases p) (auto simp: spin_local_simps split: if_splits)
next
  case pending
  then show ?thesis using assms by (cases p) (auto simp: spin_local_simps split: if_splits)
next
  case both
  then show ?thesis using assms by (cases p) (auto simp: spin_local_simps split: if_splits)
qed

lemma client_local:
  assumes "spin_local H P K v p"
  shows "p = SIdle \<Longrightarrow> spin_local H P K v QF_cas" "p = SIdle \<Longrightarrow> spin_local H P K v QS_cas"
    "p = SIdle \<Longrightarrow> spin_local H P K v TL_read" "p = SHeld \<Longrightarrow> spin_local H P K v UL_store"
    "p = UL_store \<Longrightarrow> spin_local H P K (queued_spin_unlock v) SIdle"
  using assms by (cases rule: spin_local_cases; auto simp: spin_local_def)+

lemma spin_step_local:
  assumes "spin_local H P K v p" and "cas_ok p" and "spin_step i v p v' p'"
  shows "spin_local H P K v' p'"
  using assms(3,1,2)
  by (cases rule: spin_step.cases) (auto intro: client_local slow_local fast_local)

lemma spin_inv_local:
  assumes "i < n"
  shows "spin_inv n v pcs \<longleftrightarrow> spin_local (others n spin_holds pcs i) (others n spin_pends pcs i) (others n (\<lambda>p. p = SP_clear) pcs i) v (pcs i)"
proof -
  have "others n (\<lambda>p. p = SP_clear) pcs i \<le> others n spin_pends pcs i"
    unfolding others_def by (rule card_mono) auto
  then show ?thesis
    using at_pts_split [OF assms, of spin_holds pcs] at_pts_split [OF assms, of spin_pends pcs]
      at_pts_split [OF assms, of "\<lambda>p. p = SP_clear" pcs]
    by (simp only: spin_inv_def spin_local_def) simp
qed

abbreviation spin_reachable :: "nat \<Rightarrow> (u32, spin_pc) threads \<Rightarrow> bool" where
  "spin_reachable n \<equiv> reachable spin_step n 0 SIdle"

lemma spin_reachable_inv:
  assumes "spin_reachable n s"
  shows "spin_inv n (fst s) (snd s)" and "\<And>i. i < n \<Longrightarrow> cas_ok (snd s i)"
proof -
  have "spin_inv n (fst s) (snd s) \<and> (\<forall>i < n. cas_ok (snd s i))"
  proof (rule reachable_invariant [OF assms, where I = "\<lambda>v pcs. spin_inv n v pcs \<and> (\<forall>i < n. cas_ok (pcs i))"])
    show "spin_inv n 0 (\<lambda>_. SIdle) \<and> (\<forall>i < n. cas_ok SIdle)"
      by (simp add: spin_inv_def at_pts_start)
  next
    fix i v pcs v' p'
    assume "spin_inv n v pcs \<and> (\<forall>i < n. cas_ok (pcs i))" and i: "i < n" and st: "spin_step i v (pcs i) v' p'"
    then show "spin_inv n v' (pcs(i := p')) \<and> (\<forall>j < n. cas_ok ((pcs(i := p')) j))"
      using spin_step_local [OF _ _ st] spin_step_cas_ok [OF st] by (simp add: spin_inv_local [OF i])
  qed
  then show "spin_inv n (fst s) (snd s)" "\<And>i. i < n \<Longrightarrow> cas_ok (snd s i)" by auto
qed

interpretation spinl: exclusive_lock spin_step 0 SIdle spin_holds bound for bound
  by unfold_locales (use spin_reachable_inv in \<open>auto simp: spin_inv_def\<close>)

text \<open>A thread can always move unless it waits for a holder or for the pending thread.\<close>

definition spin_moves :: "u32 \<Rightarrow> spin_pc \<Rightarrow> bool" where
  "spin_moves v p \<longleftrightarrow> p = SIdle \<or> p = SHeld \<or> p = UL_store \<or> queued_spin_lock_fast p v \<noteq> None \<or> u_queued_spin_lock_fast p v \<noteq> None \<or>
     queued_spin_lock_fair p v \<noteq> None \<or> queued_spin_trylock p v \<noteq> None \<or> queued_spin_lock_slowpath p v \<noteq> None"

lemma spin_moves_step: "spin_moves v p \<Longrightarrow> can_move spin_step i v p"
  by (auto simp: spin_moves_def can_move_def intro: spin_step.intros)

lemma spin_blocked:
  "spin_moves v p \<or> (p = SP_wait_pending \<and> v = 256) \<or> ((p = SP_wait_locked \<or> (\<exists>k w. p = UF_wait k w)) \<and> v AND 0xff \<noteq> 0) \<or>
   (p = SP_wait_queue \<and> v AND 0xff00 \<noteq> 0)"
  by (cases p) (auto simp: spin_moves_def spin_defs Let_def)

lemma spin_progress:
  assumes r: "spin_reachable n s" and i: "i < n" and b: "\<not> spin_moves (fst s) (snd s i)"
  shows "\<exists>j < n. spin_holds (snd s j) \<or> spin_pends (snd s j) \<and> spin_moves (fst s) (snd s j)"
proof (rule ccontr)
  assume no: "\<not> (\<exists>j < n. spin_holds (snd s j) \<or> spin_pends (snd s j) \<and> spin_moves (fst s) (snd s j))"
  let ?v = "fst s" and ?pcs = "snd s"
  have inv: "spin_inv n ?v ?pcs" by (rule spin_reachable_inv(1) [OF r])
  have H: "at_pts n spin_holds ?pcs = 0" using no by (auto simp: at_pts_0)
  then have v: "?v = 256 * of_nat (at_pts n spin_pends ?pcs)" "at_pts n spin_pends ?pcs \<le> 1" using inv by (auto simp: spin_inv_def)
  then have low: "?v AND 0xff = 0" by (auto simp: le_Suc_eq)
  then have "?v \<noteq> 0" using spin_blocked [of ?v "?pcs i"] b by auto
  then have "at_pts n spin_pends ?pcs \<noteq> 0" using v(1) by (intro notI) simp
  then obtain j where j: "j < n" "spin_pends (?pcs j)" by (auto simp: at_pts_0)
  then have "spin_moves ?v (?pcs j)" using spin_blocked [of ?v "?pcs j"] low by (cases "?pcs j") auto
  then show False using no j by blast
qed

text \<open>
  C9: the queued spin lock, with any number of threads that call its three lock functions and unlock in
  any order, is never held by two threads at once; the lock word is zero exactly when no thread holds
  the lock and none is pending; and a thread that cannot move waits for a thread that holds the lock
  or for the pending thread, which can move.
\<close>

theorem spin_lock_exclusive:
  assumes "spin_reachable n s"
  shows "(\<forall>i < n. \<forall>j < n. spin_holds (snd s i) \<longrightarrow> spin_holds (snd s j) \<longrightarrow> i = j) \<and>
    (queued_spin_is_locked (fst s) \<longleftrightarrow> (\<exists>i < n. spin_holds (snd s i) \<or> spin_pends (snd s i))) \<and>
    (\<forall>i < n. can_move spin_step i (fst s) (snd s i) \<or> (\<exists>j < n. spin_holds (snd s j) \<or> spin_pends (snd s j) \<and> can_move spin_step j (fst s) (snd s j)))"
proof (intro conjI)
  have inv: "spin_inv n (fst s) (snd s)" by (rule spin_reachable_inv(1) [OF assms])
  have le: "at_pts n spin_holds (snd s) \<le> 1" "at_pts n spin_pends (snd s) \<le> 1" using inv by (simp_all add: spin_inv_def)
  show "\<forall>i < n. \<forall>j < n. spin_holds (snd s i) \<longrightarrow> spin_holds (snd s j) \<longrightarrow> i = j"
    using at_pts_one [OF le(1)] by blast
  have "fst s = 0 \<longleftrightarrow> at_pts n spin_holds (snd s) = 0 \<and> at_pts n spin_pends (snd s) = 0"
    using inv le by (auto simp: spin_inv_def le_Suc_eq)
  then show "queued_spin_is_locked (fst s) \<longleftrightarrow> (\<exists>i < n. spin_holds (snd s i) \<or> spin_pends (snd s i))"
    by (auto simp: queued_spin_is_locked_def at_pts_0)
  show "\<forall>i < n. can_move spin_step i (fst s) (snd s i) \<or> (\<exists>j < n. spin_holds (snd s j) \<or> spin_pends (snd s j) \<and> can_move spin_step j (fst s) (snd s j))"
    using spin_progress [OF assms] spin_moves_step by blast
qed

theorem spin_lock_exclusive_witness:
  "\<exists>s. spin_reachable 2 s \<and> spin_holds (snd s 0) \<and> \<not> spin_holds (snd s 1) \<and> queued_spin_is_locked (fst s)"
proof -
  have "spin_reachable 2 (0, \<lambda>_. SIdle)" by (rule reachable.start)
  then have "spin_reachable 2 (0, (\<lambda>_. SIdle)(0 := QF_cas))"
    by (rule reachable_move) (auto intro: spin_step.intros)
  then have "spin_reachable 2 (1, (\<lambda>_. SIdle)(0 := QF_cas, 0 := SHeld))"
    by (rule reachable_move) (auto simp: spin_defs intro: spin_step.fast)
  then have r: "spin_reachable 2 (1, (\<lambda>_. SIdle)(0 := SHeld))" by simp
  from spin_lock_exclusive [OF r] r show ?thesis by (intro exI [of _ "(1, (\<lambda>_. SIdle)(0 := SHeld))"]) auto
qed

end
