(* ===== verification/Rwlock.thy ===== *)
theory Rwlock
  imports Spinlock
begin

text \<open>
  \<open>src/utils/rwlock.c\<close> and \<open>include/skp/utils/rwlock.h\<close>: queued reader-writer locks.  The word \<open>cnts\<close> holds
  the writer byte, the flag of a waiting writer and the count of readers; the queue is the spin lock
  \<open>wait_lock\<close>, used here as the abstract lock that the spin lock refines: its owner, if any.
\<close>

section \<open>The lock\<close>

definition QW_WAITING :: u32 where "QW_WAITING = 0x100"
definition QW_LOCKED :: u32 where "QW_LOCKED = 0xff"
definition QW_WMASK :: u32 where "QW_WMASK = 0x1ff"
definition QR_SHIFT :: nat where "QR_SHIFT = 9"
definition QR_BIAS :: u32 where "QR_BIAS = push_bit QR_SHIFT 1"

record rwlock =
  cnts :: u32
  wait_lock :: "nat option"

definition rwlock_init :: rwlock where
  "rwlock_init = \<lparr>cnts = 0, wait_lock = None\<rparr>"

datatype rw_pc =
    RWIdle
  | RT_read | RT_add | RT_sub
  | WT_read | WT_cas u32
  | RL_add | RS_sub | RS_lock | RS_add | RS_wait | RS_unlock | RHeld | RU_sub
  | WL_cas | WS_lock | WS_read | WS_cas | WS_add | WS_wait | WS_cas2 | WS_unlock | WHeld | WU_store

abbreviation add_cnts :: "u32 \<Rightarrow> rwlock \<Rightarrow> rwlock" where
  "add_cnts k l \<equiv> l\<lparr>cnts := cnts l + k\<rparr>"

text \<open>The functions, from one access of the lock to the next; \<open>t\<close> is the calling thread.\<close>

fun queued_read_trylock :: "rw_pc \<Rightarrow> rwlock \<Rightarrow> (rwlock \<times> rw_pc) option" where
  "queued_read_trylock RT_read l = Some (l, if cnts l AND QW_WMASK = 0 then RT_add else RWIdle)"
| "queued_read_trylock RT_add l =
     (let l = add_cnts QR_BIAS l in Some (l, if cnts l AND QW_WMASK = 0 then RHeld else RT_sub))"
| "queued_read_trylock RT_sub l = Some (add_cnts (- QR_BIAS) l, RWIdle)"
| "queued_read_trylock _ l = None"

fun queued_write_trylock :: "rw_pc \<Rightarrow> rwlock \<Rightarrow> (rwlock \<times> rw_pc) option" where
  "queued_write_trylock WT_read l = Some (l, if cnts l \<noteq> 0 then RWIdle else WT_cas (cnts l))"
| "queued_write_trylock (WT_cas c) l =
     (let (old, new) = cmpxchg (cnts l) c (c OR QW_LOCKED) in
      Some (l\<lparr>cnts := new\<rparr>, if old = c then WHeld else RWIdle))"
| "queued_write_trylock _ l = None"

fun queued_read_lock :: "rw_pc \<Rightarrow> rwlock \<Rightarrow> (rwlock \<times> rw_pc) option" where
  "queued_read_lock RL_add l =
     (let l = add_cnts QR_BIAS l in Some (l, if cnts l AND QW_WMASK = 0 then RHeld else RS_sub))"
| "queued_read_lock _ l = None"

fun queued_read_lock_slowpath :: "nat \<Rightarrow> rw_pc \<Rightarrow> rwlock \<Rightarrow> (rwlock \<times> rw_pc) option" where
  "queued_read_lock_slowpath t RS_sub l = Some (add_cnts (- QR_BIAS) l, RS_lock)"
| "queued_read_lock_slowpath t RS_lock l =
     (if wait_lock l = None then Some (l\<lparr>wait_lock := Some t\<rparr>, RS_add) else None)"
| "queued_read_lock_slowpath t RS_add l = Some (add_cnts QR_BIAS l, RS_wait)"
| "queued_read_lock_slowpath t RS_wait l = (if cnts l AND QW_LOCKED = 0 then Some (l, RS_unlock) else None)"
| "queued_read_lock_slowpath t RS_unlock l = Some (l\<lparr>wait_lock := None\<rparr>, RHeld)"
| "queued_read_lock_slowpath t _ l = None"

fun queued_write_lock :: "rw_pc \<Rightarrow> rwlock \<Rightarrow> (rwlock \<times> rw_pc) option" where
  "queued_write_lock WL_cas l =
     (let (old, new) = cmpxchg (cnts l) 0 QW_LOCKED in
      Some (l\<lparr>cnts := new\<rparr>, if old = 0 then WHeld else WS_lock))"
| "queued_write_lock _ l = None"

fun queued_write_lock_slowpath :: "nat \<Rightarrow> rw_pc \<Rightarrow> rwlock \<Rightarrow> (rwlock \<times> rw_pc) option" where
  "queued_write_lock_slowpath t WS_lock l =
     (if wait_lock l = None then Some (l\<lparr>wait_lock := Some t\<rparr>, WS_read) else None)"
| "queued_write_lock_slowpath t WS_read l = Some (l, if cnts l = 0 then WS_cas else WS_add)"
| "queued_write_lock_slowpath t WS_cas l =
     (let (old, new) = cmpxchg (cnts l) 0 QW_LOCKED in
      Some (l\<lparr>cnts := new\<rparr>, if old = 0 then WS_unlock else WS_add))"
| "queued_write_lock_slowpath t WS_add l = Some (add_cnts QW_WAITING l, WS_wait)"
| "queued_write_lock_slowpath t WS_wait l = (if cnts l = QW_WAITING then Some (l, WS_cas2) else None)"
| "queued_write_lock_slowpath t WS_cas2 l =
     (let (old, new) = cmpxchg (cnts l) QW_WAITING QW_LOCKED in
      Some (l\<lparr>cnts := new\<rparr>, if old = QW_WAITING then WS_unlock else WS_wait))"
| "queued_write_lock_slowpath t WS_unlock l = Some (l\<lparr>wait_lock := None\<rparr>, WHeld)"
| "queued_write_lock_slowpath t _ l = None"

fun queued_read_unlock :: "rw_pc \<Rightarrow> rwlock \<Rightarrow> (rwlock \<times> rw_pc) option" where
  "queued_read_unlock RU_sub l = Some (add_cnts (- QR_BIAS) l, RWIdle)"
| "queued_read_unlock _ l = None"

text \<open>The store of a zero byte to \<open>wlocked\<close>, the low byte of \<open>cnts\<close>.\<close>

fun queued_write_unlock :: "rw_pc \<Rightarrow> rwlock \<Rightarrow> (rwlock \<times> rw_pc) option" where
  "queued_write_unlock WU_store l = Some (l\<lparr>cnts := cnts l AND NOT 0xff\<rparr>, RWIdle)"
| "queued_write_unlock _ l = None"

inductive rw_step :: "(rwlock, rw_pc) thread_step" where
  read_lock: "rw_step t l RWIdle l RL_add"
| read_trylock: "rw_step t l RWIdle l RT_read"
| write_lock: "rw_step t l RWIdle l WL_cas"
| write_trylock: "rw_step t l RWIdle l WT_read"
| read_unlock: "rw_step t l RHeld l RU_sub"
| write_unlock: "rw_step t l WHeld l WU_store"
| in_read_trylock: "queued_read_trylock p l = Some (l', p') \<Longrightarrow> rw_step t l p l' p'"
| in_write_trylock: "queued_write_trylock p l = Some (l', p') \<Longrightarrow> rw_step t l p l' p'"
| in_read_lock: "queued_read_lock p l = Some (l', p') \<Longrightarrow> rw_step t l p l' p'"
| in_read_slow: "queued_read_lock_slowpath t p l = Some (l', p') \<Longrightarrow> rw_step t l p l' p'"
| in_write_lock: "queued_write_lock p l = Some (l', p') \<Longrightarrow> rw_step t l p l' p'"
| in_write_slow: "queued_write_lock_slowpath t p l = Some (l', p') \<Longrightarrow> rw_step t l p l' p'"
| in_read_unlock: "queued_read_unlock p l = Some (l', p') \<Longrightarrow> rw_step t l p l' p'"
| in_write_unlock: "queued_write_unlock p l = Some (l', p') \<Longrightarrow> rw_step t l p l' p'"

section \<open>The invariant\<close>

text \<open>Threads counted in the reader count, readers and writers that have the lock, the waiting writer, and the owner of the queue.\<close>

fun rw_biased :: "rw_pc \<Rightarrow> bool" where
  "rw_biased RT_sub = True" | "rw_biased RS_sub = True" | "rw_biased RS_wait = True" | "rw_biased RS_unlock = True" | "rw_biased RHeld = True" | "rw_biased RU_sub = True" | "rw_biased _ = False"

fun rw_reads :: "rw_pc \<Rightarrow> bool" where
  "rw_reads RS_unlock = True" | "rw_reads RHeld = True" | "rw_reads RU_sub = True" | "rw_reads _ = False"

fun rw_writes :: "rw_pc \<Rightarrow> bool" where
  "rw_writes WS_unlock = True" | "rw_writes WHeld = True" | "rw_writes WU_store = True" | "rw_writes _ = False"

fun rw_waits :: "rw_pc \<Rightarrow> bool" where
  "rw_waits WS_wait = True" | "rw_waits WS_cas2 = True" | "rw_waits _ = False"

fun rw_queue :: "rw_pc \<Rightarrow> bool" where
  "rw_queue RS_add = True" | "rw_queue RS_wait = True" | "rw_queue RS_unlock = True" | "rw_queue WS_read = True" | "rw_queue WS_cas = True" | "rw_queue WS_add = True" | "rw_queue WS_wait = True" | "rw_queue WS_cas2 = True" | "rw_queue WS_unlock = True" | "rw_queue _ = False"

lemma rw_pts_mono: "rw_reads p \<Longrightarrow> rw_biased p" "rw_waits p \<Longrightarrow> rw_queue p"
  by (cases p; simp)+

lemmas rw_consts = QW_WAITING_def QW_LOCKED_def QW_WMASK_def QR_BIAS_def QR_SHIFT_def

text \<open>The reader count has 23 bits.\<close>

definition rw_max :: nat where "rw_max = 2 ^ 23"

text \<open>The value of \<open>cnts\<close> with \<open>b\<close> biased threads, \<open>x\<close> waiting writers and \<open>y\<close> writers.\<close>

definition rw_word :: "nat \<Rightarrow> nat \<Rightarrow> nat \<Rightarrow> u32" where
  "rw_word b x y = of_nat (512 * b + 256 * x + 255 * y)"

lemma rw_word_steps:
  "rw_word b x y + QR_BIAS = rw_word (Suc b) x y" "rw_word (Suc b) x y - QR_BIAS = rw_word b x y"
  "rw_word b x y + QW_WAITING = rw_word b (Suc x) y" "rw_word 0 0 (Suc 0) = QW_LOCKED"
  by (simp_all add: rw_word_def rw_consts push_bit_eq_mult)

definition rw_inv :: "nat \<Rightarrow> rwlock \<Rightarrow> (nat \<Rightarrow> rw_pc) \<Rightarrow> bool" where
  "rw_inv n l pcs \<longleftrightarrow>
     cnts l = rw_word (at_pts n rw_biased pcs) (at_pts n rw_waits pcs) (at_pts n rw_writes pcs) \<and>
     at_pts n rw_writes pcs \<le> 1 \<and> (at_pts n rw_writes pcs = 1 \<longrightarrow> at_pts n rw_reads pcs = 0) \<and>
     at_pts n rw_queue pcs \<le> 1 \<and> (wait_lock l = None \<longleftrightarrow> at_pts n rw_queue pcs = 0)"

definition try_ok :: "rw_pc \<Rightarrow> bool" where
  "try_ok p \<longleftrightarrow> (\<forall>c. p = WT_cas c \<longrightarrow> c = 0)"

lemma rw_word_bits:
  assumes "b < rw_max" and "x \<le> 1" "y \<le> 1"
  shows "rw_word b x y AND 0x1ff = 0 \<longleftrightarrow> x = 0 \<and> y = 0" and "rw_word b x y AND 0xff = 0 \<longleftrightarrow> y = 0"
    and "rw_word b x y AND NOT 0xff = rw_word b x 0"
    and "rw_word b x y = 0 \<longleftrightarrow> b = 0 \<and> x = 0 \<and> y = 0"
    and "rw_word b x y = 0x100 \<longleftrightarrow> b = 0 \<and> x = 1 \<and> y = 0"
proof -
  let ?w = "rw_word b x y"
  have u: "unat ?w = 512 * b + 256 * x + 255 * y"
    using assms by (simp only: rw_word_def unat_of_nat) (rule mod_less, simp add: rw_max_def)
  have m9: "unat (?w AND 0x1ff) = unat ?w mod 512"
    using unat_mask_eq [of ?w 9] by (simp add: mask_eq_exp_minus_1)
  have m8: "unat (?w AND 0xff) = unat ?w mod 256"
    using unat_mask_eq [of ?w 8] by (simp add: mask_eq_exp_minus_1)
  have "(256 * x + 255 * y) mod 512 = 256 * x + 255 * y" using assms by (intro mod_less) simp
  then have "unat (?w AND 0x1ff) = 256 * x + 255 * y"
    unfolding m9 u by (simp only: add.assoc mod_mult_self4)
  then show "?w AND 0x1ff = 0 \<longleftrightarrow> x = 0 \<and> y = 0" by (simp only: unat_eq_zero [symmetric]) simp
  have "(512 * b + 256 * x + 255 * y) mod 256 = 255 * y"
  proof -
    have "512 * b + 256 * x + 255 * y = 256 * (2 * b + x) + 255 * y" by simp
    also have "\<dots> mod 256 = 255 * y mod 256" by (rule mod_mult_self4)
    also have "\<dots> = 255 * y" using assms by (intro mod_less) simp
    finally show ?thesis .
  qed
  then have a8: "unat (?w AND 0xff) = 255 * y" unfolding m8 u .
  then show "?w AND 0xff = 0 \<longleftrightarrow> y = 0" by (simp only: unat_eq_zero [symmetric]) simp
  have "?w AND 0xff = of_nat (255 * y)" using arg_cong [OF a8, of "of_nat :: nat \<Rightarrow> u32"] by simp
  moreover have "(?w AND NOT 0xff) + (?w AND 0xff) = ?w" by (subst disjunctive_add_eq_or) (auto simp: bit_eq_iff bit_simps)
  ultimately show "?w AND NOT 0xff = rw_word b x 0" by (simp add: rw_word_def algebra_simps)
  show "?w = 0 \<longleftrightarrow> b = 0 \<and> x = 0 \<and> y = 0" using u by (simp only: unat_eq_zero [symmetric]) simp
  have "?w = 0x100 \<longleftrightarrow> unat ?w = 256" using word_unat_eq_iff [of ?w "0x100"] by simp
  moreover have "512 * b + 256 * x + 255 * y = 256 \<longleftrightarrow> b = 0 \<and> x = 1 \<and> y = 0" using assms(2,3) by (auto simp: le_Suc_eq)
  ultimately show "?w = 0x100 \<longleftrightarrow> b = 0 \<and> x = 1 \<and> y = 0" unfolding u by simp
qed

text \<open>What one thread knows, the others being summed up by their counts.\<close>

definition rw_local :: "nat \<Rightarrow> nat \<Rightarrow> nat \<Rightarrow> nat \<Rightarrow> nat \<Rightarrow> rwlock \<Rightarrow> rw_pc \<Rightarrow> bool" where
  "rw_local B X W R Q l p \<longleftrightarrow> R \<le> B \<and> X \<le> Q \<and>
     cnts l = rw_word (B + of_bool (rw_biased p)) (X + of_bool (rw_waits p)) (W + of_bool (rw_writes p)) \<and>
     W + of_bool (rw_writes p) \<le> 1 \<and> (W + of_bool (rw_writes p) = 1 \<longrightarrow> R + of_bool (rw_reads p) = 0) \<and>
     Q + of_bool (rw_queue p) \<le> 1 \<and> (wait_lock l = None \<longleftrightarrow> Q + of_bool (rw_queue p) = 0)"

lemma rw_inv_local:
  assumes "i < n"
  shows "rw_inv n l pcs \<longleftrightarrow> rw_local (others n rw_biased pcs i) (others n rw_waits pcs i) (others n rw_writes pcs i)
           (others n rw_reads pcs i) (others n rw_queue pcs i) l (pcs i)"
proof -
  have "others n rw_reads pcs i \<le> others n rw_biased pcs i" "others n rw_waits pcs i \<le> others n rw_queue pcs i"
    unfolding others_def by (rule card_mono; auto intro: rw_pts_mono)+
  then show ?thesis
    by (simp only: rw_inv_def rw_local_def at_pts_split [OF assms]) simp
qed

lemma rw_local_cnts:
  assumes "rw_local B X W R Q l p" and "Suc B < rw_max"
  shows "cnts l AND QW_WMASK = 0 \<longleftrightarrow> X = 0 \<and> W = 0 \<and> \<not> rw_waits p \<and> \<not> rw_writes p"
    and "cnts l AND QW_LOCKED = 0 \<longleftrightarrow> W = 0 \<and> \<not> rw_writes p"
    and "cnts l AND NOT 0xff = rw_word (B + of_bool (rw_biased p)) (X + of_bool (rw_waits p)) 0"
    and "cnts l = 0 \<longleftrightarrow> B = 0 \<and> X = 0 \<and> W = 0 \<and> \<not> rw_biased p \<and> \<not> rw_waits p \<and> \<not> rw_writes p"
    and "cnts l = QW_WAITING \<longleftrightarrow> B = 0 \<and> \<not> rw_biased p \<and> X + of_bool (rw_waits p) = 1 \<and> W = 0 \<and> \<not> rw_writes p"
proof -
  note q = rw_pts_mono(2) [of p]
  have "B + of_bool (rw_biased p) < rw_max" "X + of_bool (rw_waits p) \<le> 1" "W + of_bool (rw_writes p) \<le> 1"
    using assms q by (auto simp: rw_local_def of_bool_def split: if_splits)
  note b = rw_word_bits [OF this, folded QW_WMASK_def QW_LOCKED_def QW_WAITING_def]
  have c: "cnts l = rw_word (B + of_bool (rw_biased p)) (X + of_bool (rw_waits p)) (W + of_bool (rw_writes p))"
    using assms(1) by (simp add: rw_local_def)
  show "cnts l AND QW_WMASK = 0 \<longleftrightarrow> X = 0 \<and> W = 0 \<and> \<not> rw_waits p \<and> \<not> rw_writes p"
    unfolding c b(1) by auto
  show "cnts l AND QW_LOCKED = 0 \<longleftrightarrow> W = 0 \<and> \<not> rw_writes p" unfolding c b(2) by auto
  show "cnts l AND NOT 0xff = rw_word (B + of_bool (rw_biased p)) (X + of_bool (rw_waits p)) 0" unfolding c b(3) [unfolded QW_LOCKED_def] ..
  show "cnts l = 0 \<longleftrightarrow> B = 0 \<and> X = 0 \<and> W = 0 \<and> \<not> rw_biased p \<and> \<not> rw_waits p \<and> \<not> rw_writes p" unfolding c b(4) by auto
  show "cnts l = QW_WAITING \<longleftrightarrow> B = 0 \<and> \<not> rw_biased p \<and> X + of_bool (rw_waits p) = 1 \<and> W = 0 \<and> \<not> rw_writes p"
    unfolding c b(5) by auto
qed

text \<open>A thread that adds its bias first reads the word it has written.\<close>

lemma rw_local_bias:
  assumes "rw_local B X W R Q l p" and "\<not> rw_biased p" "\<not> rw_queue p" "\<not> rw_writes p" and "Suc B < rw_max"
  shows "cnts l + QR_BIAS AND QW_WMASK = 0 \<longleftrightarrow> X = 0 \<and> W = 0"
proof -
  have "rw_local B X W R Q (add_cnts QR_BIAS l) RS_sub"
    using assms by (auto simp: rw_local_def rw_word_steps dest: rw_pts_mono)
  from rw_local_cnts(1) [OF this assms(5)] show ?thesis by simp
qed

lemmas rw_local_simps = rw_local_def try_ok_def Let_def cmpxchg_def rw_word_steps

lemma rw_read_local:
  assumes l: "rw_local B X W R Q l p" and B: "Suc B < rw_max"
    and st: "queued_read_trylock p l = Some (l', p') \<or> queued_read_lock p l = Some (l', p') \<or>
      queued_read_lock_slowpath t p l = Some (l', p') \<or> queued_read_unlock p l = Some (l', p')"
  shows "rw_local B X W R Q l' p'"
  using st l rw_local_cnts(2) [OF l B] rw_local_bias [OF l _ _ _ B]
  by (cases p) (auto simp: rw_local_simps split: if_splits)

lemma rw_write_slow_local:
  assumes l: "rw_local B X W R Q l p" and B: "Suc B < rw_max"
    and st: "queued_write_lock_slowpath t p l = Some (l', p')"
  shows "rw_local B X W R Q l' p'"
proof -
  have z: "cnts l \<noteq> 0 \<or> B = 0 \<and> X = 0 \<and> W = 0" and w: "cnts l \<noteq> QW_WAITING \<or> B = 0 \<and> W = 0"
    using rw_local_cnts(4,5) [OF l B] by auto
  note simps = rw_local_simps
  show ?thesis
  proof (cases p)
    case WS_cas
    then show ?thesis using st l z by (cases "cnts l = 0") (clarsimp simp: simps)+
  next
    case WS_cas2
    then show ?thesis using st l w by (cases "cnts l = QW_WAITING") (clarsimp simp: simps)+
  next
    case WS_read
    then show ?thesis using st l by (cases "cnts l = 0") (clarsimp simp: simps)+
  next
    case WS_lock
    then show ?thesis using st l by (cases "wait_lock l") (clarsimp simp: simps)+
  next
    case WS_wait
    then show ?thesis using st l by (clarsimp simp: simps split: if_splits)
  qed (use st l in \<open>clarsimp simp: simps\<close>)+
qed

lemma rw_write_local:
  assumes l: "rw_local B X W R Q l p" and B: "Suc B < rw_max" and ok: "try_ok p"
    and st: "queued_write_trylock p l = Some (l', p') \<or> queued_write_lock p l = Some (l', p') \<or> queued_write_unlock p l = Some (l', p')"
  shows "rw_local B X W R Q l' p'"
proof -
  have z: "cnts l \<noteq> 0 \<or> B = 0 \<and> X = 0 \<and> W = 0" using rw_local_cnts(4) [OF l B] by auto
  show ?thesis
    using st l ok z rw_local_cnts(3) [OF l B]
    by (cases p; clarsimp simp: Let_def cmpxchg_def try_ok_def split: if_splits)
      (auto simp: rw_local_simps)
qed

lemma rw_client_local:
  assumes "rw_local B X W R Q l p"
  shows "p = RWIdle \<Longrightarrow> p' \<in> {RL_add, RT_read, WL_cas, WT_read} \<Longrightarrow> rw_local B X W R Q l p'"
    and "p = RHeld \<Longrightarrow> rw_local B X W R Q l RU_sub" "p = WHeld \<Longrightarrow> rw_local B X W R Q l WU_store"
  using assms by (elim insertE, simp_all add: rw_local_def)

lemma rw_step_local:
  assumes "rw_step t l p l' p'" and "rw_local B X W R Q l p" and "Suc B < rw_max" and "try_ok p"
  shows "rw_local B X W R Q l' p'"
  using assms by (cases rule: rw_step.cases; blast intro: rw_read_local rw_write_local rw_write_slow_local rw_client_local)

lemma rw_step_try_ok: "rw_step t l p l' p' \<Longrightarrow> try_ok p'"
  by (cases rule: rw_step.cases, assumption; cases p)
     (auto simp: try_ok_def cmpxchg_def Let_def split: if_splits)

abbreviation rw_reachable :: "nat \<Rightarrow> (rwlock, rw_pc) threads \<Rightarrow> bool" where
  "rw_reachable n \<equiv> reachable rw_step n rwlock_init RWIdle"

lemma rw_reachable_inv:
  assumes "rw_reachable n s" and n: "n < rw_max"
  shows "rw_inv n (fst s) (snd s)"
proof -
  have "rw_inv n (fst s) (snd s) \<and> (\<forall>i < n. try_ok (snd s i))"
  proof (rule reachable_invariant [OF assms(1), where I = "\<lambda>l pcs. rw_inv n l pcs \<and> (\<forall>i < n. try_ok (pcs i))"])
    show "rw_inv n rwlock_init (\<lambda>_. RWIdle) \<and> (\<forall>i < n. try_ok RWIdle)"
      by (simp add: rw_inv_def at_pts_start rwlock_init_def try_ok_def rw_word_def)
  next
    fix i l pcs l' p'
    assume "rw_inv n l pcs \<and> (\<forall>i < n. try_ok (pcs i))" and i: "i < n" and st: "rw_step i l (pcs i) l' p'"
    moreover have "Suc (others n rw_biased pcs i) < rw_max" using others_less [OF i, of rw_biased pcs] n by simp
    ultimately show "rw_inv n l' (pcs(i := p')) \<and> (\<forall>j < n. try_ok ((pcs(i := p')) j))"
      using rw_step_local [OF st] rw_step_try_ok [OF st] by (simp add: rw_inv_local [OF i])
  qed
  then show ?thesis ..
qed

text \<open>Among the writers the lock is an exclusive lock.\<close>

interpretation rwl: exclusive_lock rw_step rwlock_init RWIdle rw_writes rw_max
  by unfold_locales (use rw_reachable_inv in \<open>auto simp: rw_inv_def\<close>)

section \<open>Progress\<close>

inductive_simps rw_step_iff: "rw_step t l p l' p'"

lemma rw_can_move:
  "can_move rw_step t l p \<longleftrightarrow> (case p of RS_lock \<Rightarrow> wait_lock l = None | WS_lock \<Rightarrow> wait_lock l = None
     | RS_wait \<Rightarrow> cnts l AND QW_LOCKED = 0 | WS_wait \<Rightarrow> cnts l = QW_WAITING | _ \<Rightarrow> True)"
  by (cases p) (auto simp: can_move_def rw_step_iff Let_def cmpxchg_def)

lemma rw_inv_cnts:
  assumes "rw_inv n l pcs" and "n < rw_max" and "i < n"
  shows "cnts l AND QW_LOCKED = 0 \<longleftrightarrow> at_pts n rw_writes pcs = 0"
    and "rw_waits (pcs i) \<Longrightarrow> cnts l = QW_WAITING \<longleftrightarrow> at_pts n rw_biased pcs = 0 \<and> at_pts n rw_writes pcs = 0"
proof -
  have l: "rw_local (others n rw_biased pcs i) (others n rw_waits pcs i) (others n rw_writes pcs i)
           (others n rw_reads pcs i) (others n rw_queue pcs i) l (pcs i)" using assms(1) by (simp add: rw_inv_local [OF assms(3)])
  have b: "Suc (others n rw_biased pcs i) < rw_max" using others_less [OF assms(3), of rw_biased pcs] assms(2) by simp
  show "cnts l AND QW_LOCKED = 0 \<longleftrightarrow> at_pts n rw_writes pcs = 0"
    using rw_local_cnts(2) [OF l b] by (simp add: at_pts_split [OF assms(3)])
  show "cnts l = QW_WAITING \<longleftrightarrow> at_pts n rw_biased pcs = 0 \<and> at_pts n rw_writes pcs = 0" if w: "rw_waits (pcs i)"
  proof -
    have "others n rw_waits pcs i = 0" using l w rw_pts_mono(2) [OF w] by (simp add: rw_local_def)
    then show ?thesis using rw_local_cnts(5) [OF l b] w by (auto simp add: at_pts_split [OF assms(3)])
  qed
qed

text \<open>A thread that cannot move waits for one that is inside the lock and can.\<close>

lemma rw_progress:
  assumes r: "rw_reachable n s" and n: "n < rw_max" and i: "i < n" and b: "\<not> can_move rw_step i (fst s) (snd s i)"
  shows "\<exists>j < n. snd s j \<noteq> RWIdle \<and> can_move rw_step j (fst s) (snd s j)"
proof -
  let ?l = "fst s" and ?pcs = "snd s"
  have inv: "rw_inv n ?l ?pcs" by (rule rw_reachable_inv [OF r n])
  have writer: ?thesis if w: "at_pts n rw_writes ?pcs \<noteq> 0"
  proof -
    obtain j where "j < n" "rw_writes (?pcs j)" using w by (auto simp: at_pts_0)
    then show ?thesis by (intro exI [of _ j]) (cases "?pcs j"; simp add: rw_can_move)
  qed
  have reader: ?thesis if w: "at_pts n rw_writes ?pcs = 0" "at_pts n rw_biased ?pcs \<noteq> 0"
  proof -
    obtain j where "j < n" "rw_biased (?pcs j)" using w by (auto simp: at_pts_0)
    then show ?thesis using rw_inv_cnts(1) [OF inv n i] w by (intro exI [of _ j]) (cases "?pcs j"; simp add: rw_can_move)
  qed
  have head: ?thesis if j: "j < n" "rw_queue (?pcs j)" for j
  proof (cases "can_move rw_step j ?l (?pcs j)")
    case True
    then show ?thesis using j by (intro exI [of _ j]) auto
  next
    case False
    then have "?pcs j = RS_wait \<and> cnts ?l AND QW_LOCKED \<noteq> 0 \<or> ?pcs j = WS_wait \<and> cnts ?l \<noteq> QW_WAITING"
      using j by (cases "?pcs j") (simp_all add: rw_can_move)
    then show ?thesis using rw_inv_cnts [OF inv n j(1)] writer reader by auto
  qed
  show ?thesis
  proof (cases "rw_queue (?pcs i)")
    case True
    then show ?thesis using head i by blast
  next
    case False
    then have "wait_lock ?l \<noteq> None" using b by (cases "?pcs i") (simp_all add: rw_can_move)
    then have "at_pts n rw_queue ?pcs \<noteq> 0" using inv by (auto simp: rw_inv_def)
    then show ?thesis using head by (auto simp: at_pts_0)
  qed
qed

text \<open>
  C8: with fewer than 2^23 threads (the width of the reader count) that lock and unlock the queued
  reader-writer lock for reading and writing in any order, a thread that holds it for writing is alone:
  no other writer and no reader holds it; the queue of waiting threads has one head at most; and
  whenever a thread cannot move, a thread inside the lock can.
\<close>

theorem rwlock_exclusive:
  assumes "rw_reachable n s" and "n < rw_max"
  shows "(\<forall>i < n. \<forall>j < n. rw_writes (snd s i) \<longrightarrow> rw_writes (snd s j) \<or> rw_reads (snd s j) \<longrightarrow> i = j) \<and>
    (\<forall>i < n. \<forall>j < n. rw_queue (snd s i) \<longrightarrow> rw_queue (snd s j) \<longrightarrow> i = j) \<and>
    (\<forall>i < n. can_move rw_step i (fst s) (snd s i) \<or> (\<exists>j < n. snd s j \<noteq> RWIdle \<and> can_move rw_step j (fst s) (snd s j)))"
proof (intro conjI)
  have inv: "rw_inv n (fst s) (snd s)" by (rule rw_reachable_inv [OF assms])
  have le: "at_pts n rw_writes (snd s) \<le> 1" "at_pts n rw_queue (snd s) \<le> 1" using inv by (simp_all add: rw_inv_def)
  have "\<not> rw_reads (snd s j)" if "i < n" "j < n" "rw_writes (snd s i)" for i j
  proof -
    have "at_pts n rw_writes (snd s) = 1" using le(1) at_pts_pos [of i n rw_writes "snd s"] that by simp
    then have "at_pts n rw_reads (snd s) = 0" using inv by (simp add: rw_inv_def)
    then show ?thesis using that by (simp add: at_pts_0)
  qed
  then show "\<forall>i < n. \<forall>j < n. rw_writes (snd s i) \<longrightarrow> rw_writes (snd s j) \<or> rw_reads (snd s j) \<longrightarrow> i = j"
    using at_pts_one [OF le(1)] by blast
  show "\<forall>i < n. \<forall>j < n. rw_queue (snd s i) \<longrightarrow> rw_queue (snd s j) \<longrightarrow> i = j"
    using at_pts_one [OF le(2)] by blast
  show "\<forall>i < n. can_move rw_step i (fst s) (snd s i) \<or> (\<exists>j < n. snd s j \<noteq> RWIdle \<and> can_move rw_step j (fst s) (snd s j))"
    using rw_progress [OF assms] by blast
qed

theorem rwlock_exclusive_witness:
  "\<exists>s. rw_reachable 2 s \<and> rw_writes (snd s 0) \<and> \<not> rw_reads (snd s 1)"
proof -
  have "rw_reachable 2 (rwlock_init, \<lambda>_. RWIdle)" by (rule reachable.start)
  then have "rw_reachable 2 (rwlock_init, (\<lambda>_. RWIdle)(0 := WL_cas))"
    by (rule reachable_move) (auto intro: rw_step.intros)
  then have "rw_reachable 2 (\<lparr>cnts = 0xff, wait_lock = None\<rparr>, (\<lambda>_. RWIdle)(0 := WL_cas, 0 := WHeld))"
    by (rule reachable_move) (auto simp: cmpxchg_def rwlock_init_def QW_LOCKED_def intro: rw_step.in_write_lock)
  then have r: "rw_reachable 2 (\<lparr>cnts = 0xff, wait_lock = None\<rparr>, (\<lambda>_. RWIdle)(0 := WHeld))" by simp
  have "2 < rw_max" by (simp add: rw_max_def)
  from rwlock_exclusive [OF r this] r show ?thesis
    by (intro exI [of _ "(\<lparr>cnts = 0xff, wait_lock = None\<rparr>, (\<lambda>_. RWIdle)(0 := WHeld))"]) auto
qed

end
