(* ===== verification/Mutex.thy ===== *)
theory Mutex
  imports Threads
begin

text \<open>
  \<open>src/utils/mutex.c\<close> and \<open>include/skp/utils/mutex.h\<close>: the sleeping mutex and the recursive mutex.  The
  counter is 1 when the mutex is free, 0 when it is held, negative when there may be waiters.  A waiter
  sleeps on the word \<open>flags\<close> of its own entry of the wait list by \<open>futex_wait\<close> (\<open>src/utils/futex.c\<close>, the version of
  Linux): the kernel puts a thread to sleep when the word still has the expected value, atomically
  with respect to \<open>futex_wake\<close>, and a sleeping thread may be interrupted by a signal.  \<open>wait_lock\<close> is the
  abstract lock that the spin lock refines: its owner, if any.
\<close>

section \<open>The mutex\<close>

record mutex =
  count :: int
  wait_lock :: "nat option"
  wait_list :: "nat list"
  wflags :: "nat \<Rightarrow> nat"
  asleep :: "nat set"

definition mutex_init :: mutex where
  "mutex_init = \<lparr>count = 1, wait_lock = None, wait_list = [], wflags = \<lambda>_. 0, asleep = {}\<rparr>"

definition mutex_is_locked :: "mutex \<Rightarrow> bool" where
  "mutex_is_locked m \<longleftrightarrow> count m \<noteq> 1"

definition mutex_is_contended :: "mutex \<Rightarrow> bool" where
  "mutex_is_contended m \<longleftrightarrow> wait_list m \<noteq> []"

datatype mutex_pc =
    MIdle | MT_cas | ML_dec
  | SL_lock | SL_xchg | SL_unlock | SL_wait | SL_sys | SL_sleep | SL_relock | SL_del | SL_set | SL_out
  | MHeld | MU_inc
  | US_lock | US_set | US_xadd | US_wake nat | US_unlock

text \<open>Each function is the code from one access of the shared memory to the next; \<open>t\<close> is the calling thread.\<close>

fun u_mutex_fastpath_lock :: "mutex_pc \<Rightarrow> mutex \<Rightarrow> (mutex \<times> mutex_pc) option" where
  "u_mutex_fastpath_lock ML_dec m =
     (let c = count m - 1 in Some (m\<lparr>count := c\<rparr>, if c < 0 then SL_lock else MHeld))"
| "u_mutex_fastpath_lock _ m = None"

fun u_mutex_fastpath_unlock :: "mutex_pc \<Rightarrow> mutex \<Rightarrow> (mutex \<times> mutex_pc) option" where
  "u_mutex_fastpath_unlock MU_inc m =
     (let c = count m + 1 in Some (m\<lparr>count := c\<rparr>, if c < 1 then US_lock else MIdle))"
| "u_mutex_fastpath_unlock _ m = None"

fun u_mutex_fastpath_trylock :: "mutex_pc \<Rightarrow> mutex \<Rightarrow> (mutex \<times> mutex_pc) option" where
  "u_mutex_fastpath_trylock MT_cas m =
     (if count m = 1 then Some (m\<lparr>count := 0\<rparr>, MHeld) else Some (m, MIdle))"
| "u_mutex_fastpath_trylock _ m = None"

text \<open>\<open>futex_wait(&waiter.flags, 0, -1)\<close>: a first look at the word, the system call, and the sleep.\<close>

fun futex_wait :: "nat \<Rightarrow> mutex_pc \<Rightarrow> mutex \<Rightarrow> (mutex \<times> mutex_pc) option" where
  "futex_wait t SL_wait m = Some (m, if wflags m t \<noteq> 0 then SL_relock else SL_sys)"
| "futex_wait t SL_sys m =
     (if wflags m t \<noteq> 0 then Some (m, SL_relock) else Some (m\<lparr>asleep := insert t (asleep m)\<rparr>, SL_sleep))"
| "futex_wait t SL_sleep m = (if t \<notin> asleep m then Some (m, SL_relock) else None)"
| "futex_wait t _ m = None"

definition futex_wake :: "nat \<Rightarrow> mutex \<Rightarrow> mutex" where
  "futex_wake w m = m\<lparr>asleep := asleep m - {w}\<rparr>"

fun u_mutex_lock_slowpath :: "nat \<Rightarrow> mutex_pc \<Rightarrow> mutex \<Rightarrow> (mutex \<times> mutex_pc) option" where
  "u_mutex_lock_slowpath t SL_lock m =
     (if wait_lock m = None
      then Some (m\<lparr>wait_lock := Some t, wflags := (wflags m)(t := 0), wait_list := wait_list m @ [t]\<rparr>, SL_xchg)
      else None)"
| "u_mutex_lock_slowpath t SL_xchg m = Some (m\<lparr>count := -1\<rparr>, if count m = 1 then SL_del else SL_unlock)"
| "u_mutex_lock_slowpath t SL_unlock m = Some (m\<lparr>wait_lock := None\<rparr>, SL_wait)"
| "u_mutex_lock_slowpath t SL_relock m =
     (if wait_lock m = None then Some (m\<lparr>wait_lock := Some t, wflags := (wflags m)(t := 0)\<rparr>, SL_xchg) else None)"
| "u_mutex_lock_slowpath t SL_del m =
     (let l = remove1 t (wait_list m) in Some (m\<lparr>wait_list := l\<rparr>, if l = [] then SL_set else SL_out))"
| "u_mutex_lock_slowpath t SL_set m = Some (m\<lparr>count := 0\<rparr>, SL_out)"
| "u_mutex_lock_slowpath t SL_out m = Some (m\<lparr>wait_lock := None\<rparr>, MHeld)"
| "u_mutex_lock_slowpath t p m = futex_wait t p m"

fun u_mutex_unlock_slowpath :: "nat \<Rightarrow> mutex_pc \<Rightarrow> mutex \<Rightarrow> (mutex \<times> mutex_pc) option" where
  "u_mutex_unlock_slowpath t US_lock m =
     (if wait_lock m = None then Some (m\<lparr>wait_lock := Some t\<rparr>, US_set) else None)"
| "u_mutex_unlock_slowpath t US_set m = Some (m\<lparr>count := 1\<rparr>, US_xadd)"
| "u_mutex_unlock_slowpath t US_xadd m =
     (case wait_list m of
        [] \<Rightarrow> Some (m, US_unlock)
      | w # _ \<Rightarrow> Some (m\<lparr>wflags := (wflags m)(w := wflags m w + 1)\<rparr>, US_wake w))"
| "u_mutex_unlock_slowpath t (US_wake w) m = Some (futex_wake w m, US_unlock)"
| "u_mutex_unlock_slowpath t US_unlock m = Some (m\<lparr>wait_lock := None\<rparr>, MIdle)"
| "u_mutex_unlock_slowpath t _ m = None"

text \<open>What a thread inside one of the functions does next.\<close>

fun mutex_next :: "nat \<Rightarrow> mutex_pc \<Rightarrow> mutex \<Rightarrow> (mutex \<times> mutex_pc) option" where
  "mutex_next t MIdle m = None"
| "mutex_next t MHeld m = None"
| "mutex_next t MT_cas m = u_mutex_fastpath_trylock MT_cas m"
| "mutex_next t ML_dec m = u_mutex_fastpath_lock ML_dec m"
| "mutex_next t MU_inc m = u_mutex_fastpath_unlock MU_inc m"
| "mutex_next t US_lock m = u_mutex_unlock_slowpath t US_lock m"
| "mutex_next t US_set m = u_mutex_unlock_slowpath t US_set m"
| "mutex_next t US_xadd m = u_mutex_unlock_slowpath t US_xadd m"
| "mutex_next t (US_wake w) m = u_mutex_unlock_slowpath t (US_wake w) m"
| "mutex_next t US_unlock m = u_mutex_unlock_slowpath t US_unlock m"
| "mutex_next t p m = u_mutex_lock_slowpath t p m"

inductive mutex_step :: "(mutex, mutex_pc) thread_step" where
  mutex_lock: "mutex_step t m MIdle m ML_dec"
| mutex_trylock: "mutex_step t m MIdle m MT_cas"
| mutex_unlock: "mutex_step t m MHeld m MU_inc"
| inside: "mutex_next t p m = Some (m', p') \<Longrightarrow> mutex_step t m p m' p'"
| eintr: "t \<in> asleep m \<Longrightarrow> mutex_step t m SL_sleep (m\<lparr>asleep := asleep m - {t}\<rparr>) SL_sys"

section \<open>The invariant\<close>

text \<open>
  Points at which a thread has the mutex, is inside the critical section of \<open>wait_lock\<close>, is in the wait list, is on
  the way from the counter to the exchange, and is about to wake the first waiter.
\<close>

fun mx_holds :: "mutex_pc \<Rightarrow> bool" where
  "mx_holds SL_del = True" | "mx_holds SL_set = True" | "mx_holds SL_out = True" | "mx_holds MHeld = True"
| "mx_holds MU_inc = True" | "mx_holds US_lock = True" | "mx_holds US_set = True" | "mx_holds _ = False"

fun mx_cs :: "mutex_pc \<Rightarrow> bool" where
  "mx_cs SL_xchg = True" | "mx_cs SL_unlock = True" | "mx_cs SL_del = True" | "mx_cs SL_set = True" | "mx_cs SL_out = True"
| "mx_cs US_set = True" | "mx_cs US_xadd = True" | "mx_cs (US_wake w) = True" | "mx_cs US_unlock = True" | "mx_cs _ = False"

fun mx_waits :: "mutex_pc \<Rightarrow> bool" where
  "mx_waits SL_xchg = True" | "mx_waits SL_unlock = True" | "mx_waits SL_wait = True" | "mx_waits SL_sys = True"
| "mx_waits SL_sleep = True" | "mx_waits SL_relock = True" | "mx_waits SL_del = True" | "mx_waits _ = False"

fun mx_slow :: "mutex_pc \<Rightarrow> bool" where
  "mx_slow SL_lock = True" | "mx_slow SL_xchg = True" | "mx_slow _ = False"

fun mx_wakes :: "mutex_pc \<Rightarrow> bool" where
  "mx_wakes US_lock = True" | "mx_wakes US_set = True" | "mx_wakes US_xadd = True" | "mx_wakes (US_wake w) = True" | "mx_wakes _ = False"

text \<open>A waiter that is not asleep and will not go to sleep before it has tried the counter again.\<close>

definition mx_awake :: "mutex \<Rightarrow> (nat \<Rightarrow> mutex_pc) \<Rightarrow> nat \<Rightarrow> bool" where
  "mx_awake m pcs t \<longleftrightarrow> t \<notin> asleep m \<and> (pcs t = SL_unlock \<or> pcs t = SL_wait \<or> pcs t = SL_sys \<longrightarrow> wflags m t \<noteq> 0)"

definition mx_count_inv :: "nat \<Rightarrow> mutex \<Rightarrow> (nat \<Rightarrow> mutex_pc) \<Rightarrow> bool" where
  "mx_count_inv n m pcs \<longleftrightarrow> at_pts n mx_holds pcs \<le> 1 \<and> count m \<le> 1 \<and> (count m = 1 \<longleftrightarrow> at_pts n mx_holds pcs = 0) \<and>
     - 1 - int (at_pts n mx_slow pcs) \<le> count m"

definition mx_cs_inv :: "nat \<Rightarrow> mutex \<Rightarrow> (nat \<Rightarrow> mutex_pc) \<Rightarrow> bool" where
  "mx_cs_inv n m pcs \<longleftrightarrow> (\<forall>t. wait_lock m = Some t \<longleftrightarrow> t < n \<and> mx_cs (pcs t))"

definition mx_list_inv :: "nat \<Rightarrow> mutex \<Rightarrow> (nat \<Rightarrow> mutex_pc) \<Rightarrow> bool" where
  "mx_list_inv n m pcs \<longleftrightarrow> distinct (wait_list m) \<and> (\<forall>t. t \<in> set (wait_list m) \<longleftrightarrow> t < n \<and> mx_waits (pcs t))"

definition mx_sleep_inv :: "nat \<Rightarrow> mutex \<Rightarrow> (nat \<Rightarrow> mutex_pc) \<Rightarrow> bool" where
  "mx_sleep_inv n m pcs \<longleftrightarrow> (\<forall>t < n. t \<in> asleep m \<longrightarrow> pcs t = SL_sleep) \<and>
     (\<forall>t < n. pcs t = SL_set \<longrightarrow> wait_list m = []) \<and>
     (\<forall>t < n. \<forall>w. pcs t = US_wake w \<longrightarrow> w \<in> set (wait_list m) \<and> wflags m w \<noteq> 0)"

definition mx_wake_inv :: "nat \<Rightarrow> mutex \<Rightarrow> (nat \<Rightarrow> mutex_pc) \<Rightarrow> bool" where
  "mx_wake_inv n m pcs \<longleftrightarrow> (\<forall>t < n. pcs t = SL_del \<longrightarrow> count m < 0) \<and>
     (count m \<ge> 0 \<longrightarrow> wait_list m = [] \<or> (\<exists>t < n. mx_wakes (pcs t)) \<or> (\<exists>t \<in> set (wait_list m). mx_awake m pcs t))"

text \<open>The holder count, the others being summed up.\<close>

definition mx_local :: "nat \<Rightarrow> nat \<Rightarrow> int \<Rightarrow> mutex_pc \<Rightarrow> bool" where
  "mx_local H S c p \<longleftrightarrow> H + of_bool (mx_holds p) \<le> 1 \<and> c \<le> 1 \<and> (c = 1 \<longleftrightarrow> H + of_bool (mx_holds p) = 0) \<and>
     - 1 - int (S + of_bool (mx_slow p)) \<le> c"

lemma mx_count_local:
  "i < n \<Longrightarrow> mx_count_inv n m pcs \<longleftrightarrow> mx_local (others n mx_holds pcs i) (others n mx_slow pcs i) (count m) (pcs i)"
  by (simp only: mx_count_inv_def mx_local_def at_pts_split)

lemma mx_next_local:
  "mx_local H S (count m) p \<Longrightarrow> mutex_next t p m = Some (m', p') \<Longrightarrow> mx_local H S (count m') p'"
  by (cases p; clarsimp simp: Let_def futex_wake_def split: if_splits list.splits; auto simp: mx_local_def)

lemma mx_step_local:
  "mutex_step t m p m' p' \<Longrightarrow> mx_local H S (count m) p \<Longrightarrow> mx_local H S (count m') p'"
  by (erule mutex_step.cases) (simp_all add: mx_next_local, simp_all add: mx_local_def)

lemma mx_step_count:
  "mutex_step i m (pcs i) m' p' \<Longrightarrow> i < n \<Longrightarrow> mx_count_inv n m pcs \<Longrightarrow> mx_count_inv n m' (pcs(i := p'))"
  by (simp add: mx_count_local mx_step_local)

text \<open>What a move changes of the lock, of the list, of the flags and of the sleepers.\<close>

lemma next_wait_lock:
  "mutex_next i p m = Some (m', p') \<Longrightarrow>
     wait_lock m' = wait_lock m \<and> mx_cs p' = mx_cs p \<or>
     wait_lock m = None \<and> wait_lock m' = Some i \<and> mx_cs p' \<or> mx_cs p \<and> wait_lock m' = None \<and> \<not> mx_cs p'"
  by (cases p; clarsimp simp: Let_def futex_wake_def split: if_splits list.splits)

lemma next_wait_list:
  "mutex_next i p m = Some (m', p') \<Longrightarrow>
     wait_list m' = wait_list m \<and> mx_waits p' = mx_waits p \<or>
     p = SL_lock \<and> wait_lock m = None \<and> wait_list m' = wait_list m @ [i] \<and> mx_waits p' \<or>
     p = SL_del \<and> wait_list m' = remove1 i (wait_list m) \<and> \<not> mx_waits p'"
  by (cases p; clarsimp simp: Let_def futex_wake_def split: if_splits list.splits)

lemma next_flags:
  "mutex_next i p m = Some (m', p') \<Longrightarrow> wflags m w \<noteq> 0 \<Longrightarrow> wflags m' w \<noteq> 0 \<or> wait_lock m = None \<and> w = i \<and> p' = SL_xchg"
  by (cases p; clarsimp simp: Let_def futex_wake_def split: if_splits list.splits; auto)

lemma next_asleep:
  "mutex_next i p m = Some (m', p') \<Longrightarrow>
     asleep m' \<subseteq> asleep m \<and> (p = SL_sleep \<longrightarrow> i \<notin> asleep m') \<or> p' = SL_sleep \<and> asleep m' = insert i (asleep m)"
  by (cases p; clarsimp simp: Let_def futex_wake_def split: if_splits list.splits; auto)

lemma mx_cs_unique: "mx_cs_inv n m pcs \<Longrightarrow> i < n \<Longrightarrow> j < n \<Longrightarrow> mx_cs (pcs i) \<Longrightarrow> mx_cs (pcs j) \<Longrightarrow> i = j"
  unfolding mx_cs_inv_def by (metis option.inject)

lemma mx_next_cs:
  assumes nx: "mutex_next i (pcs i) m = Some (m', p')" and i: "i < n" and inv: "mx_cs_inv n m pcs"
  shows "mx_cs_inv n m' (pcs(i := p'))"
proof -
  have lk: "wait_lock m = Some t \<longleftrightarrow> t < n \<and> mx_cs (pcs t)" for t using inv by (simp add: mx_cs_inv_def)
  consider (same) "wait_lock m' = wait_lock m" "mx_cs p' = mx_cs (pcs i)"
    | (acquire) "wait_lock m = None" "wait_lock m' = Some i" "mx_cs p'"
    | (release) "mx_cs (pcs i)" "wait_lock m' = None" "\<not> mx_cs p'"
    using next_wait_lock [OF nx] by metis
  then show ?thesis
  proof cases
    case same
    then show ?thesis using i by (simp add: mx_cs_inv_def lk)
  next
    case acquire
    then have "\<not> (t < n \<and> mx_cs (pcs t))" for t using lk [of t] by simp
    then show ?thesis using acquire i by (auto simp: mx_cs_inv_def)
  next
    case release
    then have "t = i" if "t < n" "mx_cs (pcs t)" for t using mx_cs_unique [OF inv i that(1)] that by simp
    then show ?thesis using release by (auto simp: mx_cs_inv_def)
  qed
qed

lemma mx_next_list:
  assumes nx: "mutex_next i (pcs i) m = Some (m', p')" and i: "i < n" and inv: "mx_list_inv n m pcs"
  shows "mx_list_inv n m' (pcs(i := p'))"
proof -
  have ls: "distinct (wait_list m)" "t \<in> set (wait_list m) \<longleftrightarrow> t < n \<and> mx_waits (pcs t)" for t
    using inv by (simp_all add: mx_list_inv_def)
  consider (same) "wait_list m' = wait_list m" "mx_waits p' = mx_waits (pcs i)"
    | (add) "pcs i = SL_lock" "wait_list m' = wait_list m @ [i]" "mx_waits p'"
    | (del) "wait_list m' = remove1 i (wait_list m)" "\<not> mx_waits p'"
    using next_wait_list [OF nx] by metis
  then show ?thesis
    using i ls(1) by cases (auto simp: mx_list_inv_def ls)
qed

lemma mx_next_sleep:
  assumes nx: "mutex_next i (pcs i) m = Some (m', p')" and i: "i < n"
    and inv: "mx_cs_inv n m pcs" "mx_list_inv n m pcs" "mx_sleep_inv n m pcs"
  shows "mx_sleep_inv n m' (pcs(i := p'))"
  unfolding mx_sleep_inv_def
proof (intro conjI allI impI)
  fix t assume t: "t < n"
  show "(pcs(i := p')) t = SL_sleep" if "t \<in> asleep m'"
    using that next_asleep [OF nx] inv(3) t i by (auto simp: mx_sleep_inv_def)
  have free: "wait_lock m \<noteq> None" if "mx_cs (pcs t)" using that t inv(1) by (metis mx_cs_inv_def option.distinct(1))
  have other: "pcs i \<noteq> SL_del \<and> pcs i \<noteq> SL_xchg" if "mx_cs (pcs t)" "t \<noteq> i" using mx_cs_unique [OF inv(1) i t] that by auto
  show "wait_list m' = []" if "(pcs(i := p')) t = SL_set"
  proof (cases "t = i")
    case True
    then have "p' = SL_set" using that by simp
    then show ?thesis using nx by (cases "pcs i"; clarsimp simp: Let_def split: if_splits list.splits)
  next
    case False
    then have "pcs t = SL_set" using that by simp
    then show ?thesis using next_wait_list [OF nx] inv(3) t free other False by (auto simp: mx_sleep_inv_def)
  qed
  fix w
  show "w \<in> set (wait_list m')" if "(pcs(i := p')) t = US_wake w"
  proof (cases "t = i")
    case True
    then have "p' = US_wake w" using that by simp
    then show ?thesis using nx by (cases "pcs i"; clarsimp simp: Let_def split: if_splits list.splits)
  next
    case False
    then have "pcs t = US_wake w" using that by simp
    then show ?thesis using next_wait_list [OF nx] inv(3) t free other False by (auto simp: mx_sleep_inv_def)
  qed
  show "wflags m' w \<noteq> 0" if "(pcs(i := p')) t = US_wake w"
  proof (cases "t = i")
    case True
    then have "p' = US_wake w" using that by simp
    then show ?thesis using nx by (cases "pcs i"; clarsimp simp: Let_def split: if_splits list.splits)
  next
    case False
    then have "pcs t = US_wake w" using that by simp
    then show ?thesis using next_flags [OF nx, of w] inv(3) t free by (auto simp: mx_sleep_inv_def)
  qed
qed

text \<open>No wake-up is lost.\<close>

lemma mx_awake_other: "t \<noteq> i \<Longrightarrow> mutex_next i (pcs i) m = Some (m', p') \<Longrightarrow> mx_awake m pcs t \<Longrightarrow> mx_awake m' (pcs(i := p')) t"
  using next_asleep [of i "pcs i" m m' p'] next_flags [of i "pcs i" m m' p' t] by (auto simp: mx_awake_def)

lemma mx_awake_self:
  "mutex_next i (pcs i) m = Some (m', p') \<Longrightarrow> mx_awake m pcs i \<Longrightarrow> mx_awake m' (pcs(i := p')) i \<or> p' = SL_unlock \<or> \<not> mx_waits p'"
  by (cases "pcs i"; clarsimp simp: Let_def mx_awake_def futex_wake_def split: if_splits list.splits)

lemma mx_awake_lock:
  assumes "mutex_next i (pcs i) m = Some (m', p')" and "pcs i = SL_lock" and "i < n" and "mx_sleep_inv n m pcs"
  shows "mx_awake m' (pcs(i := p')) i"
proof -
  have "i \<notin> asleep m" using assms(2-4) by (auto simp: mx_sleep_inv_def)
  then show ?thesis using assms(1,2) by (auto simp: mx_awake_def split: if_splits)
qed

lemma mx_awake_woken:
  assumes "pcs i = US_wake w" and "mx_list_inv n m pcs" "mx_sleep_inv n m pcs" and "i < n"
  shows "\<exists>t \<in> set (wait_list (futex_wake w m)). mx_awake (futex_wake w m) (pcs(i := p')) t"
proof -
  have w: "w \<in> set (wait_list m)" "wflags m w \<noteq> 0" using assms by (auto simp: mx_sleep_inv_def)
  then have "mx_waits (pcs w)" using assms(2) by (simp add: mx_list_inv_def)
  then have "w \<noteq> i" using assms(1) by auto
  then show ?thesis using w by (intro bexI [of _ w]) (auto simp: mx_awake_def futex_wake_def)
qed

lemma next_SL_unlock: "mutex_next i p m = Some (m', SL_unlock) \<Longrightarrow> count m' < 0"
  by (cases p; clarsimp simp: Let_def split: if_splits list.splits)

lemma next_SL_del: "mutex_next i p m = Some (m', SL_del) \<Longrightarrow> count m' < 0"
  by (cases p; clarsimp simp: Let_def split: if_splits list.splits)

lemma next_wakes:
  "mutex_next i p m = Some (m', p') \<Longrightarrow> mx_wakes p \<Longrightarrow> mx_wakes p' \<or> wait_list m' = [] \<or> (\<exists>w. p = US_wake w \<and> m' = futex_wake w m)"
  by (cases p; clarsimp simp: Let_def split: if_splits list.splits)

lemma next_count:
  "mutex_next i p m = Some (m', p') \<Longrightarrow> 0 \<le> count m' \<Longrightarrow> count m < 0 \<Longrightarrow> mx_wakes p' \<or> p = SL_set"
  by (cases p; clarsimp simp: Let_def futex_wake_def split: if_splits list.splits)

lemma next_count_holder:
  "mutex_next i p m = Some (m', p') \<Longrightarrow> count m < 0 \<Longrightarrow> 0 \<le> count m' \<Longrightarrow> mx_holds p"
  by (cases p; clarsimp simp: Let_def futex_wake_def split: if_splits list.splits)

lemma mx_next_wake:
  assumes nx: "mutex_next i (pcs i) m = Some (m', p')" and i: "i < n"
    and inv: "mx_count_inv n m pcs" "mx_cs_inv n m pcs" "mx_list_inv n m pcs" "mx_sleep_inv n m pcs" "mx_wake_inv n m pcs"
  shows "mx_wake_inv n m' (pcs(i := p'))"
  unfolding mx_wake_inv_def
proof (intro conjI allI impI)
  fix t assume t: "t < n" "(pcs(i := p')) t = SL_del"
  show "count m' < 0"
  proof (cases "t = i")
    case True
    then show ?thesis using t next_SL_del nx by simp
  next
    case False
    then have del: "pcs t = SL_del" "count m < 0" using t inv(5) by (auto simp: mx_wake_inv_def)
    have "at_pts n mx_holds pcs \<le> 1" using inv(1) by (simp add: mx_count_inv_def)
    from at_pts_one [OF this i t(1)] have "\<not> mx_holds (pcs i)" using del False by auto
    then show ?thesis using next_count_holder [OF nx del(2)] by (meson linorder_not_le)
  qed
next
  assume c: "0 \<le> count m'"
  show "wait_list m' = [] \<or> (\<exists>t < n. mx_wakes ((pcs(i := p')) t)) \<or> (\<exists>t \<in> set (wait_list m'). mx_awake m' (pcs(i := p')) t)"
  proof (cases "count m < 0")
    case True
    then have "mx_wakes p' \<or> pcs i = SL_set" using next_count [OF nx c] by simp
    moreover have "wait_list m' = []" if "pcs i = SL_set"
      using nx inv(4) i that by (auto simp: mx_sleep_inv_def)
    ultimately show ?thesis using i by auto
  next
    case False
    have "wait_list m = [] \<or> (\<exists>t < n. mx_wakes (pcs t)) \<or> (\<exists>t \<in> set (wait_list m). mx_awake m pcs t)"
      using inv(5) False by (simp add: mx_wake_inv_def)
    then show ?thesis
    proof (elim disjE exE bexE conjE)
      assume "wait_list m = []"
      then show ?thesis using next_wait_list [OF nx] mx_awake_lock [OF nx _ i inv(4)] by auto
    next
      fix t assume t: "t < n" "mx_wakes (pcs t)"
      show ?thesis
      proof (cases "t = i")
        case False
        then show ?thesis using t by auto
      next
        case True
        then show ?thesis using next_wakes [OF nx] t mx_awake_woken [OF _ inv(3,4) i] i by auto
      qed
    next
      fix t assume t: "t \<in> set (wait_list m)" "mx_awake m pcs t"
      show ?thesis
      proof (cases "t = i")
        case False
        have "t \<in> set (wait_list m')" using next_wait_list [OF nx] t(1) False by auto
        then show ?thesis using mx_awake_other [OF False nx t(2)] by blast
      next
        case True
        then have "mx_waits (pcs i)" using t(1) inv(3) by (simp add: mx_list_inv_def)
        moreover have "pcs i \<noteq> SL_del" using inv(5) i False by (auto simp: mx_wake_inv_def)
        ultimately have "i \<in> set (wait_list m')" "mx_waits p'" using next_wait_list [OF nx] t(1) True by auto
        then show ?thesis using mx_awake_self [of i pcs, OF nx] t(2) True c next_SL_unlock nx by fastforce
      qed
    qed
  qed
qed

section \<open>Reachable states\<close>

definition mutex_inv :: "nat \<Rightarrow> mutex \<Rightarrow> (nat \<Rightarrow> mutex_pc) \<Rightarrow> bool" where
  "mutex_inv n m pcs \<longleftrightarrow> mx_count_inv n m pcs \<and> mx_cs_inv n m pcs \<and> mx_list_inv n m pcs \<and> mx_sleep_inv n m pcs \<and> mx_wake_inv n m pcs"

lemma mx_wake_frame:
  assumes "mx_wake_inv n m pcs" and "count m' = count m" "wait_list m' = wait_list m" and p: "p' \<noteq> SL_del" "\<not> mx_wakes (pcs i)"
    and "\<And>t. t \<in> set (wait_list m) \<Longrightarrow> mx_awake m pcs t \<Longrightarrow> mx_awake m' (pcs(i := p')) t"
  shows "mx_wake_inv n m' (pcs(i := p'))"
proof -
  have "\<exists>t < n. mx_wakes ((pcs(i := p')) t)" if "\<exists>t < n. mx_wakes (pcs t)"
    using that p(2) by (metis fun_upd_apply)
  moreover have "\<forall>t < n. (pcs(i := p')) t = SL_del \<longrightarrow> count m' < 0" using assms(1,2) p(1) by (auto simp: mx_wake_inv_def)
  ultimately show ?thesis using assms(1-3,6) unfolding mx_wake_inv_def by (metis (no_types, lifting))
qed

lemma mutex_inv_upd:
  assumes "mutex_inv n m pcs" and "i < n" and "mx_cs p' = mx_cs (pcs i)" "mx_waits p' = mx_waits (pcs i)"
    and "p' \<notin> {SL_sleep, SL_set, SL_del} \<and> (\<forall>w. p' \<noteq> US_wake w)" and "pcs i \<notin> {SL_set, SL_del, SL_sleep}" "\<not> mx_wakes (pcs i)"
    and "mx_count_inv n m (pcs(i := p'))" and "\<not> mx_waits (pcs i)"
  shows "mutex_inv n m (pcs(i := p'))"
proof -
  have "mx_awake m (pcs(i := p')) t" if "t \<in> set (wait_list m)" "mx_awake m pcs t" for t
    using that assms(1,9) by (cases "t = i") (auto simp: mutex_inv_def mx_list_inv_def mx_awake_def)
  then have "mx_wake_inv n m (pcs(i := p'))"
    using assms(1,5,7) by (intro mx_wake_frame) (auto simp: mutex_inv_def)
  moreover have "mx_cs_inv n m (pcs(i := p'))" using assms(1,3) by (auto simp: mutex_inv_def mx_cs_inv_def)
  moreover have "mx_list_inv n m (pcs(i := p'))" using assms(1,4) by (auto simp: mutex_inv_def mx_list_inv_def)
  moreover have "mx_sleep_inv n m (pcs(i := p'))"
    using assms(1,5,6) by (simp add: mutex_inv_def mx_sleep_inv_def) metis
  ultimately show ?thesis using assms(8) by (simp add: mutex_inv_def)
qed

lemma mutex_step_inv:
  assumes "mutex_inv n m pcs" and "i < n" and st: "mutex_step i m (pcs i) m' p'"
  shows "mutex_inv n m' (pcs(i := p'))"
proof -
  have inv: "mx_count_inv n m pcs" "mx_cs_inv n m pcs" "mx_list_inv n m pcs" "mx_sleep_inv n m pcs" "mx_wake_inv n m pcs"
    using assms(1) by (simp_all add: mutex_inv_def)
  have c: "mx_count_inv n m' (pcs(i := p'))" using mx_step_count [where pcs = pcs, OF st assms(2) inv(1)] .
  from st show ?thesis
  proof (cases rule: mutex_step.cases)
    case inside
    then show ?thesis unfolding mutex_inv_def
      using c mx_next_cs [where pcs = pcs] mx_next_list [where pcs = pcs] mx_next_sleep [where pcs = pcs] mx_next_wake [where pcs = pcs] assms(2) inv by blast
  next
    case eintr
    have "mx_awake m' (pcs(i := p')) t" if "mx_awake m pcs t" for t
      using that eintr by (cases "t = i") (auto simp: mx_awake_def)
    then have "mx_wake_inv n m' (pcs(i := p'))"
      using inv(5) eintr by (intro mx_wake_frame) auto
    moreover have "mx_cs_inv n m' (pcs(i := p'))" "mx_list_inv n m' (pcs(i := p'))"
      using inv(2,3) eintr assms(2) by (auto simp: mx_cs_inv_def mx_list_inv_def)
    moreover have "mx_sleep_inv n m' (pcs(i := p'))" using inv(4) eintr assms(2) by (auto simp: mx_sleep_inv_def)
    ultimately show ?thesis using c by (simp add: mutex_inv_def)
  qed (use mutex_inv_upd [OF assms(1,2), of p'] c in auto)
qed

abbreviation mutex_reachable :: "nat \<Rightarrow> (mutex, mutex_pc) threads \<Rightarrow> bool" where
  "mutex_reachable n \<equiv> reachable mutex_step n mutex_init MIdle"

lemma mutex_reachable_inv:
  assumes "mutex_reachable n s"
  shows "mutex_inv n (fst s) (snd s)"
proof (rule reachable_invariant [OF assms, where I = "mutex_inv n"])
  show "mutex_inv n mutex_init (\<lambda>_. MIdle)"
    by (simp add: mutex_inv_def mx_count_inv_def mx_cs_inv_def mx_list_inv_def mx_sleep_inv_def mx_wake_inv_def
        mutex_init_def at_pts_start)
qed (rule mutex_step_inv)

interpretation mxl: exclusive_lock mutex_step mutex_init MIdle mx_holds bound for bound
  by unfold_locales (use mutex_reachable_inv in \<open>auto simp: mutex_inv_def mx_count_inv_def\<close>)

text \<open>A thread inside the critical section of \<open>wait_lock\<close> can move, and so can every other, unless it waits for \<open>wait_lock\<close> or sleeps.\<close>

lemma mutex_next_None:
  "mutex_next t p m = None \<longleftrightarrow> p = MIdle \<or> p = MHeld \<or> (p = SL_lock \<or> p = SL_relock \<or> p = US_lock) \<and> wait_lock m \<noteq> None \<or> p = SL_sleep \<and> t \<in> asleep m"
  by (cases p) (auto simp: Let_def split: list.splits)

lemma mutex_progress:
  assumes "mutex_reachable n s" and i: "i < n" and b: "mutex_next i (snd s i) (fst s) = None" "snd s i \<noteq> MIdle"
  shows "\<exists>j < n. snd s j = MHeld \<or> mutex_next j (snd s j) (fst s) \<noteq> None"
proof (rule ccontr)
  let ?m = "fst s" and ?pcs = "snd s"
  assume "\<not> ?thesis"
  then have stuck: "?pcs j \<noteq> MHeld \<and> mutex_next j (?pcs j) ?m = None" if "j < n" for j using that by blast
  have inv: "mx_count_inv n ?m ?pcs" "mx_cs_inv n ?m ?pcs" "mx_list_inv n ?m ?pcs" "mx_wake_inv n ?m ?pcs"
    using mutex_reachable_inv [OF assms(1)] by (simp_all add: mutex_inv_def)
  have "wait_lock ?m = None"
  proof (rule ccontr)
    assume "wait_lock ?m \<noteq> None"
    then obtain j where "j < n" "mx_cs (?pcs j)" using inv(2) by (auto simp: mx_cs_inv_def)
    then show False using stuck [of j] unfolding mutex_next_None by (cases "?pcs j") auto
  qed
  then have pts: "?pcs j = MIdle \<or> ?pcs j = SL_sleep \<and> j \<in> asleep ?m" if "j < n" for j
    using stuck [OF that] unfolding mutex_next_None by auto
  then have "?pcs i = SL_sleep" using i b(2) by blast
  then have "i \<in> set (wait_list ?m)" using inv(3) i by (simp add: mx_list_inv_def)
  then have ne: "wait_list ?m \<noteq> []" by auto
  have "at_pts n mx_holds ?pcs = 0" unfolding at_pts_0 using pts by force
  then have "count ?m = 1" using inv(1) by (simp add: mx_count_inv_def)
  then have "(\<exists>t < n. mx_wakes (?pcs t)) \<or> (\<exists>t \<in> set (wait_list ?m). mx_awake ?m ?pcs t)"
    using inv(4) ne by (simp add: mx_wake_inv_def)
  then show False
  proof (elim disjE exE bexE conjE)
    show False if "t < n" "mx_wakes (?pcs t)" for t using pts [OF that(1)] that(2) by auto
    show False if "t \<in> set (wait_list ?m)" "mx_awake ?m ?pcs t" for t
    proof -
      have "t < n" "mx_waits (?pcs t)" using inv(3) that(1) by (simp_all add: mx_list_inv_def)
      then show False using pts [of t] that(2) by (auto simp: mx_awake_def)
    qed
  qed
qed

text \<open>
  C6: threads that call \<open>mutex_lock\<close>, \<open>mutex_trylock\<close> and \<open>mutex_unlock\<close> in any order and with any interleaving,
  and whose sleep may be interrupted, never hold the mutex at the same time; the counter is 1 exactly when no
  thread has the mutex and stays between -1 minus the number of threads and 1; when the mutex is free and threads wait,
  one of them is awake or a thread is about to wake the first; and if a thread cannot move,
  a thread holds the mutex or can move: no wake-up is lost.
\<close>

theorem mutex_exclusive_no_lost_wakeup:
  assumes "mutex_reachable n s"
  shows "(\<forall>i < n. \<forall>j < n. mx_holds (snd s i) \<longrightarrow> mx_holds (snd s j) \<longrightarrow> i = j) \<and>
    (mutex_is_locked (fst s) \<longleftrightarrow> (\<exists>i < n. mx_holds (snd s i))) \<and>
    - 1 - int n \<le> count (fst s) \<and> count (fst s) \<le> 1 \<and>
    (\<not> mutex_is_locked (fst s) \<longrightarrow> mutex_is_contended (fst s) \<longrightarrow>
      (\<exists>t < n. mx_wakes (snd s t)) \<or> (\<exists>t \<in> set (wait_list (fst s)). mx_awake (fst s) (snd s) t)) \<and>
    (\<forall>i < n. snd s i = MIdle \<or> mutex_next i (snd s i) (fst s) \<noteq> None \<or>
      (\<exists>j < n. snd s j = MHeld \<or> mutex_next j (snd s j) (fst s) \<noteq> None))"
proof (intro conjI)
  have c: "mx_count_inv n (fst s) (snd s)" and w: "mx_wake_inv n (fst s) (snd s)"
    using mutex_reachable_inv [OF assms] by (simp_all add: mutex_inv_def)
  have le: "at_pts n mx_holds (snd s) \<le> 1" using c by (simp add: mx_count_inv_def)
  show "\<forall>i < n. \<forall>j < n. mx_holds (snd s i) \<longrightarrow> mx_holds (snd s j) \<longrightarrow> i = j" using at_pts_one [OF le] by blast
  show "mutex_is_locked (fst s) \<longleftrightarrow> (\<exists>i < n. mx_holds (snd s i))"
    using c by (auto simp: mutex_is_locked_def mx_count_inv_def at_pts_0)
  show "- 1 - int n \<le> count (fst s)" using c at_pts_le [of n mx_slow "snd s"] by (simp add: mx_count_inv_def)
  show "count (fst s) \<le> 1" using c by (simp add: mx_count_inv_def)
  show "\<not> mutex_is_locked (fst s) \<longrightarrow> mutex_is_contended (fst s) \<longrightarrow>
      (\<exists>t < n. mx_wakes (snd s t)) \<or> (\<exists>t \<in> set (wait_list (fst s)). mx_awake (fst s) (snd s) t)"
    using w by (auto simp: mutex_is_locked_def mutex_is_contended_def mx_wake_inv_def)
  show "\<forall>i < n. snd s i = MIdle \<or> mutex_next i (snd s i) (fst s) \<noteq> None \<or>
      (\<exists>j < n. snd s j = MHeld \<or> mutex_next j (snd s j) (fst s) \<noteq> None)"
    using mutex_progress [OF assms] by blast
qed

theorem mutex_exclusive_no_lost_wakeup_witness:
  "\<exists>s. mutex_reachable 2 s \<and> mx_holds (snd s 0) \<and> snd s 1 = SL_sleep \<and> mutex_next 1 (snd s 1) (fst s) = None \<and>
     \<not> mx_holds (snd s 1) \<and> mutex_is_locked (fst s)"
proof -
  let ?m = "mutex_init\<lparr>count := -1, wait_list := [1], asleep := {1}\<rparr>"
  let ?pcs = "(\<lambda>_. MIdle)(0 := MHeld, 1 := SL_sleep)"
  have run: "run_threads (\<lambda>i m p. if p = MIdle then Some (m, ML_dec) else mutex_next i p m) (mutex_init, \<lambda>_. MIdle)
      [0, 0, 1, 1, 1, 1, 1, 1, 1] = Some (?m, ?pcs)"
    by (simp add: mutex_init_def Let_def fun_upd_twist) (simp add: fun_eq_iff)
  have "mutex_step i m p m' p'" if "(if p = MIdle then Some (m, ML_dec) else mutex_next i p m) = Some (m', p')" for i m p m' p'
    using that by (auto intro: mutex_step.intros split: if_splits)
  from run_threads_reachable [OF run this] have r: "mutex_reachable 2 (?m, ?pcs)"
    by (simp add: reachable.start)
  show ?thesis
    using mutex_exclusive_no_lost_wakeup [OF r] r by (intro exI [of _ "(?m, ?pcs)"]) (auto simp: mutex_init_def)
qed

section \<open>The recursive mutex\<close>

text \<open>
  \<open>recursive_mutex_lock\<close> and its companions, over the abstract lock that the mutex refines.  The points of a thread carry
  the number of times it has locked the mutex and not unlocked it; the functions do not read it.
\<close>

record recursive_mutex =
  rm_mutex :: "nat option"
  rm_owner :: nat
  nr_depths :: int

definition recursive_mutex_init :: recursive_mutex where
  "recursive_mutex_init = \<lparr>rm_mutex = None, rm_owner = 0, nr_depths = 0\<rparr>"

text \<open>\<open>get_thread_id\<close>: distinct and not zero.\<close>

definition thid :: "nat \<Rightarrow> nat" where
  "thid t = Suc t"

datatype rm_pc =
    RMRun nat
  | RM_check nat | RM_lock nat | RMT_check nat | RMT_lock nat | RM_own nat | RM_inc nat
  | RMU_dec nat | RMU_clear nat | RMU_unlock nat

fun recursive_mutex_lock :: "nat \<Rightarrow> rm_pc \<Rightarrow> recursive_mutex \<Rightarrow> (recursive_mutex \<times> rm_pc) option" where
  "recursive_mutex_lock t (RM_check k) r = Some (r, if rm_owner r = thid t then RM_inc k else RM_lock k)"
| "recursive_mutex_lock t (RM_lock k) r = (if rm_mutex r = None then Some (r\<lparr>rm_mutex := Some t\<rparr>, RM_own k) else None)"
| "recursive_mutex_lock t (RM_own k) r = Some (r\<lparr>rm_owner := thid t\<rparr>, RM_inc k)"
| "recursive_mutex_lock t (RM_inc k) r = Some (r\<lparr>nr_depths := nr_depths r + 1\<rparr>, RMRun (Suc k))"
| "recursive_mutex_lock t _ r = None"

fun recursive_mutex_trylock :: "nat \<Rightarrow> rm_pc \<Rightarrow> recursive_mutex \<Rightarrow> (recursive_mutex \<times> rm_pc) option" where
  "recursive_mutex_trylock t (RMT_check k) r = Some (r, if rm_owner r = thid t then RM_inc k else RMT_lock k)"
| "recursive_mutex_trylock t (RMT_lock k) r =
     (if rm_mutex r = None then Some (r\<lparr>rm_mutex := Some t\<rparr>, RM_own k) else Some (r, RMRun k))"
| "recursive_mutex_trylock t p r = recursive_mutex_lock t p r"

fun recursive_mutex_unlock :: "nat \<Rightarrow> rm_pc \<Rightarrow> recursive_mutex \<Rightarrow> (recursive_mutex \<times> rm_pc) option" where
  "recursive_mutex_unlock t (RMU_dec k) r =
     (let d = nr_depths r - 1 in Some (r\<lparr>nr_depths := d\<rparr>, if d \<noteq> 0 then RMRun (k - 1) else RMU_clear k))"
| "recursive_mutex_unlock t (RMU_clear k) r = Some (r\<lparr>rm_owner := 0\<rparr>, RMU_unlock k)"
| "recursive_mutex_unlock t (RMU_unlock k) r = Some (r\<lparr>rm_mutex := None\<rparr>, RMRun (k - 1))"
| "recursive_mutex_unlock t _ r = None"

inductive rm_step :: "(recursive_mutex, rm_pc) thread_step" where
  call_lock: "rm_step t r (RMRun k) r (RM_check k)"
| call_trylock: "rm_step t r (RMRun k) r (RMT_check k)"
| call_unlock: "0 < k \<Longrightarrow> rm_step t r (RMRun k) r (RMU_dec k)"
| in_lock: "recursive_mutex_lock t p r = Some (r', p') \<Longrightarrow> rm_step t r p r' p'"
| in_trylock: "recursive_mutex_trylock t p r = Some (r', p') \<Longrightarrow> rm_step t r p r' p'"
| in_unlock: "recursive_mutex_unlock t p r = Some (r', p') \<Longrightarrow> rm_step t r p r' p'"

text \<open>Points at which a thread has the mutex, and at which it is registered as owner; the depth it has reached.\<close>

fun rm_holds :: "rm_pc \<Rightarrow> bool" where
  "rm_holds (RMRun k) = (0 < k)" | "rm_holds (RM_check k) = (0 < k)" | "rm_holds (RMT_check k) = (0 < k)"
| "rm_holds (RM_lock k) = False" | "rm_holds (RMT_lock k) = False" | "rm_holds _ = True"

fun rm_owns :: "rm_pc \<Rightarrow> bool" where
  "rm_owns (RM_own k) = False" | "rm_owns (RMU_unlock k) = False" | "rm_owns p = rm_holds p"

fun rm_depth :: "rm_pc \<Rightarrow> nat" where
  "rm_depth (RMRun k) = k" | "rm_depth (RM_check k) = k" | "rm_depth (RMT_check k) = k" | "rm_depth (RM_inc k) = k"
| "rm_depth (RMU_dec k) = k" | "rm_depth _ = 0"

fun rm_nested :: "rm_pc \<Rightarrow> bool" where
  "rm_nested (RM_lock k) = (k = 0)" | "rm_nested (RMT_lock k) = (k = 0)" | "rm_nested (RM_own k) = (k = 0)"
| "rm_nested (RMU_dec k) = (0 < k)" | "rm_nested (RMU_clear k) = (k = 1)" | "rm_nested (RMU_unlock k) = (k = 1)" | "rm_nested _ = True"

definition rm_inv :: "nat \<Rightarrow> recursive_mutex \<Rightarrow> (nat \<Rightarrow> rm_pc) \<Rightarrow> bool" where
  "rm_inv n r pcs \<longleftrightarrow> (\<forall>t < n. rm_nested (pcs t) \<and> (rm_mutex r = Some t \<longleftrightarrow> rm_holds (pcs t)) \<and>
     (rm_owner r = thid t \<longleftrightarrow> rm_owns (pcs t)) \<and> (rm_holds (pcs t) \<longrightarrow> nr_depths r = int (rm_depth (pcs t)))) \<and>
     (rm_mutex r = None \<longrightarrow> nr_depths r = 0) \<and> (\<forall>t. rm_mutex r = Some t \<longrightarrow> t < n)"

lemma rm_owns_holds: "rm_owns p \<Longrightarrow> rm_holds p"
  by (cases p) auto

lemma rm_step_self:
  assumes "rm_step t r p r' p'" and "rm_nested p" and "rm_mutex r = Some t \<longleftrightarrow> rm_holds p" and "rm_owner r = thid t \<longleftrightarrow> rm_owns p"
    and "rm_holds p \<longrightarrow> nr_depths r = int (rm_depth p)" and "rm_mutex r = None \<longrightarrow> nr_depths r = 0"
  shows "rm_nested p' \<and> (rm_mutex r' = Some t \<longleftrightarrow> rm_holds p') \<and> (rm_owner r' = thid t \<longleftrightarrow> rm_owns p') \<and>
    (rm_holds p' \<longrightarrow> nr_depths r' = int (rm_depth p')) \<and> (rm_mutex r' = None \<longrightarrow> nr_depths r' = 0)"
  using assms
  by (cases rule: rm_step.cases; cases p) (auto simp: Let_def thid_def split: if_splits)

text \<open>A thread changes the fields only while it has the mutex.\<close>

lemma rm_step_frame:
  assumes "rm_step t r p r' p'"
  shows "r' = r \<or> rm_mutex r = None \<and> r' = r\<lparr>rm_mutex := Some t\<rparr> \<or>
    rm_holds p \<and> rm_mutex r' \<in> {rm_mutex r, None} \<and> rm_owner r' \<in> {rm_owner r, 0, thid t}"
  using assms by (cases rule: rm_step.cases; cases p) (auto simp: Let_def split: if_splits)

lemma rm_step_inv:
  assumes inv: "rm_inv n r pcs" and i: "i < n" and st: "rm_step i r (pcs i) r' p'"
  shows "rm_inv n r' (pcs(i := p'))"
proof -
  have self: "rm_nested p' \<and> (rm_mutex r' = Some i \<longleftrightarrow> rm_holds p') \<and> (rm_owner r' = thid i \<longleftrightarrow> rm_owns p') \<and>
    (rm_holds p' \<longrightarrow> nr_depths r' = int (rm_depth p')) \<and> (rm_mutex r' = None \<longrightarrow> nr_depths r' = 0)"
    using rm_step_self [OF st] inv i by (simp add: rm_inv_def)
  have other: "rm_nested (pcs t) \<and> (rm_mutex r' = Some t \<longleftrightarrow> rm_holds (pcs t)) \<and> (rm_owner r' = thid t \<longleftrightarrow> rm_owns (pcs t)) \<and>
    (rm_holds (pcs t) \<longrightarrow> nr_depths r' = int (rm_depth (pcs t)))" if t: "t < n" "t \<noteq> i" for t
  proof -
    have old: "rm_nested (pcs t) \<and> (rm_mutex r = Some t \<longleftrightarrow> rm_holds (pcs t)) \<and> (rm_owner r = thid t \<longleftrightarrow> rm_owns (pcs t)) \<and>
      (rm_holds (pcs t) \<longrightarrow> nr_depths r = int (rm_depth (pcs t)))" using inv t by (simp add: rm_inv_def)
    have iw: "rm_holds (pcs i) \<Longrightarrow> rm_mutex r = Some i" using inv i by (simp add: rm_inv_def)
    from rm_step_frame [OF st] show ?thesis
    proof (elim disjE conjE)
      assume "rm_holds (pcs i)" "rm_mutex r' \<in> {rm_mutex r, None}" "rm_owner r' \<in> {rm_owner r, 0, thid i}"
      then show ?thesis using old iw t rm_owns_holds [of "pcs t"] by (auto simp: thid_def)
    qed (use old t in auto)
  qed
  have "t < n" if "rm_mutex r' = Some t" for t
    using rm_step_frame [OF st] that inv i by (auto simp: rm_inv_def)
  then show ?thesis using self other by (simp add: rm_inv_def)
qed

abbreviation rm_reachable :: "nat \<Rightarrow> (recursive_mutex, rm_pc) threads \<Rightarrow> bool" where
  "rm_reachable n \<equiv> reachable rm_step n recursive_mutex_init (RMRun 0)"

lemma rm_reachable_inv:
  assumes "rm_reachable n s"
  shows "rm_inv n (fst s) (snd s)"
proof (rule reachable_invariant [OF assms, where I = "rm_inv n"])
  show "rm_inv n recursive_mutex_init (\<lambda>_. RMRun 0)" by (simp add: rm_inv_def recursive_mutex_init_def thid_def)
qed (rule rm_step_inv)

interpretation rml: exclusive_lock rm_step recursive_mutex_init "RMRun 0" rm_holds bound for bound
proof
  fix n s assume "rm_reachable n s"
  then have inv: "rm_inv n (fst s) (snd s)" by (rule rm_reachable_inv)
  then have "i = j" if "i < n" "j < n" "rm_holds (snd s i)" "rm_holds (snd s j)" for i j
    using that unfolding rm_inv_def by (metis option.inject)
  then have "card {i. i < n \<and> rm_holds (snd s i)} \<le> Suc 0" by (subst card_le_Suc0_iff_eq) auto
  then show "at_pts n rm_holds (snd s) \<le> 1" by (simp add: at_pts_def)
qed

text \<open>
  C38: a recursive mutex is held by one thread at a time, which may lock it again; its depth is the
  number of times the holder has locked it and not unlocked it, it is released by the last unlock only, and a thread that holds it never
  waits for it.
\<close>

theorem recursive_mutex_depth:
  assumes "rm_reachable n s" and "i < n" and "snd s i = RMRun k" and "0 < k"
  shows "nr_depths (fst s) = int k \<and> rm_mutex (fst s) = Some i \<and>
    (\<forall>j < n. j \<noteq> i \<longrightarrow> \<not> rm_holds (snd s j)) \<and>
    (\<forall>r' p'. rm_step i (fst s) (RM_check k) r' p' \<longrightarrow> p' = RM_inc k) \<and>
    (\<forall>r' p'. rm_step i (fst s) (RMU_dec k) r' p' \<longrightarrow> nr_depths r' = int k - 1 \<and> p' = (if k = 1 then RMU_clear k else RMRun (k - 1)))"
proof -
  have inv: "rm_inv n (fst s) (snd s)" using assms(1) by (rule rm_reachable_inv)
  then have own: "rm_mutex (fst s) = Some i" "rm_owner (fst s) = thid i" "nr_depths (fst s) = int k"
    using assms(2-) by (auto simp: rm_inv_def)
  have "\<not> rm_holds (snd s j)" if "j < n" "j \<noteq> i" for j using inv that own(1) by (auto simp: rm_inv_def)
  moreover have "p' = RM_inc k" if "rm_step i (fst s) (RM_check k) r' p'" for r' p'
    using that own by cases auto
  moreover have "nr_depths r' = int k - 1 \<and> p' = (if k = 1 then RMU_clear k else RMRun (k - 1))" if "rm_step i (fst s) (RMU_dec k) r' p'" for r' p'
    using that own assms(4) by cases (auto simp: Let_def)
  ultimately show ?thesis using own by blast
qed

theorem recursive_mutex_depth_witness:
  "\<exists>s. rm_reachable 2 s \<and> snd s 0 = RMRun 2 \<and> nr_depths (fst s) = 2 \<and> \<not> rm_holds (snd s 1)"
proof -
  let ?r = "\<lparr>rm_mutex = Some 0, rm_owner = 1, nr_depths = 2\<rparr>" and ?pcs = "(\<lambda>_. RMRun 0)(0 := RMRun 2)"
  let ?f = "\<lambda>i r p. case p of RMRun k \<Rightarrow> Some (r, RM_check k) | _ \<Rightarrow> recursive_mutex_lock i p r"
  have run: "run_threads ?f (recursive_mutex_init, \<lambda>_. RMRun 0) [0, 0, 0, 0, 0, 0, 0, 0] = Some (?r, ?pcs)"
    by (simp add: recursive_mutex_init_def thid_def numeral_2_eq_2)
  have "rm_step i r p r' p'" if "?f i r p = Some (r', p')" for i r p r' p'
    using that by (cases p) (auto intro: rm_step.intros split: if_splits)
  from run_threads_reachable [OF run this] have r: "rm_reachable 2 (?r, ?pcs)" by (simp add: reachable.start)
  show ?thesis
    using recursive_mutex_depth [OF r, of 0 2] r by (intro exI [of _ "(?r, ?pcs)"]) auto
qed

end
