(* ===== verification/Rwsem.thy ===== *)
theory Rwsem
  imports Threads
begin

text \<open>
  \<open>src/utils/rwsem.c\<close> and \<open>include/skp/utils/rwsem.h\<close>: the reader-writer semaphore.  Everything but the sleep
  happens in critical sections of \<open>wait_lock\<close>, so a step is a whole critical section, or one of the accesses of
  \<open>futex_wait\<close>.  The word \<open>flags\<close> of a waiter is the kind of the waiter and the number of its wake-ups; the model
  keeps the two apart, which they are as long as a waiter is not woken 2^28 times before it runs.
\<close>

section \<open>The semaphore\<close>

datatype waiter_kind = RWSEM_WAITING_FOR_READ | RWSEM_WAITING_FOR_WRITE

record rw_semaphore =
  activity :: int
  wait_list :: "nat list"
  wkind :: "nat \<Rightarrow> waiter_kind"
  wakes :: "nat \<Rightarrow> nat"
  asleep :: "nat set"

definition init_rwsem :: rw_semaphore where
  "init_rwsem = \<lparr>activity = 0, wait_list = [], wkind = \<lambda>_. RWSEM_WAITING_FOR_READ, wakes = \<lambda>_. 0, asleep = {}\<rparr>"

definition u_wake_one_waiter :: "nat \<Rightarrow> rw_semaphore \<Rightarrow> rw_semaphore" where
  "u_wake_one_waiter w s = s\<lparr>wakes := (wakes s)(w := wakes s w + 1), asleep := asleep s - {w}\<rparr>"

definition wake_one_waiter :: "nat \<Rightarrow> rw_semaphore \<Rightarrow> rw_semaphore" where
  "wake_one_waiter w s = u_wake_one_waiter w (s\<lparr>wait_list := remove1 w (wait_list s)\<rparr>)"

text \<open>The loop over the readers at the front: the list of the waiters left, and the number of woken ones.\<close>

fun wake_readers :: "nat list \<Rightarrow> rw_semaphore \<Rightarrow> nat \<Rightarrow> rw_semaphore \<times> nat" where
  "wake_readers [] s woken = (s, woken)"
| "wake_readers (w # ws) s woken =
     (let s = wake_one_waiter w s; woken = woken + 1 in
      case ws of
        [] \<Rightarrow> (s, woken)
      | v # _ \<Rightarrow> if wkind s v = RWSEM_WAITING_FOR_READ then wake_readers ws s woken else (s, woken))"

definition u_rwsem_do_wake :: "bool \<Rightarrow> rw_semaphore \<Rightarrow> rw_semaphore" where
  "u_rwsem_do_wake wakewrite s =
     (let waiter = hd (wait_list s) in
      if wkind s waiter = RWSEM_WAITING_FOR_WRITE
      then (if wakewrite then u_wake_one_waiter waiter s else s)
      else let (s, woken) = wake_readers (wait_list s) s 0 in s\<lparr>activity := activity s + int woken\<rparr>)"

text \<open>\<open>None\<close> is the \<open>BUG_ON\<close> of a reader at the front.\<close>

definition u_rwsem_wake_one_writer :: "rw_semaphore \<Rightarrow> rw_semaphore option" where
  "u_rwsem_wake_one_writer s =
     (let waiter = hd (wait_list s) in
      if wkind s waiter = RWSEM_WAITING_FOR_READ then None else Some (u_wake_one_waiter waiter s))"

datatype sem_pc =
    SemIdle
  | DR_enter | DR_wait | DR_sys | DR_sleep | DR_relock | DR_try
  | DW_enter | DW_wait | DW_sys | DW_sleep | DW_relock | DW_try
  | SemRead | SemWrite | UR | UW | DG | SemBug

fun down_read :: "nat \<Rightarrow> sem_pc \<Rightarrow> rw_semaphore \<Rightarrow> (rw_semaphore \<times> sem_pc) option" where
  "down_read t DR_enter s =
     (if activity s > 0 \<or> (activity s = 0 \<and> wait_list s = []) then Some (s\<lparr>activity := activity s + 1\<rparr>, SemRead)
      else Some (s\<lparr>wkind := (wkind s)(t := RWSEM_WAITING_FOR_READ), wakes := (wakes s)(t := 0), wait_list := wait_list s @ [t]\<rparr>, DR_wait))"
| "down_read t DR_wait s = Some (s, if wakes s t \<noteq> 0 then DR_relock else DR_sys)"
| "down_read t DR_sys s =
     (if wakes s t \<noteq> 0 then Some (s, DR_relock) else Some (s\<lparr>asleep := insert t (asleep s)\<rparr>, DR_sleep))"
| "down_read t DR_sleep s = (if t \<notin> asleep s then Some (s, DR_relock) else None)"
| "down_read t DR_relock s = Some (s, if wakes s t \<noteq> 0 then SemRead else DR_wait)"
| "down_read t _ s = None"

fun down_read_trylock :: "sem_pc \<Rightarrow> rw_semaphore \<Rightarrow> (rw_semaphore \<times> sem_pc) option" where
  "down_read_trylock DR_try s =
     (if activity s \<ge> 0 \<and> wait_list s = [] then Some (s\<lparr>activity := activity s + 1\<rparr>, SemRead) else Some (s, SemIdle))"
| "down_read_trylock _ s = None"

text \<open>The head of the loop: take the semaphore when it is free, else wait with the flags as they are.\<close>

definition write_loop :: "nat \<Rightarrow> rw_semaphore \<Rightarrow> rw_semaphore \<times> sem_pc" where
  "write_loop t s =
     (if activity s = 0 then (s\<lparr>activity := -1, wait_list := remove1 t (wait_list s)\<rparr>, SemWrite) else (s, DW_wait))"

fun down_write :: "nat \<Rightarrow> sem_pc \<Rightarrow> rw_semaphore \<Rightarrow> (rw_semaphore \<times> sem_pc) option" where
  "down_write t DW_enter s =
     Some (write_loop t (s\<lparr>wkind := (wkind s)(t := RWSEM_WAITING_FOR_WRITE), wakes := (wakes s)(t := 0), wait_list := wait_list s @ [t]\<rparr>))"
| "down_write t DW_wait s = Some (s, if wakes s t \<noteq> 0 then DW_relock else DW_sys)"
| "down_write t DW_sys s =
     (if wakes s t \<noteq> 0 then Some (s, DW_relock) else Some (s\<lparr>asleep := insert t (asleep s)\<rparr>, DW_sleep))"
| "down_write t DW_sleep s = (if t \<notin> asleep s then Some (s, DW_relock) else None)"
| "down_write t DW_relock s = Some (write_loop t (s\<lparr>wakes := (wakes s)(t := 0)\<rparr>))"
| "down_write t _ s = None"

fun down_write_trylock :: "sem_pc \<Rightarrow> rw_semaphore \<Rightarrow> (rw_semaphore \<times> sem_pc) option" where
  "down_write_trylock DW_try s = (if activity s = 0 then Some (s\<lparr>activity := -1\<rparr>, SemWrite) else Some (s, SemIdle))"
| "down_write_trylock _ s = None"

fun up_read :: "sem_pc \<Rightarrow> rw_semaphore \<Rightarrow> (rw_semaphore \<times> sem_pc) option" where
  "up_read UR s =
     (let s = s\<lparr>activity := activity s - 1\<rparr> in
      if activity s = 0 \<and> wait_list s \<noteq> []
      then (case u_rwsem_wake_one_writer s of None \<Rightarrow> Some (s, SemBug) | Some s \<Rightarrow> Some (s, SemIdle))
      else Some (s, SemIdle))"
| "up_read _ s = None"

fun up_write :: "sem_pc \<Rightarrow> rw_semaphore \<Rightarrow> (rw_semaphore \<times> sem_pc) option" where
  "up_write UW s =
     (let s = s\<lparr>activity := 0\<rparr> in Some (if wait_list s \<noteq> [] then u_rwsem_do_wake True s else s, SemIdle))"
| "up_write _ s = None"

fun downgrade_write :: "sem_pc \<Rightarrow> rw_semaphore \<Rightarrow> (rw_semaphore \<times> sem_pc) option" where
  "downgrade_write DG s =
     (let s = s\<lparr>activity := 1\<rparr> in Some (if wait_list s \<noteq> [] then u_rwsem_do_wake False s else s, SemRead))"
| "downgrade_write _ s = None"

text \<open>What a thread inside one of the functions does next.\<close>

fun sem_next :: "nat \<Rightarrow> sem_pc \<Rightarrow> rw_semaphore \<Rightarrow> (rw_semaphore \<times> sem_pc) option" where
  "sem_next t SemIdle s = None" | "sem_next t SemRead s = None" | "sem_next t SemWrite s = None" | "sem_next t SemBug s = None"
| "sem_next t DR_try s = down_read_trylock DR_try s"
| "sem_next t DW_try s = down_write_trylock DW_try s"
| "sem_next t UR s = up_read UR s"
| "sem_next t UW s = up_write UW s"
| "sem_next t DG s = downgrade_write DG s"
| "sem_next t DW_enter s = down_write t DW_enter s" | "sem_next t DW_wait s = down_write t DW_wait s"
| "sem_next t DW_sys s = down_write t DW_sys s" | "sem_next t DW_sleep s = down_write t DW_sleep s"
| "sem_next t DW_relock s = down_write t DW_relock s"
| "sem_next t p s = down_read t p s"

inductive sem_step :: "(rw_semaphore, sem_pc) thread_step" where
  call: "p' \<in> {DR_enter, DR_try, DW_enter, DW_try} \<Longrightarrow> sem_step t s SemIdle s p'"
| call_up_read: "sem_step t s SemRead s UR"
| call_up_write: "p' \<in> {UW, DG} \<Longrightarrow> sem_step t s SemWrite s p'"
| inside: "sem_next t p s = Some (s', p') \<Longrightarrow> sem_step t s p s' p'"
| eintr_read: "t \<in> asleep s \<Longrightarrow> sem_step t s DR_sleep (s\<lparr>asleep := asleep s - {t}\<rparr>) DR_sys"
| eintr_write: "t \<in> asleep s \<Longrightarrow> sem_step t s DW_sleep (s\<lparr>asleep := asleep s - {t}\<rparr>) DW_sys"

section \<open>The invariant\<close>

fun sem_rpt :: "sem_pc \<Rightarrow> bool" where
  "sem_rpt DR_wait = True" | "sem_rpt DR_sys = True" | "sem_rpt DR_sleep = True" | "sem_rpt DR_relock = True" | "sem_rpt _ = False"

fun sem_wpt :: "sem_pc \<Rightarrow> bool" where
  "sem_wpt DW_wait = True" | "sem_wpt DW_sys = True" | "sem_wpt DW_sleep = True" | "sem_wpt DW_relock = True" | "sem_wpt _ = False"

fun sem_writes :: "sem_pc \<Rightarrow> bool" where
  "sem_writes SemWrite = True" | "sem_writes UW = True" | "sem_writes DG = True" | "sem_writes _ = False"

text \<open>A reader that was granted the semaphore has it, even before it runs again.\<close>

definition sem_reads :: "nat \<Rightarrow> sem_pc \<Rightarrow> bool" where
  "sem_reads k p \<longleftrightarrow> p = SemRead \<or> p = UR \<or> sem_rpt p \<and> k \<noteq> 0"

definition sem_queued :: "nat \<Rightarrow> sem_pc \<Rightarrow> bool" where
  "sem_queued k p \<longleftrightarrow> sem_rpt p \<and> k = 0 \<or> sem_wpt p"

definition sem_awake :: "rw_semaphore \<Rightarrow> (nat \<Rightarrow> sem_pc) \<Rightarrow> nat \<Rightarrow> bool" where
  "sem_awake s pcs t \<longleftrightarrow> t \<notin> asleep s \<and> (pcs t = DW_wait \<or> pcs t = DW_sys \<longrightarrow> wakes s t \<noteq> 0)"

definition rd_set :: "nat \<Rightarrow> rw_semaphore \<Rightarrow> (nat \<Rightarrow> sem_pc) \<Rightarrow> nat set" where
  "rd_set n s pcs = {t. t < n \<and> sem_reads (wakes s t) (pcs t)}"

definition wr_set :: "nat \<Rightarrow> (nat \<Rightarrow> sem_pc) \<Rightarrow> nat set" where
  "wr_set n pcs = {t. t < n \<and> sem_writes (pcs t)}"

definition sem_count :: "nat \<Rightarrow> rw_semaphore \<Rightarrow> (nat \<Rightarrow> sem_pc) \<Rightarrow> bool" where
  "sem_count n s pcs \<longleftrightarrow> activity s = int (card (rd_set n s pcs)) - int (card (wr_set n pcs)) \<and> card (wr_set n pcs) \<le> 1 \<and>
     (wr_set n pcs \<noteq> {} \<longrightarrow> rd_set n s pcs = {})"

definition sem_list :: "nat \<Rightarrow> rw_semaphore \<Rightarrow> (nat \<Rightarrow> sem_pc) \<Rightarrow> bool" where
  "sem_list n s pcs \<longleftrightarrow> distinct (wait_list s) \<and> (\<forall>t. t \<in> set (wait_list s) \<longleftrightarrow> t < n \<and> sem_queued (wakes s t) (pcs t)) \<and>
     (\<forall>t \<in> set (wait_list s). wkind s t = (if sem_rpt (pcs t) then RWSEM_WAITING_FOR_READ else RWSEM_WAITING_FOR_WRITE))"

definition sem_first :: "rw_semaphore \<Rightarrow> (nat \<Rightarrow> sem_pc) \<Rightarrow> bool" where
  "sem_first s pcs \<longleftrightarrow> wait_list s = [] \<or>
     (0 \<le> activity s \<longrightarrow> wkind s (hd (wait_list s)) = RWSEM_WAITING_FOR_WRITE) \<and> (activity s = 0 \<longrightarrow> sem_awake s pcs (hd (wait_list s)))"

definition sem_rest :: "nat \<Rightarrow> rw_semaphore \<Rightarrow> (nat \<Rightarrow> sem_pc) \<Rightarrow> bool" where
  "sem_rest n s pcs \<longleftrightarrow> (\<forall>t < n. pcs t \<noteq> SemBug \<and>
     (t \<in> asleep s \<longrightarrow> pcs t = DW_sleep \<or> pcs t = DR_sleep \<and> wakes s t = 0))"

definition sem_inv :: "nat \<Rightarrow> rw_semaphore \<Rightarrow> (nat \<Rightarrow> sem_pc) \<Rightarrow> bool" where
  "sem_inv n s pcs \<longleftrightarrow> sem_count n s pcs \<and> sem_list n s pcs \<and> sem_first s pcs \<and> sem_rest n s pcs"

lemma finite_rd_wr [simp]: "finite (rd_set n s pcs)" "finite (wr_set n pcs)"
  by (simp_all add: rd_set_def wr_set_def)

text \<open>What a free semaphore, and one that a reader or a writer has, says of the sets.\<close>

lemma sem_count_cases:
  assumes "sem_count n s pcs"
  shows "0 \<le> activity s \<Longrightarrow> wr_set n pcs = {}" and "activity s = 0 \<Longrightarrow> rd_set n s pcs = {}"
    and "activity s < 0 \<Longrightarrow> activity s = -1 \<and> rd_set n s pcs = {}"
    and "i \<in> wr_set n pcs \<Longrightarrow> wr_set n pcs = {i} \<and> rd_set n s pcs = {}"
    and "i \<in> rd_set n s pcs \<Longrightarrow> 0 < activity s"
proof -
  let ?R = "rd_set n s pcs" and ?W = "wr_set n pcs"
  have a: "activity s = int (card ?R) - int (card ?W)" "card ?W \<le> 1" "?W \<noteq> {} \<Longrightarrow> ?R = {}"
    using assms by (auto simp: sem_count_def)
  have w: "?W = {} \<or> (\<exists>w. ?W = {w} \<and> ?R = {} \<and> activity s = -1)"
  proof (cases "?W = {}")
    case False
    then have "0 < card ?W" by (simp add: card_gt_0_iff)
    then have c: "card ?W = 1" using a(2) by simp
    then have "\<exists>w. ?W = {w}" by (auto simp: card_1_singleton_iff)
    then show ?thesis using a(1) a(3) [OF False] c by simp
  qed simp
  then show W: "0 \<le> activity s \<Longrightarrow> ?W = {}" by auto
  show "?R = {}" if z: "activity s = 0"
  proof -
    have "?W = {}" using z by (intro W) simp
    then have "card ?R = 0" using a(1) z by simp
    then show ?thesis by simp
  qed
  show "activity s < 0 \<Longrightarrow> activity s = -1 \<and> ?R = {}" using w a(1) by auto
  show "i \<in> ?W \<Longrightarrow> ?W = {i} \<and> ?R = {}" using w by auto
  show "0 < activity s" if "i \<in> ?R"
  proof -
    have "?W = {}" using a(3) that by auto
    moreover have "0 < card ?R" using that by (auto simp: card_gt_0_iff)
    ultimately show ?thesis using a(1) by simp
  qed
qed

text \<open>Steps that change neither the list nor the counts.\<close>

lemma sem_quiet:
  assumes inv: "sem_inv n s pcs" and i: "i < n"
    and s': "activity s' = activity s" "wait_list s' = wait_list s" "wkind s' = wkind s" "wakes s' = wakes s" "asleep s' - {i} = asleep s - {i}"
    and p: "sem_reads (wakes s i) p' = sem_reads (wakes s i) (pcs i)" "sem_writes p' = sem_writes (pcs i)"
      "sem_rpt p' = sem_rpt (pcs i) \<or> \<not> sem_queued (wakes s i) (pcs i)" "sem_queued (wakes s i) p' = sem_queued (wakes s i) (pcs i)"
      "p' \<noteq> SemBug" "i \<in> asleep s' \<longrightarrow> p' = DW_sleep \<or> p' = DR_sleep \<and> wakes s i = 0"
      "sem_wpt (pcs i) \<longrightarrow> sem_awake s pcs i \<longrightarrow> sem_awake s' (pcs(i := p')) i"
  shows "sem_inv n s' (pcs(i := p'))"
proof -
  have inv': "sem_count n s pcs" "sem_list n s pcs" "sem_first s pcs" "sem_rest n s pcs" using inv by (simp_all add: sem_inv_def)
  have "rd_set n s' (pcs(i := p')) = rd_set n s pcs" "wr_set n (pcs(i := p')) = wr_set n pcs"
    using s'(4) p(1,2) by (auto simp: rd_set_def wr_set_def)
  then have "sem_count n s' (pcs(i := p'))" using inv'(1) s'(1) by (simp add: sem_count_def)
  moreover have "sem_list n s' (pcs(i := p'))" using inv'(2) s' p(3,4) by (auto simp: sem_list_def)
  moreover have "sem_awake s' (pcs(i := p')) t" if "sem_awake s pcs t" "t \<noteq> i" for t
    using that s'(4,5) by (auto simp: sem_awake_def)
  then have "sem_first s' (pcs(i := p'))"
  proof (cases "wait_list s = []")
    case False
    let ?h = "hd (wait_list s)"
    have "sem_wpt (pcs i)" if "?h = i" "0 \<le> activity s"
    proof -
      have "i \<in> set (wait_list s)" using False that(1) hd_in_set by metis
      moreover from this have "wkind s i = (if sem_rpt (pcs i) then RWSEM_WAITING_FOR_READ else RWSEM_WAITING_FOR_WRITE)" "sem_queued (wakes s i) (pcs i)"
        using inv'(2) by (auto simp: sem_list_def)
      moreover have "wkind s i = RWSEM_WAITING_FOR_WRITE" using inv'(3) False that by (auto simp: sem_first_def)
      ultimately show ?thesis by (auto simp: sem_queued_def split: if_splits)
    qed
    then show ?thesis using inv'(3) s' p(7) \<open>\<And>t. sem_awake s pcs t \<Longrightarrow> t \<noteq> i \<Longrightarrow> sem_awake s' (pcs(i := p')) t\<close> False
      by (cases "?h = i") (auto simp: sem_first_def)
  qed (use s' in \<open>simp add: sem_first_def\<close>)
  moreover have "sem_rest n s' (pcs(i := p'))" using inv'(4) s'(4,5) p(5,6) by (fastforce simp: sem_rest_def)
  ultimately show ?thesis by (simp add: sem_inv_def)
qed

lemma sem_invD:
  assumes "sem_inv n s pcs"
  shows "sem_count n s pcs" "sem_list n s pcs" "sem_first s pcs" "sem_rest n s pcs"
  using assms by (simp_all add: sem_inv_def)

lemma sem_not_asleep: "sem_inv n s pcs \<Longrightarrow> i < n \<Longrightarrow> pcs i \<noteq> DW_sleep \<Longrightarrow> pcs i \<noteq> DR_sleep \<Longrightarrow> i \<notin> asleep s"
  by (auto simp: sem_inv_def sem_rest_def)

lemma sem_list_iff: "sem_inv n s pcs \<Longrightarrow> t \<in> set (wait_list s) \<longleftrightarrow> t < n \<and> sem_queued (wakes s t) (pcs t)"
  by (simp add: sem_inv_def sem_list_def)

lemma sem_list_kind:
  "sem_inv n s pcs \<Longrightarrow> t \<in> set (wait_list s) \<Longrightarrow> wkind s t = (if sem_rpt (pcs t) then RWSEM_WAITING_FOR_READ else RWSEM_WAITING_FOR_WRITE)"
  by (simp add: sem_inv_def sem_list_def)

lemma sem_first_writer:
  assumes "sem_inv n s pcs" and "wait_list s \<noteq> []" and "0 \<le> activity s"
  shows "wkind s (hd (wait_list s)) = RWSEM_WAITING_FOR_WRITE" and "sem_wpt (pcs (hd (wait_list s)))"
proof -
  show k: "wkind s (hd (wait_list s)) = RWSEM_WAITING_FOR_WRITE" using assms by (auto simp: sem_inv_def sem_first_def)
  have "hd (wait_list s) \<in> set (wait_list s)" using assms(2) by simp
  then show "sem_wpt (pcs (hd (wait_list s)))"
    using sem_list_iff [OF assms(1)] sem_list_kind [OF assms(1)] k by (fastforce simp: sem_queued_def)
qed

text \<open>A reader gets the semaphore at once.\<close>

lemma sem_join_read:
  assumes inv: "sem_inv n s pcs" and i: "i < n" and p: "pcs i \<in> {DR_enter, DR_try}" and a: "0 \<le> activity s"
  shows "sem_inv n (s\<lparr>activity := activity s + 1\<rparr>) (pcs(i := SemRead))"
proof -
  let ?s = "s\<lparr>activity := activity s + 1\<rparr>" and ?pcs = "pcs(i := SemRead)"
  note D = sem_invD [OF inv]
  have "rd_set n ?s ?pcs = insert i (rd_set n s pcs)" "i \<notin> rd_set n s pcs" "wr_set n ?pcs = wr_set n pcs"
    using i p by (auto simp: rd_set_def wr_set_def sem_reads_def)
  then have "sem_count n ?s ?pcs" using D(1) sem_count_cases(1) [OF D(1) a] by (simp add: sem_count_def)
  moreover have "sem_list n ?s ?pcs" using D(2) p by (auto simp: sem_list_def sem_queued_def)
  moreover have "sem_first ?s ?pcs" using D(3) a by (auto simp: sem_first_def)
  moreover have "sem_rest n ?s ?pcs" using D(4) sem_not_asleep [OF inv i] p by (auto simp: sem_rest_def)
  ultimately show ?thesis by (simp add: sem_inv_def)
qed

text \<open>A thread puts itself at the end of the list.\<close>

definition sem_enqueue :: "nat \<Rightarrow> waiter_kind \<Rightarrow> rw_semaphore \<Rightarrow> rw_semaphore" where
  "sem_enqueue t k s = s\<lparr>wkind := (wkind s)(t := k), wakes := (wakes s)(t := 0), wait_list := wait_list s @ [t]\<rparr>"

lemma sem_queue:
  assumes inv: "sem_inv n s pcs" and i: "i < n"
    and p: "pcs i = DR_enter \<and> k = RWSEM_WAITING_FOR_READ \<and> p' = DR_wait \<or> pcs i = DW_enter \<and> k = RWSEM_WAITING_FOR_WRITE \<and> p' = DW_wait"
    and a: "activity s < 0 \<or> wait_list s \<noteq> [] \<or> k = RWSEM_WAITING_FOR_WRITE \<and> activity s \<noteq> 0"
  shows "sem_inv n (sem_enqueue i k s) (pcs(i := p'))"
proof -
  let ?s = "sem_enqueue i k s" and ?pcs = "pcs(i := p')"
  note D = sem_invD [OF inv]
  have "rd_set n ?s ?pcs = rd_set n s pcs" "wr_set n ?pcs = wr_set n pcs"
    using p by (auto simp: rd_set_def wr_set_def sem_reads_def sem_enqueue_def)
  then have "sem_count n ?s ?pcs" using D(1) by (simp add: sem_count_def sem_enqueue_def)
  moreover have i_out: "i \<notin> set (wait_list s)" using sem_list_iff [OF inv, of i] p by (auto simp: sem_queued_def)
  then have "sem_list n ?s ?pcs" using D(2) p i by (auto simp: sem_list_def sem_queued_def sem_enqueue_def)
  moreover have "sem_first ?s ?pcs"
  proof (cases "wait_list s = []")
    case True
    then show ?thesis using a by (auto simp: sem_first_def sem_enqueue_def)
  next
    case False
    then have "hd (wait_list s) \<noteq> i" using i_out hd_in_set by metis
    then show ?thesis using D(3) False by (auto simp: sem_first_def sem_enqueue_def sem_awake_def)
  qed
  moreover have "sem_rest n ?s ?pcs" using D(4) sem_not_asleep [OF inv i] p by (auto simp: sem_rest_def sem_enqueue_def)
  ultimately show ?thesis by (simp add: sem_inv_def)
qed

text \<open>A writer takes the free semaphore, and leaves the list.\<close>

lemma sem_take_write:
  assumes inv: "sem_inv n s pcs" and i: "i < n" and p: "pcs i \<in> {DW_enter, DW_relock, DW_try}" and a: "activity s = 0"
    and s': "activity s' = -1" "distinct (wait_list s')" "set (wait_list s') = set (wait_list s) - {i}" "asleep s' = asleep s"
      "\<And>t. t \<noteq> i \<Longrightarrow> wkind s' t = wkind s t \<and> wakes s' t = wakes s t"
  shows "sem_inv n s' (pcs(i := SemWrite))"
proof -
  let ?pcs = "pcs(i := SemWrite)"
  note D = sem_invD [OF inv]
  have e: "rd_set n s pcs = {}" "wr_set n pcs = {}" using sem_count_cases(1,2) [OF D(1)] a by simp_all
  have "rd_set n s' ?pcs \<subseteq> rd_set n s pcs" using s'(5) by (auto simp: rd_set_def sem_reads_def split: if_splits)
  moreover have "wr_set n ?pcs = insert i (wr_set n pcs)" using i by (auto simp: wr_set_def)
  ultimately have "sem_count n s' ?pcs" using e s'(1) by (simp add: sem_count_def)
  moreover have "sem_list n s' ?pcs" using D(2) s' p i by (auto simp: sem_list_def sem_queued_def)
  moreover have "sem_first s' ?pcs" using s'(1) by (simp add: sem_first_def)
  moreover have "sem_rest n s' ?pcs" using D(4) s'(4,5) sem_not_asleep [OF inv i] p by (auto simp: sem_rest_def)
  ultimately show ?thesis by (simp add: sem_inv_def)
qed

text \<open>A woken writer that finds the semaphore taken waits again.\<close>

lemma sem_rewait:
  assumes inv: "sem_inv n s pcs" and i: "i < n" and p: "pcs i = DW_relock" and a: "activity s \<noteq> 0"
  shows "sem_inv n (s\<lparr>wakes := (wakes s)(i := 0)\<rparr>) (pcs(i := DW_wait))"
proof -
  let ?s = "s\<lparr>wakes := (wakes s)(i := 0)\<rparr>" and ?pcs = "pcs(i := DW_wait)"
  note D = sem_invD [OF inv]
  have "rd_set n ?s ?pcs = rd_set n s pcs" "wr_set n ?pcs = wr_set n pcs"
    using p by (auto simp: rd_set_def wr_set_def sem_reads_def)
  then have "sem_count n ?s ?pcs" using D(1) by (simp add: sem_count_def)
  moreover have "sem_list n ?s ?pcs" using D(2) p by (auto simp: sem_list_def sem_queued_def)
  moreover have "sem_first ?s ?pcs" using D(3) a by (auto simp: sem_first_def)
  moreover have "sem_rest n ?s ?pcs" using D(4) sem_not_asleep [OF inv i] p by (auto simp: sem_rest_def)
  ultimately show ?thesis by (simp add: sem_inv_def)
qed

text \<open>Waking the writer at the front changes neither the counts nor the list.\<close>

lemma sem_wake_writer:
  assumes inv: "sem_list n s pcs" and w: "w \<in> set (wait_list s)" "sem_wpt (pcs w)"
  shows "rd_set n (u_wake_one_waiter w s) pcs = rd_set n s pcs" and "sem_list n (u_wake_one_waiter w s) pcs"
    and "sem_rest n s pcs \<Longrightarrow> sem_rest n (u_wake_one_waiter w s) pcs" and "sem_awake (u_wake_one_waiter w s) pcs w"
    and "sem_count n s pcs \<Longrightarrow> sem_count n (u_wake_one_waiter w s) pcs"
proof -
  have r: "\<not> sem_rpt (pcs w)" "pcs w \<noteq> SemRead" "pcs w \<noteq> UR" using w(2) by (cases "pcs w"; simp)+
  show R: "rd_set n (u_wake_one_waiter w s) pcs = rd_set n s pcs"
    using r by (auto simp: rd_set_def sem_reads_def u_wake_one_waiter_def)
  show "sem_list n (u_wake_one_waiter w s) pcs"
    using inv r w by (auto simp: sem_list_def sem_queued_def u_wake_one_waiter_def)
  show "sem_rest n (u_wake_one_waiter w s) pcs" if "sem_rest n s pcs"
    using that by (auto simp: sem_rest_def u_wake_one_waiter_def)
  show "sem_count n (u_wake_one_waiter w s) pcs" if "sem_count n s pcs"
    using that R by (simp add: sem_count_def) (simp add: u_wake_one_waiter_def)
  show "sem_awake (u_wake_one_waiter w s) pcs w" by (simp add: sem_awake_def u_wake_one_waiter_def)
qed

lemma sem_up_read:
  assumes inv: "sem_inv n s pcs" and i: "i < n" and p: "pcs i = UR" and st: "up_read UR s = Some (s', p')"
  shows "p' = SemIdle \<and> sem_inv n s' (pcs(i := p'))"
proof -
  let ?s = "s\<lparr>activity := activity s - 1\<rparr>" and ?pcs = "pcs(i := SemIdle)"
  note D = sem_invD [OF inv]
  have ir: "i \<in> rd_set n s pcs" using i p by (simp add: rd_set_def sem_reads_def)
  then have a: "0 < activity s" by (rule sem_count_cases(5) [OF D(1)])
  then have w: "wr_set n pcs = {}" using sem_count_cases(1) [OF D(1)] by simp
  have R: "rd_set n ?s ?pcs = rd_set n s pcs - {i}" "wr_set n ?pcs = {}"
    using w p by (auto simp: rd_set_def wr_set_def sem_reads_def split: if_splits)
  have "activity ?s = int (card (rd_set n ?s ?pcs))"
    using R ir D(1) w a by (simp add: sem_count_def card_Diff_singleton of_nat_diff)
  then have C: "sem_count n ?s ?pcs" using R by (simp add: sem_count_def)
  have L: "sem_list n ?s ?pcs" using D(2) p by (auto simp: sem_list_def sem_queued_def)
  have Z: "sem_rest n ?s ?pcs" using D(4) sem_not_asleep [OF inv i] p by (auto simp: sem_rest_def)
  show ?thesis
  proof (cases "activity s = 1 \<and> wait_list s \<noteq> []")
    case False
    then have st': "s' = ?s" "p' = SemIdle" using st by (auto simp: Let_def split: if_splits)
    have "sem_first ?s ?pcs" using D(3) False a by (auto simp: sem_first_def)
    then show ?thesis using st' C L Z by (simp add: sem_inv_def)
  next
    case True
    let ?w = "hd (wait_list s)"
    have k: "wkind s ?w = RWSEM_WAITING_FOR_WRITE" and wp: "sem_wpt (pcs ?w)" using sem_first_writer [OF inv] True by auto
    have st': "s' = u_wake_one_waiter ?w ?s" "p' = SemIdle"
      using st True k by (auto simp: u_rwsem_wake_one_writer_def)
    have "?w \<noteq> i" using wp p by auto
    then have wp': "sem_wpt (?pcs ?w)" using wp by simp
    have "?w \<in> set (wait_list ?s)" using True by simp
    note W = sem_wake_writer [OF L this wp']
    have "sem_first s' ?pcs" using W(4) k True st'(1) by (auto simp: sem_first_def u_wake_one_waiter_def simp del: fun_upd_apply)
    then show ?thesis using W(2,3,5) Z C st' by (simp add: sem_inv_def del: fun_upd_apply)
  qed
qed

text \<open>The readers at the front of the list.\<close>

abbreviation front :: "rw_semaphore \<Rightarrow> nat list \<Rightarrow> nat list" where
  "front s ws \<equiv> takeWhile (\<lambda>t. wkind s t = RWSEM_WAITING_FOR_READ) ws"

definition wake_all :: "nat set \<Rightarrow> nat list \<Rightarrow> rw_semaphore \<Rightarrow> rw_semaphore" where
  "wake_all F l s = s\<lparr>wait_list := l, wakes := (\<lambda>t. if t \<in> F then wakes s t + 1 else wakes s t), asleep := asleep s - F\<rparr>"

lemma wake_readers_eq:
  assumes "ws \<noteq> []" and "wkind s (hd ws) = RWSEM_WAITING_FOR_READ" and "wait_list s = ws" and "distinct ws"
  shows "wake_readers ws s k =
    (wake_all (set (front s ws)) (dropWhile (\<lambda>t. wkind s t = RWSEM_WAITING_FOR_READ) ws) s, k + length (front s ws))"
  using assms
proof (induction ws s k rule: wake_readers.induct)
  case (2 w ws s k)
  let ?s = "wake_one_waiter w s"
  have e: "wait_list ?s = ws" "wkind ?s = wkind s" using 2(4) by (simp_all add: wake_one_waiter_def u_wake_one_waiter_def)
  have one: "?s = wake_all {w} ws s" using 2(4) by (simp add: wake_one_waiter_def u_wake_one_waiter_def wake_all_def fun_eq_iff)
  show ?case
  proof (cases "ws \<noteq> [] \<and> wkind s (hd ws) = RWSEM_WAITING_FOR_READ")
    case False
    then have "front s ws = []" "dropWhile (\<lambda>t. wkind s t = RWSEM_WAITING_FOR_READ) ws = ws" by (cases ws; simp)+
    then show ?thesis using False 2(3) one e by (cases ws) (auto simp: Let_def)
  next
    case True
    then obtain v vs where v: "ws = v # vs" by (cases ws) auto
    have w: "w \<notin> set ws" using 2(5) by simp
    have "wake_readers ws ?s (k + 1) =
      (wake_all (set (front ?s ws)) (dropWhile (\<lambda>t. wkind ?s t = RWSEM_WAITING_FOR_READ) ws) ?s, k + 1 + length (front ?s ws))"
      using 2(1) [OF refl refl v] True e v 2(5) by simp
    moreover have "wake_readers (w # ws) s k = wake_readers ws ?s (k + 1)" using True e v by (simp add: Let_def)
    moreover have "wake_all F l (wake_all {w} ws s) = wake_all (insert w F) l s" if "w \<notin> F" for F l
      using that by (intro rw_semaphore.equality) (auto simp: wake_all_def fun_eq_iff)
    moreover have "w \<notin> set (front s ws)" using w by (meson set_takeWhileD)
    ultimately show ?thesis using 2(3) one e by simp
  qed
qed simp

lemma sem_do_wake_readers:
  assumes "wait_list s \<noteq> []" and "wkind s (hd (wait_list s)) = RWSEM_WAITING_FOR_READ" and "distinct (wait_list s)"
  shows "u_rwsem_do_wake wr s =
    (wake_all (set (front s (wait_list s))) (dropWhile (\<lambda>t. wkind s t = RWSEM_WAITING_FOR_READ) (wait_list s)) s)
      \<lparr>activity := activity s + int (length (front s (wait_list s)))\<rparr>"
  using assms wake_readers_eq [OF assms(1,2) refl assms(3), of 0] by (simp add: u_rwsem_do_wake_def wake_all_def)

text \<open>The semaphore is released or downgraded by its writer: \<open>a\<close> is the new activity, 0 or 1.\<close>

lemma sem_release_write:
  assumes inv: "sem_inv n s pcs" and i: "i < n" and p: "sem_writes (pcs i)"
    and a: "a = 0 \<and> p' = SemIdle \<and> wr \<or> a = 1 \<and> p' = SemRead \<and> \<not> wr"
    and s': "s' = (if wait_list s \<noteq> [] then u_rwsem_do_wake wr (s\<lparr>activity := a\<rparr>) else s\<lparr>activity := a\<rparr>)"
  shows "sem_inv n s' (pcs(i := p'))"
proof -
  let ?s = "s\<lparr>activity := a\<rparr>" and ?pcs = "pcs(i := p')"
  note D = sem_invD [OF inv]
  have "i \<in> wr_set n pcs" using i p by (simp add: wr_set_def)
  then have e: "rd_set n s pcs = {}" "wr_set n pcs = {i}" using sem_count_cases(4) [OF D(1)] by blast+
  have "rd_set n ?s ?pcs = (if a = 1 then {i} else {}) \<union> (rd_set n s pcs - {i})" "wr_set n ?pcs = wr_set n pcs - {i}"
    using a i by (auto simp: rd_set_def wr_set_def sem_reads_def)
  then have R: "rd_set n ?s ?pcs = (if a = 1 then {i} else {})" "wr_set n ?pcs = {}" unfolding e by simp_all
  have C: "sem_count n ?s ?pcs" using R a by (auto simp: sem_count_def)
  have ip: "\<not> sem_rpt (pcs i)" "\<not> sem_wpt (pcs i)" "i \<notin> asleep s"
    using p sem_not_asleep [OF inv i] by (cases "pcs i"; simp)+
  have L: "sem_list n ?s ?pcs" using D(2) a ip by (auto simp: sem_list_def sem_queued_def)
  have Z: "sem_rest n ?s ?pcs" using D(4) ip a by (auto simp: sem_rest_def)
  let ?w = "hd (wait_list s)"
  consider (empty) "wait_list s = []" | (writer) "wait_list s \<noteq> []" "wkind s ?w = RWSEM_WAITING_FOR_WRITE"
    | (reader) "wait_list s \<noteq> []" "wkind s ?w = RWSEM_WAITING_FOR_READ" by (cases "wkind s ?w") auto
  then show ?thesis
  proof cases
    case empty
    then show ?thesis using s' C L Z by (simp add: sem_inv_def sem_first_def)
  next
    case writer
    then have st: "s' = (if wr then u_wake_one_waiter ?w ?s else ?s)" using s' by (simp add: u_rwsem_do_wake_def)
    have in_l: "?w \<in> set (wait_list s)" using writer by simp
    then have wp: "sem_wpt (pcs ?w)" using sem_list_iff [OF inv] sem_list_kind [OF inv in_l] writer
      by (auto simp: sem_queued_def split: if_splits)
    then have wp': "sem_wpt (?pcs ?w)" using ip by (cases "?w = i") auto
    have "?w \<in> set (wait_list ?s)" using in_l by simp
    note W = sem_wake_writer [OF L this wp']
    show ?thesis
    proof (cases wr)
      case True
      then have "sem_first s' ?pcs" using W(4) writer st by (auto simp: sem_first_def u_wake_one_waiter_def simp del: fun_upd_apply)
      then show ?thesis using W(2,3,5) Z C st True by (simp add: sem_inv_def del: fun_upd_apply)
    next
      case False
      then have "sem_first s' ?pcs" using writer st a by (auto simp: sem_first_def)
      then show ?thesis using C L Z st False by (simp add: sem_inv_def)
    qed
  next
    case reader
    let ?F = "front s (wait_list s)" and ?B = "dropWhile (\<lambda>t. wkind s t = RWSEM_WAITING_FOR_READ) (wait_list s)"
    have dist: "distinct (wait_list s)" using D(2) by (simp add: sem_list_def)
    have st: "s' = (wake_all (set ?F) ?B ?s)\<lparr>activity := a + int (length ?F)\<rparr>"
      using s' reader sem_do_wake_readers [of ?s wr] dist by simp
    have split: "wait_list s = ?F @ ?B" by simp
    have dis: "set ?F \<inter> set ?B = {}" "distinct ?F" "distinct ?B" using dist by (metis distinct_append split)+
    have F: "t \<in> set ?F \<Longrightarrow> t < n \<and> sem_rpt (pcs t) \<and> wakes s t = 0 \<and> t \<noteq> i" for t
    proof -
      assume t: "t \<in> set ?F"
      then have k: "wkind s t = RWSEM_WAITING_FOR_READ" and l: "t \<in> set (wait_list s)" by (auto dest: set_takeWhileD)
      then have "sem_rpt (pcs t)" using sem_list_kind [OF inv l] by (auto split: if_splits)
      then show ?thesis using sem_list_iff [OF inv, of t] l ip by (cases "pcs t") (auto simp: sem_queued_def)
    qed
    have wk: "wakes s' t = (if t \<in> set ?F then 1 else wakes s t)" for t using st F by (simp add: wake_all_def)
    have "sem_reads (wakes s' t) (?pcs t) \<longleftrightarrow> sem_reads (wakes ?s t) (?pcs t) \<or> t \<in> set ?F" for t
      using wk [of t] F [of t] by (auto simp: sem_reads_def)
    then have RD: "rd_set n s' ?pcs = rd_set n ?s ?pcs \<union> set ?F" using F unfolding rd_set_def by blast
    have RD': "rd_set n ?s ?pcs \<inter> set ?F = {}" using R(1) F by (metis Int_iff ex_in_conv if_split singletonD empty_iff)
    have "card (rd_set n s' ?pcs) = card (rd_set n ?s ?pcs) + length ?F"
      using RD' dis(2) unfolding RD by (simp only: card_Un_disjoint finite_rd_wr finite_set distinct_card)
    then have "sem_count n s' ?pcs" using C R st by (simp add: sem_count_def)
    moreover have "sem_list n s' ?pcs"
    proof -
      have "t \<in> set ?B \<longleftrightarrow> t < n \<and> sem_queued (wakes s' t) (?pcs t)" for t
      proof (cases "t \<in> set ?F")
        case True
        then have "sem_rpt (?pcs t)" "\<not> sem_wpt (?pcs t)" using F [OF True] by (cases "pcs t"; simp)+
        then show ?thesis using True dis(1) wk by (auto simp: sem_queued_def)
      next
        case False
        then have "t \<in> set ?B \<longleftrightarrow> t \<in> set (wait_list s)" using split by (metis UnE UnI2 set_append)
        then show ?thesis using L wk False by (simp add: sem_list_def)
      qed
      moreover have "wkind s' t = (if sem_rpt (?pcs t) then RWSEM_WAITING_FOR_READ else RWSEM_WAITING_FOR_WRITE)" if "t \<in> set ?B" for t
      proof -
        have "t \<in> set (wait_list s)" using that by (rule set_dropWhileD)
        then show ?thesis using L st by (simp add: sem_list_def wake_all_def)
      qed
      moreover have "wait_list s' = ?B" by (simp add: st wake_all_def)
      ultimately show ?thesis using dis(3) unfolding sem_list_def by metis
    qed
    moreover have "sem_first s' ?pcs"
    proof -
      have "0 < length ?F" using reader by (cases "wait_list s") auto
      then have "activity s' \<noteq> 0" using st a by auto
      moreover have "wkind s (hd ?B) = RWSEM_WAITING_FOR_WRITE" if "?B \<noteq> []"
        using hd_dropWhile [OF that] by (cases "wkind s (hd ?B)") auto
      ultimately show ?thesis using st by (auto simp: sem_first_def wake_all_def)
    qed
    moreover have "sem_rest n s' ?pcs" using Z wk st by (auto simp: sem_rest_def wake_all_def)
    ultimately show ?thesis by (simp add: sem_inv_def)
  qed
qed

text \<open>Every move keeps the invariant.\<close>

lemmas sem_points = sem_reads_def sem_queued_def sem_awake_def

lemma sem_read_inv:
  assumes inv: "sem_inv n s pcs" and i: "i < n" and st: "down_read i (pcs i) s = Some (s', p')"
  shows "sem_inv n s' (pcs(i := p'))"
proof (cases "pcs i = DR_enter")
  case True
  show ?thesis
  proof (cases "activity s > 0 \<or> (activity s = 0 \<and> wait_list s = [])")
    case True
    then show ?thesis using st sem_join_read [OF inv i] \<open>pcs i = DR_enter\<close> by auto
  next
    case False
    then show ?thesis using st sem_queue [OF inv i, of RWSEM_WAITING_FOR_READ DR_wait] \<open>pcs i = DR_enter\<close> by (auto simp: sem_enqueue_def)
  qed
next
  case False
  then show ?thesis using st inv i sem_not_asleep [OF inv i]
    by (cases "pcs i"; intro sem_quiet [OF inv i]) (auto simp: sem_points split: if_splits)
qed

lemma sem_write_inv:
  assumes inv: "sem_inv n s pcs" and i: "i < n" and st: "down_write i (pcs i) s = Some (s', p')"
  shows "sem_inv n s' (pcs(i := p'))"
proof -
  have dist: "distinct (wait_list s)" using inv by (simp add: sem_inv_def sem_list_def)
  have out: "i \<notin> set (wait_list s)" if "pcs i = DW_enter" using sem_list_iff [OF inv, of i] that by (simp add: sem_queued_def)
  consider (enter) "pcs i = DW_enter" | (relock) "pcs i = DW_relock" | (other) "pcs i \<noteq> DW_enter" "pcs i \<noteq> DW_relock" by blast
  then show ?thesis
  proof cases
    case enter
    show ?thesis
    proof (cases "activity s = 0")
      case True
      then have "sem_inv n s' (pcs(i := SemWrite))"
        using st enter out dist by (intro sem_take_write [OF inv i]) (auto simp: write_loop_def remove1_append)
      then show ?thesis using st enter True by (simp add: write_loop_def)
    next
      case False
      then show ?thesis using st sem_queue [OF inv i, of RWSEM_WAITING_FOR_WRITE DW_wait] enter
        by (simp add: sem_enqueue_def write_loop_def)
    qed
  next
    case relock
    show ?thesis
    proof (cases "activity s = 0")
      case True
      then have "sem_inv n s' (pcs(i := SemWrite))"
        using st relock dist by (intro sem_take_write [OF inv i]) (auto simp: write_loop_def)
      then show ?thesis using st relock True by (simp add: write_loop_def)
    next
      case False
      then show ?thesis using st sem_rewait [OF inv i relock] relock by (simp add: write_loop_def)
    qed
  next
    case other
    then show ?thesis using st inv i sem_not_asleep [OF inv i]
      by (cases "pcs i"; intro sem_quiet [OF inv i]) (auto simp: sem_points split: if_splits)
  qed
qed

lemma sem_other_inv:
  assumes inv: "sem_inv n s pcs" and i: "i < n"
  shows "down_read_trylock (pcs i) s = Some (s', p') \<Longrightarrow> sem_inv n s' (pcs(i := p'))"
    and "down_write_trylock (pcs i) s = Some (s', p') \<Longrightarrow> sem_inv n s' (pcs(i := p'))"
    and "up_read (pcs i) s = Some (s', p') \<Longrightarrow> sem_inv n s' (pcs(i := p'))"
    and "up_write (pcs i) s = Some (s', p') \<Longrightarrow> sem_inv n s' (pcs(i := p'))"
    and "downgrade_write (pcs i) s = Some (s', p') \<Longrightarrow> sem_inv n s' (pcs(i := p'))"
proof -
  note na = sem_not_asleep [OF inv i]
  have idle: "sem_inv n s (pcs(i := SemIdle))" if "pcs i = DR_try \<or> pcs i = DW_try"
    using that na by (intro sem_quiet [OF inv i]) (auto simp: sem_points)
  show "sem_inv n s' (pcs(i := p'))" if "down_read_trylock (pcs i) s = Some (s', p')"
    using that sem_join_read [OF inv i] idle by (cases "pcs i") (auto split: if_splits)
  have dist: "distinct (wait_list s)" using inv by (simp add: sem_inv_def sem_list_def)
  show "sem_inv n s' (pcs(i := p'))" if t: "down_write_trylock (pcs i) s = Some (s', p')"
  proof -
    have p: "pcs i = DW_try" using t by (cases "pcs i") auto
    have out: "i \<notin> set (wait_list s)" using sem_list_iff [OF inv, of i] p by (simp add: sem_queued_def)
    show ?thesis
    proof (cases "activity s = 0")
      case True
      have "sem_inv n (s\<lparr>activity := -1\<rparr>) (pcs(i := SemWrite))" using True p dist out by (intro sem_take_write [OF inv i]) auto
      then show ?thesis using t p True by simp
    qed (use t p idle in simp)
  qed
  show "sem_inv n s' (pcs(i := p'))" if "up_read (pcs i) s = Some (s', p')"
    using that sem_up_read [OF inv i] by (cases "pcs i") (auto simp del: up_read.simps(1))
  show "sem_inv n s' (pcs(i := p'))" if "up_write (pcs i) s = Some (s', p')"
    using that sem_release_write [OF inv i, of 0 SemIdle True s'] by (cases "pcs i") (simp_all add: Let_def)
  show "sem_inv n s' (pcs(i := p'))" if "downgrade_write (pcs i) s = Some (s', p')"
    using that sem_release_write [OF inv i, of 1 SemRead False s'] by (cases "pcs i") (simp_all add: Let_def)
qed

lemma sem_step_inv:
  assumes inv: "sem_inv n s pcs" and i: "i < n" and st: "sem_step i s (pcs i) s' p'"
  shows "sem_inv n s' (pcs(i := p'))"
  using st
proof (cases rule: sem_step.cases)
  case inside
  then show ?thesis using sem_read_inv [OF inv i] sem_write_inv [OF inv i] sem_other_inv [OF inv i] by (cases "pcs i") auto
next
  case eintr_read
  then have "wakes s i = 0" using inv i by (auto simp: sem_inv_def sem_rest_def)
  then show ?thesis using eintr_read by (intro sem_quiet [OF inv i]) (auto simp: sem_points)
next
  case eintr_write
  then show ?thesis by (intro sem_quiet [OF inv i]) (auto simp: sem_points)
qed (use sem_not_asleep [OF inv i] in \<open>(intro sem_quiet [OF inv i]; auto simp: sem_points)\<close>)+

abbreviation sem_reachable :: "nat \<Rightarrow> (rw_semaphore, sem_pc) threads \<Rightarrow> bool" where
  "sem_reachable n \<equiv> reachable sem_step n init_rwsem SemIdle"

lemma sem_reachable_inv:
  assumes "sem_reachable n s"
  shows "sem_inv n (fst s) (snd s)"
proof (rule reachable_invariant [OF assms, where I = "sem_inv n"])
  show "sem_inv n init_rwsem (\<lambda>_. SemIdle)"
    by (simp add: sem_inv_def sem_count_def sem_list_def sem_first_def sem_rest_def init_rwsem_def rd_set_def wr_set_def sem_points)
qed (rule sem_step_inv)

interpretation seml: exclusive_lock sem_step init_rwsem SemIdle sem_writes bound for bound
proof
  fix n s assume "sem_reachable n s"
  then have "sem_count n (fst s) (snd s)" using sem_reachable_inv by (simp add: sem_inv_def)
  then show "at_pts n sem_writes (snd s) \<le> 1" by (simp add: sem_count_def wr_set_def at_pts_def)
qed

lemma sem_next_None:
  "sem_next t p s = None \<longleftrightarrow> p \<in> {SemIdle, SemRead, SemWrite, SemBug} \<or> (p = DR_sleep \<or> p = DW_sleep) \<and> t \<in> asleep s"
  by (cases p) (auto simp: Let_def split: option.splits)

lemma sem_progress:
  assumes r: "sem_reachable n s" and i: "i < n" and b: "sem_next i (snd s i) (fst s) = None" "snd s i \<noteq> SemIdle"
  shows "\<exists>j < n. snd s j = SemRead \<or> snd s j = SemWrite \<or> sem_next j (snd s j) (fst s) \<noteq> None"
proof (rule ccontr)
  let ?s = "fst s" and ?pcs = "snd s"
  assume "\<not> ?thesis"
  then have stuck: "?pcs j \<noteq> SemRead \<and> ?pcs j \<noteq> SemWrite \<and> sem_next j (?pcs j) ?s = None" if "j < n" for j using that by blast
  have inv: "sem_inv n ?s ?pcs" by (rule sem_reachable_inv [OF r])
  note D = sem_invD [OF inv]
  have pts: "?pcs j = SemIdle \<or> (?pcs j = DR_sleep \<and> wakes ?s j = 0 \<or> ?pcs j = DW_sleep) \<and> j \<in> asleep ?s" if "j < n" for j
    using stuck [OF that] D(4) that unfolding sem_next_None sem_rest_def by auto
  have "rd_set n ?s ?pcs = {}" "wr_set n ?pcs = {}"
    using pts by (fastforce simp: rd_set_def wr_set_def sem_reads_def)+
  then have a: "activity ?s = 0" using D(1) by (simp add: sem_count_def)
  have "i \<in> set (wait_list ?s)" using pts [OF i] b(2) i by (auto simp: sem_list_iff [OF inv] sem_queued_def)
  then have ne: "wait_list ?s \<noteq> []" by auto
  then have "sem_awake ?s ?pcs (hd (wait_list ?s))" using D(3) a by (simp add: sem_first_def)
  moreover have "hd (wait_list ?s) < n" using ne sem_list_iff [OF inv, of "hd (wait_list ?s)"] by simp
  moreover have "sem_wpt (?pcs (hd (wait_list ?s)))" using sem_first_writer [OF inv ne] a by simp
  ultimately show False using pts [of "hd (wait_list ?s)"] by (auto simp: sem_awake_def)
qed

text \<open>
  C7: threads that use the reader-writer semaphore in any order and interleaving never break it: a writer
  is alone, without readers and without another writer, where a reader counts from the moment it is granted the semaphore; \<open>activity\<close> is the number of readers, or -1 when there is a
  writer; the first waiter of a semaphore that no writer has is a writer, so that the \<open>BUG_ON\<close> of \<open>up_read\<close> is never reached; and if a thread
  cannot move, a thread has the semaphore or can move.
\<close>

theorem rwsem_exclusive:
  assumes "sem_reachable n s"
  shows "(\<forall>i < n. \<forall>j < n. sem_writes (snd s i) \<longrightarrow> sem_writes (snd s j) \<or> sem_reads (wakes (fst s) j) (snd s j) \<longrightarrow> i = j) \<and>
    activity (fst s) = (if \<exists>i < n. sem_writes (snd s i) then -1 else int (card {t. t < n \<and> sem_reads (wakes (fst s) t) (snd s t)})) \<and>
    (0 \<le> activity (fst s) \<longrightarrow> wait_list (fst s) \<noteq> [] \<longrightarrow> wkind (fst s) (hd (wait_list (fst s))) = RWSEM_WAITING_FOR_WRITE) \<and>
    (\<forall>i < n. snd s i \<noteq> SemBug) \<and>
    (\<forall>i < n. snd s i = SemIdle \<or> sem_next i (snd s i) (fst s) \<noteq> None \<or>
      (\<exists>j < n. snd s j = SemRead \<or> snd s j = SemWrite \<or> sem_next j (snd s j) (fst s) \<noteq> None))"
proof (intro conjI)
  let ?R = "rd_set n (fst s) (snd s)" and ?W = "wr_set n (snd s)"
  have inv: "sem_inv n (fst s) (snd s)" by (rule sem_reachable_inv [OF assms])
  note D = sem_invD [OF inv]
  have one: "?W = {i} \<and> ?R = {}" if "i < n" "sem_writes (snd s i)" for i
    using sem_count_cases(4) [OF D(1)] that by (simp add: wr_set_def)
  show "\<forall>i < n. \<forall>j < n. sem_writes (snd s i) \<longrightarrow> sem_writes (snd s j) \<or> sem_reads (wakes (fst s) j) (snd s j) \<longrightarrow> i = j"
    using one unfolding rd_set_def wr_set_def by blast
  show "activity (fst s) = (if \<exists>i < n. sem_writes (snd s i) then -1 else int (card {t. t < n \<and> sem_reads (wakes (fst s) t) (snd s t)}))"
  proof (cases "\<exists>i < n. sem_writes (snd s i)")
    case True
    then show ?thesis using one D(1) by (auto simp: sem_count_def)
  next
    case False
    then have "?W = {}" by (auto simp: wr_set_def)
    then show ?thesis using False D(1) by (simp add: sem_count_def rd_set_def)
  qed
  show "0 \<le> activity (fst s) \<longrightarrow> wait_list (fst s) \<noteq> [] \<longrightarrow> wkind (fst s) (hd (wait_list (fst s))) = RWSEM_WAITING_FOR_WRITE"
    using sem_first_writer(1) [OF inv] by blast
  show "\<forall>i < n. snd s i \<noteq> SemBug" using D(4) by (simp add: sem_rest_def)
  show "\<forall>i < n. snd s i = SemIdle \<or> sem_next i (snd s i) (fst s) \<noteq> None \<or>
      (\<exists>j < n. snd s j = SemRead \<or> snd s j = SemWrite \<or> sem_next j (snd s j) (fst s) \<noteq> None)"
    using sem_progress [OF assms] by blast
qed

theorem rwsem_exclusive_witness:
  "\<exists>s. sem_reachable 2 s \<and> snd s 0 = SemRead \<and> snd s 1 = DW_sleep \<and> \<not> sem_writes (snd s 1) \<and> activity (fst s) = 1"
proof -
  let ?s = "init_rwsem\<lparr>activity := 1, wait_list := [1], wkind := (\<lambda>_. RWSEM_WAITING_FOR_READ)(1 := RWSEM_WAITING_FOR_WRITE), asleep := {1}\<rparr>"
  let ?pcs = "(\<lambda>_. SemIdle)(0 := SemRead, 1 := DW_sleep)"
  let ?f = "\<lambda>i s p. if p = SemIdle then Some (s, if i = 0 then DR_enter else DW_enter) else sem_next i p s"
  have run: "run_threads ?f (init_rwsem, \<lambda>_. SemIdle) [0, 0, 1, 1, 1, 1] = Some (?s, ?pcs)"
    by (simp add: init_rwsem_def write_loop_def fun_upd_twist) (simp add: fun_eq_iff)
  have "sem_step i s p s' p'" if "?f i s p = Some (s', p')" for i s p s' p'
    using that by (auto intro: sem_step.intros split: if_splits)
  from run_threads_reachable [OF run this] have r: "sem_reachable 2 (?s, ?pcs)" by (simp add: reachable.start)
  show ?thesis using rwsem_exclusive [OF r] r by (intro exI [of _ "(?s, ?pcs)"]) auto
qed

end
