(* ===== verification/Rb_Zipper.thy ===== *)
theory Rb_Zipper
  imports Skp_Prelude "HOL-Library.Tree"
begin

text \<open>
  Red-black trees as values, with the place a loop of \<open>src/adt/rbtree.c\<close> has reached: a subtree and the frames above
  it.  The functions here say what the rotations and colour flips of the source do to the tree; the
  theory of the pointer operations shows that the source does that.
\<close>

section \<open>Trees and frames\<close>

datatype rb_color = RB_RED | RB_BLACK

type_synonym 'a rb_color_node = "'a \<times> rb_color"

type_synonym 'a rb_tree = "('a \<times> rb_color) tree"

fun red :: "'a rb_tree \<Rightarrow> bool" where
  "red Leaf = False" | "red (Node l (a, c) r) = (c = RB_RED)"

lemma not_red_color [simp]: "c \<noteq> RB_RED \<longleftrightarrow> c = RB_BLACK" "c \<noteq> RB_BLACK \<longleftrightarrow> c = RB_RED"
  by (cases c; simp)+

fun keys :: "'a rb_tree \<Rightarrow> 'a list" where
  "keys Leaf = []" | "keys (Node l (a, c) r) = keys l @ a # keys r"

text \<open>A frame is the parent of the place: the place is its left or its right child.\<close>

datatype 'a frame = FL rb_color 'a "'a rb_tree" | FR "'a rb_tree" rb_color 'a

fun fill :: "'a frame \<Rightarrow> 'a rb_tree \<Rightarrow> 'a rb_tree" where
  "fill (FL c a r) t = Node t (a, c) r" | "fill (FR l c a) t = Node l (a, c) t"

fun plug :: "'a frame list \<Rightarrow> 'a rb_tree \<Rightarrow> 'a rb_tree" where
  "plug [] t = t" | "plug (f # fs) t = plug fs (fill f t)"

fun keys_before :: "'a frame list \<Rightarrow> 'a list" where
  "keys_before [] = []" | "keys_before (FL c a r # fs) = keys_before fs" | "keys_before (FR l c a # fs) = keys_before fs @ keys l @ [a]"

fun keys_after :: "'a frame list \<Rightarrow> 'a list" where
  "keys_after [] = []" | "keys_after (FL c a r # fs) = a # keys r @ keys_after fs" | "keys_after (FR l c a # fs) = keys_after fs"

lemma keys_plug: "keys (plug fs t) = keys_before fs @ keys t @ keys_after fs"
proof (induction fs t rule: plug.induct)
  case (2 f fs t)
  then show ?case by (cases f) auto
qed simp

text \<open>The colour of the node above the place; above the root there is none, which counts as black.\<close>

fun above :: "'a frame list \<Rightarrow> rb_color" where
  "above [] = RB_BLACK" | "above (FL c a r # fs) = c" | "above (FR l c a # fs) = c"

section \<open>The red-black properties\<close>

text \<open>Every path has \<open>h\<close> black nodes, and a red node has no red child.\<close>

fun rb_sub :: "nat \<Rightarrow> 'a rb_tree \<Rightarrow> bool" where
  "rb_sub h Leaf = (h = 0)"
| "rb_sub h (Node l (a, RB_RED) r) = (rb_sub h l \<and> rb_sub h r \<and> \<not> red l \<and> \<not> red r)"
| "rb_sub h (Node l (a, RB_BLACK) r) = (case h of 0 \<Rightarrow> False | Suc k \<Rightarrow> rb_sub k l \<and> rb_sub k r)"

definition rb_inv :: "'a rb_tree \<Rightarrow> bool" where
  "rb_inv t \<longleftrightarrow> \<not> red t \<and> (\<exists>h. rb_sub h t)"

text \<open>Frames that a subtree with \<open>h\<close> black nodes on each path fits.\<close>

fun rb_ctx :: "nat \<Rightarrow> 'a frame list \<Rightarrow> bool" where
  "rb_ctx h [] = True"
| "rb_ctx h (FL RB_RED a r # fs) = (rb_sub h r \<and> \<not> red r \<and> fs \<noteq> [] \<and> above fs = RB_BLACK \<and> rb_ctx h fs)"
| "rb_ctx h (FL RB_BLACK a r # fs) = (rb_sub h r \<and> rb_ctx (Suc h) fs)"
| "rb_ctx h (FR l RB_RED a # fs) = (rb_sub h l \<and> \<not> red l \<and> fs \<noteq> [] \<and> above fs = RB_BLACK \<and> rb_ctx h fs)"
| "rb_ctx h (FR l RB_BLACK a # fs) = (rb_sub h l \<and> rb_ctx (Suc h) fs)"

text \<open>A place of a red-black tree; a red subtree is not at the root and not below a red node.\<close>

definition rb_at :: "nat \<Rightarrow> 'a frame list \<Rightarrow> 'a rb_tree \<Rightarrow> bool" where
  "rb_at h fs t \<longleftrightarrow> rb_sub h t \<and> rb_ctx h fs \<and> (red t \<longrightarrow> fs \<noteq> [] \<and> above fs = RB_BLACK)"

lemma rb_at_fill: "(\<exists>h. rb_at h (f # fs) t) \<longleftrightarrow> (\<exists>h. rb_at h fs (fill f t))"
proof (cases f)
  case (FL c a r)
  have "(\<exists>h. rb_at h fs (Node t (a, RB_BLACK) r)) \<longleftrightarrow> (\<exists>h. rb_at (Suc h) fs (Node t (a, RB_BLACK) r))"
    by (metis (no_types) rb_at_def rb_sub.simps(3) old.nat.exhaust old.nat.simps(4))
  then show ?thesis using FL by (cases c) (auto simp: rb_at_def)
next
  case (FR l c a)
  have "(\<exists>h. rb_at h fs (Node l (a, RB_BLACK) t)) \<longleftrightarrow> (\<exists>h. rb_at (Suc h) fs (Node l (a, RB_BLACK) t))"
    by (metis (no_types) rb_at_def rb_sub.simps(3) old.nat.exhaust old.nat.simps(4))
  then show ?thesis using FR by (cases c) (auto simp: rb_at_def)
qed

lemma rb_inv_plug: "rb_inv (plug fs t) \<longleftrightarrow> (\<exists>h. rb_at h fs t)"
proof (induction fs t rule: plug.induct)
  case (1 t)
  then show ?case by (auto simp: rb_inv_def rb_at_def)
next
  case (2 f fs t)
  then show ?case using rb_at_fill [of f fs t] by simp
qed

section \<open>Insertion\<close>

text \<open>
  The place holds the new red node; its parent may be red.  Case 1 flips colours and goes up two frames,
  cases 2 and 3 rotate.
\<close>

fun blacken :: "'a rb_tree \<Rightarrow> 'a rb_tree" where
  "blacken Leaf = Leaf" | "blacken (Node l (a, c) r) = Node l (a, RB_BLACK) r"

fun insert_up :: "'a frame list \<Rightarrow> 'a rb_tree \<Rightarrow> 'a rb_tree" where
  "insert_up [] t = blacken t"
| "insert_up (FL RB_RED p s # FL gc g u # fs) t =
     (if red u then insert_up fs (Node (Node t (p, RB_BLACK) s) (g, RB_RED) (blacken u))
      else plug fs (Node t (p, gc) (Node s (g, RB_RED) u)))"
| "insert_up (FR s RB_RED p # FL gc g u # fs) t =
     (if red u then insert_up fs (Node (Node s (p, RB_BLACK) t) (g, RB_RED) (blacken u))
      else case t of Leaf \<Rightarrow> Leaf | Node x (n, _) y \<Rightarrow> plug fs (Node (Node s (p, RB_RED) x) (n, gc) (Node y (g, RB_RED) u)))"
| "insert_up (FR s RB_RED p # FR u gc g # fs) t =
     (if red u then insert_up fs (Node (blacken u) (g, RB_RED) (Node s (p, RB_BLACK) t))
      else plug fs (Node (Node u (g, RB_RED) s) (p, gc) t))"
| "insert_up (FL RB_RED p s # FR u gc g # fs) t =
     (if red u then insert_up fs (Node (blacken u) (g, RB_RED) (Node t (p, RB_BLACK) s))
      else case t of Leaf \<Rightarrow> Leaf | Node x (n, _) y \<Rightarrow> plug fs (Node (Node u (g, RB_RED) x) (n, gc) (Node y (p, RB_RED) s)))"
| "insert_up fs t = plug fs t"

lemma keys_blacken [simp]: "keys (blacken t) = keys t"
  by (cases t rule: blacken.cases) auto

lemma red_blacken [simp]: "\<not> red (blacken t)"
  by (cases t rule: blacken.cases) auto

lemma blacken_sub: "red u \<Longrightarrow> rb_sub h u \<Longrightarrow> rb_sub (Suc h) (blacken u)"
  by (cases u rule: blacken.cases) auto

lemma keys_insert_up: "t \<noteq> Leaf \<Longrightarrow> keys (insert_up fs t) = keys (plug fs t)"
  by (induction fs t rule: insert_up.induct) (auto simp: keys_plug split: tree.splits)

lemma rb_ctx_single [simp]:
  "rb_ctx h [FL c a r] \<longleftrightarrow> c = RB_BLACK \<and> rb_sub h r" "rb_ctx h [FR l c a] \<longleftrightarrow> c = RB_BLACK \<and> rb_sub h l"
  by (cases c; simp)+

lemma rb_ctx_one: "rb_ctx h [f] \<Longrightarrow> above [f] = RB_BLACK"
  by (cases f) auto

text \<open>The tree without the new node's red parent is a red-black tree; the new one is.\<close>

lemma rb_insert_up:
  assumes "rb_sub h t" and "red t" and "rb_ctx h fs"
  shows "rb_inv (insert_up fs t)"
  using assms
proof (induction fs t arbitrary: h rule: insert_up.induct)
  case (1 t)
  then show ?case by (auto simp: rb_inv_def intro: blacken_sub)
next
  case (2 p s gc g u fs t)
  have "gc = RB_BLACK" "rb_sub h s" "\<not> red s" "rb_sub h u" "rb_ctx (Suc h) fs" using 2(4) by auto
  then show ?case using 2(1) [of "Suc h"] 2(2,3) by (auto simp: rb_inv_plug rb_at_def blacken_sub intro!: exI [of _ "Suc h"])
next
  case (3 s p gc g u fs t)
  have "gc = RB_BLACK" "rb_sub h s" "\<not> red s" "rb_sub h u" "rb_ctx (Suc h) fs" using 3(4) by auto
  then show ?case using 3(1) [of "Suc h"] 3(2,3) by (auto simp: rb_inv_plug rb_at_def blacken_sub intro!: exI [of _ "Suc h"] split: tree.splits)
next
  case (4 s p u gc g fs t)
  have "gc = RB_BLACK" "rb_sub h s" "\<not> red s" "rb_sub h u" "rb_ctx (Suc h) fs" using 4(4) by auto
  then show ?case using 4(1) [of "Suc h"] 4(2,3) by (auto simp: rb_inv_plug rb_at_def blacken_sub intro!: exI [of _ "Suc h"])
next
  case (5 p s u gc g fs t)
  have "gc = RB_BLACK" "rb_sub h s" "\<not> red s" "rb_sub h u" "rb_ctx (Suc h) fs" using 5(4) by auto
  then show ?case using 5(1) [of "Suc h"] 5(2,3) by (auto simp: rb_inv_plug rb_at_def blacken_sub intro!: exI [of _ "Suc h"] split: tree.splits)
qed (auto simp: rb_inv_plug rb_at_def simp del: plug.simps, blast dest: rb_ctx_one)

section \<open>Removal\<close>

text \<open>
  The place holds a black subtree, or none, whose paths have one black node less than the sibling's.  Case 1 rotates a red sibling up,
  case 2 makes the sibling red and goes up when the parent was black, cases 3 and 4 rotate and end.
\<close>

fun left_sub :: "'a rb_tree \<Rightarrow> 'a rb_tree" where
  "left_sub Leaf = Leaf" | "left_sub (Node l (a, c) r) = l"

fun right_sub :: "'a rb_tree \<Rightarrow> 'a rb_tree" where
  "right_sub Leaf = Leaf" | "right_sub (Node l (a, c) r) = r"

text \<open>The parent \<open>(p, pc)\<close> with the place \<open>t\<close> on the left and the black sibling on the right: the new subtree, and whether it is still short.\<close>

fun erase_fix_l :: "'a rb_tree \<Rightarrow> rb_color \<Rightarrow> 'a \<Rightarrow> 'a rb_tree \<Rightarrow> 'a rb_tree \<times> bool" where
  "erase_fix_l t pc p (Node sl (s, c) sr) =
     (if red sr then (Node (Node t (p, RB_BLACK) sl) (s, pc) (blacken sr), False)
      else case sl of
        Node x (m, RB_RED) y \<Rightarrow> (Node (Node t (p, RB_BLACK) x) (m, pc) (Node y (s, RB_BLACK) sr), False)
      | _ \<Rightarrow> (Node t (p, RB_BLACK) (Node sl (s, RB_RED) sr), pc = RB_BLACK))"
| "erase_fix_l t pc p Leaf = (Leaf, False)"

fun erase_fix_r :: "'a rb_tree \<Rightarrow> rb_color \<Rightarrow> 'a \<Rightarrow> 'a rb_tree \<Rightarrow> 'a rb_tree \<times> bool" where
  "erase_fix_r t pc p (Node sl (s, c) sr) =
     (if red sl then (Node (blacken sl) (s, pc) (Node sr (p, RB_BLACK) t), False)
      else case sr of
        Node x (m, RB_RED) y \<Rightarrow> (Node (Node sl (s, RB_BLACK) x) (m, pc) (Node y (p, RB_BLACK) t), False)
      | _ \<Rightarrow> (Node (Node sl (s, RB_RED) sr) (p, RB_BLACK) t, pc = RB_BLACK))"
| "erase_fix_r t pc p Leaf = (Leaf, False)"

fun erase_up :: "'a frame list \<Rightarrow> 'a rb_tree \<Rightarrow> 'a rb_tree" where
  "erase_up [] t = t"
| "erase_up (FL pc p sib # fs) t =
     (case sib of
        Node sl (s, RB_RED) sr \<Rightarrow> plug fs (Node (fst (erase_fix_l t RB_RED p sl)) (s, pc) sr)
      | _ \<Rightarrow> (case erase_fix_l t pc p sib of (u, short) \<Rightarrow> if short then erase_up fs u else plug fs u))"
| "erase_up (FR sib pc p # fs) t =
     (case sib of
        Node sl (s, RB_RED) sr \<Rightarrow> plug fs (Node sl (s, pc) (fst (erase_fix_r t RB_RED p sr)))
      | _ \<Rightarrow> (case erase_fix_r t pc p sib of (u, short) \<Rightarrow> if short then erase_up fs u else plug fs u))"

lemma keys_erase_fix:
  "sib \<noteq> Leaf \<Longrightarrow> keys (fst (erase_fix_l t pc p sib)) = keys t @ p # keys sib"
  "sib \<noteq> Leaf \<Longrightarrow> keys (fst (erase_fix_r t pc p sib)) = keys sib @ p # keys t"
  by (cases sib rule: blacken.cases; auto split: tree.splits rb_color.splits)+

text \<open>The fixed subtree has the black nodes the frames above expect, or is one short and black.\<close>

lemma erase_fix_l_ok:
  assumes "rb_sub h t" "\<not> red t" and "rb_sub (Suc h) sib" "\<not> red sib"
  shows "(case erase_fix_l t pc p sib of (u, short) \<Rightarrow>
    if short then pc = RB_BLACK \<and> rb_sub (Suc h) u \<and> \<not> red u
    else rb_sub (if pc = RB_BLACK then Suc (Suc h) else Suc h) u \<and> (red u \<longrightarrow> pc = RB_RED))"
  using assms
  by (cases sib rule: blacken.cases; cases "left_sub sib" rule: blacken.cases; cases pc)
     (auto simp: blacken_sub split: tree.splits rb_color.splits nat.splits if_splits)

lemma erase_fix_r_ok:
  assumes "rb_sub h t" "\<not> red t" and "rb_sub (Suc h) sib" "\<not> red sib"
  shows "(case erase_fix_r t pc p sib of (u, short) \<Rightarrow>
    if short then pc = RB_BLACK \<and> rb_sub (Suc h) u \<and> \<not> red u
    else rb_sub (if pc = RB_BLACK then Suc (Suc h) else Suc h) u \<and> (red u \<longrightarrow> pc = RB_RED))"
  using assms
  by (cases sib rule: blacken.cases; cases "right_sub sib" rule: blacken.cases; cases pc)
     (auto simp: blacken_sub split: tree.splits rb_color.splits nat.splits if_splits)

lemma erase_up_red:
  "red sib \<Longrightarrow> erase_up (FL pc p sib # fs) t = (case sib of Node sl (s, c) sr \<Rightarrow> plug fs (Node (fst (erase_fix_l t RB_RED p sl)) (s, pc) sr))"
  "red sib \<Longrightarrow> erase_up (FR sib pc p # fs) t = (case sib of Node sl (s, c) sr \<Rightarrow> plug fs (Node sl (s, pc) (fst (erase_fix_r t RB_RED p sr))))"
  by (cases sib rule: blacken.cases; simp)+

lemma erase_up_black:
  "\<not> red sib \<Longrightarrow> erase_up (FL pc p sib # fs) t = (case erase_fix_l t pc p sib of (u, short) \<Rightarrow> if short then erase_up fs u else plug fs u)"
  "\<not> red sib \<Longrightarrow> erase_up (FR sib pc p # fs) t = (case erase_fix_r t pc p sib of (u, short) \<Rightarrow> if short then erase_up fs u else plug fs u)"
  by (cases sib rule: blacken.cases; simp split: tree.splits rb_color.splits)+

lemma rb_erase_up:
  assumes "rb_sub h t" "\<not> red t" and "rb_ctx (Suc h) fs"
  shows "rb_inv (erase_up fs t) \<and> keys (erase_up fs t) = keys (plug fs t)"
  using assms
proof (induction fs arbitrary: t h)
  case Nil
  then show ?case by (auto simp: rb_inv_def)
next
  case (Cons f fs)
  note IH = Cons.IH and t = Cons.prems(1,2) and ctx = Cons.prems(3)
  show ?case
  proof (cases f)
    case f: (FL pc p sib)
    show ?thesis
    proof (cases "red sib")
      case True
      then obtain sl s sr where sib: "sib = Node sl (s, RB_RED) sr" by (cases sib rule: blacken.cases) auto
      have pc: "pc = RB_BLACK" using ctx f sib by (cases pc) simp_all
      then have s: "rb_sub (Suc h) sl" "rb_sub (Suc h) sr" "\<not> red sl" "\<not> red sr" "rb_ctx (Suc (Suc h)) fs"
        using ctx f sib by simp_all
      have "sl \<noteq> Leaf" using s(1) by auto
      moreover have "rb_sub (Suc h) (fst (erase_fix_l t RB_RED p sl))"
        using erase_fix_l_ok [OF t s(1,3), of RB_RED p] by (auto split: prod.splits if_splits)
      ultimately show ?thesis using f sib pc s
        by (auto simp: rb_inv_plug rb_at_def keys_plug keys_erase_fix intro!: exI [of _ "Suc (Suc h)"])
    next
      case False
      have s: "rb_sub (Suc h) sib" using ctx f by (cases pc) auto
      then have ne: "sib \<noteq> Leaf" by auto
      obtain u short where u: "erase_fix_l t pc p sib = (u, short)" by force
      have k: "keys u = keys t @ p # keys sib" using keys_erase_fix(1) [OF ne, of t pc p] u by simp
      note ok = erase_fix_l_ok [OF t s False, of pc p, unfolded u, simplified]
      show ?thesis
      proof (cases short)
        case True
        then have "rb_inv (erase_up fs u) \<and> keys (erase_up fs u) = keys (plug fs u)"
          using IH [of "Suc h" u] ok ctx f by simp
        then show ?thesis using True k u False f by (simp add: erase_up_black keys_plug del: erase_up.simps)
      next
        case False
        then have "rb_at (if pc = RB_BLACK then Suc (Suc h) else Suc h) fs u"
          using ok ctx f by (cases pc) (auto simp: rb_at_def)
        then show ?thesis using False \<open>\<not> red sib\<close> k u f by (auto simp: erase_up_black rb_inv_plug keys_plug simp del: erase_up.simps)
      qed
    qed
  next
    case f: (FR sib pc p)
    show ?thesis
    proof (cases "red sib")
      case True
      then obtain sl s sr where sib: "sib = Node sl (s, RB_RED) sr" by (cases sib rule: blacken.cases) auto
      have pc: "pc = RB_BLACK" using ctx f sib by (cases pc) simp_all
      then have s: "rb_sub (Suc h) sl" "rb_sub (Suc h) sr" "\<not> red sl" "\<not> red sr" "rb_ctx (Suc (Suc h)) fs"
        using ctx f sib by simp_all
      have "sr \<noteq> Leaf" using s(2) by auto
      moreover have "rb_sub (Suc h) (fst (erase_fix_r t RB_RED p sr))"
        using erase_fix_r_ok [OF t s(2,4), of RB_RED p] by (auto split: prod.splits if_splits)
      ultimately show ?thesis using f sib pc s
        by (auto simp: rb_inv_plug rb_at_def keys_plug keys_erase_fix intro!: exI [of _ "Suc (Suc h)"])
    next
      case False
      have s: "rb_sub (Suc h) sib" using ctx f by (cases pc) auto
      then have ne: "sib \<noteq> Leaf" by auto
      obtain u short where u: "erase_fix_r t pc p sib = (u, short)" by force
      have k: "keys u = keys sib @ p # keys t" using keys_erase_fix(2) [OF ne, of t pc p] u by simp
      note ok = erase_fix_r_ok [OF t s False, of pc p, unfolded u, simplified]
      show ?thesis
      proof (cases short)
        case True
        then have "rb_inv (erase_up fs u) \<and> keys (erase_up fs u) = keys (plug fs u)"
          using IH [of "Suc h" u] ok ctx f by simp
        then show ?thesis using True k u False f by (simp add: erase_up_black keys_plug del: erase_up.simps)
      next
        case False
        then have "rb_at (if pc = RB_BLACK then Suc (Suc h) else Suc h) fs u"
          using ok ctx f by (cases pc) (auto simp: rb_at_def)
        then show ?thesis using False \<open>\<not> red sib\<close> k u f by (auto simp: erase_up_black rb_inv_plug keys_plug simp del: erase_up.simps)
      qed
    qed
  qed
qed

text \<open>The leftmost node of a subtree: the frames down to it, its key, its colour and its right subtree.\<close>

fun leftmost_at :: "'a frame list \<Rightarrow> 'a rb_tree \<Rightarrow> 'a rb_color_node \<Rightarrow> 'a rb_tree \<Rightarrow> 'a frame list \<times> 'a rb_color_node \<times> 'a rb_tree" where
  "leftmost_at fs Leaf (s, sc) r = (fs, (s, sc), r)"
| "leftmost_at fs (Node l (a, c) r') (s, sc) r = leftmost_at (FL sc s r # fs) l (a, c) r'"

fun repaint :: "rb_color \<Rightarrow> 'a rb_tree \<Rightarrow> 'a rb_tree" where
  "repaint c Leaf = Leaf" | "repaint c (Node l (a, _) r) = Node l (a, c) r"

text \<open>
  A node with one child at most is replaced by the child; another one gives its place to its successor, the leftmost node of its
  right subtree, which is taken out of its own place.
\<close>

definition take_out :: "'a frame list \<Rightarrow> rb_color \<Rightarrow> 'a rb_tree \<Rightarrow> 'a rb_tree" where
  "take_out fs c child = (if child \<noteq> Leaf then plug fs (repaint c child) else if c = RB_BLACK then erase_up fs Leaf else plug fs Leaf)"

fun erase_tree :: "'a frame list \<Rightarrow> 'a rb_tree \<Rightarrow> 'a rb_tree" where
  "erase_tree fs (Node Leaf (a, c) r) = take_out fs c r"
| "erase_tree fs (Node l (a, c) Leaf) = plug fs (repaint c l)"
| "erase_tree fs (Node l (a, c) (Node rl (b, bc) rr)) =
     (case leftmost_at [] rl (b, bc) rr of (gs, (s, sc), child2) \<Rightarrow>
        if child2 \<noteq> Leaf then plug (gs @ FR l c s # fs) (repaint RB_BLACK child2)
        else take_out (gs @ FR l c s # fs) sc Leaf)"
| "erase_tree fs Leaf = plug fs Leaf"

lemma plug_append: "plug (fs @ gs) t = plug gs (plug fs t)"
  by (induction fs t rule: plug.induct) auto

lemma leftmost_at_plug:
  "leftmost_at fs l (s, sc) r = (gs, (m, mc), child) \<Longrightarrow> plug gs (Node Leaf (m, mc) child) = plug fs (Node l (s, sc) r)"
  by (induction fs l "(s, sc)" r arbitrary: s sc rule: leftmost_at.induct) auto

lemma leftmost_at_before: "leftmost_at fs l (s, sc) r = (gs, (m, mc), child) \<Longrightarrow> keys_before gs = keys_before fs"
  by (induction fs l "(s, sc)" r arbitrary: s sc rule: leftmost_at.induct) auto

lemma keys_before_append: "keys_before (gs @ fs) = keys_before fs @ keys_before gs" "keys_after (gs @ fs) = keys_after gs @ keys_after fs"
  by (induction gs rule: keys_before.induct) auto

lemma rb_sub_0: "rb_sub 0 t \<Longrightarrow> \<not> red t \<Longrightarrow> t = Leaf"
  by (cases t rule: blacken.cases) (auto split: rb_color.splits)

text \<open>A node with one child is black, and the child is red and has no children.\<close>

lemma one_child:
  assumes "rb_at h fs (Node Leaf (a, c) t) \<or> rb_at h fs (Node t (a, c) Leaf)" and "t \<noteq> Leaf"
  shows "c = RB_BLACK \<and> rb_ctx (Suc 0) fs \<and> (\<exists>b. t = Node Leaf (b, RB_RED) Leaf)"
proof -
  obtain x b bc y where t: "t = Node x (b, bc) y" using assms(2) by (cases t rule: blacken.cases) auto
  have c: "c = RB_BLACK"
  proof (rule ccontr)
    assume "c \<noteq> RB_BLACK"
    then have "rb_sub 0 t" "\<not> red t" using assms by (auto simp: rb_at_def)
    then show False using rb_sub_0 assms(2) by blast
  qed
  then have s: "rb_sub 0 t" "rb_ctx (Suc 0) fs" using assms by (auto simp: rb_at_def split: nat.splits)
  moreover from this have "bc = RB_RED" using t by (cases bc) simp_all
  ultimately show ?thesis using t c rb_sub_0 by auto
qed

lemma repaint_child_ok:
  assumes "rb_at h fs (Node Leaf (a, c) t) \<or> rb_at h fs (Node t (a, c) Leaf)" and "t \<noteq> Leaf"
  shows "rb_inv (plug fs (repaint c t)) \<and> keys (plug fs (repaint c t)) = keys_before fs @ keys t @ keys_after fs"
  using one_child [OF assms] by (auto simp: rb_inv_plug rb_at_def keys_plug intro!: exI [of _ "Suc 0"])

lemma take_out_ok:
  assumes "rb_at h fs (Node Leaf (a, c) child)"
  shows "rb_inv (take_out fs c child) \<and> keys (take_out fs c child) = keys_before fs @ keys child @ keys_after fs"
proof (cases "child = Leaf")
  case True
  show ?thesis
  proof (cases c)
    case RB_RED
    then show ?thesis using True assms by (auto simp: take_out_def rb_inv_plug rb_at_def keys_plug)
  next
    case RB_BLACK
    then have "rb_ctx (Suc 0) fs" using True assms by (auto simp: rb_at_def split: nat.splits)
    then show ?thesis using rb_erase_up [of 0 Leaf fs] True RB_BLACK by (simp add: take_out_def keys_plug)
  qed
next
  case False
  then show ?thesis using repaint_child_ok [of h fs a c child] assms by (simp add: take_out_def)
qed

lemma rb_at_rename: "rb_at h (gs @ FR l c a # fs) t \<Longrightarrow> rb_at h (gs @ FR l c b # fs) t"
proof -
  have "above (gs @ FR l c a # fs) = above (gs @ FR l c b # fs)" for gs by (cases gs rule: above.cases) auto
  moreover have "rb_ctx h (gs @ FR l c a # fs) = rb_ctx h (gs @ FR l c b # fs)" for h
    using calculation by (induction h gs rule: rb_ctx.induct; cases c; auto)
  ultimately show "rb_at h (gs @ FR l c a # fs) t \<Longrightarrow> rb_at h (gs @ FR l c b # fs) t" by (simp add: rb_at_def)
qed

lemma erase_tree_ok:
  assumes "rb_inv (plug fs (Node l (a, c) r))"
  shows "rb_inv (erase_tree fs (Node l (a, c) r)) \<and>
    keys (erase_tree fs (Node l (a, c) r)) = keys_before fs @ keys l @ keys r @ keys_after fs"
proof -
  obtain h where at: "rb_at h fs (Node l (a, c) r)" using assms by (auto simp: rb_inv_plug)
  show ?thesis
  proof (cases "l = Leaf \<or> r = Leaf")
    case True
    then show ?thesis using at take_out_ok [of h fs a c r] repaint_child_ok [of h fs a c l]
      by (cases l rule: blacken.cases) auto
  next
    case False
    then obtain rl b bc rr where r: "r = Node rl (b, bc) rr" by (cases r rule: blacken.cases) auto
    obtain gs s sc child where m: "leftmost_at [] rl (b, bc) rr = (gs, (s, sc), child)" by (metis prod.exhaust)
    let ?fs = "gs @ FR l c s # fs"
    have pl: "plug gs (Node Leaf (s, sc) child) = r" using leftmost_at_plug [OF m] r by simp
    have kb: "keys_before gs = []" using leftmost_at_before [OF m] by simp
    have "rb_inv (plug (gs @ FR l c a # fs) (Node Leaf (s, sc) child))" using assms pl by (simp add: plug_append)
    then obtain k where "rb_at k (gs @ FR l c a # fs) (Node Leaf (s, sc) child)" by (auto simp: rb_inv_plug)
    then have at': "rb_at k ?fs (Node Leaf (s, sc) child)" by (rule rb_at_rename)
    have kr: "keys r = s # keys child @ keys_after gs" using pl kb keys_plug [of gs "Node Leaf (s, sc) child"] by simp
    have "sc = RB_BLACK" if "child \<noteq> Leaf" using one_child [of k ?fs s sc child] at' that by blast
    then have "erase_tree fs (Node l (a, c) r) = take_out ?fs sc child"
      using False m r by (cases l rule: blacken.cases) (auto simp: take_out_def)
    then show ?thesis using take_out_ok [OF at'] kr kb by (simp add: keys_before_append)
  qed
qed

end
