(* ===== verification/Rbtree.thy ===== *)
theory Rbtree
  imports Rb_Zipper
begin

text \<open>
  \<open>src/adt/rbtree.c\<close> and \<open>include/skp/adt/rbtree.h\<close>: red-black trees of linked nodes.  The store maps the address of a node
  to its three fields; the parent pointer and the colour share one word, as in the source.  Every
  function is the sequence of reads and assignments of the source.
\<close>

section \<open>Nodes\<close>

type_synonym rb_ptr = u64

record rb_store =
  rb_parent_color :: "rb_ptr \<Rightarrow> u64"
  rb_right :: "rb_ptr \<Rightarrow> rb_ptr"
  rb_left :: "rb_ptr \<Rightarrow> rb_ptr"
  rb_node :: rb_ptr
  rb_leftmost :: rb_ptr

fun color_val :: "rb_color \<Rightarrow> u64" where
  "color_val RB_RED = 0" | "color_val RB_BLACK = 1"

definition u_rb_parent :: "u64 \<Rightarrow> rb_ptr" where "u_rb_parent pc = pc AND NOT 3"

definition u_rb_is_black :: "u64 \<Rightarrow> bool" where "u_rb_is_black pc \<longleftrightarrow> pc AND 1 \<noteq> 0"

definition rb_is_black :: "rb_store \<Rightarrow> rb_ptr \<Rightarrow> bool" where "rb_is_black s n \<longleftrightarrow> u_rb_is_black (rb_parent_color s n)"

definition rb_is_red :: "rb_store \<Rightarrow> rb_ptr \<Rightarrow> bool" where "rb_is_red s n \<longleftrightarrow> \<not> u_rb_is_black (rb_parent_color s n)"

definition rbt_parent :: "rb_store \<Rightarrow> rb_ptr \<Rightarrow> rb_ptr" where "rbt_parent s n = u_rb_parent (rb_parent_color s n)"

definition rbt_red_parent :: "rb_store \<Rightarrow> rb_ptr \<Rightarrow> rb_ptr" where "rbt_red_parent s n = rb_parent_color s n"

definition set_pc :: "rb_ptr \<Rightarrow> u64 \<Rightarrow> rb_store \<Rightarrow> rb_store" where
  "set_pc n w s = s\<lparr>rb_parent_color := (rb_parent_color s)(n := w)\<rparr>"

definition set_left :: "rb_ptr \<Rightarrow> rb_ptr \<Rightarrow> rb_store \<Rightarrow> rb_store" where
  "set_left n v s = s\<lparr>rb_left := (rb_left s)(n := v)\<rparr>"

definition set_right :: "rb_ptr \<Rightarrow> rb_ptr \<Rightarrow> rb_store \<Rightarrow> rb_store" where
  "set_right n v s = s\<lparr>rb_right := (rb_right s)(n := v)\<rparr>"

definition rb_set_parent :: "rb_ptr \<Rightarrow> rb_ptr \<Rightarrow> rb_store \<Rightarrow> rb_store" where
  "rb_set_parent n p s = set_pc n ((rb_parent_color s n AND 1) OR p) s"

definition rb_set_parent_color :: "rb_ptr \<Rightarrow> rb_ptr \<Rightarrow> rb_color \<Rightarrow> rb_store \<Rightarrow> rb_store" where
  "rb_set_parent_color n p c s = set_pc n (p OR color_val c) s"

definition rb_set_black :: "rb_ptr \<Rightarrow> rb_store \<Rightarrow> rb_store" where
  "rb_set_black n s = set_pc n (rb_parent_color s n OR color_val RB_BLACK) s"

definition rb_change_child :: "rb_ptr \<Rightarrow> rb_ptr \<Rightarrow> rb_ptr \<Rightarrow> rb_store \<Rightarrow> rb_store" where
  "rb_change_child old new parent s =
     (if parent \<noteq> 0 then (if rb_left s parent = old then set_left parent new s else set_right parent new s)
      else s\<lparr>rb_node := new\<rparr>)"

definition rb_rotate_set_parents :: "rb_ptr \<Rightarrow> rb_ptr \<Rightarrow> rb_color \<Rightarrow> rb_store \<Rightarrow> rb_store" where
  "rb_rotate_set_parents old new c s =
     (let parent = rbt_parent s old;
          s = set_pc new (rb_parent_color s old) s;
          s = rb_set_parent_color old new c s
      in rb_change_child old new parent s)"

text \<open>\<open>RBT_EMPTY_NODE\<close> and \<open>RBT_CLEAR_NODE\<close>: a node that is in no tree is its own parent.\<close>

definition RBT_EMPTY_NODE :: "rb_store \<Rightarrow> rb_ptr \<Rightarrow> bool" where
  "RBT_EMPTY_NODE s n \<longleftrightarrow> rb_parent_color s n = n"

definition RBT_CLEAR_NODE :: "rb_ptr \<Rightarrow> rb_store \<Rightarrow> rb_store" where
  "RBT_CLEAR_NODE n s = set_pc n n s"

section \<open>Insertion\<close>

text \<open>The link of a new node: the root, or the left or right field of its parent.\<close>

datatype rb_link = RootLink | LeftLink rb_ptr | RightLink rb_ptr

fun read_link :: "rb_store \<Rightarrow> rb_link \<Rightarrow> rb_ptr" where
  "read_link s RootLink = rb_node s" | "read_link s (LeftLink p) = rb_left s p" | "read_link s (RightLink p) = rb_right s p"

fun write_link :: "rb_link \<Rightarrow> rb_ptr \<Rightarrow> rb_store \<Rightarrow> rb_store" where
  "write_link RootLink v s = s\<lparr>rb_node := v\<rparr>" | "write_link (LeftLink p) v s = set_left p v s"
| "write_link (RightLink p) v s = set_right p v s"

definition rbt_link_node :: "rb_ptr \<Rightarrow> rb_ptr \<Rightarrow> rb_link \<Rightarrow> rb_store \<Rightarrow> rb_store" where
  "rbt_link_node node parent link s =
     (let s = set_pc node parent s; s = set_right node 0 s; s = set_left node 0 s in write_link link node s)"

text \<open>The rotations of one round: the parent is a left child, or a right child.\<close>

definition insert_rotate_l :: "rb_ptr \<Rightarrow> rb_ptr \<Rightarrow> rb_ptr \<Rightarrow> rb_store \<Rightarrow> rb_store" where
  "insert_rotate_l node parent gparent s =
     (let (parent, tmp, s) =
            (if node = rb_right s parent then
               let tmp = rb_left s node;
                   s = set_right parent tmp s;
                   s = set_left node parent s;
                   s = (if tmp \<noteq> 0 then rb_set_parent_color tmp parent RB_BLACK s else s);
                   s = rb_set_parent_color parent node RB_RED s
               in (node, rb_right s node, s)
             else (parent, rb_right s parent, s));
          s = set_left gparent tmp s;
          s = set_right parent gparent s;
          s = (if tmp \<noteq> 0 then rb_set_parent_color tmp gparent RB_BLACK s else s)
      in rb_rotate_set_parents gparent parent RB_RED s)"

definition insert_rotate_r :: "rb_ptr \<Rightarrow> rb_ptr \<Rightarrow> rb_ptr \<Rightarrow> rb_store \<Rightarrow> rb_store" where
  "insert_rotate_r node parent gparent s =
     (let (parent, tmp, s) =
            (if node = rb_left s parent then
               let tmp = rb_right s node;
                   s = set_left parent tmp s;
                   s = set_right node parent s;
                   s = (if tmp \<noteq> 0 then rb_set_parent_color tmp parent RB_BLACK s else s);
                   s = rb_set_parent_color parent node RB_RED s
               in (node, rb_left s node, s)
             else (parent, rb_left s parent, s));
          s = set_right gparent tmp s;
          s = set_left parent gparent s;
          s = (if tmp \<noteq> 0 then rb_set_parent_color tmp gparent RB_BLACK s else s)
      in rb_rotate_set_parents gparent parent RB_RED s)"

text \<open>Case 1: the colours of the parent, the uncle and the grandparent are exchanged.\<close>

definition insert_flip :: "rb_ptr \<Rightarrow> rb_ptr \<Rightarrow> rb_ptr \<Rightarrow> rb_store \<Rightarrow> rb_store" where
  "insert_flip tmp parent gparent s =
     (let s = rb_set_parent_color tmp gparent RB_BLACK s;
          s = rb_set_parent_color parent gparent RB_BLACK s
      in rb_set_parent_color gparent (rbt_parent s gparent) RB_RED s)"

partial_function (option) rb_insert_loop :: "rb_ptr \<Rightarrow> rb_ptr \<Rightarrow> rb_store \<Rightarrow> rb_store option" where
  "rb_insert_loop node parent s =
     (if parent = 0 then Some (rb_set_parent_color node 0 RB_BLACK s)
      else if rb_is_black s parent then Some s
      else
        let gparent = rbt_red_parent s parent in
        if parent \<noteq> rb_right s gparent then
          (let tmp = rb_right s gparent in
           if tmp \<noteq> 0 \<and> rb_is_red s tmp then rb_insert_loop gparent (rbt_parent s gparent) (insert_flip tmp parent gparent s)
           else Some (insert_rotate_l node parent gparent s))
        else
          (let tmp = rb_left s gparent in
           if tmp \<noteq> 0 \<and> rb_is_red s tmp then rb_insert_loop gparent (rbt_parent s gparent) (insert_flip tmp parent gparent s)
           else Some (insert_rotate_r node parent gparent s)))"

definition u_rb_insert :: "rb_ptr \<Rightarrow> bool \<Rightarrow> rb_store \<Rightarrow> rb_store option" where
  "u_rb_insert node new_left s =
     (let parent = rbt_red_parent s node;
          s = (if new_left then s\<lparr>rb_leftmost := node\<rparr> else s)
      in rb_insert_loop node parent s)"

section \<open>Representation\<close>

definition aligned :: "rb_ptr \<Rightarrow> bool" where "aligned p \<longleftrightarrow> p AND 3 = 0"

definition pcw :: "rb_ptr \<Rightarrow> rb_color \<Rightarrow> u64" where "pcw p c = p OR color_val c"

lemma aligned_bits: "aligned p \<Longrightarrow> n < 2 \<Longrightarrow> \<not> bit p n"
proof
  assume "aligned p" "n < 2" "bit p n"
  then have "bit (p AND mask 2) n" by (simp add: bit_simps)
  moreover have "(mask 2 :: u64) = 3" by (simp add: mask_eq_exp_minus_1)
  ultimately show False using \<open>aligned p\<close> by (simp add: aligned_def)
qed

lemma bit_3: "bit (3 :: u64) n \<longleftrightarrow> n < 2"
proof -
  have "(3 :: u64) = mask 2" by (simp add: mask_eq_exp_minus_1)
  then have "bit (3 :: u64) n \<longleftrightarrow> n < 64 \<and> n < 2" by (simp only: bit_mask_iff) simp
  then show ?thesis by linarith
qed

lemma pcw_parent [simp]: "aligned p \<Longrightarrow> u_rb_parent (pcw p c) = p"
proof (rule bit_word_eqI)
  fix n assume "aligned p" and n: "n < LENGTH(64)"
  then have "\<not> (bit p n \<and> bit (3 :: u64) n)" using aligned_bits bit_3 by blast
  moreover have "bit (3 :: u64) 0" by simp
  ultimately show "bit (u_rb_parent (pcw p c)) n = bit p n"
    using n by (cases c) (auto simp: u_rb_parent_def pcw_def bit_simps bit_1_iff)
qed

lemma pcw_black [simp]: "aligned p \<Longrightarrow> u_rb_is_black (pcw p c) \<longleftrightarrow> c = RB_BLACK"
proof -
  assume "aligned p"
  then have "\<not> bit p 0" using aligned_bits by simp
  then have "bit (pcw p c) 0 \<longleftrightarrow> c = RB_BLACK" by (cases c) (simp_all add: pcw_def bit_simps)
  then show ?thesis by (simp add: u_rb_is_black_def and_one_eq odd_iff_mod_2_eq_one bit_0)
qed

lemma pcw_red [simp]: "pcw p RB_RED = p"
  by (simp add: pcw_def)

lemma pcw_reparent: "aligned p \<Longrightarrow> (pcw p c AND 1) OR q = pcw q c"
proof (rule bit_word_eqI)
  fix n assume "aligned p" "n < LENGTH(64)"
  then show "bit ((pcw p c AND 1) OR q) n = bit (pcw q c) n"
    using aligned_bits [of p n] by (cases c) (auto simp: pcw_def bit_simps bit_1_iff)
qed

lemma pcw_set_black: "pcw p c OR 1 = pcw p RB_BLACK"
  by (cases c) (simp_all add: pcw_def or.assoc)

lemma aligned_0 [simp]: "aligned 0"
  by (simp add: aligned_def)

text \<open>
  The fields \<open>pc\<close>, \<open>lf\<close> and \<open>rt\<close> hold a tree with root \<open>x\<close> below the parent \<open>p\<close>; the keys of the tree are
  the addresses of its nodes.
\<close>

type_synonym rb_field = "rb_ptr \<Rightarrow> u64"

fun trep :: "rb_field \<Rightarrow> rb_field \<Rightarrow> rb_field \<Rightarrow> rb_ptr \<Rightarrow> rb_ptr \<Rightarrow> rb_ptr rb_tree \<Rightarrow> bool" where
  "trep pc lf rt p x Leaf \<longleftrightarrow> x = 0"
| "trep pc lf rt p x (Node l (a, c) r) \<longleftrightarrow>
     x = a \<and> a \<noteq> 0 \<and> aligned a \<and> pc a = pcw p c \<and> trep pc lf rt a (lf a) l \<and> trep pc lf rt a (rt a) r"

text \<open>The frames, from the parent of the place to the root.\<close>

fun cpar :: "rb_ptr frame list \<Rightarrow> rb_ptr" where
  "cpar [] = 0" | "cpar (FL c a r # fs) = a" | "cpar (FR l c a # fs) = a"

fun crep :: "rb_field \<Rightarrow> rb_field \<Rightarrow> rb_field \<Rightarrow> rb_ptr \<Rightarrow> rb_ptr \<Rightarrow> rb_ptr frame list \<Rightarrow> bool" where
  "crep pc lf rt root x [] \<longleftrightarrow> root = x"
| "crep pc lf rt root x (FL c a r # fs) \<longleftrightarrow>
     a \<noteq> 0 \<and> aligned a \<and> lf a = x \<and> pc a = pcw (cpar fs) c \<and> trep pc lf rt a (rt a) r \<and> crep pc lf rt root a fs"
| "crep pc lf rt root x (FR l c a # fs) \<longleftrightarrow>
     a \<noteq> 0 \<and> aligned a \<and> rt a = x \<and> pc a = pcw (cpar fs) c \<and> trep pc lf rt a (lf a) l \<and> crep pc lf rt root a fs"

fun top :: "rb_ptr rb_tree \<Rightarrow> rb_ptr" where
  "top Leaf = 0" | "top (Node l (a, c) r) = a"

fun ckeys :: "'a frame list \<Rightarrow> 'a list" where
  "ckeys [] = []" | "ckeys (FL c a r # fs) = a # keys r @ ckeys fs" | "ckeys (FR l c a # fs) = a # keys l @ ckeys fs"

lemma trep_top: "trep pc lf rt p x t \<Longrightarrow> x = top t"
  by (cases t rule: top.cases) auto

lemma trep_iff_top: "trep pc lf rt p x t \<longleftrightarrow> x = top t \<and> trep pc lf rt p (top t) t"
  using trep_top by metis

lemma trep_plug: "trep pc lf rt 0 root (plug fs t) \<longleftrightarrow> trep pc lf rt (cpar fs) (top t) t \<and> crep pc lf rt root (top t) fs"
proof (induction fs t rule: plug.induct)
  case (1 t)
  show ?case using trep_iff_top [of pc lf rt 0 root t] by auto
next
  case (2 f fs t)
  then show ?case
  proof (cases f)
    case (FL c a r)
    then show ?thesis using 2 trep_iff_top [of pc lf rt a "lf a" t] by auto
  next
    case (FR l c a)
    then show ?thesis using 2 trep_iff_top [of pc lf rt a "rt a" t] by auto
  qed
qed

lemma set_keys_plug: "set (keys (plug fs t)) = set (keys t) \<union> set (ckeys fs)"
proof (induction fs t rule: plug.induct)
  case (2 f fs t)
  then show ?case by (cases f) auto
qed simp

lemma distinct_plug: "distinct (keys (plug fs t)) \<longleftrightarrow> distinct (keys t @ ckeys fs)"
proof (induction fs t rule: plug.induct)
  case (2 f fs t)
  then show ?case by (cases f) auto
qed simp

text \<open>A write to a node outside changes nothing.\<close>

lemma trep_frame [simp]:
  "a \<notin> set (keys t) \<Longrightarrow> trep (pc(a := w)) lf rt p x t = trep pc lf rt p x t"
  "a \<notin> set (keys t) \<Longrightarrow> trep pc (lf(a := w)) rt p x t = trep pc lf rt p x t"
  "a \<notin> set (keys t) \<Longrightarrow> trep pc lf (rt(a := w)) p x t = trep pc lf rt p x t"
  by (induction t arbitrary: p x rule: keys.induct) auto

lemma crep_frame [simp]:
  "a \<notin> set (ckeys fs) \<Longrightarrow> crep (pc(a := w)) lf rt root x fs = crep pc lf rt root x fs"
  "a \<notin> set (ckeys fs) \<Longrightarrow> crep pc (lf(a := w)) rt root x fs = crep pc lf rt root x fs"
  "a \<notin> set (ckeys fs) \<Longrightarrow> crep pc lf (rt(a := w)) root x fs = crep pc lf rt root x fs"
  by (induction fs arbitrary: x rule: ckeys.induct) auto

section \<open>Steps on represented trees\<close>

definition tr :: "rb_store \<Rightarrow> rb_ptr \<Rightarrow> rb_ptr \<Rightarrow> rb_ptr rb_tree \<Rightarrow> bool" where
  "tr s p x t \<longleftrightarrow> trep (rb_parent_color s) (rb_left s) (rb_right s) p x t"

definition cr :: "rb_store \<Rightarrow> rb_ptr \<Rightarrow> rb_ptr frame list \<Rightarrow> bool" where
  "cr s x fs \<longleftrightarrow> crep (rb_parent_color s) (rb_left s) (rb_right s) (rb_node s) x fs"

definition rep_at :: "rb_store \<Rightarrow> rb_ptr frame list \<Rightarrow> rb_ptr rb_tree \<Rightarrow> bool" where
  "rep_at s fs t \<longleftrightarrow> tr s (cpar fs) (top t) t \<and> cr s (top t) fs \<and> distinct (keys t @ ckeys fs)"

definition rb_rep :: "rb_store \<Rightarrow> rb_ptr rb_tree \<Rightarrow> bool" where
  "rb_rep s t \<longleftrightarrow> tr s 0 (rb_node s) t \<and> distinct (keys t)"

lemma rb_rep_plug: "rb_rep s (plug fs t) \<longleftrightarrow> rep_at s fs t"
  by (simp add: rb_rep_def rep_at_def tr_def cr_def trep_plug distinct_plug)

lemma tr_simps [simp]:
  "tr s p x Leaf \<longleftrightarrow> x = 0"
  "tr s p x (Node l (a, c) r) \<longleftrightarrow> x = a \<and> a \<noteq> 0 \<and> aligned a \<and> rb_parent_color s a = pcw p c \<and> tr s a (rb_left s a) l \<and> tr s a (rb_right s a) r"
  by (simp_all add: tr_def)

lemma cr_simps [simp]:
  "cr s x [] \<longleftrightarrow> rb_node s = x"
  "cr s x (FL c a r # fs) \<longleftrightarrow> a \<noteq> 0 \<and> aligned a \<and> rb_left s a = x \<and> rb_parent_color s a = pcw (cpar fs) c \<and> tr s a (rb_right s a) r \<and> cr s a fs"
  "cr s x (FR l c a # fs) \<longleftrightarrow> a \<noteq> 0 \<and> aligned a \<and> rb_right s a = x \<and> rb_parent_color s a = pcw (cpar fs) c \<and> tr s a (rb_left s a) l \<and> cr s a fs"
  by (simp_all add: cr_def tr_def)

lemma tr_frame [simp]:
  "a \<notin> set (keys t) \<Longrightarrow> tr (set_pc a w s) p x t = tr s p x t"
  "a \<notin> set (keys t) \<Longrightarrow> tr (set_left a w s) p x t = tr s p x t"
  "a \<notin> set (keys t) \<Longrightarrow> tr (set_right a w s) p x t = tr s p x t"
  "tr (s\<lparr>rb_node := y\<rparr>) p x t = tr s p x t" "tr (s\<lparr>rb_leftmost := y\<rparr>) p x t = tr s p x t"
  by (simp_all add: tr_def set_pc_def set_left_def set_right_def)

lemma cr_frame [simp]:
  "a \<notin> set (ckeys fs) \<Longrightarrow> cr (set_pc a w s) x fs = cr s x fs"
  "a \<notin> set (ckeys fs) \<Longrightarrow> cr (set_left a w s) x fs = cr s x fs"
  "a \<notin> set (ckeys fs) \<Longrightarrow> cr (set_right a w s) x fs = cr s x fs"
  "cr (s\<lparr>rb_leftmost := y\<rparr>) x fs = cr s x fs"
  by (simp_all add: cr_def set_pc_def set_left_def set_right_def)

lemma store_reads [simp]:
  "rb_parent_color (set_pc a w s) = (rb_parent_color s)(a := w)" "rb_left (set_pc a w s) = rb_left s" "rb_right (set_pc a w s) = rb_right s" "rb_node (set_pc a w s) = rb_node s"
  "rb_parent_color (set_left a w s) = rb_parent_color s" "rb_left (set_left a w s) = (rb_left s)(a := w)" "rb_right (set_left a w s) = rb_right s" "rb_node (set_left a w s) = rb_node s"
  "rb_parent_color (set_right a w s) = rb_parent_color s" "rb_left (set_right a w s) = rb_left s" "rb_right (set_right a w s) = (rb_right s)(a := w)" "rb_node (set_right a w s) = rb_node s"
  "rb_parent_color (rb_change_child a b q s) = rb_parent_color s"
  by (simp_all add: set_pc_def set_left_def set_right_def rb_change_child_def)

lemma set_parent_color_pc [simp]: "rb_set_parent_color n p c s = set_pc n (pcw p c) s"
  by (simp add: rb_set_parent_color_def pcw_def)

text \<open>Replacing the child of the place.\<close>

lemma change_child_other [simp]:
  "q \<noteq> n \<Longrightarrow> rb_left (rb_change_child a b q s) n = rb_left s n"
  "q \<noteq> n \<Longrightarrow> rb_right (rb_change_child a b q s) n = rb_right s n"
  by (simp_all add: rb_change_child_def)

lemma change_child_tr [simp]: "q \<notin> set (keys t) \<Longrightarrow> tr (rb_change_child a b q s) p x t = tr s p x t"
  by (simp add: rb_change_child_def)

lemma tr_0: "tr s p x t \<Longrightarrow> 0 \<notin> set (keys t)"
  by (induction t arbitrary: p x rule: keys.induct) auto

lemma cr_0: "cr s x fs \<Longrightarrow> 0 \<notin> set (ckeys fs)"
  by (induction fs arbitrary: x rule: ckeys.induct) (auto dest: tr_0)

lemma tr_top: "tr s p x t \<Longrightarrow> x = top t"
  by (auto simp: tr_def dest: trep_top)

lemma top_in: "top t \<noteq> 0 \<Longrightarrow> top t \<in> set (keys t)"
  by (cases t rule: top.cases) auto

lemma change_child_cr [simp]:
  assumes "cr s x fs" and "x \<noteq> 0" and "x \<notin> set (ckeys fs)" and "distinct (ckeys fs)"
  shows "cr (rb_change_child x y (cpar fs) s) y fs"
proof (cases fs rule: cpar.cases)
  case 1
  then show ?thesis using assms by (simp add: rb_change_child_def)
next
  case (2 c a r gs)
  then show ?thesis using assms by (auto simp: rb_change_child_def)
next
  case (3 l c a gs)
  have "rb_left s a \<noteq> x"
  proof
    assume "rb_left s a = x"
    then have "x = top l" using assms(1) 3 tr_top by auto
    then show False using top_in assms(2,3) 3 by auto
  qed
  then show ?thesis using assms 3 by (auto simp: rb_change_child_def)
qed

text \<open>The frames are a frame of the place: its parent is not among the nodes below.\<close>

lemma cpar_in: "fs \<noteq> [] \<Longrightarrow> cpar fs \<in> set (ckeys fs)"
  by (cases fs rule: cpar.cases) auto

lemma rep_at_cpar: "rep_at s fs t \<Longrightarrow> cpar fs \<notin> set (keys t)"
  by (cases "fs = []") (use cpar_in in \<open>auto simp: rep_at_def dest: tr_0\<close>)

lemma cr_cpar_aligned: "cr s x fs \<Longrightarrow> aligned (cpar fs)"
  by (cases fs rule: cpar.cases) auto

lemma top_disj: "set (keys t) \<inter> set (keys v) = {} \<Longrightarrow> top t \<noteq> 0 \<Longrightarrow> top v \<noteq> top t"
  using top_in by (metis IntI empty_iff)

lemma rep_at_append: "rep_at s (gs @ fs) t \<longleftrightarrow> rep_at s fs (plug gs t)"
  using rb_rep_plug [of s "gs @ fs" t] rb_rep_plug [of s fs "plug gs t"] by (simp add: plug_append)

text \<open>What the proofs of the rotations need of the two frames above the place.\<close>

lemma rep_at_two:
  assumes "rep_at s (f # g # fs) t"
  shows "cpar fs \<notin> set (keys (fill g (fill f t)))" and "aligned (cpar fs)"
  using rep_at_append [of s "[f, g]" fs t] assms rep_at_cpar [of s fs "fill g (fill f t)"]
  by (auto simp: rep_at_def dest: cr_cpar_aligned)

lemma rep_at_tops:
  assumes "rep_at s (FL c p v # fs) t \<or> rep_at s (FR v c p # fs) t" and "top t \<noteq> 0"
  shows "top v \<noteq> top t"
  using assms by (intro top_disj) (auto simp: rep_at_def)

lemmas insert_rotate_simps = rep_at_def insert_rotate_l_def insert_rotate_r_def Let_def rb_rotate_set_parents_def rbt_parent_def

lemma rep_at_distinct: "rep_at s fs t \<Longrightarrow> distinct (keys t @ ckeys fs)"
  by (simp add: rep_at_def)

lemma rep_atI:
  "distinct (keys t @ ckeys fs) \<Longrightarrow> (distinct (keys t @ ckeys fs) \<Longrightarrow> tr s (cpar fs) (top t) t \<and> cr s (top t) fs) \<Longrightarrow> rep_at s fs t"
  by (simp add: rep_at_def)

lemma insert_rotate_l_3:
  assumes "rep_at s (FL RB_RED p v # FL gc g u # fs) t" and "top t \<noteq> 0" and "\<not> red v"
  shows "rep_at (insert_rotate_l (top t) p g s) fs (Node t (p, gc) (Node v (g, RB_RED) u))"
proof (rule rep_atI, use rep_at_distinct [OF assms(1)] in force)
qed (use assms rep_at_two [OF assms(1)] rep_at_tops [OF disjI1 [OF assms(1)] assms(2)] in \<open>cases v rule: top.cases; clarsimp simp: insert_rotate_simps\<close>)

lemma insert_rotate_r_3:
  assumes "rep_at s (FR v RB_RED p # FR u gc g # fs) t" and "top t \<noteq> 0" and "\<not> red v"
  shows "rep_at (insert_rotate_r (top t) p g s) fs (Node (Node u (g, RB_RED) v) (p, gc) t)"
proof (rule rep_atI, use rep_at_distinct [OF assms(1)] in force)
qed (use assms rep_at_two [OF assms(1)] rep_at_tops [OF disjI2 [OF assms(1)] assms(2)] in \<open>cases v rule: top.cases; clarsimp simp: insert_rotate_simps\<close>)

lemma insert_rotate_l_2:
  assumes "rep_at s (FR v RB_RED p # FL gc g u # fs) (Node x (n, RB_RED) y)" and "\<not> red x" "\<not> red y"
  shows "rep_at (insert_rotate_l n p g s) fs (Node (Node v (p, RB_RED) x) (n, gc) (Node y (g, RB_RED) u))"
proof (rule rep_atI, use rep_at_distinct [OF assms(1)] in force)
qed (use assms rep_at_two [OF assms(1)] in \<open>cases x rule: top.cases; cases y rule: top.cases; clarsimp simp: insert_rotate_simps\<close>)

lemma insert_rotate_r_2:
  assumes "rep_at s (FL RB_RED p v # FR u gc g # fs) (Node x (n, RB_RED) y)" and "\<not> red x" "\<not> red y"
  shows "rep_at (insert_rotate_r n p g s) fs (Node (Node u (g, RB_RED) x) (n, gc) (Node y (p, RB_RED) v))"
proof (rule rep_atI, use rep_at_distinct [OF assms(1)] in force)
qed (use assms rep_at_two [OF assms(1)] in \<open>cases x rule: top.cases; cases y rule: top.cases; clarsimp simp: insert_rotate_simps\<close>)

lemmas insert_flip_simps = rep_at_def insert_flip_def Let_def rbt_parent_def

lemma insert_flip_ll:
  assumes "rep_at s (FL RB_RED p v # FL gc g u # fs) t" and "red u"
  shows "rep_at (insert_flip (top u) p g s) fs (Node (Node t (p, RB_BLACK) v) (g, RB_RED) (blacken u))"
  using assms rep_at_two [OF assms(1)] by (cases u rule: top.cases; clarsimp simp: insert_flip_simps; blast)

lemma insert_flip_rl:
  assumes "rep_at s (FR v RB_RED p # FL gc g u # fs) t" and "red u"
  shows "rep_at (insert_flip (top u) p g s) fs (Node (Node v (p, RB_BLACK) t) (g, RB_RED) (blacken u))"
  using assms rep_at_two [OF assms(1)] by (cases u rule: top.cases; clarsimp simp: insert_flip_simps; blast)

lemma insert_flip_rr:
  assumes "rep_at s (FR v RB_RED p # FR u gc g # fs) t" and "red u"
  shows "rep_at (insert_flip (top u) p g s) fs (Node (blacken u) (g, RB_RED) (Node v (p, RB_BLACK) t))"
  using assms rep_at_two [OF assms(1)] by (cases u rule: top.cases; clarsimp simp: insert_flip_simps; blast)

lemma insert_flip_lr:
  assumes "rep_at s (FL RB_RED p v # FR u gc g # fs) t" and "red u"
  shows "rep_at (insert_flip (top u) p g s) fs (Node (blacken u) (g, RB_RED) (Node t (p, RB_BLACK) v))"
  using assms rep_at_two [OF assms(1)] by (cases u rule: top.cases; clarsimp simp: insert_flip_simps; blast)

text \<open>Nothing is written outside the nodes \<open>A\<close>.\<close>

definition rb_frame :: "rb_ptr set \<Rightarrow> rb_store \<Rightarrow> rb_store \<Rightarrow> bool" where
  "rb_frame A s s' \<longleftrightarrow> rb_leftmost s' = rb_leftmost s \<and>
     (\<forall>a. a \<notin> A \<longrightarrow> rb_parent_color s' a = rb_parent_color s a \<and> rb_left s' a = rb_left s a \<and> rb_right s' a = rb_right s a)"

lemma rb_frame_refl [simp]: "rb_frame A s s"
  by (simp add: rb_frame_def)

lemma rb_frame_trans: "rb_frame A s s' \<Longrightarrow> rb_frame A s' s'' \<Longrightarrow> rb_frame A s s''"
  by (auto simp: rb_frame_def)

lemma rb_frame_writes [simp]:
  "a \<in> A \<Longrightarrow> rb_frame A s (set_pc a w s') \<longleftrightarrow> rb_frame A s s'"
  "a \<in> A \<Longrightarrow> rb_frame A s (set_left a w s') \<longleftrightarrow> rb_frame A s s'"
  "a \<in> A \<Longrightarrow> rb_frame A s (set_right a w s') \<longleftrightarrow> rb_frame A s s'"
  "q = 0 \<or> q \<in> A \<Longrightarrow> rb_frame A s (rb_change_child a b q s') \<longleftrightarrow> rb_frame A s s'"
  by (auto simp: rb_frame_def set_pc_def set_left_def set_right_def rb_change_child_def)

lemma cpar_0: "cpar fs = 0 \<or> cpar fs \<in> set (ckeys fs)"
  by (cases fs rule: cpar.cases) auto

lemma tr_child: "tr s p x t \<Longrightarrow> x \<noteq> 0 \<Longrightarrow> x \<in> set (keys t)"
  using tr_top top_in by metis

lemma insert_rotate_l_frame:
  assumes "rep_at s (FL RB_RED p v # FL gc g u # fs) t" and "top t \<noteq> 0"
  shows "rb_frame (set (keys t) \<union> set (ckeys (FL RB_RED p v # FL gc g u # fs))) s (insert_rotate_l (top t) p g s)"
  using assms rep_at_two [OF assms(1)] rep_at_tops [OF disjI1 [OF assms(1)] assms(2)] cpar_0 [of fs] top_in [of t]
  by (cases v rule: top.cases; clarsimp simp: insert_rotate_simps; blast?)

lemma insert_rotate_r_frame:
  assumes "rep_at s (FR v RB_RED p # FR u gc g # fs) t" and "top t \<noteq> 0"
  shows "rb_frame (set (keys t) \<union> set (ckeys (FR v RB_RED p # FR u gc g # fs))) s (insert_rotate_r (top t) p g s)"
  using assms rep_at_two [OF assms(1)] rep_at_tops [OF disjI2 [OF assms(1)] assms(2)] cpar_0 [of fs] top_in [of t]
  by (cases v rule: top.cases; clarsimp simp: insert_rotate_simps; blast?)

lemma insert_rotate_l2_frame:
  assumes "rep_at s (FR v RB_RED p # FL gc g u # fs) (Node x (n, RB_RED) y)"
  shows "rb_frame (insert n (set (keys x) \<union> set (keys y)) \<union> set (ckeys (FR v RB_RED p # FL gc g u # fs))) s (insert_rotate_l n p g s)"
  using assms rep_at_two [OF assms(1)] cpar_0 [of fs]
  by (cases x rule: top.cases; cases y rule: top.cases; clarsimp simp: insert_rotate_simps; blast?)

lemma insert_rotate_r2_frame:
  assumes "rep_at s (FL RB_RED p v # FR u gc g # fs) (Node x (n, RB_RED) y)"
  shows "rb_frame (insert n (set (keys x) \<union> set (keys y)) \<union> set (ckeys (FL RB_RED p v # FR u gc g # fs))) s (insert_rotate_r n p g s)"
  using assms rep_at_two [OF assms(1)] cpar_0 [of fs]
  by (cases x rule: top.cases; cases y rule: top.cases; clarsimp simp: insert_rotate_simps; blast?)

lemma insert_flip_frame: "u \<in> A \<Longrightarrow> p \<in> A \<Longrightarrow> g \<in> A \<Longrightarrow> rb_frame A s (insert_flip u p g s)"
  by (simp add: insert_flip_def Let_def)

lemma red_top: "red t \<Longrightarrow> top t \<noteq> 0 \<or> 0 \<in> set (keys t)"
  by (cases t rule: top.cases) auto

text \<open>What the loop reads of the uncle and of the grandparent.\<close>

lemma tr_red: "tr s p x t \<Longrightarrow> aligned p \<Longrightarrow> x \<noteq> 0 \<and> rb_is_red s x \<longleftrightarrow> red t"
  by (cases t rule: top.cases) (auto simp: rb_is_red_def)

lemma aligned_red [simp]: "aligned p \<Longrightarrow> \<not> u_rb_is_black p"
  using pcw_black [of p RB_RED] by simp

lemma insert_reads:
  assumes "rep_at s (f # h # fs) t" and "f = FL RB_RED p v \<or> f = FR v RB_RED p"
  shows "h = FL gc g u \<Longrightarrow> p \<noteq> 0 \<and> \<not> rb_is_black s p \<and> rbt_red_parent s p = g \<and> rbt_parent s g = cpar fs \<and> p \<noteq> top u \<and>
      rb_right s g = top u \<and> (top u \<noteq> 0 \<and> rb_is_red s (top u) \<longleftrightarrow> red u) \<and> (red u \<longrightarrow> top u \<in> set (keys u))"
    and "h = FR u gc g \<Longrightarrow> p \<noteq> 0 \<and> \<not> rb_is_black s p \<and> rbt_red_parent s p = g \<and> rbt_parent s g = cpar fs \<and>
      rb_right s g = p \<and> rb_left s g = top u \<and> (top u \<noteq> 0 \<and> rb_is_red s (top u) \<longleftrightarrow> red u) \<and> (red u \<longrightarrow> top u \<in> set (keys u))"
proof -
  have al: "aligned (cpar fs)" by (rule rep_at_two [OF assms(1)])
  have u: "tr s g x u \<Longrightarrow> aligned g \<Longrightarrow> x = top u \<and> (top u \<noteq> 0 \<and> rb_is_red s (top u) \<longleftrightarrow> red u) \<and> (red u \<longrightarrow> top u \<in> set (keys u))" for x g
    using tr_top [of s g x u] tr_red [of s g x u] top_in [of u] by auto
  show "p \<noteq> 0 \<and> \<not> rb_is_black s p \<and> rbt_red_parent s p = g \<and> rbt_parent s g = cpar fs \<and> p \<noteq> top u \<and>
      rb_right s g = top u \<and> (top u \<noteq> 0 \<and> rb_is_red s (top u) \<longleftrightarrow> red u) \<and> (red u \<longrightarrow> top u \<in> set (keys u))" if h: "h = FL gc g u"
  proof -
    have *: "p \<noteq> 0" "rb_parent_color s p = g" "aligned g" "rb_parent_color s g = pcw (cpar fs) gc" "tr s g (rb_right s g) u" "p \<notin> set (keys u)"
      using assms h by (auto simp: rep_at_def)
    then show ?thesis using u [OF *(5,3)] al top_in [of u] by (auto simp: rb_is_black_def rbt_red_parent_def rbt_parent_def)
  qed
  show "p \<noteq> 0 \<and> \<not> rb_is_black s p \<and> rbt_red_parent s p = g \<and> rbt_parent s g = cpar fs \<and>
      rb_right s g = p \<and> rb_left s g = top u \<and> (top u \<noteq> 0 \<and> rb_is_red s (top u) \<longleftrightarrow> red u) \<and> (red u \<longrightarrow> top u \<in> set (keys u))" if h: "h = FR u gc g"
  proof -
    have *: "p \<noteq> 0" "rb_parent_color s p = g" "aligned g" "rb_parent_color s g = pcw (cpar fs) gc" "tr s g (rb_left s g) u" "rb_right s g = p"
      using assms h by (auto simp: rep_at_def)
    then show ?thesis using u [OF *(5,3)] al by (auto simp: rb_is_black_def rbt_red_parent_def rbt_parent_def)
  qed
qed

definition rb_done :: "rb_ptr rb_tree \<Rightarrow> rb_ptr frame list \<Rightarrow> rb_ptr rb_tree \<Rightarrow> rb_store \<Rightarrow> rb_store option \<Rightarrow> bool" where
  "rb_done T fs t s res \<longleftrightarrow> (\<exists>s'. res = Some s' \<and> rb_rep s' T \<and> rb_frame (set (keys (plug fs t))) s s')"

text \<open>A round that flips the colours and goes on with the rest of the frames.\<close>

lemma rb_done_flip:
  assumes "rb_done T fs t' (insert_flip u p g s) res" and "set (keys (plug fs t')) = set (keys (plug gs t))"
    and "u \<in> set (keys (plug gs t))" "p \<in> set (keys (plug gs t))" "g \<in> set (keys (plug gs t))"
  shows "rb_done T gs t s res"
  using assms insert_flip_frame [OF assms(3-5), of s] by (auto simp: rb_done_def intro: rb_frame_trans)

lemma rb_done_rotate:
  "rep_at s' fs t' \<Longrightarrow> rb_frame (set (keys t) \<union> set (ckeys gs)) s s' \<Longrightarrow> rb_done (plug fs t') gs t s (Some s')"
  by (simp add: rb_done_def rb_rep_plug set_keys_plug)

lemma insert_black:
  assumes "rep_at s fs t" and "fs \<noteq> []" and "above fs = RB_BLACK"
  shows "rb_done (plug fs t) fs t s (rb_insert_loop (top t) (cpar fs) s)"
proof -
  have "cpar fs \<noteq> 0" "rb_is_black s (cpar fs)"
    using assms by (cases fs rule: cpar.cases; auto simp: rep_at_def rb_is_black_def dest: cr_cpar_aligned)+
  then show ?thesis using assms(1) by (subst rb_insert_loop.simps) (auto simp: rb_done_def rb_rep_plug)
qed

lemma rb_insert_loop_at:
  assumes "rep_at s fs t" and "rb_sub h t" "red t" "rb_ctx h fs"
  shows "rb_done (insert_up fs t) fs t s (rb_insert_loop (top t) (cpar fs) s)"
  using assms
proof (induction fs t arbitrary: h s rule: insert_up.induct)
  case (1 t)
  obtain x n y where t: "t = Node x (n, RB_RED) y" using 1(3) by (cases t rule: top.cases) auto
  then have "rb_rep (rb_set_parent_color (top t) 0 RB_BLACK s) (blacken t)" using 1(1) by (auto simp: rep_at_def rb_rep_def)
  then show ?case using t by (subst rb_insert_loop.simps) (auto simp: rb_done_def)
next
  case (2 p v gc g u fs t)
  let ?fs = "FL RB_RED p v # FL gc g u # fs"
  have ctx: "gc = RB_BLACK" "rb_sub h v" "\<not> red v" "rb_sub h u" "rb_ctx (Suc h) fs" using 2(5) by auto
  note r = insert_reads(1) [OF 2(2), of p v gc g u, simplified]
  have tn: "top t \<noteq> 0" using 2(2,4) by (auto simp: rep_at_def dest: red_top tr_0)
  show ?case
  proof (cases "red u")
    case True
    let ?t = "Node (Node t (p, RB_BLACK) v) (g, RB_RED) (blacken u)" and ?s = "insert_flip (top u) p g s"
    have "rb_done (insert_up fs ?t) fs ?t ?s (rb_insert_loop (top ?t) (cpar fs) ?s)"
      using 2(1) [OF True, of ?s "Suc h"] insert_flip_ll [OF 2(2) True] 2(3) ctx blacken_sub [OF True ctx(4)] by simp
    moreover have "set (keys (plug fs ?t)) = set (keys (plug ?fs t))" unfolding set_keys_plug by auto
    moreover have "top u \<in> set (keys (plug ?fs t))" "p \<in> set (keys (plug ?fs t))" "g \<in> set (keys (plug ?fs t))"
      unfolding set_keys_plug using r True by simp_all
    ultimately have "rb_done (insert_up fs ?t) ?fs t s (rb_insert_loop g (cpar fs) ?s)"
      using rb_done_flip [of "insert_up fs ?t" fs ?t "top u" p g s] by (simp del: plug.simps)
    moreover have "insert_up ?fs t = insert_up fs ?t" using True by simp
    ultimately have "rb_done (insert_up ?fs t) ?fs t s (rb_insert_loop g (cpar fs) ?s)" by metis
    then show ?thesis using r True by (subst rb_insert_loop.simps) (simp add: Let_def del: insert_up.simps plug.simps)
  next
    case False
    then have "rb_insert_loop (top t) (cpar ?fs) s = Some (insert_rotate_l (top t) p g s)"
      using r by (subst rb_insert_loop.simps) (auto simp: Let_def)
    then show ?thesis using False rb_done_rotate [OF insert_rotate_l_3 [OF 2(2) tn ctx(3)] insert_rotate_l_frame [OF 2(2) tn]] by simp
  qed
next
  case (3 v p gc g u fs t)
  let ?fs = "FR v RB_RED p # FL gc g u # fs"
  have ctx: "gc = RB_BLACK" "rb_sub h v" "\<not> red v" "rb_sub h u" "rb_ctx (Suc h) fs" using 3(5) by auto
  note r = insert_reads(1) [OF 3(2), of p v gc g u, simplified]
  have tn: "top t \<noteq> 0" using 3(2,4) by (auto simp: rep_at_def dest: red_top tr_0)
  show ?case
  proof (cases "red u")
    case True
    let ?t = "Node (Node v (p, RB_BLACK) t) (g, RB_RED) (blacken u)" and ?s = "insert_flip (top u) p g s"
    have "rb_done (insert_up fs ?t) fs ?t ?s (rb_insert_loop (top ?t) (cpar fs) ?s)"
      using 3(1) [OF True, of ?s "Suc h"] insert_flip_rl [OF 3(2) True] 3(3) ctx blacken_sub [OF True ctx(4)] by simp
    moreover have "set (keys (plug fs ?t)) = set (keys (plug ?fs t))" unfolding set_keys_plug by auto
    moreover have "top u \<in> set (keys (plug ?fs t))" "p \<in> set (keys (plug ?fs t))" "g \<in> set (keys (plug ?fs t))"
      unfolding set_keys_plug using r True by simp_all
    ultimately have "rb_done (insert_up fs ?t) ?fs t s (rb_insert_loop g (cpar fs) ?s)"
      using rb_done_flip [of "insert_up fs ?t" fs ?t "top u" p g s] by (simp del: plug.simps)
    moreover have "insert_up ?fs t = insert_up fs ?t" using True by simp
    ultimately have "rb_done (insert_up ?fs t) ?fs t s (rb_insert_loop g (cpar fs) ?s)" by metis
    then show ?thesis using r True by (subst rb_insert_loop.simps) (simp add: Let_def del: insert_up.simps plug.simps)
  next
    case False
    obtain x n y where t: "t = Node x (n, RB_RED) y" using 3(4) by (cases t rule: top.cases) auto
    then have xy: "\<not> red x" "\<not> red y" using 3(3) by auto
    have "rb_insert_loop (top t) (cpar ?fs) s = Some (insert_rotate_l n p g s)"
      using r False t by (subst rb_insert_loop.simps) (auto simp: Let_def)
    then show ?thesis using False t rb_done_rotate [OF insert_rotate_l_2 [OF 3(2) [unfolded t] xy], of t ?fs s] insert_rotate_l2_frame [OF 3(2) [unfolded t]] by simp
  qed
next
  case (4 v p u gc g fs t)
  let ?fs = "FR v RB_RED p # FR u gc g # fs"
  have ctx: "gc = RB_BLACK" "rb_sub h v" "\<not> red v" "rb_sub h u" "rb_ctx (Suc h) fs" using 4(5) by auto
  note r = insert_reads(2) [OF 4(2), of p v u gc g, simplified]
  have tn: "top t \<noteq> 0" using 4(2,4) by (auto simp: rep_at_def dest: red_top tr_0)
  show ?case
  proof (cases "red u")
    case True
    let ?t = "Node (blacken u) (g, RB_RED) (Node v (p, RB_BLACK) t)" and ?s = "insert_flip (top u) p g s"
    have "rb_done (insert_up fs ?t) fs ?t ?s (rb_insert_loop (top ?t) (cpar fs) ?s)"
      using 4(1) [OF True, of ?s "Suc h"] insert_flip_rr [OF 4(2) True] 4(3) ctx blacken_sub [OF True ctx(4)] by simp
    moreover have "set (keys (plug fs ?t)) = set (keys (plug ?fs t))" unfolding set_keys_plug by auto
    moreover have "top u \<in> set (keys (plug ?fs t))" "p \<in> set (keys (plug ?fs t))" "g \<in> set (keys (plug ?fs t))"
      unfolding set_keys_plug using r True by simp_all
    ultimately have "rb_done (insert_up fs ?t) ?fs t s (rb_insert_loop g (cpar fs) ?s)"
      using rb_done_flip [of "insert_up fs ?t" fs ?t "top u" p g s] by (simp del: plug.simps)
    moreover have "insert_up ?fs t = insert_up fs ?t" using True by simp
    ultimately have "rb_done (insert_up ?fs t) ?fs t s (rb_insert_loop g (cpar fs) ?s)" by metis
    then show ?thesis using r True by (subst rb_insert_loop.simps) (simp add: Let_def del: insert_up.simps plug.simps)
  next
    case False
    then have "rb_insert_loop (top t) (cpar ?fs) s = Some (insert_rotate_r (top t) p g s)"
      using r by (subst rb_insert_loop.simps) (auto simp: Let_def)
    then show ?thesis using False rb_done_rotate [OF insert_rotate_r_3 [OF 4(2) tn ctx(3)] insert_rotate_r_frame [OF 4(2) tn]] by simp
  qed
next
  case (5 p v u gc g fs t)
  let ?fs = "FL RB_RED p v # FR u gc g # fs"
  have ctx: "gc = RB_BLACK" "rb_sub h v" "\<not> red v" "rb_sub h u" "rb_ctx (Suc h) fs" using 5(5) by auto
  note r = insert_reads(2) [OF 5(2), of p v u gc g, simplified]
  have tn: "top t \<noteq> 0" using 5(2,4) by (auto simp: rep_at_def dest: red_top tr_0)
  show ?case
  proof (cases "red u")
    case True
    let ?t = "Node (blacken u) (g, RB_RED) (Node t (p, RB_BLACK) v)" and ?s = "insert_flip (top u) p g s"
    have "rb_done (insert_up fs ?t) fs ?t ?s (rb_insert_loop (top ?t) (cpar fs) ?s)"
      using 5(1) [OF True, of ?s "Suc h"] insert_flip_lr [OF 5(2) True] 5(3) ctx blacken_sub [OF True ctx(4)] by simp
    moreover have "set (keys (plug fs ?t)) = set (keys (plug ?fs t))" unfolding set_keys_plug by auto
    moreover have "top u \<in> set (keys (plug ?fs t))" "p \<in> set (keys (plug ?fs t))" "g \<in> set (keys (plug ?fs t))"
      unfolding set_keys_plug using r True by simp_all
    ultimately have "rb_done (insert_up fs ?t) ?fs t s (rb_insert_loop g (cpar fs) ?s)"
      using rb_done_flip [of "insert_up fs ?t" fs ?t "top u" p g s] by (simp del: plug.simps)
    moreover have "insert_up ?fs t = insert_up fs ?t" using True by simp
    ultimately have "rb_done (insert_up ?fs t) ?fs t s (rb_insert_loop g (cpar fs) ?s)" by metis
    then show ?thesis using r True by (subst rb_insert_loop.simps) (simp add: Let_def del: insert_up.simps plug.simps)
  next
    case False
    obtain x n y where t: "t = Node x (n, RB_RED) y" using 5(4) by (cases t rule: top.cases) auto
    then have xy: "\<not> red x" "\<not> red y" using 5(3) by auto
    have "rb_insert_loop (top t) (cpar ?fs) s = Some (insert_rotate_r n p g s)"
      using r False t by (subst rb_insert_loop.simps) (auto simp: Let_def)
    then show ?thesis using False t rb_done_rotate [OF insert_rotate_r_2 [OF 5(2) [unfolded t] xy], of t ?fs s] insert_rotate_r2_frame [OF 5(2) [unfolded t]] by simp
  qed
qed (auto simp del: plug.simps cpar.simps intro!: insert_black dest: rb_ctx_one)

end
