(* ===== verification/Rb_Erase.thy ===== *)
theory Rb_Erase
  imports Rbtree
begin

text \<open>
  \<open>src/adt/rbtree.c\<close>: removal from a red-black tree (\<open>__rb_erase_node\<close>, \<open>__rb_erase_color\<close>), walking it in order and
  replacing a node.  The loop of \<open>__rb_erase_color\<close> is shown to implement \<open>erase_up\<close> and the whole of \<open>rbt_erase\<close> to implement
  \<open>erase_tree\<close> of the trees as values.
\<close>

section \<open>Removal\<close>

text \<open>Case 1: the red sibling is rotated up; the new sibling is returned.\<close>

definition erase_case1_l :: "rb_ptr \<Rightarrow> rb_ptr \<Rightarrow> rb_store \<Rightarrow> rb_ptr \<times> rb_store" where
  "erase_case1_l parent sibling s =
     (let tmp1 = rb_left s sibling;
          s = set_right parent tmp1 s;
          s = set_left sibling parent s;
          s = rb_set_parent_color tmp1 parent RB_BLACK s;
          s = rb_rotate_set_parents parent sibling RB_RED s
      in (tmp1, s))"

definition erase_case1_r :: "rb_ptr \<Rightarrow> rb_ptr \<Rightarrow> rb_store \<Rightarrow> rb_ptr \<times> rb_store" where
  "erase_case1_r parent sibling s =
     (let tmp1 = rb_right s sibling;
          s = set_left parent tmp1 s;
          s = set_right sibling parent s;
          s = rb_set_parent_color tmp1 parent RB_BLACK s;
          s = rb_rotate_set_parents parent sibling RB_RED s
      in (tmp1, s))"

text \<open>Case 3 rotates the red inner child \<open>tmp2\<close> of the sibling up; case 4 rotates at the parent, \<open>tmp1\<close> is the outer child.\<close>

definition erase_case3_l :: "rb_ptr \<Rightarrow> rb_ptr \<Rightarrow> rb_ptr \<Rightarrow> rb_store \<Rightarrow> rb_store" where
  "erase_case3_l parent sibling tmp2 s =
     (let tmp1 = rb_right s tmp2;
          s = set_left sibling tmp1 s;
          s = set_right tmp2 sibling s;
          s = set_right parent tmp2 s
      in if tmp1 \<noteq> 0 then rb_set_parent_color tmp1 sibling RB_BLACK s else s)"

definition erase_case4_l :: "rb_ptr \<Rightarrow> rb_ptr \<Rightarrow> rb_ptr \<Rightarrow> rb_store \<Rightarrow> rb_store" where
  "erase_case4_l parent sibling tmp1 s =
     (let tmp2 = rb_left s sibling;
          s = set_right parent tmp2 s;
          s = set_left sibling parent s;
          s = rb_set_parent_color tmp1 sibling RB_BLACK s;
          s = (if tmp2 \<noteq> 0 then rb_set_parent tmp2 parent s else s)
      in rb_rotate_set_parents parent sibling RB_BLACK s)"

definition erase_case3_r :: "rb_ptr \<Rightarrow> rb_ptr \<Rightarrow> rb_ptr \<Rightarrow> rb_store \<Rightarrow> rb_store" where
  "erase_case3_r parent sibling tmp2 s =
     (let tmp1 = rb_left s tmp2;
          s = set_right sibling tmp1 s;
          s = set_left tmp2 sibling s;
          s = set_left parent tmp2 s
      in if tmp1 \<noteq> 0 then rb_set_parent_color tmp1 sibling RB_BLACK s else s)"

definition erase_case4_r :: "rb_ptr \<Rightarrow> rb_ptr \<Rightarrow> rb_ptr \<Rightarrow> rb_store \<Rightarrow> rb_store" where
  "erase_case4_r parent sibling tmp1 s =
     (let tmp2 = rb_right s sibling;
          s = set_left parent tmp2 s;
          s = set_right sibling parent s;
          s = rb_set_parent_color tmp1 sibling RB_BLACK s;
          s = (if tmp2 \<noteq> 0 then rb_set_parent tmp2 parent s else s)
      in rb_rotate_set_parents parent sibling RB_BLACK s)"

text \<open>
  A round of the loop.  Case 2 makes the sibling red and ends by
  making a red parent black, or at the root; otherwise it goes on at the parent.
\<close>

partial_function (option) rb_erase_loop :: "rb_ptr \<Rightarrow> rb_ptr \<Rightarrow> rb_store \<Rightarrow> rb_store option" where
  "rb_erase_loop node parent s =
     (if node \<noteq> rb_right s parent then
        (let sibling = rb_right s parent;
             (sibling, s) = (if rb_is_red s sibling then erase_case1_l parent sibling s else (sibling, s));
             tmp1 = rb_right s sibling in
         if tmp1 = 0 \<or> rb_is_black s tmp1 then
           (let tmp2 = rb_left s sibling in
            if tmp2 = 0 \<or> rb_is_black s tmp2 then
              (let s = rb_set_parent_color sibling parent RB_RED s in
               if rb_is_red s parent then Some (rb_set_black parent s)
               else if rbt_parent s parent \<noteq> 0 then rb_erase_loop parent (rbt_parent s parent) s else Some s)
            else Some (erase_case4_l parent tmp2 sibling (erase_case3_l parent sibling tmp2 s)))
         else Some (erase_case4_l parent sibling tmp1 s))
      else
        (let sibling = rb_left s parent;
             (sibling, s) = (if rb_is_red s sibling then erase_case1_r parent sibling s else (sibling, s));
             tmp1 = rb_left s sibling in
         if tmp1 = 0 \<or> rb_is_black s tmp1 then
           (let tmp2 = rb_right s sibling in
            if tmp2 = 0 \<or> rb_is_black s tmp2 then
              (let s = rb_set_parent_color sibling parent RB_RED s in
               if rb_is_red s parent then Some (rb_set_black parent s)
               else if rbt_parent s parent \<noteq> 0 then rb_erase_loop parent (rbt_parent s parent) s else Some s)
            else Some (erase_case4_r parent tmp2 sibling (erase_case3_r parent sibling tmp2 s)))
         else Some (erase_case4_r parent sibling tmp1 s)))"

definition u_rb_erase_color :: "rb_ptr \<Rightarrow> rb_store \<Rightarrow> rb_store option" where
  "u_rb_erase_color parent s = rb_erase_loop 0 parent s"

lemma rep_at_one:
  assumes "rep_at s (f # fs) t"
  shows "cpar fs \<notin> set (keys (fill f t))" and "aligned (cpar fs)"
  using rep_at_append [of s "[f]" fs t] assms rep_at_cpar [of s fs "fill f t"]
  by (auto simp: rep_at_def dest: cr_cpar_aligned)

lemmas erase_simps = rep_at_def Let_def rb_rotate_set_parents_def rbt_parent_def rb_is_black_def rb_set_parent_def pcw_reparent

lemma erase_case1_l_at:
  assumes "rep_at s (FL pc p (Node sl (n, RB_RED) sr) # fs) t" and "sl \<noteq> Leaf" "\<not> red sl"
  shows "fst (erase_case1_l p n s) = top sl \<and> rep_at (snd (erase_case1_l p n s)) (FL RB_RED p sl # FL pc n sr # fs) t"
proof (rule conjI, use assms in \<open>force simp: erase_case1_l_def Let_def rep_at_def dest: tr_top\<close>, rule rep_atI, use rep_at_distinct [OF assms(1)] in force)
qed (use assms rep_at_one [OF assms(1)] in \<open>cases sl rule: top.cases; clarsimp simp: erase_simps erase_case1_l_def\<close>)

lemma erase_case1_r_at:
  assumes "rep_at s (FR (Node sl (n, RB_RED) sr) pc p # fs) t" and "sr \<noteq> Leaf" "\<not> red sr"
  shows "fst (erase_case1_r p n s) = top sr \<and> rep_at (snd (erase_case1_r p n s)) (FR sr RB_RED p # FR sl pc n # fs) t"
proof (rule conjI, use assms in \<open>force simp: erase_case1_r_def Let_def rep_at_def dest: tr_top\<close>, rule rep_atI, use rep_at_distinct [OF assms(1)] in force)
qed (use assms rep_at_one [OF assms(1)] in \<open>cases sr rule: top.cases; clarsimp simp: erase_simps erase_case1_r_def\<close>)

text \<open>Case 4 on the fields it reads: \<open>q\<close> is the outer child, \<open>x\<close> the inner subtree with any parent.\<close>

lemma erase_case4_l_fields:
  assumes "tr s p (rb_left s p) t" "rb_parent_color s p = pcw (cpar fs) pc" "cr s p fs" "aligned p" "p \<noteq> 0"
    and "n \<noteq> 0" "aligned n" "tr s p' (rb_left s n) x" "aligned p'" "rb_right s n = q"
    and "q \<noteq> 0" "aligned q" "tr s q (rb_left s q) l" "tr s q (rb_right s q) r"
    and "cpar fs \<notin> {p, n, q} \<union> set (keys t) \<union> set (keys x) \<union> set (keys l) \<union> set (keys r)"
    and "distinct (p # n # q # keys t @ keys x @ keys l @ keys r @ ckeys fs)"
  shows "rep_at (erase_case4_l p n q s) fs (Node (Node t (p, RB_BLACK) x) (n, pc) (Node l (q, RB_BLACK) r))"
proof (rule rep_atI, use assms(16) in force)
qed (use assms cr_cpar_aligned [OF assms(3)] tr_top [OF assms(1)] in \<open>cases x rule: top.cases; clarsimp simp: erase_simps erase_case4_l_def\<close>)

lemma erase_case4_r_fields:
  assumes "tr s p (rb_right s p) t" "rb_parent_color s p = pcw (cpar fs) pc" "cr s p fs" "aligned p" "p \<noteq> 0"
    and "n \<noteq> 0" "aligned n" "tr s p' (rb_right s n) x" "aligned p'" "rb_left s n = q"
    and "q \<noteq> 0" "aligned q" "tr s q (rb_left s q) l" "tr s q (rb_right s q) r"
    and "cpar fs \<notin> {p, n, q} \<union> set (keys t) \<union> set (keys x) \<union> set (keys l) \<union> set (keys r)"
    and "distinct (p # n # q # keys t @ keys l @ keys r @ keys x @ ckeys fs)"
  shows "rep_at (erase_case4_r p n q s) fs (Node (Node l (q, RB_BLACK) r) (n, pc) (Node x (p, RB_BLACK) t))"
proof (rule rep_atI, use assms(16) in force)
qed (use assms cr_cpar_aligned [OF assms(3)] tr_top [OF assms(1)] in \<open>cases x rule: top.cases; clarsimp simp: erase_simps erase_case4_r_def\<close>)

lemma erase_case4_l_at:
  assumes "rep_at s (FL pc p (Node sl (n, c) sr) # fs) t" and "red sr"
  shows "rep_at (erase_case4_l p n (top sr) s) fs (Node (Node t (p, RB_BLACK) sl) (n, pc) (blacken sr))"
proof -
  obtain l q r where sr: "sr = Node l (q, RB_RED) r" using assms(2) by (cases sr rule: top.cases) auto
  have "rep_at (erase_case4_l p n q s) fs (Node (Node t (p, RB_BLACK) sl) (n, pc) (Node l (q, RB_BLACK) r))"
    by (rule erase_case4_l_fields [of s p t fs pc n n]) (use assms(1) sr rep_at_one [OF assms(1)] in \<open>auto simp: rep_at_def\<close>)
  then show ?thesis using sr by simp
qed

lemma erase_case4_r_at:
  assumes "rep_at s (FR (Node sl (n, c) sr) pc p # fs) t" and "red sl"
  shows "rep_at (erase_case4_r p n (top sl) s) fs (Node (blacken sl) (n, pc) (Node sr (p, RB_BLACK) t))"
proof -
  obtain l q r where sl: "sl = Node l (q, RB_RED) r" using assms(2) by (cases sl rule: top.cases) auto
  have "rep_at (erase_case4_r p n q s) fs (Node (Node l (q, RB_BLACK) r) (n, pc) (Node sr (p, RB_BLACK) t))"
    by (rule erase_case4_r_fields [of s p t fs pc n n]) (use assms(1) sl rep_at_one [OF assms(1)] in \<open>auto simp: rep_at_def\<close>)
  then show ?thesis using sl by simp
qed

lemma erase_case3_l_at:
  assumes "rep_at s (FL pc p (Node (Node x (m, RB_RED) y) (n, c) sr) # fs) t" and "\<not> red y"
  shows "rep_at (erase_case4_l p m n (erase_case3_l p n m s)) fs (Node (Node t (p, RB_BLACK) x) (m, pc) (Node y (n, RB_BLACK) sr))"
  by (rule erase_case4_l_fields [of _ p t fs pc m m];
     use assms rep_at_one [OF assms(1)] in \<open>cases y rule: top.cases; clarsimp simp: rep_at_def Let_def erase_case3_l_def\<close>)

lemma erase_case3_r_at:
  assumes "rep_at s (FR (Node sl (n, c) (Node x (m, RB_RED) y)) pc p # fs) t" and "\<not> red x"
  shows "rep_at (erase_case4_r p m n (erase_case3_r p n m s)) fs (Node (Node sl (n, RB_BLACK) x) (m, pc) (Node y (p, RB_BLACK) t))"
  by (rule erase_case4_r_fields [of _ p t fs pc m m];
     use assms rep_at_one [OF assms(1)] in \<open>cases x rule: top.cases; clarsimp simp: rep_at_def Let_def erase_case3_r_def\<close>)

text \<open>Nothing is written outside the tree.\<close>

lemmas erase_frame_simps = Let_def rb_rotate_set_parents_def rbt_parent_def rb_set_parent_def
  erase_case1_l_def erase_case1_r_def erase_case3_l_def erase_case3_r_def erase_case4_l_def erase_case4_r_def

lemma erase_case1_l_frame:
  assumes "rep_at s (FL pc p (Node sl (n, c) sr) # fs) t" and "sl \<noteq> Leaf"
  shows "rb_frame (set (keys t) \<union> set (ckeys (FL pc p (Node sl (n, c) sr) # fs))) s (snd (erase_case1_l p n s))"
  using assms rep_at_one [OF assms(1)] cpar_0 [of fs]
  by (cases sl rule: top.cases; clarsimp simp: rep_at_def erase_frame_simps; blast?)

lemma erase_case4_l_frame:
  assumes "rep_at s (FL pc p (Node sl (n, c) sr) # fs) t" and "red sr"
  shows "rb_frame (set (keys t) \<union> set (ckeys (FL pc p (Node sl (n, c) sr) # fs))) s (erase_case4_l p n (top sr) s)"
  using assms rep_at_one [OF assms(1)] cpar_0 [of fs]
  by (cases sr rule: top.cases; cases sl rule: top.cases; clarsimp simp: rep_at_def erase_frame_simps; blast?)

lemma erase_case3_l_frame:
  assumes "rep_at s (FL pc p (Node (Node x (m, RB_RED) y) (n, c) sr) # fs) t"
  shows "rb_frame (set (keys t) \<union> set (ckeys (FL pc p (Node (Node x (m, RB_RED) y) (n, c) sr) # fs))) s (erase_case4_l p m n (erase_case3_l p n m s))"
  using assms rep_at_one [OF assms(1)] cpar_0 [of fs]
  by (cases x rule: top.cases; cases y rule: top.cases; clarsimp simp: rep_at_def erase_frame_simps; blast?)

lemma erase_case1_r_frame:
  assumes "rep_at s (FR (Node sl (n, c) sr) pc p # fs) t" and "sr \<noteq> Leaf"
  shows "rb_frame (set (keys t) \<union> set (ckeys (FR (Node sl (n, c) sr) pc p # fs))) s (snd (erase_case1_r p n s))"
  using assms rep_at_one [OF assms(1)] cpar_0 [of fs]
  by (cases sr rule: top.cases; clarsimp simp: rep_at_def erase_frame_simps; blast?)

lemma erase_case4_r_frame:
  assumes "rep_at s (FR (Node sl (n, c) sr) pc p # fs) t" and "red sl"
  shows "rb_frame (set (keys t) \<union> set (ckeys (FR (Node sl (n, c) sr) pc p # fs))) s (erase_case4_r p n (top sl) s)"
  using assms rep_at_one [OF assms(1)] cpar_0 [of fs]
  by (cases sl rule: top.cases; cases sr rule: top.cases; clarsimp simp: rep_at_def erase_frame_simps; blast?)

lemma erase_case3_r_frame:
  assumes "rep_at s (FR (Node sl (n, c) (Node x (m, RB_RED) y)) pc p # fs) t"
  shows "rb_frame (set (keys t) \<union> set (ckeys (FR (Node sl (n, c) (Node x (m, RB_RED) y)) pc p # fs))) s (erase_case4_r p m n (erase_case3_r p n m s))"
  using assms rep_at_one [OF assms(1)] cpar_0 [of fs]
  by (cases x rule: top.cases; cases y rule: top.cases; clarsimp simp: rep_at_def erase_frame_simps; blast?)

text \<open>Case 2: the colours of the sibling and of the parent.\<close>

lemma erase_sibling_red:
  "rep_at s (FL pc p (Node sl (n, c) sr) # fs) t \<Longrightarrow> rep_at (rb_set_parent_color n p RB_RED s) (FL pc p (Node sl (n, RB_RED) sr) # fs) t"
  "rep_at s (FR (Node sl (n, c) sr) pc p # fs) t \<Longrightarrow> rep_at (rb_set_parent_color n p RB_RED s) (FR (Node sl (n, RB_RED) sr) pc p # fs) t"
  by (clarsimp simp: rep_at_def; blast)+

lemma erase_parent_black:
  "rep_at s (FL pc p r # fs) t \<Longrightarrow> rep_at (rb_set_black p s) fs (Node t (p, RB_BLACK) r)"
  "rep_at s (FR l pc p # fs) t \<Longrightarrow> rep_at (rb_set_black p s) fs (Node l (p, RB_BLACK) t)"
  by (clarsimp simp: rep_at_def rb_set_black_def pcw_set_black; blast)+

lemma tr_not_red: "tr s p x t \<Longrightarrow> aligned p \<Longrightarrow> x = 0 \<or> rb_is_black s x \<longleftrightarrow> \<not> red t"
  by (cases t rule: top.cases) (auto simp: rb_is_black_def)

lemma rep_at_parent:
  "rep_at s (FL pc p r # fs) t \<Longrightarrow> rbt_parent s p = cpar fs \<and> (rb_is_red s p \<longleftrightarrow> pc = RB_RED) \<and> rb_right s p = top r \<and> (r \<noteq> Leaf \<longrightarrow> top t \<noteq> top r)"
  "rep_at s (FR l pc p # fs) t \<Longrightarrow> rbt_parent s p = cpar fs \<and> (rb_is_red s p \<longleftrightarrow> pc = RB_RED) \<and> rb_right s p = top t \<and> rb_left s p = top l"
proof -
  assume r: "rep_at s (FL pc p r # fs) t"
  have "top t \<noteq> top r" if "r \<noteq> Leaf"
  proof -
    have "top r \<in> set (keys r)" "top r \<noteq> 0" using that r by (cases r rule: top.cases; auto simp: rep_at_def)+
    then show ?thesis using r top_in [of t] by (auto simp: rep_at_def)
  qed
  then show "rbt_parent s p = cpar fs \<and> (rb_is_red s p \<longleftrightarrow> pc = RB_RED) \<and> rb_right s p = top r \<and> (r \<noteq> Leaf \<longrightarrow> top t \<noteq> top r)"
    using r by (auto simp: rep_at_def rbt_parent_def rb_is_red_def dest: cr_cpar_aligned tr_top)
next
  assume "rep_at s (FR l pc p # fs) t"
  then show "rbt_parent s p = cpar fs \<and> (rb_is_red s p \<longleftrightarrow> pc = RB_RED) \<and> rb_right s p = top t \<and> rb_left s p = top l"
    by (auto simp: rep_at_def rbt_parent_def rb_is_red_def dest: cr_cpar_aligned tr_top)
qed

lemma rep_at_sibling:
  assumes "rep_at s (FL pc p (Node sl (n, c) sr) # fs) t \<or> rep_at s (FR (Node sl (n, c) sr) pc p # fs) t"
  shows "(rb_is_red s n \<longleftrightarrow> c = RB_RED) \<and> rb_left s n = top sl \<and> rb_right s n = top sr \<and>
    (top sl = 0 \<or> rb_is_black s (top sl) \<longleftrightarrow> \<not> red sl) \<and> (top sr = 0 \<or> rb_is_black s (top sr) \<longleftrightarrow> \<not> red sr)"
proof -
  have *: "tr s n (rb_left s n) sl" "tr s n (rb_right s n) sr" "aligned n" "aligned p" "rb_parent_color s n = pcw p c"
    using assms by (auto simp: rep_at_def)
  then show ?thesis
    using tr_top [OF *(1)] tr_top [OF *(2)] tr_not_red [OF *(1,3)] tr_not_red [OF *(2,3)] by (auto simp: rb_is_red_def)
qed

lemma cpar_nz: "rep_at s fs t \<Longrightarrow> cpar fs = 0 \<longleftrightarrow> fs = []"
  by (cases fs rule: cpar.cases) (auto simp: rep_at_def)

text \<open>The result of a round: the fixed subtree, done or still short.\<close>

definition erase_round :: "rb_ptr rb_tree \<times> bool \<Rightarrow> rb_ptr \<Rightarrow> rb_ptr frame list \<Rightarrow> rb_ptr set \<Rightarrow> rb_store \<Rightarrow> rb_store option \<Rightarrow> bool" where
  "erase_round us p fs A s res \<longleftrightarrow>
     (\<exists>s'. rep_at s' fs (fst us) \<and> rb_frame A s s' \<and>
        res = (if snd us \<and> fs \<noteq> [] then rb_erase_loop p (cpar fs) s' else Some s'))"

lemma erase_roundI:
  "rep_at s' fs u \<Longrightarrow> rb_frame A s s' \<Longrightarrow> res = (if short \<and> fs \<noteq> [] then rb_erase_loop p (cpar fs) s' else Some s') \<Longrightarrow>
     erase_round (u, short) p fs A s res"
  by (auto simp: erase_round_def)

lemma erase_round_end: "rep_at s' fs u \<Longrightarrow> rb_frame A s s' \<Longrightarrow> erase_round (u, False) p fs A s (Some s')"
  by (auto simp: erase_round_def)

lemma erase_round_case2_l:
  assumes "rep_at s (FL pc p (Node sl (n, c) sr) # fs) t" and "p \<in> A" "n \<in> A"
  shows "erase_round (Node t (p, RB_BLACK) (Node sl (n, RB_RED) sr), pc = RB_BLACK) p fs A s
    (let s = rb_set_parent_color n p RB_RED s in
     if rb_is_red s p then Some (rb_set_black p s)
     else if rbt_parent s p \<noteq> 0 then rb_erase_loop p (rbt_parent s p) s else Some s)"
proof -
  let ?s = "rb_set_parent_color n p RB_RED s"
  note r = erase_sibling_red(1) [OF assms(1)]
  note rp = rep_at_parent(1) [OF r] and b = erase_parent_black(1) [OF r]
  have f: "rb_frame A s ?s" "rb_frame A s (rb_set_black p ?s)" using assms(2,3) by (simp_all add: rb_set_black_def)
  show ?thesis
  proof (cases pc)
    case RB_RED
    then show ?thesis using rp by (intro erase_roundI [OF b f(2)]) (simp add: Let_def del: set_parent_color_pc)
  next
    case RB_BLACK
    have "rep_at ?s fs (Node t (p, RB_BLACK) (Node sl (n, RB_RED) sr))"
      using r RB_BLACK rep_at_append [of ?s "[FL pc p (Node sl (n, RB_RED) sr)]" fs t] by simp
    then show ?thesis using rp RB_BLACK cpar_nz by (intro erase_roundI [OF _ f(1)]) (auto simp: Let_def simp del: set_parent_color_pc)
  qed
qed

lemma erase_round_case2_r:
  assumes "rep_at s (FR (Node sl (n, c) sr) pc p # fs) t" and "p \<in> A" "n \<in> A"
  shows "erase_round (Node (Node sl (n, RB_RED) sr) (p, RB_BLACK) t, pc = RB_BLACK) p fs A s
    (let s = rb_set_parent_color n p RB_RED s in
     if rb_is_red s p then Some (rb_set_black p s)
     else if rbt_parent s p \<noteq> 0 then rb_erase_loop p (rbt_parent s p) s else Some s)"
proof -
  let ?s = "rb_set_parent_color n p RB_RED s"
  note r = erase_sibling_red(2) [OF assms(1)]
  note rp = rep_at_parent(2) [OF r] and b = erase_parent_black(2) [OF r]
  have f: "rb_frame A s ?s" "rb_frame A s (rb_set_black p ?s)" using assms(2,3) by (simp_all add: rb_set_black_def)
  show ?thesis
  proof (cases pc)
    case RB_RED
    then show ?thesis using rp by (intro erase_roundI [OF b f(2)]) (simp add: Let_def del: set_parent_color_pc)
  next
    case RB_BLACK
    have "rep_at ?s fs (Node (Node sl (n, RB_RED) sr) (p, RB_BLACK) t)"
      using r RB_BLACK rep_at_append [of ?s "[FR (Node sl (n, RB_RED) sr) pc p]" fs t] by simp
    then show ?thesis using rp RB_BLACK cpar_nz by (intro erase_roundI [OF _ f(1)]) (auto simp: Let_def simp del: set_parent_color_pc)
  qed
qed

lemma red_node: "red t \<Longrightarrow> \<exists>x m y. t = Node x (m, RB_RED) y"
  by (cases t rule: red.cases) auto

text \<open>A round with a black sibling.\<close>

lemma erase_black_l:
  assumes r: "rep_at s (FL pc p (Node sl (n, RB_BLACK) sr) # fs) t" and h: "rb_sub h sl"
  shows "erase_round (erase_fix_l t pc p (Node sl (n, RB_BLACK) sr)) p fs (set (keys t) \<union> set (ckeys (FL pc p (Node sl (n, RB_BLACK) sr) # fs))) s
    (rb_erase_loop (top t) p s)"
proof -
  let ?A = "set (keys t) \<union> set (ckeys (FL pc p (Node sl (n, RB_BLACK) sr) # fs))"
  note reads = rep_at_parent(1) [OF r] rep_at_sibling [OF disjI1 [OF r]]
  consider (c4) "red sr" | (c3) x m y where "\<not> red sr" "sl = Node x (m, RB_RED) y" | (c2) "\<not> red sr" "\<not> red sl"
    using red_node [of sl] by blast
  then show ?thesis
  proof cases
    case c4
    then have "rb_erase_loop (top t) p s = Some (erase_case4_l p n (top sr) s)"
      using reads by (subst rb_erase_loop.simps) (auto simp: Let_def)
    then show ?thesis using c4 erase_round_end [OF erase_case4_l_at [OF r c4] erase_case4_l_frame [OF r c4]] by simp
  next
    case c3
    note r' = r [unfolded c3(2)]
    have y: "\<not> red y" using h c3(2) by auto
    have "rb_erase_loop (top t) p s = Some (erase_case4_l p m n (erase_case3_l p n m s))"
      using reads c3 by (subst rb_erase_loop.simps) (auto simp: Let_def)
    then show ?thesis using c3 erase_round_end [OF erase_case3_l_at [OF r' y] erase_case3_l_frame [OF r']] by simp
  next
    case c2
    then have "rb_erase_loop (top t) p s = (let s = rb_set_parent_color n p RB_RED s in
        if rb_is_red s p then Some (rb_set_black p s) else if rbt_parent s p \<noteq> 0 then rb_erase_loop p (rbt_parent s p) s else Some s)"
      using reads by (subst rb_erase_loop.simps) (auto simp: Let_def simp del: set_parent_color_pc)
    moreover have "erase_fix_l t pc p (Node sl (n, RB_BLACK) sr) = (Node t (p, RB_BLACK) (Node sl (n, RB_RED) sr), pc = RB_BLACK)"
      using c2 by (auto split: tree.splits rb_color.splits)
    ultimately show ?thesis using erase_round_case2_l [OF r, of ?A] by simp
  qed
qed

lemma erase_black_r:
  assumes r: "rep_at s (FR (Node sl (n, RB_BLACK) sr) pc p # fs) t" and h: "rb_sub h sr"
  shows "erase_round (erase_fix_r t pc p (Node sl (n, RB_BLACK) sr)) p fs (set (keys t) \<union> set (ckeys (FR (Node sl (n, RB_BLACK) sr) pc p # fs))) s
    (rb_erase_loop (top t) p s)"
proof -
  let ?A = "set (keys t) \<union> set (ckeys (FR (Node sl (n, RB_BLACK) sr) pc p # fs))"
  note reads = rep_at_parent(2) [OF r] rep_at_sibling [OF disjI2 [OF r]]
  consider (c4) "red sl" | (c3) x m y where "\<not> red sl" "sr = Node x (m, RB_RED) y" | (c2) "\<not> red sl" "\<not> red sr"
    using red_node [of sr] by blast
  then show ?thesis
  proof cases
    case c4
    then have "rb_erase_loop (top t) p s = Some (erase_case4_r p n (top sl) s)"
      using reads by (subst rb_erase_loop.simps) (auto simp: Let_def)
    then show ?thesis using c4 erase_round_end [OF erase_case4_r_at [OF r c4] erase_case4_r_frame [OF r c4]] by simp
  next
    case c3
    note r' = r [unfolded c3(2)]
    have y: "\<not> red x" using h c3(2) by auto
    have "rb_erase_loop (top t) p s = Some (erase_case4_r p m n (erase_case3_r p n m s))"
      using reads c3 by (subst rb_erase_loop.simps) (auto simp: Let_def)
    then show ?thesis using c3 erase_round_end [OF erase_case3_r_at [OF r' y] erase_case3_r_frame [OF r']] by simp
  next
    case c2
    then have "rb_erase_loop (top t) p s = (let s = rb_set_parent_color n p RB_RED s in
        if rb_is_red s p then Some (rb_set_black p s) else if rbt_parent s p \<noteq> 0 then rb_erase_loop p (rbt_parent s p) s else Some s)"
      using reads by (subst rb_erase_loop.simps) (auto simp: Let_def simp del: set_parent_color_pc)
    moreover have "erase_fix_r t pc p (Node sl (n, RB_BLACK) sr) = (Node (Node sl (n, RB_RED) sr) (p, RB_BLACK) t, pc = RB_BLACK)"
      using c2 by (auto split: tree.splits rb_color.splits)
    ultimately show ?thesis using erase_round_case2_r [OF r, of ?A] by simp
  qed
qed

text \<open>A red sibling: the round goes on below, with a black one.\<close>

lemma erase_red_l:
  assumes r: "rep_at s (FL pc p (Node sl (n, RB_RED) sr) # fs) t" and sl: "sl \<noteq> Leaf" "\<not> red sl"
  shows "rb_erase_loop (top t) p s = rb_erase_loop (top t) p (snd (erase_case1_l p n s))"
proof -
  obtain m' s1 where e: "erase_case1_l p n s = (m', s1)" by force
  note c1 = erase_case1_l_at [OF r sl]
  obtain x m y where m: "sl = Node x (m, RB_BLACK) y" using sl by (cases sl rule: top.cases) auto
  have m': "m' = m" using c1 m e by simp
  have r': "rep_at s1 (FL RB_RED p (Node x (m, RB_BLACK) y) # FL pc n sr # fs) t" using c1 m e by simp
  show ?thesis
    using rep_at_parent(1) [OF r] rep_at_sibling [OF disjI1 [OF r]] rep_at_parent(1) [OF r'] rep_at_sibling [OF disjI1 [OF r']]
    by (subst (1 2) rb_erase_loop.simps) (simp add: e m' Let_def del: set_parent_color_pc)
qed

lemma erase_red_r:
  assumes r: "rep_at s (FR (Node sl (n, RB_RED) sr) pc p # fs) t" and sr: "sr \<noteq> Leaf" "\<not> red sr"
  shows "rb_erase_loop (top t) p s = rb_erase_loop (top t) p (snd (erase_case1_r p n s))"
proof -
  obtain m' s1 where e: "erase_case1_r p n s = (m', s1)" by force
  note c1 = erase_case1_r_at [OF r sr]
  obtain x m y where m: "sr = Node x (m, RB_BLACK) y" using sr by (cases sr rule: top.cases) auto
  have m': "m' = m" using c1 m e by simp
  have r': "rep_at s1 (FR (Node x (m, RB_BLACK) y) RB_RED p # FR sl pc n # fs) t" using c1 m e by simp
  show ?thesis
    using rep_at_parent(2) [OF r] rep_at_sibling [OF disjI2 [OF r]] rep_at_parent(2) [OF r'] rep_at_sibling [OF disjI2 [OF r']]
    by (subst (1 2) rb_erase_loop.simps) (simp add: e m' Let_def del: set_parent_color_pc)
qed

lemma rb_frame_mono: "rb_frame A s s' \<Longrightarrow> A \<subseteq> B \<Longrightarrow> rb_frame B s s'"
  by (auto simp: rb_frame_def)

lemma rb_done_trans:
  assumes "rb_done T fs u s' res" and "rb_frame A s s'" and "set (keys (plug fs u)) \<subseteq> A" and "A = set (keys (plug gs t))"
  shows "rb_done T gs t s res"
  using assms(1,2) rb_frame_mono [OF _ assms(3)] rb_frame_trans unfolding rb_done_def assms(4) [symmetric] by metis

lemma rb_done_now: "rep_at s' fs u \<Longrightarrow> rb_frame A s s' \<Longrightarrow> A = set (keys (plug gs t)) \<Longrightarrow> rb_done (plug fs u) gs t s (Some s')"
  by (simp add: rb_done_def rb_rep_plug)

text \<open>A round that ended, or that goes on by the induction hypothesis.\<close>

lemma erase_round_done:
  assumes "erase_round (u, short) p fs A s res" and "A = set (keys (plug gs t))" and "set (keys (plug fs u)) \<subseteq> A"
    and go: "\<And>s'. short \<Longrightarrow> fs \<noteq> [] \<Longrightarrow> rep_at s' fs u \<Longrightarrow> rb_done (erase_up fs u) fs u s' (rb_erase_loop p (cpar fs) s')"
  shows "rb_done (if short then erase_up fs u else plug fs u) gs t s res"
proof -
  obtain s' where s': "rep_at s' fs u" "rb_frame A s s'" "res = (if short \<and> fs \<noteq> [] then rb_erase_loop p (cpar fs) s' else Some s')"
    using assms(1) by (auto simp: erase_round_def)
  show ?thesis
  proof (cases "short \<and> fs \<noteq> []")
    case True
    then show ?thesis using rb_done_trans [OF go [OF _ _ s'(1)] s'(2) assms(3,2)] s'(3) by simp
  next
    case False
    then show ?thesis using rb_done_now [OF s'(1,2) assms(2)] s'(3) by (cases "fs = []") auto
  qed
qed

lemma erase_fix_parent: "snd (erase_fix_l t RB_RED p sib) = False" "snd (erase_fix_r t RB_RED p sib) = False"
  by (cases sib rule: red.cases; auto split: tree.splits rb_color.splits)+

lemma erase_step_red_l:
  assumes r: "rep_at s (FL pc p (Node sl (n, RB_RED) sr) # fs) t" and s: "rb_sub (Suc h) sl" "\<not> red sl"
  shows "rb_done (erase_up (FL pc p (Node sl (n, RB_RED) sr) # fs) t) (FL pc p (Node sl (n, RB_RED) sr) # fs) t s (rb_erase_loop (top t) p s)"
proof -
  let ?fs = "FL pc p (Node sl (n, RB_RED) sr) # fs" and ?gs = "FL pc n sr # fs" and ?s = "snd (erase_case1_l p n s)"
  let ?A = "set (keys (plug ?fs t))"
  have ne: "sl \<noteq> Leaf" using s by auto
  obtain x m y where sl: "sl = Node x (m, RB_BLACK) y" using s by (cases sl rule: top.cases) auto
  have r1: "rep_at ?s (FL RB_RED p sl # ?gs) t" using erase_case1_l_at [OF r ne s(2)] by simp
  obtain u where u: "erase_fix_l t RB_RED p sl = (u, False)" using erase_fix_parent(1) [of t p sl] by (metis prod.collapse)
  have k: "keys u = keys t @ p # keys sl" using keys_erase_fix(1) [OF ne, of t RB_RED p] u by simp
  have A: "set (keys t) \<union> set (ckeys (FL RB_RED p sl # ?gs)) = ?A" unfolding set_keys_plug by auto
  have x: "rb_sub h x" using s(1) sl by simp
  have "erase_round (u, False) p ?gs ?A ?s (rb_erase_loop (top t) p ?s)"
    using erase_black_l [OF r1 [unfolded sl] x] unfolding sl [symmetric] A u .
  then obtain s' where "rep_at s' ?gs u" "rb_frame ?A ?s s'" "rb_erase_loop (top t) p ?s = Some s'"
    by (auto simp: erase_round_def simp del: plug.simps)
  moreover have "rb_frame ?A s ?s" using erase_case1_l_frame [OF r ne] unfolding set_keys_plug .
  ultimately have "rb_done (plug ?gs u) ?fs t s (rb_erase_loop (top t) p ?s)"
    using rb_done_now [OF _ rb_frame_trans refl] by metis
  then show ?thesis unfolding erase_red_l [OF r ne s(2)] by (simp add: u)
qed

lemma erase_step_black_l:
  assumes r: "rep_at s (FL pc p sib # fs) t" and t: "rb_sub h t" "\<not> red t" and s: "rb_sub (Suc h) sib" "\<not> red sib"
    and go: "\<And>u s'. pc = RB_BLACK \<Longrightarrow> fs \<noteq> [] \<Longrightarrow> rep_at s' fs u \<Longrightarrow> rb_sub (Suc h) u \<Longrightarrow> \<not> red u \<Longrightarrow>
      rb_done (erase_up fs u) fs u s' (rb_erase_loop (top u) (cpar fs) s')"
  shows "rb_done (erase_up (FL pc p sib # fs) t) (FL pc p sib # fs) t s (rb_erase_loop (top t) p s)"
proof -
  let ?A = "set (keys (plug (FL pc p sib # fs) t))"
  have ne: "sib \<noteq> Leaf" using s by auto
  obtain sl n sr where sib: "sib = Node sl (n, RB_BLACK) sr" using s by (cases sib rule: top.cases) auto
  obtain u short where u: "erase_fix_l t pc p sib = (u, short)" by force
  have k: "keys u = keys t @ p # keys sib" using keys_erase_fix(1) [OF ne, of t pc p] u by simp
  have top: "short \<Longrightarrow> top u = p" using u sib by (auto split: tree.splits rb_color.splits if_splits)
  have sl: "rb_sub h sl" using s(1) sib by simp
  have er: "erase_round (u, short) p fs ?A s (rb_erase_loop (top t) p s)"
    using erase_black_l [OF r [unfolded sib] sl] unfolding sib [symmetric] u set_keys_plug .
  have nxt: "rb_done (erase_up fs u) fs u s' (rb_erase_loop p (cpar fs) s')" if "short" "fs \<noteq> []" "rep_at s' fs u" for s'
    using go [OF _ that(2,3)] erase_fix_l_ok [OF t s, of pc p] u that(1) top by auto
  have "rb_done (if short then erase_up fs u else plug fs u) (FL pc p sib # fs) t s (rb_erase_loop (top t) p s)"
    by (rule erase_round_done [OF er refl _ nxt]) (use k in \<open>auto simp: set_keys_plug simp del: plug.simps\<close>)
  then show ?thesis unfolding erase_up_black(1) [OF s(2), of pc p fs t] u by (simp del: plug.simps)
qed

lemma erase_step_red_r:
  assumes r: "rep_at s (FR (Node sl (n, RB_RED) sr) pc p # fs) t" and s: "rb_sub (Suc h) sr" "\<not> red sr"
  shows "rb_done (erase_up (FR (Node sl (n, RB_RED) sr) pc p # fs) t) (FR (Node sl (n, RB_RED) sr) pc p # fs) t s (rb_erase_loop (top t) p s)"
proof -
  let ?fs = "FR (Node sl (n, RB_RED) sr) pc p # fs" and ?gs = "FR sl pc n # fs" and ?s = "snd (erase_case1_r p n s)"
  let ?A = "set (keys (plug ?fs t))"
  have ne: "sr \<noteq> Leaf" using s by auto
  obtain x m y where sl: "sr = Node x (m, RB_BLACK) y" using s by (cases sr rule: top.cases) auto
  have r1: "rep_at ?s (FR sr RB_RED p # ?gs) t" using erase_case1_r_at [OF r ne s(2)] by simp
  obtain u where u: "erase_fix_r t RB_RED p sr = (u, False)" using erase_fix_parent(2) [of t p sr] by (metis prod.collapse)
  have k: "keys u = keys sr @ p # keys t" using keys_erase_fix(2) [OF ne, of t RB_RED p] u by simp
  have A: "set (keys t) \<union> set (ckeys (FR sr RB_RED p # ?gs)) = ?A" unfolding set_keys_plug by auto
  have x: "rb_sub h y" using s(1) sl by simp
  have "erase_round (u, False) p ?gs ?A ?s (rb_erase_loop (top t) p ?s)"
    using erase_black_r [OF r1 [unfolded sl] x] unfolding sl [symmetric] A u .
  then obtain s' where "rep_at s' ?gs u" "rb_frame ?A ?s s'" "rb_erase_loop (top t) p ?s = Some s'"
    by (auto simp: erase_round_def simp del: plug.simps)
  moreover have "rb_frame ?A s ?s" using erase_case1_r_frame [OF r ne] unfolding set_keys_plug .
  ultimately have "rb_done (plug ?gs u) ?fs t s (rb_erase_loop (top t) p ?s)"
    using rb_done_now [OF _ rb_frame_trans refl] by metis
  then show ?thesis unfolding erase_red_r [OF r ne s(2)] by (simp add: u)
qed

lemma erase_step_black_r:
  assumes r: "rep_at s (FR sib pc p # fs) t" and t: "rb_sub h t" "\<not> red t" and s: "rb_sub (Suc h) sib" "\<not> red sib"
    and go: "\<And>u s'. pc = RB_BLACK \<Longrightarrow> fs \<noteq> [] \<Longrightarrow> rep_at s' fs u \<Longrightarrow> rb_sub (Suc h) u \<Longrightarrow> \<not> red u \<Longrightarrow>
      rb_done (erase_up fs u) fs u s' (rb_erase_loop (top u) (cpar fs) s')"
  shows "rb_done (erase_up (FR sib pc p # fs) t) (FR sib pc p # fs) t s (rb_erase_loop (top t) p s)"
proof -
  let ?A = "set (keys (plug (FR sib pc p # fs) t))"
  have ne: "sib \<noteq> Leaf" using s by auto
  obtain sl n sr where sib: "sib = Node sl (n, RB_BLACK) sr" using s by (cases sib rule: top.cases) auto
  obtain u short where u: "erase_fix_r t pc p sib = (u, short)" by force
  have k: "keys u = keys sib @ p # keys t" using keys_erase_fix(2) [OF ne, of t pc p] u by simp
  have top: "short \<Longrightarrow> top u = p" using u sib by (auto split: tree.splits rb_color.splits if_splits)
  have sl: "rb_sub h sr" using s(1) sib by simp
  have er: "erase_round (u, short) p fs ?A s (rb_erase_loop (top t) p s)"
    using erase_black_r [OF r [unfolded sib] sl] unfolding sib [symmetric] u set_keys_plug .
  have nxt: "rb_done (erase_up fs u) fs u s' (rb_erase_loop p (cpar fs) s')" if "short" "fs \<noteq> []" "rep_at s' fs u" for s'
    using go [OF _ that(2,3)] erase_fix_r_ok [OF t s, of pc p] u that(1) top by auto
  have "rb_done (if short then erase_up fs u else plug fs u) (FR sib pc p # fs) t s (rb_erase_loop (top t) p s)"
    by (rule erase_round_done [OF er refl _ nxt]) (use k in \<open>auto simp: set_keys_plug simp del: plug.simps\<close>)
  then show ?thesis unfolding erase_up_black(2) [OF s(2), of pc p fs t] u by (simp del: plug.simps)
qed

lemma rb_erase_loop_at:
  assumes "rep_at s fs t" "fs \<noteq> []" and "rb_sub h t" "\<not> red t" and "rb_ctx (Suc h) fs"
  shows "rb_done (erase_up fs t) fs t s (rb_erase_loop (top t) (cpar fs) s)"
  using assms
proof (induction fs arbitrary: t h s)
  case (Cons f fs)
  note r = Cons.prems(1) and t = Cons.prems(3,4) and ctx = Cons.prems(5)
  obtain pc p sib where f: "f = FL pc p sib \<or> f = FR sib pc p" by (cases f) auto
  have sub: "rb_sub (Suc h) sib" and c: "pc = RB_BLACK \<Longrightarrow> rb_ctx (Suc (Suc h)) fs" and par: "cpar (f # fs) = p"
    using ctx f by (cases pc; auto)+
  have go: "rb_done (erase_up fs u) fs u s' (rb_erase_loop (top u) (cpar fs) s')"
    if "pc = RB_BLACK" "fs \<noteq> []" "rep_at s' fs u" "rb_sub (Suc h) u" "\<not> red u" for u s'
    using Cons.IH [OF that(3,2,4,5) c [OF that(1)]] .
  show ?case
  proof (cases "red sib")
    case True
    then obtain sl n sr where sib: "sib = Node sl (n, RB_RED) sr" using red_node by blast
    have "rb_sub (Suc h) sl" "\<not> red sl" "rb_sub (Suc h) sr" "\<not> red sr" using sub sib by simp_all
    then show ?thesis using f erase_step_red_l [of s pc p sl n sr fs t h] erase_step_red_r [of s sl n sr pc p fs t h] r sib par
      by (auto simp del: erase_up.simps plug.simps)
  next
    case False
    from f show ?thesis
    proof
      assume f: "f = FL pc p sib"
      show ?thesis using erase_step_black_l [OF r [unfolded f] t sub False go] par f by simp
    next
      assume f: "f = FR sib pc p"
      show ?thesis using erase_step_black_r [OF r [unfolded f] t sub False go] par f by simp
    qed
  qed
qed simp

section \<open>Walking the tree\<close>

partial_function (option) rb_down_left :: "rb_store \<Rightarrow> rb_ptr \<Rightarrow> rb_ptr option" where
  "rb_down_left s n = (if rb_left s n \<noteq> 0 then rb_down_left s (rb_left s n) else Some n)"

partial_function (option) rb_down_right :: "rb_store \<Rightarrow> rb_ptr \<Rightarrow> rb_ptr option" where
  "rb_down_right s n = (if rb_right s n \<noteq> 0 then rb_down_right s (rb_right s n) else Some n)"

partial_function (option) rb_up_right :: "rb_store \<Rightarrow> rb_ptr \<Rightarrow> rb_ptr option" where
  "rb_up_right s node =
     (let parent = rbt_parent s node in
      if parent \<noteq> 0 \<and> node = rb_right s parent then rb_up_right s parent else Some parent)"

partial_function (option) rb_up_left :: "rb_store \<Rightarrow> rb_ptr \<Rightarrow> rb_ptr option" where
  "rb_up_left s node =
     (let parent = rbt_parent s node in
      if parent \<noteq> 0 \<and> node = rb_left s parent then rb_up_left s parent else Some parent)"

definition rbt_first :: "rb_store \<Rightarrow> rb_ptr option" where
  "rbt_first s = (if rb_node s = 0 then Some 0 else rb_down_left s (rb_node s))"

definition rbt_last :: "rb_store \<Rightarrow> rb_ptr option" where
  "rbt_last s = (if rb_node s = 0 then Some 0 else rb_down_right s (rb_node s))"

definition rbt_next :: "rb_store \<Rightarrow> rb_ptr \<Rightarrow> rb_ptr option" where
  "rbt_next s node =
     (if RBT_EMPTY_NODE s node then Some 0
      else if rb_right s node \<noteq> 0 then rb_down_left s (rb_right s node)
      else rb_up_right s node)"

definition rbt_prev :: "rb_store \<Rightarrow> rb_ptr \<Rightarrow> rb_ptr option" where
  "rbt_prev s node =
     (if RBT_EMPTY_NODE s node then Some 0
      else if rb_left s node \<noteq> 0 then rb_down_right s (rb_left s node)
      else rb_up_left s node)"

definition first_of :: "rb_ptr list \<Rightarrow> rb_ptr" where
  "first_of xs = (case xs of [] \<Rightarrow> 0 | x # _ \<Rightarrow> x)"

lemma first_of_simps [simp]: "first_of [] = 0" "first_of (x # xs) = x"
  by (simp_all add: first_of_def)

lemma keys_nil [simp]: "keys t = [] \<longleftrightarrow> t = Leaf"
  by (cases t rule: red.cases) auto

lemma first_of_append: "first_of (xs @ ys) = (if xs = [] then first_of ys else first_of xs)"
  by (cases xs) auto

lemma rb_down_left_at: "tr s p x t \<Longrightarrow> t \<noteq> Leaf \<Longrightarrow> rb_down_left s x = Some (first_of (keys t))"
proof (induction t arbitrary: p x rule: keys.induct)
  case (2 l a c r)
  then have x: "x = a" and l: "tr s a (rb_left s a) l" by auto
  show ?case
  proof (cases "l = Leaf")
    case True
    then show ?thesis using x l by (subst rb_down_left.simps) simp
  next
    case False
    then have "rb_left s a \<noteq> 0" using l by (cases l rule: red.cases) auto
    then show ?thesis using 2(1) [OF l False] x False by (subst rb_down_left.simps) (simp add: first_of_append)
  qed
qed simp

lemma rb_down_right_at: "tr s p x t \<Longrightarrow> t \<noteq> Leaf \<Longrightarrow> rb_down_right s x = Some (last (keys t))"
proof (induction t arbitrary: p x rule: keys.induct)
  case (2 l a c r)
  then have x: "x = a" and r: "tr s a (rb_right s a) r" by auto
  show ?case
  proof (cases "r = Leaf")
    case True
    then show ?thesis using x r by (subst rb_down_right.simps) simp
  next
    case False
    then have "rb_right s a \<noteq> 0" using r by (cases r rule: red.cases) auto
    then show ?thesis using 2(2) [OF r False] x False by (subst rb_down_right.simps) simp
  qed
qed simp

lemma rep_at_fill: "rep_at s (f # fs) t \<longleftrightarrow> rep_at s fs (fill f t)"
  using rep_at_append [of s "[f]" fs t] by simp

lemma rep_at_top_parent: "rep_at s fs t \<Longrightarrow> t \<noteq> Leaf \<Longrightarrow> rbt_parent s (top t) = cpar fs"
  by (cases t rule: top.cases) (auto simp: rep_at_def rbt_parent_def dest: cr_cpar_aligned)

lemma rb_up_right_at: "rep_at s fs t \<Longrightarrow> t \<noteq> Leaf \<Longrightarrow> rb_up_right s (top t) = Some (first_of (keys_after fs))"
proof (induction fs arbitrary: t)
  case Nil
  then show ?case using rep_at_top_parent [of s "[]" t] by (subst rb_up_right.simps) simp
next
  case (Cons f fs)
  note p = rep_at_top_parent [OF Cons.prems]
  show ?case
  proof (cases f)
    case (FL c a r)
    have r: "tr s a (rb_right s a) r" "top t \<noteq> 0" "a \<noteq> 0" "top t \<notin> set (keys r)"
      using Cons.prems FL by (cases t rule: red.cases; auto simp: rep_at_def)+
    then have "top t \<noteq> rb_right s a" using tr_child [OF r(1)] by auto
    then show ?thesis using p FL r by (subst rb_up_right.simps) simp
  next
    case (FR l c a)
    have "rb_right s a = top t" "a \<noteq> 0" using Cons.prems FR by (auto simp: rep_at_def)
    then show ?thesis using p FR Cons.IH [of "Node l (a, c) t"] Cons.prems(1) rep_at_fill [of s f fs t]
      by (subst rb_up_right.simps) simp
  qed
qed

lemma not_empty_node: "rep_at s fs (Node l (a, c) r) \<Longrightarrow> \<not> RBT_EMPTY_NODE s a"
proof
  assume r: "rep_at s fs (Node l (a, c) r)" and "RBT_EMPTY_NODE s a"
  then have "pcw (cpar fs) c = a" "aligned a" "aligned (cpar fs)" by (auto simp: rep_at_def RBT_EMPTY_NODE_def dest: cr_cpar_aligned)
  then have "cpar fs = a" using pcw_parent [of "cpar fs" c] pcw_parent [of a RB_RED] by simp
  then show False using rep_at_cpar [OF r] by simp
qed

lemma rbt_next_at:
  assumes "rep_at s fs (Node l (a, c) r)"
  shows "rbt_next s a = Some (first_of (keys r @ keys_after fs))"
proof -
  have r: "tr s a (rb_right s a) r" using assms by (simp add: rep_at_def)
  show ?thesis
  proof (cases "r = Leaf")
    case True
    then show ?thesis using r rb_up_right_at [OF assms] not_empty_node [OF assms] by (simp add: rbt_next_def)
  next
    case False
    then have "rb_right s a \<noteq> 0" using r by (cases r rule: red.cases) auto
    then show ?thesis using False rb_down_left_at [OF r False] not_empty_node [OF assms] by (simp add: rbt_next_def first_of_append)
  qed
qed

lemma rb_up_left_at: "rep_at s fs t \<Longrightarrow> t \<noteq> Leaf \<Longrightarrow> rb_up_left s (top t) = Some (first_of (rev (keys_before fs)))"
proof (induction fs arbitrary: t)
  case Nil
  then show ?case using rep_at_top_parent [of s "[]" t] by (subst rb_up_left.simps) simp
next
  case (Cons f fs)
  note p = rep_at_top_parent [OF Cons.prems]
  show ?case
  proof (cases f)
    case (FR l c a)
    have l: "tr s a (rb_left s a) l" "top t \<noteq> 0" "a \<noteq> 0" "top t \<notin> set (keys l)"
      using Cons.prems FR by (cases t rule: red.cases; auto simp: rep_at_def)+
    then have "top t \<noteq> rb_left s a" using tr_child [OF l(1)] by auto
    then show ?thesis using p FR l by (subst rb_up_left.simps) simp
  next
    case (FL c a r)
    have "rb_left s a = top t" "a \<noteq> 0" using Cons.prems FL by (auto simp: rep_at_def)
    then show ?thesis using p FL Cons.IH [of "Node t (a, c) r"] Cons.prems(1) rep_at_fill [of s f fs t]
      by (subst rb_up_left.simps) simp
  qed
qed

lemma first_of_rev: "first_of (rev xs) = (if xs = [] then 0 else last xs)"
  by (cases xs rule: rev_cases) auto

lemma rbt_prev_at:
  assumes "rep_at s fs (Node l (a, c) r)"
  shows "rbt_prev s a = Some (first_of (rev (keys_before fs @ keys l)))"
proof -
  have l: "tr s a (rb_left s a) l" using assms by (simp add: rep_at_def)
  show ?thesis
  proof (cases "l = Leaf")
    case True
    then show ?thesis using l rb_up_left_at [OF assms] not_empty_node [OF assms] by (simp add: rbt_prev_def)
  next
    case False
    then have "rb_left s a \<noteq> 0" using l by (cases l rule: red.cases) auto
    then show ?thesis using False rb_down_right_at [OF l False] not_empty_node [OF assms] by (simp add: rbt_prev_def first_of_append first_of_rev)
  qed
qed

lemma rbt_first_at: "rb_rep s t \<Longrightarrow> rbt_first s = Some (first_of (keys t))"
  using rb_down_left_at [of s 0 "rb_node s" t] by (cases t rule: red.cases) (auto simp: rb_rep_def rbt_first_def)

lemma rbt_last_at: "rb_rep s t \<Longrightarrow> rbt_last s = Some (first_of (rev (keys t)))"
  using rb_down_right_at [of s 0 "rb_node s" t] by (cases t rule: red.cases) (auto simp: rb_rep_def rbt_last_def first_of_rev first_of_append)


section \<open>Taking a node out\<close>

partial_function (option) erase_successor :: "rb_store \<Rightarrow> rb_ptr \<Rightarrow> rb_ptr \<Rightarrow> (rb_ptr \<times> rb_ptr) option" where
  "erase_successor s parent successor =
     (if rb_left s successor \<noteq> 0 then erase_successor s successor (rb_left s successor) else Some (parent, successor))"

text \<open>The last part of cases 2 and 3: the successor gets the place and the colour of the node.\<close>

definition erase_put :: "rb_ptr \<Rightarrow> rb_ptr \<Rightarrow> rb_ptr \<Rightarrow> rb_ptr \<Rightarrow> rb_store \<Rightarrow> rb_ptr \<times> rb_store" where
  "erase_put node successor parent child2 s =
     (let tmp = rb_left s node;
          s = set_left successor tmp s;
          s = rb_set_parent tmp successor s;
          pc = rb_parent_color s node;
          tmp = u_rb_parent pc;
          s = rb_change_child node successor tmp s
      in if child2 \<noteq> 0 then (0, rb_set_parent_color child2 parent RB_BLACK (set_pc successor pc s))
         else let pc2 = rb_parent_color s successor; s = set_pc successor pc s
              in (if u_rb_is_black pc2 then parent else 0, s))"

text \<open>The node to rebalance from, or 0.  \<open>leftmost\<close> says whether the cached first node is kept.\<close>

definition u_rb_erase_node :: "rb_ptr \<Rightarrow> bool \<Rightarrow> rb_store \<Rightarrow> (rb_ptr \<times> rb_store) option" where
  "u_rb_erase_node node leftmost s =
     (let child = rb_right s node; tmp = rb_left s node in
      case (if leftmost \<and> node = rb_leftmost s then map_option (\<lambda>n. s\<lparr>rb_leftmost := n\<rparr>) (rbt_next s node) else Some s) of
        None \<Rightarrow> None
      | Some s \<Rightarrow>
          if tmp = 0 then
            (let pc = rb_parent_color s node;
                 parent = u_rb_parent pc;
                 s = rb_change_child node child parent s
             in if child \<noteq> 0 then Some (0, set_pc child pc s)
                else Some (if u_rb_is_black pc then parent else 0, s))
          else if child = 0 then
            (let pc = rb_parent_color s node;
                 s = set_pc tmp pc s;
                 parent = u_rb_parent pc
             in Some (0, rb_change_child node tmp parent s))
          else if rb_left s child = 0 then
            Some (erase_put node child child (rb_right s child) s)
          else
            (case erase_successor s child (rb_left s child) of
               None \<Rightarrow> None
             | Some (parent, successor) \<Rightarrow>
                 (let child2 = rb_right s successor;
                      s = set_left parent child2 s;
                      s = set_right successor child s;
                      s = rb_set_parent child successor s
                  in Some (erase_put node successor parent child2 s))))"

definition rbt_erase :: "rb_ptr \<Rightarrow> rb_store \<Rightarrow> rb_store option" where
  "rbt_erase node s =
     (case u_rb_erase_node node False s of None \<Rightarrow> None
      | Some (rebalance, s) \<Rightarrow> if rebalance \<noteq> 0 then u_rb_erase_color rebalance s else Some s)"

definition rbt_erase_cached :: "rb_ptr \<Rightarrow> rb_store \<Rightarrow> rb_store option" where
  "rbt_erase_cached node s =
     (case u_rb_erase_node node True s of None \<Rightarrow> None
      | Some (rebalance, s) \<Rightarrow> if rebalance \<noteq> 0 then u_rb_erase_color rebalance s else Some s)"

definition rbt_insert_color :: "rb_ptr \<Rightarrow> rb_store \<Rightarrow> rb_store option" where
  "rbt_insert_color node s = u_rb_insert node False s"

definition rbt_insert_color_cached :: "rb_ptr \<Rightarrow> bool \<Rightarrow> rb_store \<Rightarrow> rb_store option" where
  "rbt_insert_color_cached node leftmost s = u_rb_insert node leftmost s"

text \<open>\<open>rbt_replace_node\<close>: the new node is a copy of the old one.\<close>

definition rbt_replace_node :: "rb_ptr \<Rightarrow> rb_ptr \<Rightarrow> rb_store \<Rightarrow> rb_store" where
  "rbt_replace_node victim new s =
     (let parent = rbt_parent s victim;
          s = set_left new (rb_left s victim) (set_right new (rb_right s victim) (set_pc new (rb_parent_color s victim) s));
          s = (if rb_left s victim \<noteq> 0 then rb_set_parent (rb_left s victim) new s else s);
          s = (if rb_right s victim \<noteq> 0 then rb_set_parent (rb_right s victim) new s else s)
      in rb_change_child victim new parent s)"

definition rbt_replace_node_cached :: "rb_ptr \<Rightarrow> rb_ptr \<Rightarrow> rb_store \<Rightarrow> rb_store" where
  "rbt_replace_node_cached victim new s =
     (let s = rbt_replace_node victim new s in if rb_leftmost s = victim then s\<lparr>rb_leftmost := new\<rparr> else s)"

lemma rep_at_fresh: "rep_at s fs t \<Longrightarrow> m \<notin> set (keys (plug fs t)) \<Longrightarrow> m \<noteq> 0 \<Longrightarrow> cpar fs \<noteq> m \<and> aligned (cpar fs)"
  using cpar_0 [of fs] by (auto simp: rep_at_def set_keys_plug dest: cr_cpar_aligned)

lemma rbt_replace_node_at:
  assumes "rep_at s fs (Node l (a, c) r)" and "m \<notin> set (keys (plug fs (Node l (a, c) r)))" "m \<noteq> 0" "aligned m"
  shows "rep_at (rbt_replace_node a m s) fs (Node l (m, c) r)"
proof (rule rep_atI, use rep_at_distinct [OF assms(1)] assms(2) in \<open>force simp: set_keys_plug\<close>)
qed (use assms rep_at_fresh [OF assms(1,2,3)] rep_at_cpar [OF assms(1)] in \<open>cases l rule: top.cases; cases r rule: top.cases; clarsimp simp: erase_simps rbt_replace_node_def set_keys_plug\<close>)

text \<open>The first loop of case 3 ends at the leftmost node of the right subtree.\<close>

lemma erase_successor_at:
  "tr s p x (Node l (a, c) r) \<Longrightarrow> l \<noteq> Leaf \<Longrightarrow> leftmost_at fs l (a, c) r = (gs, (m, mc), ch) \<Longrightarrow>
     erase_successor s a (rb_left s a) = Some (cpar gs, m) \<and> rb_right s m = top ch \<and>
     (\<exists>pc q r' gs'. gs = FL pc q r' # gs' @ fs)"
proof (induction l arbitrary: p x a c r fs rule: keys.induct)
  case (2 l' a' c' r')
  have a': "rb_left s a = a'" "tr s a a' (Node l' (a', c') r')" using 2(3) by auto
  show ?case
  proof (cases "l' = Leaf")
    case True
    then have "rb_left s a' = 0" "rb_right s a' = top r'" using a' tr_top by auto
    then show ?thesis using True 2(5) a' by (subst erase_successor.simps) auto
  next
    case False
    have "erase_successor s a' (rb_left s a') = Some (cpar gs, m) \<and> rb_right s m = top ch \<and>
      (\<exists>pc q r'' gs'. gs = FL pc q r'' # gs' @ FL c a r # fs)"
      using 2(1) [OF a'(2) False, of "FL c a r # fs"] 2(5) by simp
    moreover have "rb_left s a' \<noteq> 0" using a'(2) False by (cases l' rule: red.cases) auto
    ultimately show ?thesis using a'(1) by (subst erase_successor.simps) (fastforce intro: exI [of _ "_ @ [FL c a r]"])
  qed
qed simp

text \<open>The successor is unlinked, then it takes the place of the node.\<close>

definition rb_move :: "rb_ptr \<Rightarrow> rb_ptr \<Rightarrow> rb_store \<Rightarrow> rb_store" where
  "rb_move a m s =
     (let s = set_right m (rb_right s a) s;
          s = rb_set_parent (rb_right s a) m s;
          s = set_left m (rb_left s a) s;
          s = rb_set_parent (rb_left s a) m s;
          pc = rb_parent_color s a;
          s = rb_change_child a m (u_rb_parent pc) s
      in set_pc m pc s)"

lemma rb_move_at:
  assumes "rep_at s fs (Node l (a, c) r)" "l \<noteq> Leaf" "r \<noteq> Leaf" and "m \<notin> set (keys (plug fs (Node l (a, c) r)))" "m \<noteq> 0" "aligned m"
  shows "rep_at (rb_move a m s) fs (Node l (m, c) r)"
proof (rule rep_atI, use rep_at_distinct [OF assms(1)] assms(4) in \<open>force simp: set_keys_plug\<close>)
qed (use assms rep_at_fresh [OF assms(1,4,5)] rep_at_cpar [OF assms(1)] in \<open>cases l rule: top.cases; cases r rule: top.cases; clarsimp simp: erase_simps rb_move_def set_keys_plug\<close>)

lemma top_mem: "t \<noteq> Leaf \<Longrightarrow> top t \<in> set (keys t)"
  by (cases t rule: red.cases) auto

lemma rb_move_frame:
  assumes r: "rep_at s fs (Node l (a, c) r)" "l \<noteq> Leaf" "r \<noteq> Leaf" and m: "m \<notin> set (keys (plug fs (Node l (a, c) r)))"
  shows "rb_frame (insert m (set (keys (plug fs (Node l (a, c) r))))) s (rb_move a m s)"
proof -
  let ?A = "insert m (set (keys (plug fs (Node l (a, c) r))))"
  have x: "rb_left s a = top l" "rb_right s a = top r" "rb_parent_color s a = pcw (cpar fs) c" "aligned (cpar fs)" "a \<notin> set (keys l)" "a \<notin> set (keys r)"
    using r(1) by (auto simp: rep_at_def dest: tr_top cr_cpar_aligned)
  have "top l \<noteq> a" "top r \<noteq> a" "m \<noteq> a" using x top_mem r(2,3) m by (auto simp: set_keys_plug)
  moreover have "top l \<in> ?A" "top r \<in> ?A" "m \<in> ?A" "cpar fs = 0 \<or> cpar fs \<in> ?A"
    using top_mem [OF r(2)] top_mem [OF r(3)] cpar_0 [of fs] by (auto simp: set_keys_plug)
  ultimately show ?thesis using x by (simp add: rb_move_def Let_def rb_set_parent_def)
qed

lemma set_pc_commute:
  "k \<noteq> n \<Longrightarrow> set_pc k w (set_pc n v s) = set_pc n v (set_pc k w s)"
  "set_pc k w (set_left n v s) = set_left n v (set_pc k w s)"
  "set_pc k w (set_right n v s) = set_right n v (set_pc k w s)"
  "set_pc k w (rb_change_child x y q s) = rb_change_child x y q (set_pc k w s)"
  by (simp_all add: set_pc_def set_left_def set_right_def rb_change_child_def fun_upd_twist)

lemma rb_move_set_pc:
  assumes "k \<notin> {a, m, rb_left s a, rb_right s a}" and "a \<noteq> m"
  shows "set_pc k w (rb_move a m s) = rb_move a m (set_pc k w s)"
  using assms by (auto simp: rb_move_def Let_def rb_set_parent_def set_pc_commute)

lemma erase_put_move:
  assumes "m \<noteq> a" "rb_left s a \<noteq> m" "rb_right s a \<noteq> m" "rb_left s a \<noteq> a" "rb_right s a \<noteq> a" "rb_left s a \<noteq> rb_right s a"
  shows "erase_put a m parent child2 (rb_set_parent (rb_right s a) m (set_right m (rb_right s a) s)) =
    (if child2 \<noteq> 0 then (0, rb_set_parent_color child2 parent RB_BLACK (rb_move a m s))
     else (if u_rb_is_black (rb_parent_color s m) then parent else 0, rb_move a m s))"
  using assms by (auto simp: erase_put_def rb_move_def Let_def rb_set_parent_def)

lemma unlink_at:
  assumes "rep_at s (FL pc p r # fs) (Node Leaf (m, mc) ch)"
  shows "rep_at (if ch = Leaf then set_left p (top ch) s else set_pc (top ch) (pcw p RB_BLACK) (set_left p (top ch) s)) (FL pc p r # fs) (repaint RB_BLACK ch)"
    and "rb_parent_color s m = pcw p mc"
  using assms by (cases ch rule: top.cases; clarsimp simp: rep_at_def; blast?)+

lemma erase_case2_at:
  assumes "rep_at s (FR l c a # fs) (Node Leaf (m, mc) ch)" "l \<noteq> Leaf"
  shows "rep_at (snd (erase_put a m m (top ch) s)) (FR l c m # fs) (repaint RB_BLACK ch)"
    and "fst (erase_put a m m (top ch) s) = (if ch = Leaf \<and> mc = RB_BLACK then m else 0)"
    and "rb_frame (set (keys (plug (FR l c a # fs) (Node Leaf (m, mc) ch)))) s (snd (erase_put a m m (top ch) s))"
proof -
  show "rep_at (snd (erase_put a m m (top ch) s)) (FR l c m # fs) (repaint RB_BLACK ch)"
  proof (rule rep_atI, use rep_at_distinct [OF assms(1)] in \<open>cases ch rule: top.cases; force\<close>)
  qed (use assms rep_at_one [OF assms(1)] in \<open>cases l rule: top.cases; cases ch rule: top.cases; clarsimp simp: erase_simps erase_put_def\<close>)
  show "fst (erase_put a m m (top ch) s) = (if ch = Leaf \<and> mc = RB_BLACK then m else 0)"
    using assms rep_at_one [OF assms(1)] by (cases l rule: top.cases; cases ch rule: top.cases; clarsimp simp: erase_simps erase_put_def)
  show "rb_frame (set (keys (plug (FR l c a # fs) (Node Leaf (m, mc) ch)))) s (snd (erase_put a m m (top ch) s))"
    using assms rep_at_one [OF assms(1)] cpar_0 [of fs]
    by (cases l rule: top.cases; cases ch rule: top.cases; clarsimp simp: erase_simps erase_put_def set_keys_plug simp del: plug.simps; blast?)
qed

text \<open>The place that is left, the subtree in it, and whether it is short.\<close>

fun erase_place :: "'a frame list \<Rightarrow> 'a rb_tree \<Rightarrow> 'a rb_color_node \<Rightarrow> 'a rb_tree \<Rightarrow> 'a frame list \<times> 'a rb_tree \<times> bool" where
  "erase_place fs Leaf (a, c) r = (fs, repaint c r, r = Leaf \<and> c = RB_BLACK)"
| "erase_place fs l (a, c) Leaf = (fs, repaint c l, False)"
| "erase_place fs l (a, c) (Node rl (b, bc) rr) =
     (case leftmost_at [] rl (b, bc) rr of (gs, (m, mc), ch) \<Rightarrow> (gs @ FR l c m # fs, repaint RB_BLACK ch, ch = Leaf \<and> mc = RB_BLACK))"

lemma erase_tree_place:
  "erase_tree fs (Node l (a, c) r) = (case erase_place fs l (a, c) r of (gs, t, short) \<Rightarrow> if short then erase_up gs t else plug gs t)"
  by (cases "(fs, l, (a, c), r)" rule: erase_place.cases) (auto simp: take_out_def split: prod.splits)

lemma erase_place_short: "erase_place fs l (a, c) r = (gs, t, True) \<Longrightarrow> t = Leaf"
  by (cases "(fs, l, (a, c), r)" rule: erase_place.cases) (auto split: prod.splits)

lemma rb_at_short: "rb_at h fs (Node Leaf (a, RB_BLACK) Leaf) \<Longrightarrow> rb_ctx (Suc 0) fs"
  by (auto simp: rb_at_def split: nat.splits)

lemma erase_place_ctx:
  assumes "rb_inv (plug fs (Node l (a, c) r))" and "erase_place fs l (a, c) r = (gs, t, True)"
  shows "rb_ctx (Suc 0) gs"
proof (cases "(fs, l, (a, c), r)" rule: erase_place.cases)
  case (1 fs' a' c' r')
  then show ?thesis using assms rb_at_short by (auto simp: rb_inv_plug)
next
  case (3 fs' v va vb a' c' rl b bc rr)
  obtain hs m mc ch where m: "leftmost_at [] rl (b, bc) rr = (hs, (m, mc), ch)" by (metis prod.exhaust)
  have gs: "gs = hs @ FR l c m # fs" "ch = Leaf" "mc = RB_BLACK" using 3 assms(2) m by auto
  have "plug (hs @ FR l c a # fs) (Node Leaf (m, RB_BLACK) Leaf) = plug fs (Node l (a, c) r)"
    using leftmost_at_plug [OF m] 3 gs by (simp add: plug_append)
  then obtain h where "rb_at h (hs @ FR l c a # fs) (Node Leaf (m, RB_BLACK) Leaf)" using assms(1) rb_inv_plug by metis
  then show ?thesis using rb_at_short rb_at_rename gs(1) by metis
qed (use assms in auto)

lemma top_plug: "gs \<noteq> [] \<Longrightarrow> top (plug gs t) \<in> set (ckeys gs)"
proof (induction gs t rule: plug.induct)
  case (2 f fs t)
  then show ?case by (cases f; cases "fs = []") auto
qed simp

lemma plug_Leaf: "plug gs t = Leaf \<longleftrightarrow> gs = [] \<and> t = Leaf"
proof (induction gs t rule: plug.induct)
  case (2 f fs t)
  then show ?case by (cases f) auto
qed simp

lemma ckeys_append [simp]: "ckeys (gs @ fs) = ckeys gs @ ckeys fs"
  by (induction gs rule: ckeys.induct) auto

lemma keys_repaint [simp]: "keys (repaint c t) = keys t"
  by (cases t rule: red.cases) auto

lemma repaint_Leaf [simp]: "repaint c t = Leaf \<longleftrightarrow> t = Leaf"
  by (cases t rule: red.cases) auto

lemma top_0: "tr s p x t \<Longrightarrow> top t = 0 \<longleftrightarrow> t = Leaf"
  by (cases t rule: red.cases) auto

lemma erase_place_keys:
  assumes e: "erase_place fs l (a, c) r = (gs, t, short)"
  shows "set (keys (plug gs t)) \<subseteq> set (keys (plug fs (Node l (a, c) r)))"
proof (cases "(fs, l, (a, c), r)" rule: erase_place.cases)
  case (3 fs' v va vb a' c' rl b bc rr)
  obtain hs m mc ch where m: "leftmost_at [] rl (b, bc) rr = (hs, (m, mc), ch)" by (metis prod.exhaust)
  have r: "r = Node rl (b, bc) rr" and gs: "gs = hs @ FR l c m # fs" "t = repaint RB_BLACK ch" using 3 e m by auto
  have "plug hs (Node Leaf (m, mc) ch) = r" using leftmost_at_plug [OF m] r by simp
  then have "set (keys r) = set (keys (Node Leaf (m, mc) ch)) \<union> set (ckeys hs)" using set_keys_plug by metis
  then show ?thesis unfolding gs set_keys_plug by simp blast
qed (use e in \<open>auto simp: set_keys_plug\<close>)

lemma erase_node_case3:
  assumes r: "rep_at s (gs @ FR l c a # fs) (Node Leaf (m, mc) ch)" and gs: "gs = FL pc p r' # gs'" and l: "l \<noteq> Leaf"
  shows "\<exists>s'. erase_put a m p (top ch) (rb_set_parent (rb_right s a) m (set_right m (rb_right s a) (set_left p (top ch) s))) =
      (if ch = Leaf \<and> mc = RB_BLACK then p else 0, s') \<and>
    rep_at s' (gs @ FR l c m # fs) (repaint RB_BLACK ch) \<and> rb_frame (set (keys (plug (gs @ FR l c a # fs) (Node Leaf (m, mc) ch)))) s s'"
proof -
  let ?s1 = "set_left p (top ch) s" and ?R = "plug gs (repaint RB_BLACK ch)"
  let ?s2 = "if ch = Leaf then ?s1 else set_pc (top ch) (pcw p RB_BLACK) ?s1"
  let ?A = "set (keys (plug (gs @ FR l c a # fs) (Node Leaf (m, mc) ch)))"
  have rl: "rep_at s (FL pc p r' # gs' @ FR l c a # fs) (Node Leaf (m, mc) ch)" using r gs by simp
  have r2: "rep_at ?s2 (gs @ FR l c a # fs) (repaint RB_BLACK ch)" using unlink_at(1) [OF rl] gs by simp
  then have r2': "rep_at ?s2 fs (Node l (a, c) ?R)" unfolding rep_at_append by (simp add: rep_at_fill)
  have R: "?R \<noteq> Leaf" "top ?R \<in> set (ckeys gs)" using gs top_plug [of gs] plug_Leaf [of gs] by auto
  have d: "distinct (m # keys ch @ ckeys gs @ a # keys l @ ckeys fs)" using rep_at_distinct [OF r] by simp
  then have d2: "m \<notin> set (keys ch) \<union> set (ckeys gs) \<union> {a} \<union> set (keys l) \<union> set (ckeys fs)"
    "set (keys ch) \<inter> (set (ckeys gs) \<union> {a} \<union> set (keys l)) = {}" "a \<notin> set (ckeys gs) \<union> set (keys l)" "set (ckeys gs) \<inter> set (keys l) = {}"
    by auto
  have K: "set (keys (plug fs (Node l (a, c) ?R))) = set (keys ch) \<union> set (ckeys gs) \<union> {a} \<union> set (keys l) \<union> set (ckeys fs)"
    by (auto simp: set_keys_plug)
  have m: "m \<noteq> 0" "aligned m" and chp: "top ch = 0 \<longleftrightarrow> ch = Leaf" and mpc: "rb_parent_color s m = pcw p mc" "aligned p" "tr s m (rb_right s m) ch"
    using r gs unlink_at(2) [OF rl] top_0 by (auto simp: rep_at_def)
  have mv: "rep_at (rb_move a m ?s2) (gs @ FR l c m # fs) (repaint RB_BLACK ch)"
    using rb_move_at [OF r2' l R(1) _ m] K d2(1) unfolding rep_at_append by (simp add: rep_at_fill del: plug.simps)
  have lr: "rb_left ?s1 a = top l" "rb_right s a = top ?R" "top l \<in> set (keys l)"
    using r2' top_mem [OF l] by (auto simp: rep_at_def dest: tr_top split: if_splits)
  have ch: "ch \<noteq> Leaf \<Longrightarrow> top ch \<in> set (keys ch)" by (cases ch rule: red.cases) auto
  have "top ch \<noteq> rb_left ?s1 a \<and> top ch \<noteq> rb_right s a \<and> top ch \<noteq> a \<and> top ch \<noteq> m" if "ch \<noteq> Leaf"
  proof -
    have "x \<notin> set (ckeys gs) \<and> x \<noteq> a \<and> x \<notin> set (keys l) \<and> x \<noteq> m" if "x \<in> set (keys ch)" for x using d that by auto
    from this [OF ch [OF that]] show ?thesis unfolding lr(1,2) using lr(3) R(2) by metis
  qed
  then have neq: "ch \<noteq> Leaf \<Longrightarrow> top ch \<notin> {a, m, rb_left ?s1 a, rb_right ?s1 a}" by simp
  have am: "a \<noteq> m" using d by auto
  have tops: "top l \<noteq> m" "top ?R \<noteq> m" "top l \<noteq> a" "top ?R \<noteq> a" "top l \<noteq> top ?R" using d2 lr(3) R(2) by auto
  have "rb_move a m ?s2 = (if ch = Leaf then rb_move a m ?s1 else set_pc (top ch) (pcw p RB_BLACK) (rb_move a m ?s1))"
    using rb_move_set_pc [OF neq am, of "pcw p RB_BLACK"] by (cases "ch = Leaf") (simp_all del: fun_upd_apply)
  then have e: "erase_put a m p (top ch) (rb_set_parent (rb_right s a) m (set_right m (rb_right s a) ?s1)) = (if ch = Leaf \<and> mc = RB_BLACK then p else 0, rb_move a m ?s2)"
    using erase_put_move [of m a ?s1 p "top ch"] am tops lr(1,2) mpc chp by (cases "ch = Leaf"; cases mc) (simp_all del: fun_upd_apply)
  have "rb_frame ?A s ?s2" using ch gs by (auto simp: set_keys_plug simp del: plug.simps)
  moreover have "rb_frame ?A ?s2 (rb_move a m ?s2)"
    by (rule rb_frame_mono [OF rb_move_frame [OF r2' l R(1)]]) (use K d2(1) in \<open>auto simp: set_keys_plug simp del: plug.simps\<close>)
  ultimately show ?thesis using e mv rb_frame_trans by blast
qed

lemma map_leftmost: "rb_frame A s s' \<Longrightarrow> rb_leftmost s' = rb_leftmost s"
  by (simp add: rb_frame_def)

text \<open>Every case of \<open>__rb_erase_node\<close>.\<close>

lemma u_rb_erase_node_at:
  assumes r: "rep_at s fs (Node l (a, c) r)" and e: "erase_place fs l (a, c) r = (gs, t, short)"
  shows "\<exists>s'. u_rb_erase_node a False s = Some (if short then cpar gs else 0, s') \<and> rep_at s' gs t \<and>
    rb_frame (set (keys (plug fs (Node l (a, c) r)))) s s'"
proof -
  have lr: "tr s a (rb_left s a) l" "tr s a (rb_right s a) r" using r by (simp_all add: rep_at_def)
  have x: "rb_left s a = top l" "rb_right s a = top r" "rb_parent_color s a = pcw (cpar fs) c" "aligned (cpar fs)" "top l = 0 \<longleftrightarrow> l = Leaf" "top r = 0 \<longleftrightarrow> r = Leaf"
    "tr s a (top l) l" "tr s a (top r) r" "cpar fs \<notin> set (keys l) \<union> set (keys r) \<union> {a}"
    using lr tr_top [OF lr(1)] tr_top [OF lr(2)] r rep_at_cpar [OF r] by (auto simp: rep_at_def dest: cr_cpar_aligned top_0)
  show ?thesis
  proof (cases "(fs, l, (a, c), r)" rule: erase_place.cases)
    case (1 fs' a' c' r')
    let ?s = "rb_change_child a (top r) (cpar fs) s"
    have l: "l = Leaf" and gs: "gs = fs" "t = repaint c r" "short \<longleftrightarrow> r = Leaf \<and> c = RB_BLACK" using 1 e by auto
    have "rep_at (if r = Leaf then ?s else set_pc (top r) (pcw (cpar fs) c) ?s) fs (repaint c r)"
      using r l x(9) by (cases r rule: top.cases; clarsimp simp: rep_at_def)
    moreover have "rb_frame (set (keys (plug fs (Node l (a, c) r)))) s (if r = Leaf then ?s else set_pc (top r) (pcw (cpar fs) c) ?s)"
      using cpar_0 [of fs] top_mem [of r] by (auto simp: set_keys_plug)
    ultimately show ?thesis using x l gs by (auto simp: u_rb_erase_node_def Let_def)
  next
    case (2 fs' v va vb a' c')
    let ?s = "rb_change_child a (top l) (cpar fs) (set_pc (top l) (pcw (cpar fs) c) s)"
    have l: "l \<noteq> Leaf" "r = Leaf" and gs: "gs = fs" "t = repaint c l" "\<not> short" using 2 e by auto
    have "rep_at ?s fs (repaint c l)"
      using r l x(9) by (cases l rule: top.cases; clarsimp simp: rep_at_def)
    moreover have "rb_frame (set (keys (plug fs (Node l (a, c) r)))) s ?s"
      using cpar_0 [of fs] top_mem [of l] l by (auto simp: set_keys_plug)
    ultimately show ?thesis using x l gs by (auto simp: u_rb_erase_node_def Let_def)
  next
    case (3 fs' v va vb a' c' rl b bc rr)
    obtain hs m mc ch where m: "leftmost_at [] rl (b, bc) rr = (hs, (m, mc), ch)" by (metis prod.exhaust)
    have l: "l \<noteq> Leaf" "r = Node rl (b, bc) rr" and gs: "gs = hs @ FR l c m # fs" "t = repaint RB_BLACK ch" "short \<longleftrightarrow> ch = Leaf \<and> mc = RB_BLACK"
      using 3 e m by auto
    have pl: "plug hs (Node Leaf (m, mc) ch) = r" using leftmost_at_plug [OF m] l(2) by simp
    have rh: "rep_at s (hs @ FR l c a # fs) (Node Leaf (m, mc) ch)" using r pl by (simp add: rep_at_append rep_at_fill)
    have K: "set (keys (plug fs (Node l (a, c) r))) = set (keys (plug (hs @ FR l c a # fs) (Node Leaf (m, mc) ch)))"
      using pl by (simp add: plug_append)
    show ?thesis
    proof (cases "rl = Leaf")
      case True
      then have h: "hs = []" "m = b" "mc = bc" "ch = rr" using m by auto
      have b: "rb_left s b = 0" "rb_right s b = top ch" using x(8) l(2) True h tr_top by auto
      note c2 = erase_case2_at [OF rh [unfolded h(1) append_Nil] l(1)]
      have "u_rb_erase_node a False s = Some (erase_put a b b (top ch) s)"
        using x l b by (simp add: u_rb_erase_node_def Let_def)
      then show ?thesis using c2 gs h K by (intro exI [of _ "snd (erase_put a m m (top ch) s)"]) (simp add: prod_eq_iff del: plug.simps)
    next
      case False
      have tr: "tr s a b (Node rl (b, bc) rr)" using x(8) l(2) by simp
      obtain pc q r' hs' where es: "erase_successor s b (rb_left s b) = Some (cpar hs, m)" "rb_right s m = top ch" and hs: "hs = FL pc q r' # hs'"
        using erase_successor_at [OF tr False m] by auto
      have b: "rb_left s b \<noteq> 0" using tr False by (cases rl rule: red.cases) auto
      have "u_rb_erase_node a False s = Some (erase_put a m q (top ch) (rb_set_parent (rb_right s a) m (set_right m (rb_right s a) (set_left q (top ch) s))))"
        using x l b es hs by (simp add: u_rb_erase_node_def Let_def)
      then show ?thesis using erase_node_case3 [OF rh hs l(1)] gs hs K by auto
    qed
  qed
qed

text \<open>\<open>rbt_erase\<close> implements \<open>erase_tree\<close>.\<close>

lemma rbt_erase_at:
  assumes r: "rep_at s fs (Node l (a, c) r)" and i: "rb_inv (plug fs (Node l (a, c) r))"
  shows "rb_done (erase_tree fs (Node l (a, c) r)) fs (Node l (a, c) r) s (rbt_erase a s)"
proof -
  obtain gs t short where e: "erase_place fs l (a, c) r = (gs, t, short)" by (metis prod.exhaust)
  let ?A = "set (keys (plug fs (Node l (a, c) r)))"
  obtain s' where s': "u_rb_erase_node a False s = Some (if short then cpar gs else 0, s')" "rep_at s' gs t" "rb_frame ?A s s'"
    using u_rb_erase_node_at [OF r e] by blast
  have T: "erase_tree fs (Node l (a, c) r) = (if short then erase_up gs t else plug gs t)" using e by (simp add: erase_tree_place del: erase_tree.simps)
  show ?thesis
  proof (cases "short \<and> gs \<noteq> []")
    case True
    then have t: "t = Leaf" and ctx: "rb_ctx (Suc 0) gs" using erase_place_short erase_place_ctx [OF i] e by metis+
    have "rb_done (erase_up gs t) gs t s' (rb_erase_loop (top t) (cpar gs) s')"
      by (rule rb_erase_loop_at [OF s'(2)]) (use True t ctx in auto)
    moreover have "set (keys (plug gs t)) \<subseteq> ?A" using erase_place_keys [OF e] by blast
    ultimately have "rb_done (erase_up gs t) fs (Node l (a, c) r) s (rb_erase_loop 0 (cpar gs) s')"
      using rb_done_trans [OF _ s'(3)] t by simp
    then show ?thesis using s'(1) True T cpar_nz [OF s'(2)] by (simp add: rbt_erase_def u_rb_erase_color_def del: erase_tree.simps)
  next
    case False
    then show ?thesis using s' T rb_done_now [OF s'(2,3) refl] by (cases "gs = []") (auto simp: rbt_erase_def simp del: erase_tree.simps)
  qed
qed

end
