(* ===== verification/Rb_Ops.thy ===== *)
theory Rb_Ops
  imports Rb_Erase
begin

text \<open>
  \<open>src/adt/rbtree.c\<close>: the generic tree with comparison callbacks (insertion with unique and multiple keys, lookups, removal by node and by key), the walks in order and in postorder.
  The operations are specified by the list of the nodes in order; the comparisons come in through locales whose laws the search
  needs, with the comparisons of the leak checker of \<open>src/mm/slab.c\<close> as an instance.
\<close>

section \<open>The generic tree: operations\<close>

text \<open>
  \<open>compare_node\<close> and \<open>compare_key\<close> are the callbacks of \<open>struct rbtree_ops\<close>.  The search for the place of a new node ends at an empty link, with the parent and whether only left
  links were followed, or at a node with the same key.
\<close>

partial_function (option) rb_insert_search ::
  "(rb_ptr \<Rightarrow> rb_ptr \<Rightarrow> int) \<Rightarrow> rb_ptr \<Rightarrow> bool \<Rightarrow> rb_store \<Rightarrow> rb_link \<Rightarrow> rb_ptr \<Rightarrow> bool \<Rightarrow> (rb_ptr + rb_ptr \<times> rb_link \<times> bool) option" where
  "rb_insert_search compare_node node multi s rb_link parent leftmost =
     (if read_link s rb_link \<noteq> 0 then
        (let parent = read_link s rb_link; rc = compare_node parent node in
         if rc > 0 then rb_insert_search compare_node node multi s (LeftLink parent) parent leftmost
         else if rc = 0 \<and> \<not> multi then Some (Inl parent)
         else rb_insert_search compare_node node multi s (RightLink parent) parent False)
      else Some (Inr (parent, rb_link, leftmost)))"

definition u_rbtree_insert_node ::
  "(rb_ptr \<Rightarrow> rb_ptr \<Rightarrow> int) \<Rightarrow> rb_ptr \<Rightarrow> bool \<Rightarrow> bool \<Rightarrow> rb_store \<Rightarrow> (rb_ptr \<times> rb_store) option" where
  "u_rbtree_insert_node compare_node node multi update s =
     (case rb_insert_search compare_node node multi s RootLink 0 True of
        None \<Rightarrow> None
      | Some (Inl existed) \<Rightarrow> Some (existed, s)
      | Some (Inr (parent, rb_link, leftmost)) \<Rightarrow>
          (let s = rbt_link_node node parent rb_link s in
           map_option (Pair 0) (u_rb_insert node (if update then leftmost else False) s)))"

definition rbtree_insert_node :: "(rb_ptr \<Rightarrow> rb_ptr \<Rightarrow> int) \<Rightarrow> rb_ptr \<Rightarrow> rb_store \<Rightarrow> (rb_ptr \<times> rb_store) option" where
  "rbtree_insert_node compare_node node s = u_rbtree_insert_node compare_node node False False s"

definition rbtree_multi_insert_node :: "(rb_ptr \<Rightarrow> rb_ptr \<Rightarrow> int) \<Rightarrow> rb_ptr \<Rightarrow> rb_store \<Rightarrow> rb_store option" where
  "rbtree_multi_insert_node compare_node node s = map_option snd (u_rbtree_insert_node compare_node node True False s)"

definition rbtree_insert_node_cached :: "(rb_ptr \<Rightarrow> rb_ptr \<Rightarrow> int) \<Rightarrow> rb_ptr \<Rightarrow> rb_store \<Rightarrow> (rb_ptr \<times> rb_store) option" where
  "rbtree_insert_node_cached compare_node node s = u_rbtree_insert_node compare_node node False True s"

definition rbtree_multi_insert_node_cached :: "(rb_ptr \<Rightarrow> rb_ptr \<Rightarrow> int) \<Rightarrow> rb_ptr \<Rightarrow> rb_store \<Rightarrow> rb_store option" where
  "rbtree_multi_insert_node_cached compare_node node s = map_option snd (u_rbtree_insert_node compare_node node True True s)"

partial_function (option) rb_lookup_from :: "(rb_ptr \<Rightarrow> 'k \<Rightarrow> int) \<Rightarrow> 'k \<Rightarrow> rb_store \<Rightarrow> rb_ptr \<Rightarrow> rb_ptr option" where
  "rb_lookup_from compare_key key s n =
     (if n \<noteq> 0 then
        (let rc = compare_key n key in
         if rc < 0 then rb_lookup_from compare_key key s (rb_right s n)
         else if rc = 0 then Some n
         else rb_lookup_from compare_key key s (rb_left s n))
      else Some n)"

definition rbtree_lookup :: "(rb_ptr \<Rightarrow> 'k \<Rightarrow> int) \<Rightarrow> 'k \<Rightarrow> rb_store \<Rightarrow> rb_ptr option" where
  "rbtree_lookup compare_key key s = rb_lookup_from compare_key key s (rb_node s)"

partial_function (option) rb_first_equal :: "(rb_ptr \<Rightarrow> rb_ptr \<Rightarrow> int) \<Rightarrow> rb_store \<Rightarrow> rb_ptr \<Rightarrow> rb_ptr option" where
  "rb_first_equal compare_node s lst =
     (if lst = 0 then Some lst
      else case rbt_prev s lst of None \<Rightarrow> None
      | Some node \<Rightarrow>
          if node = 0 then Some lst
          else if compare_node lst node \<noteq> 0 then Some lst
          else rb_first_equal compare_node s node)"

partial_function (option) rb_last_equal :: "(rb_ptr \<Rightarrow> rb_ptr \<Rightarrow> int) \<Rightarrow> rb_store \<Rightarrow> rb_ptr \<Rightarrow> rb_ptr option" where
  "rb_last_equal compare_node s lst =
     (if lst = 0 then Some lst
      else case rbt_next s lst of None \<Rightarrow> None
      | Some node \<Rightarrow>
          if node = 0 then Some lst
          else if compare_node lst node \<noteq> 0 then Some lst
          else rb_last_equal compare_node s node)"

definition rbtree_lookup_first :: "(rb_ptr \<Rightarrow> 'k \<Rightarrow> int) \<Rightarrow> (rb_ptr \<Rightarrow> rb_ptr \<Rightarrow> int) \<Rightarrow> 'k \<Rightarrow> rb_store \<Rightarrow> rb_ptr option" where
  "rbtree_lookup_first compare_key compare_node key s =
     Option.bind (rbtree_lookup compare_key key s) (rb_first_equal compare_node s)"

definition rbtree_lookup_last :: "(rb_ptr \<Rightarrow> 'k \<Rightarrow> int) \<Rightarrow> (rb_ptr \<Rightarrow> rb_ptr \<Rightarrow> int) \<Rightarrow> 'k \<Rightarrow> rb_store \<Rightarrow> rb_ptr option" where
  "rbtree_lookup_last compare_key compare_node key s =
     Option.bind (rbtree_lookup compare_key key s) (rb_last_equal compare_node s)"

definition rbtree_lookup_next :: "(rb_ptr \<Rightarrow> rb_ptr \<Rightarrow> int) \<Rightarrow> rb_ptr \<Rightarrow> rb_store \<Rightarrow> rb_ptr option" where
  "rbtree_lookup_next compare_node prev s =
     (if prev = 0 then Some 0
      else case rbt_next s prev of None \<Rightarrow> None
      | Some node \<Rightarrow> Some (if node \<noteq> 0 \<and> compare_node node prev = 0 then node else 0))"

definition rbtree_lookup_prev :: "(rb_ptr \<Rightarrow> rb_ptr \<Rightarrow> int) \<Rightarrow> rb_ptr \<Rightarrow> rb_store \<Rightarrow> rb_ptr option" where
  "rbtree_lookup_prev compare_node prev s =
     (if prev = 0 then Some 0
      else case rbt_prev s prev of None \<Rightarrow> None
      | Some node \<Rightarrow> Some (if node \<noteq> 0 \<and> compare_node node prev = 0 then node else 0))"

definition rbtree_remove_node :: "rb_ptr \<Rightarrow> rb_store \<Rightarrow> rb_store option" where
  "rbtree_remove_node node s =
     (case u_rb_erase_node node False s of None \<Rightarrow> None
      | Some (rebalance, s) \<Rightarrow> map_option (RBT_CLEAR_NODE node) (if rebalance \<noteq> 0 then u_rb_erase_color rebalance s else Some s))"

definition rbtree_remove_node_cached :: "rb_ptr \<Rightarrow> rb_store \<Rightarrow> rb_store option" where
  "rbtree_remove_node_cached node s =
     (case u_rb_erase_node node True s of None \<Rightarrow> None
      | Some (rebalance, s) \<Rightarrow> map_option (RBT_CLEAR_NODE node) (if rebalance \<noteq> 0 then u_rb_erase_color rebalance s else Some s))"

definition rbtree_remove :: "(rb_ptr \<Rightarrow> 'k \<Rightarrow> int) \<Rightarrow> (rb_ptr \<Rightarrow> rb_ptr \<Rightarrow> int) \<Rightarrow> 'k \<Rightarrow> rb_store \<Rightarrow> (rb_ptr \<times> rb_store) option" where
  "rbtree_remove compare_key compare_node key s =
     (case rbtree_lookup_first compare_key compare_node key s of None \<Rightarrow> None
      | Some node \<Rightarrow>
          if node = 0 then Some (0, s)
          else case u_rb_erase_node node False s of None \<Rightarrow> None
          | Some (rebalance, s) \<Rightarrow>
              map_option (\<lambda>s. (node, RBT_CLEAR_NODE node s)) (if rebalance \<noteq> 0 then u_rb_erase_color rebalance s else Some s))"

definition rbtree_remove_cached :: "(rb_ptr \<Rightarrow> 'k \<Rightarrow> int) \<Rightarrow> (rb_ptr \<Rightarrow> rb_ptr \<Rightarrow> int) \<Rightarrow> 'k \<Rightarrow> rb_store \<Rightarrow> (rb_ptr \<times> rb_store) option" where
  "rbtree_remove_cached compare_key compare_node key s =
     (case rbtree_lookup_first compare_key compare_node key s of None \<Rightarrow> None
      | Some node \<Rightarrow>
          if node = 0 then Some (0, s)
          else case u_rb_erase_node node True s of None \<Rightarrow> None
          | Some (rebalance, s) \<Rightarrow>
              map_option (\<lambda>s. (node, RBT_CLEAR_NODE node s)) (if rebalance \<noteq> 0 then u_rb_erase_color rebalance s else Some s))"

definition rbtree_init :: "rb_store \<Rightarrow> rb_store" where
  "rbtree_init s = s\<lparr>rb_leftmost := 0, rb_node := 0\<rparr>"

section \<open>The place of a new node\<close>

fun ins_path :: "(rb_ptr \<Rightarrow> int) \<Rightarrow> bool \<Rightarrow> rb_ptr frame list \<Rightarrow> rb_ptr rb_tree \<Rightarrow> rb_ptr + rb_ptr frame list" where
  "ins_path f multi fs Leaf = Inr fs"
| "ins_path f multi fs (Node l (a, c) r) =
     (if f a > 0 then ins_path f multi (FL c a r # fs) l
      else if f a = 0 \<and> \<not> multi then Inl a else ins_path f multi (FR l c a # fs) r)"

fun link_of :: "rb_ptr frame list \<Rightarrow> rb_link" where
  "link_of [] = RootLink" | "link_of (FL c a r # fs) = LeftLink a" | "link_of (FR l c a # fs) = RightLink a"

lemma read_link_of: "rep_at s fs t \<Longrightarrow> read_link s (link_of fs) = top t"
  by (cases fs rule: cpar.cases) (auto simp: rep_at_def)

lemma rep_at_top_0: "rep_at s fs t \<Longrightarrow> top t = 0 \<longleftrightarrow> t = Leaf"
  by (auto simp: rep_at_def dest: top_0)

lemma rb_insert_search_at:
  assumes "rep_at s fs t"
  shows "rb_insert_search cmp node multi s (link_of fs) (cpar fs) (keys_before fs = []) =
    Some (case ins_path (\<lambda>a. cmp a node) multi fs t of Inl a \<Rightarrow> Inl a | Inr gs \<Rightarrow> Inr (cpar gs, link_of gs, keys_before gs = []))"
  using assms
proof (induction t arbitrary: fs rule: keys.induct)
  case 1
  then show ?case using read_link_of [OF 1] by (subst rb_insert_search.simps) simp
next
  case (2 l a c r)
  note rd = read_link_of [OF 2(3)]
  have "a \<noteq> 0" using 2(3) by (auto simp: rep_at_def)
  then show ?case
    using rd 2(1) [of "FL c a r # fs"] 2(2) [of "FR l c a # fs"] 2(3) by (subst rb_insert_search.simps) (auto simp: Let_def rep_at_fill)
qed

lemma ins_path_plug: "ins_path f multi fs t = Inr gs \<Longrightarrow> plug gs Leaf = plug fs t"
  by (induction f multi fs t rule: ins_path.induct) (auto split: if_splits)

lemma ins_path_found: "ins_path f multi fs t = Inl a \<Longrightarrow> a \<in> set (keys t) \<and> f a = 0 \<and> \<not> multi"
  by (induction f multi fs t rule: ins_path.induct) (auto split: if_splits)

lemma rbt_link_node_at:
  assumes "rep_at s fs Leaf" and "node \<notin> set (keys (plug fs Leaf))" "node \<noteq> 0" "aligned node"
  shows "rep_at (rbt_link_node node (cpar fs) (link_of fs) s) fs (Node Leaf (node, RB_RED) Leaf)"
  using assms by (cases fs rule: cpar.cases) (auto simp: rep_at_def rbt_link_node_def Let_def set_keys_plug simp del: plug.simps)

lemma rbt_link_node_reads:
  "cpar fs \<noteq> node \<Longrightarrow> rbt_red_parent (rbt_link_node node (cpar fs) (link_of fs) s) node = cpar fs"
  "rb_leftmost (rbt_link_node node p k s) = rb_leftmost s"
  "rb_frame (insert node (set (keys (plug fs Leaf)))) s (rbt_link_node node (cpar fs) (link_of fs) s)"
proof -
  show "rbt_red_parent (rbt_link_node node (cpar fs) (link_of fs) s) node = cpar fs"
    by (cases fs rule: cpar.cases) (simp_all add: rbt_link_node_def rbt_red_parent_def Let_def)
  show "rb_leftmost (rbt_link_node node p k s) = rb_leftmost s"
    by (cases k) (simp_all add: rbt_link_node_def Let_def set_pc_def set_left_def set_right_def)
  show "rb_frame (insert node (set (keys (plug fs Leaf)))) s (rbt_link_node node (cpar fs) (link_of fs) s)"
    by (cases fs rule: cpar.cases) (simp_all add: rbt_link_node_def Let_def set_keys_plug rb_frame_def set_pc_def set_left_def set_right_def del: plug.simps)
qed

lemma rep_at_leftmost [simp]: "rep_at (s\<lparr>rb_leftmost := y\<rparr>) fs t = rep_at s fs t"
  by (simp add: rep_at_def)

text \<open>Linking a node at an empty place and balancing.\<close>

lemma rb_link_insert_at:
  assumes r: "rep_at s fs Leaf" and i: "rb_inv (plug fs Leaf)" and n: "node \<notin> set (keys (plug fs Leaf))" "node \<noteq> 0" "aligned node"
  shows "\<exists>s'. u_rb_insert node lm (rbt_link_node node (cpar fs) (link_of fs) s) = Some s' \<and>
    rb_rep s' (insert_up fs (Node Leaf (node, RB_RED) Leaf)) \<and>
    rb_frame (insert node (set (keys (plug fs Leaf)))) (if lm then s\<lparr>rb_leftmost := node\<rparr> else s) s'"
proof -
  let ?t = "Node Leaf (node, RB_RED) Leaf" and ?s = "rbt_link_node node (cpar fs) (link_of fs) s" and ?A = "insert node (set (keys (plug fs Leaf)))"
  let ?s1 = "if lm then ?s\<lparr>rb_leftmost := node\<rparr> else ?s"
  have cp: "cpar fs \<noteq> node" using rep_at_fresh [OF r n(1,2)] by simp
  have r1: "rep_at ?s1 fs ?t" using rbt_link_node_at [OF r n] by simp
  have "rb_ctx 0 fs" using i by (auto simp: rb_inv_plug rb_at_def)
  then have "rb_done (insert_up fs ?t) fs ?t ?s1 (rb_insert_loop node (cpar fs) ?s1)"
    using rb_insert_loop_at [OF r1, of 0] by simp
  then obtain s' where s': "rb_insert_loop node (cpar fs) ?s1 = Some s'" "rb_rep s' (insert_up fs ?t)" "rb_frame (set (keys (plug fs ?t))) ?s1 s'"
    by (auto simp: rb_done_def)
  have "rb_frame ?A (if lm then s\<lparr>rb_leftmost := node\<rparr> else s) ?s1" using rbt_link_node_reads(3) [of node fs s] by (simp add: rb_frame_def)
  moreover have "set (keys (plug fs ?t)) = ?A" by (auto simp: set_keys_plug)
  ultimately show ?thesis using s' rbt_link_node_reads(1) [OF cp, of s] rb_frame_trans by (fastforce simp: u_rb_insert_def)
qed

section \<open>What the operations do to the list of nodes\<close>

text \<open>A store that holds a red-black tree with the nodes \<open>xs\<close>, in order; and one whose cached first node is right.\<close>

definition rb_holds :: "rb_store \<Rightarrow> rb_ptr list \<Rightarrow> bool" where
  "rb_holds s xs \<longleftrightarrow> (\<exists>t. rb_rep s t \<and> rb_inv t \<and> keys t = xs)"

definition rb_holds_cached :: "rb_store \<Rightarrow> rb_ptr list \<Rightarrow> bool" where
  "rb_holds_cached s xs \<longleftrightarrow> rb_holds s xs \<and> rb_leftmost s = first_of xs"

lemma rb_holds_init: "rb_holds (rbtree_init s) [] \<and> rb_holds_cached (rbtree_init s) []"
proof -
  have "rb_rep (rbtree_init s) Leaf \<and> rb_inv (Leaf :: rb_ptr rb_tree)" by (auto simp: rb_rep_def rb_inv_def rbtree_init_def)
  then have "rb_holds (rbtree_init s) []" unfolding rb_holds_def by (intro exI [of _ Leaf]) simp
  then show ?thesis by (simp add: rb_holds_cached_def rbtree_init_def)
qed

lemma rb_holds_distinct: "rb_holds s xs \<Longrightarrow> distinct xs \<and> 0 \<notin> set xs"
  by (auto simp: rb_holds_def rb_rep_def dest: tr_0)

lemma tree_plug: "a \<in> set (keys t) \<Longrightarrow> \<exists>fs l c r. t = plug fs (Node l (a, c) r)"
proof (induction t rule: keys.induct)
  case (2 l b c r)
  then consider "a = b" | fs l' c' r' where "l = plug fs (Node l' (a, c') r')" | fs l' c' r' where "r = plug fs (Node l' (a, c') r')"
    by auto
  then show ?case
  proof cases
    case 1
    then have "Node l (b, c) r = plug [] (Node l (a, c) r)" by simp
    then show ?thesis by blast
  next
    case 2
    then have "Node l (b, c) r = plug (fs @ [FL c b r]) (Node l' (a, c') r')" by (simp add: plug_append)
    then show ?thesis by blast
  next
    case 3
    then have "Node l (b, c) r = plug (fs @ [FR l c b]) (Node l' (a, c') r')" by (simp add: plug_append)
    then show ?thesis by blast
  qed
qed simp

text \<open>A node of the tree: the nodes before it and after it.\<close>

lemma split_unique:
  assumes "distinct (xs @ a # ys)" and "xs @ a # ys = us @ a # vs"
  shows "us = xs \<and> vs = ys"
proof -
  have "a \<notin> set xs" "a \<notin> set ys" using assms(1) by simp_all
  then show ?thesis using append_Cons_eq_iff [of a xs ys us vs] assms(2) by simp
qed

lemma rb_holds_at:
  assumes "rb_holds s (xs @ a # ys)"
  obtains fs l c r where "rep_at s fs (Node l (a, c) r)" "rb_inv (plug fs (Node l (a, c) r))"
    "keys (plug fs (Node l (a, c) r)) = xs @ a # ys" "keys_before fs @ keys l = xs" "keys r @ keys_after fs = ys"
proof -
  obtain t where t: "rb_rep s t" "rb_inv t" "keys t = xs @ a # ys" using assms by (auto simp: rb_holds_def)
  then obtain fs l c r where p: "t = plug fs (Node l (a, c) r)" using tree_plug [of a t] by auto
  moreover have "xs @ a # ys = (keys_before fs @ keys l) @ a # keys r @ keys_after fs" using t(3) p by (simp add: keys_plug)
  then have "keys_before fs @ keys l = xs \<and> keys r @ keys_after fs = ys"
    by (rule split_unique [OF conjunct1 [OF rb_holds_distinct [OF assms]]])
  ultimately show thesis using t that by (simp add: rb_rep_plug)
qed

lemma rbt_next_holds: "rb_holds s (xs @ a # ys) \<Longrightarrow> rbt_next s a = Some (first_of ys)"
  by (erule rb_holds_at) (simp add: rbt_next_at)

lemma rbt_prev_holds: "rb_holds s (xs @ a # ys) \<Longrightarrow> rbt_prev s a = Some (first_of (rev xs))"
  by (erule rb_holds_at) (auto simp: rbt_prev_at)

lemma rbt_first_holds: "rb_holds s xs \<Longrightarrow> rbt_first s = Some (first_of xs)"
  using rbt_first_at by (auto simp: rb_holds_def)

lemma rbt_last_holds: "rb_holds s xs \<Longrightarrow> rbt_last s = Some (first_of (rev xs))"
  using rbt_last_at by (auto simp: rb_holds_def)

lemma rbt_erase_holds:
  assumes h: "rb_holds s (xs @ a # ys)"
  shows "\<exists>s'. rbt_erase a s = Some s' \<and> rb_holds s' (xs @ ys) \<and> rb_frame (set (xs @ a # ys)) s s'"
proof (rule rb_holds_at [OF h])
  fix fs l c r
  assume r: "rep_at s fs (Node l (a, c) r)" "rb_inv (plug fs (Node l (a, c) r))" "keys (plug fs (Node l (a, c) r)) = xs @ a # ys"
    and k: "keys_before fs @ keys l = xs" "keys r @ keys_after fs = ys"
  have "keys (erase_tree fs (Node l (a, c) r)) = xs @ ys" "rb_inv (erase_tree fs (Node l (a, c) r))"
    using erase_tree_ok [OF r(2)] k by auto
  moreover obtain s' where "rbt_erase a s = Some s'" "rb_rep s' (erase_tree fs (Node l (a, c) r))" "rb_frame (set (xs @ a # ys)) s s'"
    using rbt_erase_at [OF r(1,2)] unfolding rb_done_def r(3) by blast
  ultimately show ?thesis unfolding rb_holds_def by blast
qed

lemma rb_holds_leftmost [simp]: "rb_holds (s\<lparr>rb_leftmost := n\<rparr>) xs = rb_holds s xs"
  by (simp add: rb_holds_def rb_rep_def)

text \<open>With the cached first node: the first step replaces it by the next node when it is the one removed.\<close>

lemma u_rb_erase_node_cached:
  "rbt_next s a = Some n \<Longrightarrow> u_rb_erase_node a True s = u_rb_erase_node a False (if a = rb_leftmost s then s\<lparr>rb_leftmost := n\<rparr> else s)"
  by (auto simp: u_rb_erase_node_def Let_def split: option.splits)

lemma rbt_erase_cached_holds:
  assumes h: "rb_holds_cached s (xs @ a # ys)"
  shows "\<exists>s'. rbt_erase_cached a s = Some s' \<and> rb_holds_cached s' (xs @ ys) \<and> rb_frame (set (xs @ a # ys)) (s\<lparr>rb_leftmost := first_of (xs @ ys)\<rparr>) s'"
proof -
  have h': "rb_holds s (xs @ a # ys)" and lm: "rb_leftmost s = first_of (xs @ a # ys)" using h by (auto simp: rb_holds_cached_def)
  let ?s = "if a = rb_leftmost s then s\<lparr>rb_leftmost := first_of ys\<rparr> else s"
  have hs: "rb_holds ?s (xs @ a # ys)" using h' by auto
  have s: "?s = s\<lparr>rb_leftmost := first_of (xs @ ys)\<rparr>" using lm rb_holds_distinct [OF h'] by (cases xs) auto
  have "rbt_erase_cached a s = rbt_erase a ?s"
    using u_rb_erase_node_cached [OF rbt_next_holds [OF h']] by (simp add: rbt_erase_cached_def rbt_erase_def)
  moreover obtain s' where "rbt_erase a ?s = Some s'" "rb_holds s' (xs @ ys)" "rb_frame (set (xs @ a # ys)) ?s s'"
    using rbt_erase_holds [OF hs] by blast
  ultimately show ?thesis unfolding s rb_holds_cached_def by (simp add: rb_frame_def)
qed

section \<open>Orders\<close>

text \<open>
  \<open>after x n\<close>: the search for the place of the new node \<open>n\<close> goes left at the node \<open>x\<close>.  This is what the
  search needs of a comparison.
\<close>

definition in_order :: "(rb_ptr \<Rightarrow> rb_ptr \<Rightarrow> bool) \<Rightarrow> rb_ptr list \<Rightarrow> bool" where
  "in_order after xs \<longleftrightarrow> sorted_wrt (\<lambda>x y. \<not> after x y) xs"

definition place :: "(rb_ptr \<Rightarrow> rb_ptr \<Rightarrow> bool) \<Rightarrow> rb_ptr \<Rightarrow> rb_ptr list \<Rightarrow> rb_ptr list" where
  "place after n xs = takeWhile (\<lambda>x. \<not> after x n) xs @ n # dropWhile (\<lambda>x. \<not> after x n) xs"

lemma takeWhile_parts: "\<forall>x\<in>set us. P x \<Longrightarrow> \<forall>x\<in>set vs. \<not> P x \<Longrightarrow> takeWhile P (us @ vs) = us \<and> dropWhile P (us @ vs) = vs"
  by (cases vs) (auto simp: takeWhile_append2 dropWhile_append2)

lemma place_parts: "\<forall>x\<in>set us. \<not> after x n \<Longrightarrow> \<forall>x\<in>set vs. after x n \<Longrightarrow> place after n (us @ vs) = us @ n # vs"
  using takeWhile_parts [of us "\<lambda>x. \<not> after x n" vs] by (simp add: place_def)

lemma set_place: "set (place after n xs) = insert n (set xs)"
  unfolding place_def by (metis (no_types) list.set(2) set_append takeWhile_dropWhile_id Un_insert_right)

locale rb_order =
  fixes after :: "rb_ptr \<Rightarrow> rb_ptr \<Rightarrow> bool"
  assumes trans: "\<not> after x y \<Longrightarrow> \<not> after y z \<Longrightarrow> \<not> after x z"
    and asym: "after x y \<Longrightarrow> \<not> after y x"
begin

lemma split_order:
  assumes "in_order after xs"
  shows "\<exists>us vs. xs = us @ vs \<and> (\<forall>x\<in>set us. \<not> after x n) \<and> (\<forall>x\<in>set vs. after x n)"
  using assms
proof (induction xs)
  case (Cons x xs)
  show ?case
  proof (cases "after x n")
    case True
    then have "\<forall>y\<in>set (x # xs). after y n" using Cons.prems trans by (auto simp: in_order_def)
    then show ?thesis by (intro exI [of _ "[]"] exI [of _ "x # xs"]) simp
  next
    case False
    obtain us vs where "xs = us @ vs" "\<forall>x\<in>set us. \<not> after x n" "\<forall>x\<in>set vs. after x n"
      using Cons by (auto simp: in_order_def)
    then show ?thesis using False by (intro exI [of _ "x # us"] exI [of _ vs]) simp
  qed
qed simp

lemma place_in_order: "in_order after xs \<Longrightarrow> in_order after (place after n xs)"
proof -
  assume s: "in_order after xs"
  then obtain us vs where "xs = us @ vs" "\<forall>x\<in>set us. \<not> after x n" "\<forall>x\<in>set vs. after x n" using split_order by blast
  then show ?thesis using s place_parts [of us after n vs] asym by (auto simp: in_order_def sorted_wrt_append)
qed

text \<open>The search follows the order: the nodes before the place it finds are not after the new node, those behind it are.\<close>

lemma ins_path_order:
  assumes "ins_path f multi fs t = Inr gs" and "\<And>a. f a > 0 \<longleftrightarrow> after a n" and "in_order after (keys (plug fs t))"
    and "\<forall>x\<in>set (keys_before fs). \<not> after x n" and "\<forall>x\<in>set (keys_after fs). after x n"
  shows "(\<forall>x\<in>set (keys_before gs). \<not> after x n) \<and> (\<forall>x\<in>set (keys_after gs). after x n)"
  using assms
proof (induction f multi fs t rule: ins_path.induct)
  case (2 f multi fs l a c r)
  have s: "\<not> after x a" if "x \<in> set (keys l) \<union> set (keys_before fs)" for x
    using that 2(5) by (auto simp: in_order_def keys_plug sorted_wrt_append)
  have s': "\<not> after a x" if "x \<in> set (keys r) \<union> set (keys_after fs)" for x
    using that 2(5) by (auto simp: in_order_def keys_plug sorted_wrt_append)
  show ?case
  proof (cases "f a > 0")
    case True
    then have "after a n" using 2(4) by simp
    then have "\<forall>x\<in>set (keys_after (FL c a r # fs)). after x n" using s' trans 2(7) by auto
    then show ?thesis using 2(1) [OF True] 2(3-6) True by simp
  next
    case False
    then have n: "\<not> after a n" using 2(4) by simp
    then have "\<forall>x\<in>set (keys_before (FR l c a # fs)). \<not> after x n" using s trans 2(6) by auto
    then show ?thesis using 2(2) [OF False] 2(3-7) False by (auto split: if_splits)
  qed
qed simp

end

section \<open>Insertion\<close>

lemma u_rbtree_insert_node_path:
  assumes r: "rb_rep s t" "rb_inv t" and n: "node \<notin> set (keys t)" "node \<noteq> 0" "aligned node"
  shows "(\<exists>a. ins_path (\<lambda>a. cmp a node) multi [] t = Inl a \<and> u_rbtree_insert_node cmp node multi update s = Some (a, s)) \<or>
    (\<exists>fs s'. ins_path (\<lambda>a. cmp a node) multi [] t = Inr fs \<and> u_rbtree_insert_node cmp node multi update s = Some (0, s') \<and>
       rb_holds s' (keys_before fs @ node # keys_after fs) \<and> keys t = keys_before fs @ keys_after fs \<and>
       rb_frame (insert node (set (keys t))) (if update \<and> keys_before fs = [] then s\<lparr>rb_leftmost := node\<rparr> else s) s')"
proof -
  have r0: "rep_at s [] t" using r(1) rb_rep_plug [of s "[]" t] by simp
  note sr = rb_insert_search_at [OF r0, of cmp node multi, simplified]
  show ?thesis
  proof (cases "ins_path (\<lambda>a. cmp a node) multi [] t")
    case (Inl a)
    then show ?thesis using sr by (simp add: u_rbtree_insert_node_def)
  next
    case (Inr fs)
    have p: "plug fs Leaf = t" using ins_path_plug [OF Inr] by simp
    have rf: "rep_at s fs Leaf" "rb_inv (plug fs Leaf)" using r p rb_rep_plug [of s fs Leaf] by simp_all
    let ?t = "Node Leaf (node, RB_RED) Leaf" and ?lm = "update \<and> keys_before fs = []"
    obtain s' where s': "u_rb_insert node ?lm (rbt_link_node node (cpar fs) (link_of fs) s) = Some s'" "rb_rep s' (insert_up fs ?t)"
        "rb_frame (insert node (set (keys t))) (if ?lm then s\<lparr>rb_leftmost := node\<rparr> else s) s'"
      using rb_link_insert_at [OF rf, of node ?lm] n p by auto
    have "rb_inv (insert_up fs ?t)" using rf(2) by (intro rb_insert_up [of 0]) (auto simp: rb_inv_plug rb_at_def)
    moreover have "keys (insert_up fs ?t) = keys_before fs @ node # keys_after fs" by (simp add: keys_insert_up keys_plug)
    ultimately have "rb_holds s' (keys_before fs @ node # keys_after fs)" using s'(2) by (auto simp: rb_holds_def)
    moreover have "keys t = keys_before fs @ keys_after fs" using p keys_plug [of fs Leaf] by simp
    ultimately show ?thesis using Inr sr s'(1,3) by (auto simp: u_rbtree_insert_node_def Let_def)
  qed
qed

context rb_order
begin

lemma insert_multi:
  assumes h: "rb_holds s xs" "in_order after xs" and n: "node \<notin> set xs" "node \<noteq> 0" "aligned node"
    and c: "\<And>a. cmp a node > 0 \<longleftrightarrow> after a node"
  shows "\<exists>s'. u_rbtree_insert_node cmp node True update s = Some (0, s') \<and> rb_holds s' (place after node xs) \<and>
    rb_frame (insert node (set xs)) (if update \<and> first_of (place after node xs) = node then s\<lparr>rb_leftmost := node\<rparr> else s) s'"
proof -
  obtain t where t: "rb_rep s t" "rb_inv t" "keys t = xs" using h(1) by (auto simp: rb_holds_def)
  have nf: "ins_path (\<lambda>a. cmp a node) True [] t \<noteq> Inl a" for a using ins_path_found by blast
  obtain fs s' where p: "ins_path (\<lambda>a. cmp a node) True [] t = Inr fs" and s': "u_rbtree_insert_node cmp node True update s = Some (0, s')"
      "rb_holds s' (keys_before fs @ node # keys_after fs)" "xs = keys_before fs @ keys_after fs"
      "rb_frame (insert node (set xs)) (if update \<and> keys_before fs = [] then s\<lparr>rb_leftmost := node\<rparr> else s) s'"
    using u_rbtree_insert_node_path [OF t(1,2), of node cmp True update] n nf t(3) by auto
  have "(\<forall>x\<in>set (keys_before fs). \<not> after x node) \<and> (\<forall>x\<in>set (keys_after fs). after x node)"
    using ins_path_order [OF p c] h(2) t(3) by simp
  then have pl: "place after node xs = keys_before fs @ node # keys_after fs" using place_parts s'(3) by simp
  have "keys_before fs = [] \<longleftrightarrow> first_of (place after node xs) = node" unfolding pl using n(1) s'(3) by (cases "keys_before fs") auto
  then show ?thesis using s' pl by simp
qed

lemma insert_multi_cached:
  assumes h: "rb_holds_cached s xs" "in_order after xs" and n: "node \<notin> set xs" "node \<noteq> 0" "aligned node"
    and c: "\<And>a. cmp a node > 0 \<longleftrightarrow> after a node"
  shows "\<exists>s'. u_rbtree_insert_node cmp node True True s = Some (0, s') \<and> rb_holds_cached s' (place after node xs)"
proof -
  obtain s' where s': "u_rbtree_insert_node cmp node True True s = Some (0, s')" "rb_holds s' (place after node xs)"
      "rb_frame (insert node (set xs)) (if first_of (place after node xs) = node then s\<lparr>rb_leftmost := node\<rparr> else s) s'"
    using insert_multi [of s xs node cmp True] h n c by (auto simp: rb_holds_cached_def)
  have "first_of xs = first_of (place after node xs)" if "first_of (place after node xs) \<noteq> node"
    using that by (cases xs) (auto simp: place_def)
  then have "rb_leftmost s' = first_of (place after node xs)" using s'(3) h(1) by (auto simp: rb_frame_def rb_holds_cached_def split: if_splits)
  then show ?thesis using s' by (simp add: rb_holds_cached_def)
qed

end

section \<open>Three-way comparisons\<close>

text \<open>The laws of \<open>compare_node\<close>: a total preorder, with equal nodes compared as 0.\<close>

locale rb_cmp =
  fixes cmp :: "rb_ptr \<Rightarrow> rb_ptr \<Rightarrow> int"
  assumes ctrans: "cmp x y \<le> 0 \<Longrightarrow> cmp y z \<le> 0 \<Longrightarrow> cmp x z \<le> 0"
    and csign: "cmp x y > 0 \<longleftrightarrow> cmp y x < 0"

sublocale rb_cmp \<subseteq> ord: rb_order "\<lambda>x y. cmp x y > 0"
proof
  show "\<not> 0 < cmp x z" if "\<not> 0 < cmp x y" "\<not> 0 < cmp y z" for x y z using ctrans [of x y z] that by linarith
  show "\<not> 0 < cmp y x" if "0 < cmp x y" for x y using csign [of x y] that by linarith
qed

abbreviation cmp_order :: "(rb_ptr \<Rightarrow> rb_ptr \<Rightarrow> int) \<Rightarrow> rb_ptr list \<Rightarrow> bool" where
  "cmp_order cmp \<equiv> in_order (\<lambda>x y. cmp x y > 0)"

abbreviation cmp_place :: "(rb_ptr \<Rightarrow> rb_ptr \<Rightarrow> int) \<Rightarrow> rb_ptr \<Rightarrow> rb_ptr list \<Rightarrow> rb_ptr list" where
  "cmp_place cmp \<equiv> place (\<lambda>x y. cmp x y > 0)"

context rb_cmp
begin

lemma less_trans: "cmp x y \<le> 0 \<Longrightarrow> cmp y z < 0 \<Longrightarrow> cmp x z < 0"
proof (rule ccontr)
  assume "cmp x y \<le> 0" "cmp y z < 0" "\<not> cmp x z < 0"
  then have "cmp z x \<le> 0" using csign [of z x] by linarith
  then have "cmp z y \<le> 0" using ctrans \<open>cmp x y \<le> 0\<close> by blast
  then show False using csign [of z y] \<open>cmp y z < 0\<close> by linarith
qed

lemma ins_path_strict:
  assumes "ins_path (\<lambda>a. cmp a n) False fs t = Inr gs" and "cmp_order cmp (keys (plug fs t))" and "\<forall>x\<in>set (keys_before fs). cmp x n < 0"
  shows "\<forall>x\<in>set (keys_before gs). cmp x n < 0"
  using assms
proof (induction "\<lambda>a. cmp a n" False fs t rule: ins_path.induct)
  case (2 fs l a c r)
  have s: "cmp x a \<le> 0" if "x \<in> set (keys l) \<union> set (keys_before fs)" for x
    using that 2(4) by (auto simp: in_order_def keys_plug sorted_wrt_append not_less)
  show ?case
  proof (cases "cmp a n > 0")
    case True
    then show ?thesis using 2 by simp
  next
    case False
    then have "cmp a n < 0" using 2(3) by (auto split: if_splits)
    then have "\<forall>x\<in>set (keys_before (FR l c a # fs)). cmp x n < 0" using s less_trans 2(5) by auto
    then show ?thesis using 2(2) 2(3,4) False by (auto split: if_splits)
  qed
qed simp

lemma insert_unique:
  assumes h: "rb_holds s xs" "cmp_order cmp xs" and n: "node \<notin> set xs" "node \<noteq> 0" "aligned node"
  shows "if \<exists>a\<in>set xs. cmp a node = 0
    then \<exists>a\<in>set xs. cmp a node = 0 \<and> u_rbtree_insert_node cmp node False update s = Some (a, s)
    else \<exists>s'. u_rbtree_insert_node cmp node False update s = Some (0, s') \<and> rb_holds s' (cmp_place cmp node xs) \<and>
      rb_frame (insert node (set xs)) (if update \<and> first_of (cmp_place cmp node xs) = node then s\<lparr>rb_leftmost := node\<rparr> else s) s'"
proof -
  obtain t where t: "rb_rep s t" "rb_inv t" "keys t = xs" using h(1) by (auto simp: rb_holds_def)
  consider (found) a where "ins_path (\<lambda>a. cmp a node) False [] t = Inl a" "u_rbtree_insert_node cmp node False update s = Some (a, s)"
    | (new) fs s' where "ins_path (\<lambda>a. cmp a node) False [] t = Inr fs" "u_rbtree_insert_node cmp node False update s = Some (0, s')"
      "rb_holds s' (keys_before fs @ node # keys_after fs)" "xs = keys_before fs @ keys_after fs"
      "rb_frame (insert node (set xs)) (if update \<and> keys_before fs = [] then s\<lparr>rb_leftmost := node\<rparr> else s) s'"
    using u_rbtree_insert_node_path [OF t(1,2), of node cmp False update] n t(3) by blast
  then show ?thesis
  proof cases
    case found
    then show ?thesis using ins_path_found [OF found(1)] t(3) by auto
  next
    case new
    have o: "(\<forall>x\<in>set (keys_before fs). \<not> cmp x node > 0) \<and> (\<forall>x\<in>set (keys_after fs). cmp x node > 0)"
      using ord.ins_path_order [OF new(1), of node] h(2) t(3) by simp
    have "\<forall>x\<in>set (keys_before fs). cmp x node < 0" using ins_path_strict [OF new(1)] h(2) t(3) by simp
    then have none: "\<not> (\<exists>a\<in>set xs. cmp a node = 0)" using o new(4) by force
    have pl: "cmp_place cmp node xs = keys_before fs @ node # keys_after fs"
      using place_parts [of "keys_before fs" "\<lambda>x y. cmp x y > 0" node "keys_after fs"] o new(4) by simp
    have "keys_before fs = [] \<longleftrightarrow> first_of (cmp_place cmp node xs) = node" unfolding pl using n(1) new(4) by (cases "keys_before fs") auto
    then show ?thesis using none new(2,3,5) pl by simp
  qed
qed

end

text \<open>The laws that tie \<open>compare_key\<close> to \<open>compare_node\<close>.\<close>

locale rb_keys = rb_cmp cmp for cmp +
  fixes ck :: "rb_ptr \<Rightarrow> 'k \<Rightarrow> int"
  assumes below: "cmp x y \<le> 0 \<Longrightarrow> ck y k < 0 \<Longrightarrow> ck x k < 0"
    and beyond: "cmp x y \<le> 0 \<Longrightarrow> ck x k > 0 \<Longrightarrow> ck y k > 0"
    and same: "ck x k = 0 \<Longrightarrow> ck y k = 0 \<longleftrightarrow> cmp x y = 0"
begin

lemma lookup_from:
  "tr s p x t \<Longrightarrow> cmp_order cmp (keys t) \<Longrightarrow>
     \<exists>r. rb_lookup_from ck k s x = Some r \<and> (if r = 0 then \<forall>y\<in>set (keys t). ck y k \<noteq> 0 else r \<in> set (keys t) \<and> ck r k = 0)"
proof (induction t arbitrary: p x rule: keys.induct)
  case 1
  then show ?case by (subst rb_lookup_from.simps) simp
next
  case (2 l a c r)
  have x: "x = a" "a \<noteq> 0" and l: "tr s a (rb_left s a) l" "cmp_order cmp (keys l)" and r: "tr s a (rb_right s a) r" "cmp_order cmp (keys r)"
    and lo: "\<And>y. y \<in> set (keys l) \<Longrightarrow> cmp y a \<le> 0" and ro: "\<And>y. y \<in> set (keys r) \<Longrightarrow> cmp a y \<le> 0"
    using 2(3,4) by (auto simp: in_order_def sorted_wrt_append not_less)
  consider "ck a k < 0" | "ck a k = 0" | "ck a k > 0" by linarith
  then show ?case
  proof cases
    case 1
    then have "\<forall>y\<in>set (keys l). ck y k \<noteq> 0" using below lo by force
    then show ?thesis using 2(2) [OF r] 1 x by (subst rb_lookup_from.simps) (auto simp: Let_def split: if_splits)
  next
    case 2
    then show ?thesis using x by (subst rb_lookup_from.simps) (auto simp: Let_def)
  next
    case 3
    then have "\<forall>y\<in>set (keys r). ck y k \<noteq> 0" using beyond ro by force
    then show ?thesis using 2(1) [OF l] 3 x by (subst rb_lookup_from.simps) (auto simp: Let_def split: if_splits)
  qed
qed

lemma lookup:
  assumes "rb_holds s xs" "cmp_order cmp xs"
  shows "\<exists>r. rbtree_lookup ck k s = Some r \<and> (if r = 0 then \<forall>y\<in>set xs. ck y k \<noteq> 0 else r \<in> set xs \<and> ck r k = 0)"
proof -
  obtain t where "tr s 0 (rb_node s) t" "keys t = xs" using assms(1) by (auto simp: rb_holds_def rb_rep_def)
  then show ?thesis using lookup_from [of s 0 "rb_node s" t k] assms(2) unfolding rbtree_lookup_def by metis
qed

lemma first_equal:
  "rb_holds s (us @ a # vs) \<Longrightarrow> cmp_order cmp (us @ a # vs) \<Longrightarrow> ck a k = 0 \<Longrightarrow>
     rb_first_equal cmp s a = Some (first_of (filter (\<lambda>y. ck y k = 0) (us @ a # vs)))"
proof (induction us arbitrary: a vs rule: rev_induct)
  case Nil
  then show ?case using rbt_prev_holds [of s "[]" a vs] by (subst rb_first_equal.simps) simp
next
  case (snoc b us)
  have z: "a \<noteq> 0" "b \<noteq> 0" using rb_holds_distinct [OF snoc.prems(1)] by auto
  have pv: "rbt_prev s a = Some b" using rbt_prev_holds [OF snoc.prems(1)] by simp
  have ba: "cmp b a \<le> 0" "\<And>y. y \<in> set us \<Longrightarrow> cmp y b \<le> 0" using snoc.prems(2) by (auto simp: in_order_def sorted_wrt_append not_less)
  show ?case
  proof (cases "cmp a b = 0")
    case True
    then have "ck b k = 0" using same [OF snoc.prems(3), of b] by simp
    then show ?thesis using snoc.IH [of b "a # vs"] snoc.prems True z pv by (subst rb_first_equal.simps) simp
  next
    case False
    then have "ck b k \<noteq> 0" using same [OF snoc.prems(3), of b] by simp
    moreover have "\<not> ck b k > 0" using beyond [OF ba(1)] snoc.prems(3) by force
    ultimately have "ck b k < 0" by linarith
    then have "filter (\<lambda>y. ck y k = 0) us = []" using below ba(2) by (force simp: filter_empty_conv)
    then show ?thesis using \<open>ck b k < 0\<close> False z pv snoc.prems(3) by (subst rb_first_equal.simps) simp
  qed
qed

lemma last_equal:
  "rb_holds s (us @ a # vs) \<Longrightarrow> cmp_order cmp (us @ a # vs) \<Longrightarrow> ck a k = 0 \<Longrightarrow>
     rb_last_equal cmp s a = Some (first_of (rev (filter (\<lambda>y. ck y k = 0) (us @ a # vs))))"
proof (induction vs arbitrary: a us)
  case Nil
  then show ?case using rbt_next_holds [of s us a "[]"] by (subst rb_last_equal.simps) simp
next
  case (Cons b vs)
  have z: "a \<noteq> 0" "b \<noteq> 0" using rb_holds_distinct [OF Cons.prems(1)] by auto
  have pv: "rbt_next s a = Some b" using rbt_next_holds [OF Cons.prems(1)] by simp
  have ba: "cmp a b \<le> 0" "\<And>y. y \<in> set vs \<Longrightarrow> cmp b y \<le> 0" using Cons.prems(2) by (auto simp: in_order_def sorted_wrt_append not_less)
  show ?case
  proof (cases "cmp a b = 0")
    case True
    then have "ck b k = 0" using same [OF Cons.prems(3), of b] by simp
    then show ?thesis using Cons.IH [of "us @ [a]" b] Cons.prems True z pv by (subst rb_last_equal.simps) simp
  next
    case False
    then have "ck b k \<noteq> 0" using same [OF Cons.prems(3), of b] by simp
    moreover have "\<not> ck b k < 0" using below [OF ba(1)] Cons.prems(3) by force
    ultimately have "ck b k > 0" by linarith
    then have "filter (\<lambda>y. ck y k = 0) vs = []" using beyond ba(2) by (force simp: filter_empty_conv)
    then show ?thesis using \<open>ck b k > 0\<close> False z pv Cons.prems(3) by (subst rb_last_equal.simps) simp
  qed
qed

lemma lookup_first:
  assumes h: "rb_holds s xs" "cmp_order cmp xs"
  shows "rbtree_lookup_first ck cmp k s = Some (first_of (filter (\<lambda>y. ck y k = 0) xs))"
proof -
  obtain r where r: "rbtree_lookup ck k s = Some r" "if r = 0 then \<forall>y\<in>set xs. ck y k \<noteq> 0 else r \<in> set xs \<and> ck r k = 0" using lookup [OF h] by blast
  show ?thesis
  proof (cases "r = 0")
    case True
    then have "filter (\<lambda>y. ck y k = 0) xs = []" using r(2) by (simp add: filter_empty_conv)
    then show ?thesis using True r(1) by (simp add: rbtree_lookup_first_def rb_first_equal.simps)
  next
    case False
    then obtain us vs where "xs = us @ r # vs" using r(2) split_list by fastforce
    then show ?thesis using first_equal [of s us r vs k] False r h by (simp add: rbtree_lookup_first_def)
  qed
qed

lemma lookup_last:
  assumes h: "rb_holds s xs" "cmp_order cmp xs"
  shows "rbtree_lookup_last ck cmp k s = Some (first_of (rev (filter (\<lambda>y. ck y k = 0) xs)))"
proof -
  obtain r where r: "rbtree_lookup ck k s = Some r" "if r = 0 then \<forall>y\<in>set xs. ck y k \<noteq> 0 else r \<in> set xs \<and> ck r k = 0" using lookup [OF h] by blast
  show ?thesis
  proof (cases "r = 0")
    case True
    then have "filter (\<lambda>y. ck y k = 0) xs = []" using r(2) by (simp add: filter_empty_conv)
    then show ?thesis using True r(1) by (simp add: rbtree_lookup_last_def rb_last_equal.simps)
  next
    case False
    then obtain us vs where "xs = us @ r # vs" using r(2) split_list by fastforce
    then show ?thesis using last_equal [of s us r vs k] False r h by (simp add: rbtree_lookup_last_def)
  qed
qed

end

section \<open>Removal by node and by key\<close>

lemma rb_holds_set_pc: "a \<notin> set xs \<Longrightarrow> rb_holds (set_pc a w s) xs = rb_holds s xs"
  unfolding rb_holds_def rb_rep_def by (metis tr_frame(1) store_reads(4))

lemma remove_node_erase:
  "rbtree_remove_node a s = map_option (RBT_CLEAR_NODE a) (rbt_erase a s)"
  "rbtree_remove_node_cached a s = map_option (RBT_CLEAR_NODE a) (rbt_erase_cached a s)"
  by (auto simp: rbtree_remove_node_def rbtree_remove_node_cached_def rbt_erase_def rbt_erase_cached_def split: option.splits)

lemma remove_erase:
  "rbtree_lookup_first ck cmp k s = Some a \<Longrightarrow>
     rbtree_remove ck cmp k s = (if a = 0 then Some (0, s) else map_option (Pair a) (rbtree_remove_node a s))"
  "rbtree_lookup_first ck cmp k s = Some a \<Longrightarrow>
     rbtree_remove_cached ck cmp k s = (if a = 0 then Some (0, s) else map_option (Pair a) (rbtree_remove_node_cached a s))"
  by (auto simp: rbtree_remove_def rbtree_remove_cached_def rbtree_remove_node_def rbtree_remove_node_cached_def option.map_comp o_def split: option.splits)

lemma remove_node_holds:
  assumes h: "rb_holds s (xs @ a # ys)"
  shows "\<exists>s'. rbtree_remove_node a s = Some s' \<and> rb_holds s' (xs @ ys) \<and> RBT_EMPTY_NODE s' a \<and> rb_frame (set (xs @ a # ys)) s s'"
proof -
  obtain s' where s': "rbt_erase a s = Some s'" "rb_holds s' (xs @ ys)" "rb_frame (set (xs @ a # ys)) s s'" using rbt_erase_holds [OF h] by blast
  moreover have "a \<notin> set (xs @ ys)" using rb_holds_distinct [OF h] by auto
  ultimately show ?thesis
    by (simp add: remove_node_erase RBT_CLEAR_NODE_def RBT_EMPTY_NODE_def rb_holds_set_pc)
qed

lemma remove_node_cached_holds:
  assumes h: "rb_holds_cached s (xs @ a # ys)"
  shows "\<exists>s'. rbtree_remove_node_cached a s = Some s' \<and> rb_holds_cached s' (xs @ ys) \<and> RBT_EMPTY_NODE s' a"
proof -
  obtain s' where s': "rbt_erase_cached a s = Some s'" "rb_holds_cached s' (xs @ ys)" using rbt_erase_cached_holds [OF h] by blast
  moreover have "a \<notin> set (xs @ ys)" using rb_holds_distinct h by (fastforce simp: rb_holds_cached_def)
  moreover have "rb_leftmost (set_pc a w s') = rb_leftmost s'" for w by (simp add: set_pc_def)
  ultimately show ?thesis
    by (simp add: remove_node_erase RBT_CLEAR_NODE_def RBT_EMPTY_NODE_def rb_holds_set_pc rb_holds_cached_def)
qed

lemma first_filter_split:
  assumes "distinct xs" "0 \<notin> set xs" and "first_of (filter P xs) = a" "a \<noteq> 0"
  shows "\<exists>us vs. xs = us @ a # vs \<and> remove1 a xs = us @ vs \<and> P a"
proof -
  have "a \<in> set (filter P xs)" using assms(3,4) by (cases "filter P xs") auto
  then have "a \<in> set xs" "P a" by auto
  moreover from this obtain us vs where "xs = us @ a # vs" "a \<notin> set us" using split_list_first by fast
  ultimately show ?thesis by (auto simp: remove1_append)
qed

context rb_keys
begin

lemma remove:
  assumes h: "rb_holds s xs" "cmp_order cmp xs"
  shows "let a = first_of (filter (\<lambda>y. ck y k = 0) xs) in
    if a = 0 then rbtree_remove ck cmp k s = Some (0, s)
    else \<exists>s'. rbtree_remove ck cmp k s = Some (a, s') \<and> rb_holds s' (remove1 a xs) \<and> RBT_EMPTY_NODE s' a \<and> rb_frame (set xs) s s'"
proof -
  let ?a = "first_of (filter (\<lambda>y. ck y k = 0) xs)"
  note lf = lookup_first [OF h, of k]
  show ?thesis
  proof (cases "?a = 0")
    case True
    then show ?thesis using remove_erase(1) [OF lf] by simp
  next
    case False
    then obtain us vs where x: "xs = us @ ?a # vs" "remove1 ?a xs = us @ vs"
      using first_filter_split [of xs "\<lambda>y. ck y k = 0" ?a] rb_holds_distinct [OF h(1)] by blast
    have "rb_holds s (us @ ?a # vs)" using h(1) x(1) by simp
    from remove_node_holds [OF this] show ?thesis using remove_erase(1) [OF lf] False unfolding x(1) [symmetric] x(2) [symmetric] by auto
  qed
qed

end

section \<open>Postorder\<close>

partial_function (option) rb_left_deepest_node :: "rb_store \<Rightarrow> rb_ptr \<Rightarrow> rb_ptr option" where
  "rb_left_deepest_node s node =
     (if rb_left s node \<noteq> 0 then rb_left_deepest_node s (rb_left s node)
      else if rb_right s node \<noteq> 0 then rb_left_deepest_node s (rb_right s node)
      else Some node)"

definition rbt_next_postorder :: "rb_store \<Rightarrow> rb_ptr \<Rightarrow> rb_ptr option" where
  "rbt_next_postorder s node =
     (if node = 0 then Some 0
      else let parent = rbt_parent s node in
        if parent \<noteq> 0 \<and> node = rb_left s parent \<and> rb_right s parent \<noteq> 0 then rb_left_deepest_node s (rb_right s parent)
        else Some parent)"

definition rbt_first_postorder :: "rb_store \<Rightarrow> rb_ptr option" where
  "rbt_first_postorder s = (if rb_node s = 0 then Some 0 else rb_left_deepest_node s (rb_node s))"

fun post :: "'a rb_tree \<Rightarrow> 'a list" where
  "post Leaf = []" | "post (Node l (a, c) r) = post l @ post r @ [a]"

fun post_after :: "'a frame list \<Rightarrow> 'a list" where
  "post_after [] = []" | "post_after (FL c a r # fs) = post r @ a # post_after fs" | "post_after (FR l c a # fs) = a # post_after fs"

fun post_before :: "'a frame list \<Rightarrow> 'a list" where
  "post_before [] = []" | "post_before (FL c a r # fs) = post_before fs" | "post_before (FR l c a # fs) = post_before fs @ post l"

lemma post_plug: "post (plug fs t) = post_before fs @ post t @ post_after fs"
proof (induction fs t rule: plug.induct)
  case (2 f fs t)
  then show ?case by (cases f) auto
qed simp

lemma post_nil [simp]: "post t = [] \<longleftrightarrow> t = Leaf"
  by (cases t rule: red.cases) auto

lemma set_post: "set (post t) = set (keys t)" "distinct (post t) \<longleftrightarrow> distinct (keys t)"
proof -
  show s: "set (post t) = set (keys t)" for t :: "'a rb_tree" by (induction t rule: post.induct) auto
  show "distinct (post t) \<longleftrightarrow> distinct (keys t)" by (induction t rule: post.induct) (auto simp: s)
qed

lemma rb_left_deepest_at: "tr s p x t \<Longrightarrow> t \<noteq> Leaf \<Longrightarrow> rb_left_deepest_node s x = Some (first_of (post t))"
proof (induction t arbitrary: p x rule: post.induct)
  case (2 l a c r)
  then have x: "x = a" and l: "tr s a (rb_left s a) l" and r: "tr s a (rb_right s a) r" by auto
  have "rb_left s a = 0 \<longleftrightarrow> l = Leaf" "rb_right s a = 0 \<longleftrightarrow> r = Leaf" using l r top_0 [OF l] top_0 [OF r] tr_top [OF l] tr_top [OF r] by auto
  then show ?case using 2(1) [OF l] 2(2) [OF r] x by (subst rb_left_deepest_node.simps) (auto simp: first_of_append)
qed simp

lemma rbt_next_postorder_at:
  assumes r: "rep_at s fs (Node l (a, c) r)"
  shows "rbt_next_postorder s a = Some (first_of (post_after fs))"
proof -
  let ?t = "Node l (a, c) r"
  have p: "rbt_parent s a = cpar fs" "a \<noteq> 0" using rep_at_top_parent [OF r] r by (auto simp: rep_at_def)
  show ?thesis
  proof (cases fs rule: cpar.cases)
    case 1
    then show ?thesis using p by (simp add: rbt_next_postorder_def)
  next
    case (2 c' b r' gs)
    have b: "b \<noteq> 0" "rb_left s b = a" and r': "tr s b (rb_right s b) r'" using r 2 by (auto simp: rep_at_def)
    have "rb_right s b = 0 \<longleftrightarrow> r' = Leaf" using top_0 [OF r'] tr_top [OF r'] by simp
    then show ?thesis using p b 2 rb_left_deepest_at [OF r'] by (auto simp: rbt_next_postorder_def Let_def first_of_append)
  next
    case (3 l' c' b gs)
    have b: "b \<noteq> 0" "tr s b (rb_left s b) l'" "a \<notin> set (keys l')" using r 3 by (auto simp: rep_at_def)
    then have "rb_left s b \<noteq> a" using tr_child [OF b(2)] p(2) by auto
    then show ?thesis using p b 3 by (simp add: rbt_next_postorder_def Let_def)
  qed
qed

text \<open>The walk from the first node to the last by a step function.\<close>

fun rb_walk :: "nat \<Rightarrow> (rb_ptr \<Rightarrow> rb_ptr option) \<Rightarrow> rb_ptr \<Rightarrow> rb_ptr list option" where
  "rb_walk k step n =
     (if n = 0 then Some []
      else case k of 0 \<Rightarrow> None | Suc k \<Rightarrow>
        Option.bind (step n) (\<lambda>m. map_option ((#) n) (rb_walk k step m)))"

declare rb_walk.simps [simp del]

lemma rb_walk_all:
  "(\<And>us a vs. xs = us @ a # vs \<Longrightarrow> step a = Some (first_of vs)) \<Longrightarrow> 0 \<notin> set xs \<Longrightarrow> k \<ge> length xs \<Longrightarrow> rb_walk k step (first_of xs) = Some xs"
proof (induction xs arbitrary: k)
  case Nil
  then show ?case by (simp add: rb_walk.simps)
next
  case (Cons x xs)
  obtain j where k: "k = Suc j" "j \<ge> length xs" using Cons.prems(3) by (cases k) auto
  have "step a = Some (first_of vs)" if "xs = us @ a # vs" for us a vs using Cons.prems(1) [of "x # us" a vs] that by simp
  then have "rb_walk j step (first_of xs) = Some xs" using Cons.IH [of j] Cons.prems(2) k(2) by simp
  then show ?case using Cons.prems(1) [of "[]" x xs] Cons.prems(2) k(1) by (subst rb_walk.simps) simp
qed

lemma rbt_first_postorder_at: "rb_rep s t \<Longrightarrow> rbt_first_postorder s = Some (first_of (post t))"
  using rb_left_deepest_at [of s 0 "rb_node s" t] top_0 [of s 0 "rb_node s" t] tr_top [of s 0 "rb_node s" t]
  by (cases "t = Leaf") (auto simp: rb_rep_def rbt_first_postorder_def)

lemma rbt_next_postorder_holds:
  assumes t: "rb_rep s t" and p: "post t = us @ a # vs"
  shows "rbt_next_postorder s a = Some (first_of vs)"
proof -
  have "a \<in> set (keys t)" using p set_post(1) [of t] by auto
  then obtain fs l c r where pl: "t = plug fs (Node l (a, c) r)" using tree_plug by metis
  have d: "distinct (us @ a # vs)" using t p set_post(2) [of t] by (simp add: rb_rep_def)
  have "us @ a # vs = (post_before fs @ post l @ post r) @ a # post_after fs" using p pl by (simp add: post_plug)
  then have "post_after fs = vs" using split_unique [OF d] by blast
  then show ?thesis using rbt_next_postorder_at [of s fs l a c r] t pl by (simp add: rb_rep_plug)
qed

section \<open>A comparison of the library\<close>

text \<open>\<open>leak_cmpkey\<close> and \<open>leak_cmpnode\<close> of \<open>src/mm/slab.c\<close>; \<open>addr\<close> reads the address field of the structure around a node.\<close>

definition leak_cmpkey :: "(rb_ptr \<Rightarrow> u64) \<Rightarrow> rb_ptr \<Rightarrow> u64 \<Rightarrow> int" where
  "leak_cmpkey addr p k = (if addr p = k then 0 else if addr p > k then 1 else -1)"

definition leak_cmpnode :: "(rb_ptr \<Rightarrow> u64) \<Rightarrow> rb_ptr \<Rightarrow> rb_ptr \<Rightarrow> int" where
  "leak_cmpnode addr old new = (if addr old = addr new then 0 else if addr old > addr new then 1 else -1)"

interpretation leak: rb_keys "leak_cmpnode addr" "leak_cmpkey addr" for addr
  by unfold_locales (auto simp: leak_cmpnode_def leak_cmpkey_def split: if_splits)

section \<open>Insertion with the first node cached\<close>

context rb_cmp
begin

lemma multi_cached:
  assumes "rb_holds_cached s xs" "cmp_order cmp xs" and "node \<notin> set xs" "node \<noteq> 0" "aligned node"
  shows "\<exists>s'. rbtree_multi_insert_node_cached cmp node s = Some s' \<and> rb_holds_cached s' (cmp_place cmp node xs)"
  using ord.insert_multi_cached [OF assms, of cmp] by (auto simp: rbtree_multi_insert_node_cached_def)

lemma place_order: "cmp_order cmp xs \<Longrightarrow> cmp_order cmp (cmp_place cmp node xs)"
  by (rule ord.place_in_order)

lemma unique_cached:
  assumes h: "rb_holds_cached s xs" "cmp_order cmp xs" and n: "node \<notin> set xs" "node \<noteq> 0" "aligned node"
  shows "if \<exists>a\<in>set xs. cmp a node = 0
    then \<exists>a\<in>set xs. cmp a node = 0 \<and> rbtree_insert_node_cached cmp node s = Some (a, s)
    else \<exists>s'. rbtree_insert_node_cached cmp node s = Some (0, s') \<and> rb_holds_cached s' (cmp_place cmp node xs)"
proof -
  have h': "rb_holds s xs" "rb_leftmost s = first_of xs" using h(1) by (auto simp: rb_holds_cached_def)
  note u = insert_unique [OF h'(1) h(2) n, of True, folded rbtree_insert_node_cached_def]
  show ?thesis
  proof (cases "\<exists>a\<in>set xs. cmp a node = 0")
    case True
    then show ?thesis using u by simp
  next
    case False
    then obtain s' where s': "rbtree_insert_node_cached cmp node s = Some (0, s')" "rb_holds s' (cmp_place cmp node xs)"
        "rb_frame (insert node (set xs)) (if first_of (cmp_place cmp node xs) = node then s\<lparr>rb_leftmost := node\<rparr> else s) s'"
      using u by auto
    have "first_of xs = first_of (cmp_place cmp node xs)" if "first_of (cmp_place cmp node xs) \<noteq> node"
      using that by (cases xs) (auto simp: place_def)
    then have "rb_leftmost s' = first_of (cmp_place cmp node xs)" using s'(3) h'(2) by (auto simp: rb_frame_def split: if_splits)
    then show ?thesis using False s' by (auto simp: rb_holds_cached_def)
  qed
qed

end

section \<open>Properties\<close>

text \<open>C4: In a tree that is kept with its first node cached, the insertion of a node that is in no tree returns, keeps the red-black properties, the parent
  pointers and the order of the comparison, puts the node behind every node that does not compare greater, and keeps the cached first node right.  With unique keys a node of equal key is returned and nothing changes.\<close>

theorem rbtree_insert_keeps_tree:
  assumes "rb_cmp cmp" and "rb_holds_cached s xs" "cmp_order cmp xs" and "node \<notin> set xs" "node \<noteq> 0" "aligned node"
  shows "(\<exists>s'. rbtree_multi_insert_node_cached cmp node s = Some s' \<and> rb_holds_cached s' (cmp_place cmp node xs)) \<and>
    (if \<exists>a\<in>set xs. cmp a node = 0
     then \<exists>a\<in>set xs. cmp a node = 0 \<and> rbtree_insert_node_cached cmp node s = Some (a, s)
     else \<exists>s'. rbtree_insert_node_cached cmp node s = Some (0, s') \<and> rb_holds_cached s' (cmp_place cmp node xs)) \<and>
    cmp_order cmp (cmp_place cmp node xs)"
  using rb_cmp.multi_cached [OF assms] rb_cmp.unique_cached [OF assms] rb_cmp.place_order [OF assms(1,3)] by blast

definition empty_store :: rb_store where
  "empty_store = \<lparr>rb_parent_color = \<lambda>_. 0, rb_right = \<lambda>_. 0, rb_left = \<lambda>_. 0, rb_node = 0, rb_leftmost = 0\<rparr>"

theorem rbtree_insert_keeps_tree_witness:
  "(\<exists>s'. rbtree_multi_insert_node_cached (leak_cmpnode id) 8 (rbtree_init empty_store) = Some s' \<and> rb_holds_cached s' [8]) \<and>
   (\<exists>s'. rbtree_insert_node_cached (leak_cmpnode id) 8 (rbtree_init empty_store) = Some (0, s') \<and> rb_holds_cached s' [8])"
  using rbtree_insert_keeps_tree [OF leak.rb_cmp_axioms [of id] conjunct2 [OF rb_holds_init [of empty_store]], of 8]
  by (simp add: in_order_def place_def aligned_def)

text \<open>C5: In a tree in the order of the comparison, the lookups of a key find the first and the last node with that key, or none; removing by key
  takes out exactly the first one, marks it as being in no tree, keeps the red-black properties and the order, and writes no node outside the tree.\<close>

theorem rbtree_remove_first_equal:
  assumes "rb_keys cmp ck" and "rb_holds s xs" "cmp_order cmp xs"
  shows "rbtree_lookup_first ck cmp k s = Some (first_of (filter (\<lambda>y. ck y k = 0) xs)) \<and>
    rbtree_lookup_last ck cmp k s = Some (first_of (rev (filter (\<lambda>y. ck y k = 0) xs))) \<and>
    (let a = first_of (filter (\<lambda>y. ck y k = 0) xs) in
     if a = 0 then rbtree_remove ck cmp k s = Some (0, s)
     else \<exists>s'. rbtree_remove ck cmp k s = Some (a, s') \<and> rb_holds s' (remove1 a xs) \<and> cmp_order cmp (remove1 a xs) \<and>
       RBT_EMPTY_NODE s' a \<and> rb_frame (set xs) s s')"
proof -
  have "cmp_order cmp (remove1 a xs)" for a
    using assms(3) by (induction xs) (auto simp: in_order_def dest: notin_set_remove1)
  then show ?thesis
    using rb_keys.lookup_first [OF assms, of k] rb_keys.lookup_last [OF assms, of k] rb_keys.remove [OF assms, of k] by (simp add: Let_def)
qed

definition one_node :: rb_store where
  "one_node = \<lparr>rb_parent_color = \<lambda>_. 1, rb_right = \<lambda>_. 0, rb_left = \<lambda>_. 0, rb_node = 8, rb_leftmost = 8\<rparr>"

lemma one_node_holds: "rb_holds one_node [8]"
proof -
  have "rb_rep one_node (Node Leaf (8, RB_BLACK) Leaf)" by (simp add: rb_rep_def one_node_def pcw_def aligned_def)
  moreover have "rb_inv (Node Leaf (8 :: rb_ptr, RB_BLACK) Leaf)" by (auto simp: rb_inv_def intro: exI [of _ 1])
  ultimately show ?thesis unfolding rb_holds_def by (intro exI [of _ "Node Leaf (8, RB_BLACK) Leaf"]) simp
qed

theorem rbtree_remove_first_equal_witness:
  "rbtree_lookup_first (leak_cmpkey id) (leak_cmpnode id) 8 one_node = Some 8 \<and>
   (\<exists>s'. rbtree_remove (leak_cmpkey id) (leak_cmpnode id) 8 one_node = Some (8, s') \<and> rb_holds s' [])"
  using rbtree_remove_first_equal [OF leak.rb_keys_axioms [of id] one_node_holds, of 8]
  by (auto simp: in_order_def leak_cmpkey_def)

lemma rb_inv_plug_rename: "rb_inv (plug fs (Node l (a, c) r)) \<Longrightarrow> rb_inv (plug fs (Node l (m, c) r))"
proof -
  have "rb_sub h (Node l (a, c) r) = rb_sub h (Node l (m, c) r)" for h by (cases c) simp_all
  then show "rb_inv (plug fs (Node l (a, c) r)) \<Longrightarrow> rb_inv (plug fs (Node l (m, c) r))" by (simp add: rb_inv_plug rb_at_def)
qed

lemma rbt_replace_node_holds:
  assumes h: "rb_holds s (xs @ a # ys)" and m: "m \<notin> set (xs @ a # ys)" "m \<noteq> 0" "aligned m"
  shows "rb_holds (rbt_replace_node a m s) (xs @ m # ys)"
proof (rule rb_holds_at [OF h])
  fix fs l c r
  assume r: "rep_at s fs (Node l (a, c) r)" "rb_inv (plug fs (Node l (a, c) r))" "keys (plug fs (Node l (a, c) r)) = xs @ a # ys"
    and k: "keys_before fs @ keys l = xs" "keys r @ keys_after fs = ys"
  let ?t = "plug fs (Node l (m, c) r)"
  have "rep_at (rbt_replace_node a m s) fs (Node l (m, c) r)" using rbt_replace_node_at [OF r(1)] m r(3) by simp
  moreover have "rb_inv ?t" by (rule rb_inv_plug_rename [OF r(2)])
  moreover have "keys ?t = xs @ m # ys" using k by (auto simp: keys_plug)
  ultimately show ?thesis unfolding rb_holds_def rb_rep_plug [symmetric] by blast
qed

lemma rbt_replace_node_cached_holds:
  assumes h: "rb_holds_cached s (xs @ a # ys)" and m: "m \<notin> set (xs @ a # ys)" "m \<noteq> 0" "aligned m"
  shows "rb_holds_cached (rbt_replace_node_cached a m s) (xs @ m # ys)"
proof -
  have h': "rb_holds s (xs @ a # ys)" "rb_leftmost s = first_of (xs @ a # ys)" using h by (auto simp: rb_holds_cached_def)
  have lm: "rb_leftmost (rbt_replace_node a m s) = rb_leftmost s"
    by (simp add: rbt_replace_node_def Let_def rb_set_parent_def rb_change_child_def set_pc_def set_left_def set_right_def)
  have "a \<notin> set xs" using rb_holds_distinct [OF h'(1)] by auto
  then have "first_of (xs @ m # ys) = (if rb_leftmost s = a then m else rb_leftmost s)" using h'(2) by (cases xs) auto
  then show ?thesis using rbt_replace_node_holds [OF h'(1) m] lm by (auto simp: rbt_replace_node_cached_def rb_holds_cached_def Let_def)
qed

text \<open>C39: Walking a tree from the first node visits exactly its nodes, in order, and ends; the walk backwards and the one in postorder, every node behind its children, likewise.
  Replacing a node by one that is in no tree puts the new one in its place.\<close>

theorem rbt_walk_exact:
  assumes t: "rb_rep s t" "rb_inv t" and k: "k \<ge> length (keys t)"
  shows "Option.bind (rbt_first s) (rb_walk k (rbt_next s)) = Some (keys t) \<and>
    Option.bind (rbt_last s) (rb_walk k (rbt_prev s)) = Some (rev (keys t)) \<and>
    Option.bind (rbt_first_postorder s) (rb_walk k (rbt_next_postorder s)) = Some (post t) \<and>
    (\<forall>us a vs m. keys t = us @ a # vs \<and> m \<notin> set (keys t) \<and> m \<noteq> 0 \<and> aligned m \<longrightarrow> rb_holds (rbt_replace_node a m s) (us @ m # vs))"
proof (intro conjI allI impI)
  have h: "rb_holds s (keys t)" using t by (auto simp: rb_holds_def)
  have z: "0 \<notin> set (keys t)" using rb_holds_distinct [OF h] by simp
  have "rbt_next s a = Some (first_of vs)" if "keys t = us @ a # vs" for us a vs using rbt_next_holds h that by metis
  then show "Option.bind (rbt_first s) (rb_walk k (rbt_next s)) = Some (keys t)"
    using rb_walk_all [of "keys t" "rbt_next s" k] z k rbt_first_at [OF t(1)] by simp
  have "rbt_prev s a = Some (first_of vs)" if "rev (keys t) = us @ a # vs" for us a vs
  proof -
    have "keys t = rev vs @ a # rev us" using that by (metis append.assoc append_Cons append_Nil rev.simps(2) rev_append rev_rev_ident)
    then show ?thesis using rbt_prev_holds [of s "rev vs" a "rev us"] h by simp
  qed
  then show "Option.bind (rbt_last s) (rb_walk k (rbt_prev s)) = Some (rev (keys t))"
    using rb_walk_all [of "rev (keys t)" "rbt_prev s" k] z k rbt_last_at [OF t(1)] by simp
  have "length (post t) = length (keys t)" by (induction t rule: post.induct) auto
  then show "Option.bind (rbt_first_postorder s) (rb_walk k (rbt_next_postorder s)) = Some (post t)"
    using rb_walk_all [of "post t" "rbt_next_postorder s" k] rbt_next_postorder_holds [OF t(1)] z k rbt_first_postorder_at [OF t(1)]
    by (simp add: set_post)
  show "rb_holds (rbt_replace_node a m s) (us @ m # vs)"
    if "keys t = us @ a # vs \<and> m \<notin> set (keys t) \<and> m \<noteq> 0 \<and> aligned m" for us a vs m
    using rbt_replace_node_holds [of s us a vs m] h that by auto
qed

theorem rbt_walk_exact_witness:
  "Option.bind (rbt_first one_node) (rb_walk 1 (rbt_next one_node)) = Some [8] \<and>
   Option.bind (rbt_first_postorder one_node) (rb_walk 1 (rbt_next_postorder one_node)) = Some [8]"
proof -
  let ?t = "Node Leaf (8 :: rb_ptr, RB_BLACK) Leaf"
  have "rb_rep one_node ?t" by (simp add: rb_rep_def one_node_def pcw_def aligned_def)
  moreover have "rb_inv ?t" by (auto simp: rb_inv_def intro: exI [of _ 1])
  ultimately show ?thesis using rbt_walk_exact [of one_node ?t 1] by simp
qed

end
