(* ===== verification/Rb_Heap.thy ===== *)
theory Rb_Heap
  imports Rb_Ops
begin

text \<open>
  \<open>src/adt/heap.c\<close> and \<open>include/skp/adt/heap.h\<close>: heaps on red-black trees with a cached first node, and the heaps of signed integers, which
  refine a stable priority queue.
\<close>

section \<open>Operations\<close>

text \<open>\<open>compare_node existed node\<close> says that the search goes left.  A node of a heap starts with its tree node, so both have the same address.\<close>

partial_function (option) heap_search ::
  "(rb_ptr \<Rightarrow> rb_ptr \<Rightarrow> bool) \<Rightarrow> rb_ptr \<Rightarrow> rb_store \<Rightarrow> rb_link \<Rightarrow> rb_ptr \<Rightarrow> bool \<Rightarrow> (rb_ptr \<times> rb_link \<times> bool) option" where
  "heap_search compare_node node s pnode parent leftmost =
     (if read_link s pnode \<noteq> 0 then
        (let parent = read_link s pnode in
         if compare_node parent node then heap_search compare_node node s (LeftLink parent) parent leftmost
         else heap_search compare_node node s (RightLink parent) parent False)
      else Some (parent, pnode, leftmost))"

definition heap_insert :: "(rb_ptr \<Rightarrow> rb_ptr \<Rightarrow> bool) \<Rightarrow> rb_ptr \<Rightarrow> rb_store \<Rightarrow> (bool \<times> rb_store) option" where
  "heap_insert compare_node node s =
     (case heap_search compare_node node s RootLink 0 True of
        None \<Rightarrow> None
      | Some (parent, pnode, leftmost) \<Rightarrow>
          map_option (Pair leftmost) (rbt_insert_color_cached node leftmost (rbt_link_node node parent pnode s)))"

definition heap_remove :: "rb_ptr \<Rightarrow> rb_store \<Rightarrow> rb_store option" where
  "heap_remove node s = map_option (RBT_CLEAR_NODE node) (rbt_erase_cached node s)"

definition heap_init :: "rb_store \<Rightarrow> rb_store" where
  "heap_init s = s\<lparr>rb_leftmost := 0, rb_node := 0\<rparr>"

definition heap_node_init :: "rb_ptr \<Rightarrow> rb_store \<Rightarrow> rb_store" where
  "heap_node_init n s = RBT_CLEAR_NODE n s"

definition heap_node_empty :: "rb_store \<Rightarrow> rb_ptr \<Rightarrow> bool" where
  "heap_node_empty s n \<longleftrightarrow> \<not> RBT_EMPTY_NODE s n"

definition heap_empty :: "rb_store \<Rightarrow> bool" where
  "heap_empty s \<longleftrightarrow> rb_node s = 0"

definition heap_peek :: "rb_store \<Rightarrow> rb_ptr" where
  "heap_peek s = (if rb_node s = 0 then 0 else rb_leftmost s)"

definition heap_extract :: "rb_store \<Rightarrow> (rb_ptr \<times> rb_store) option" where
  "heap_extract s =
     (let node = heap_peek s in
      if node \<noteq> 0 then map_option (Pair node) (heap_remove node s) else Some (node, s))"

text \<open>Heaps of signed 64-bit integers: the tree and the values of the nodes.\<close>

record iheap =
  iheap_root :: rb_store
  inode_value :: "rb_ptr \<Rightarrow> u64"

definition u_iheap_less :: "(rb_ptr \<Rightarrow> u64) \<Rightarrow> rb_ptr \<Rightarrow> rb_ptr \<Rightarrow> bool" where
  "u_iheap_less vals old new \<longleftrightarrow> sint (vals new) < sint (vals old)"

definition u_iheap_greate :: "(rb_ptr \<Rightarrow> u64) \<Rightarrow> rb_ptr \<Rightarrow> rb_ptr \<Rightarrow> bool" where
  "u_iheap_greate vals old new \<longleftrightarrow> sint (vals new) > sint (vals old)"

text \<open>The comparison of a heap made by \<open>maxiheap_init\<close> or by \<open>miniheap_init\<close>.\<close>

definition iheap_compare :: "bool \<Rightarrow> (rb_ptr \<Rightarrow> u64) \<Rightarrow> rb_ptr \<Rightarrow> rb_ptr \<Rightarrow> bool" where
  "iheap_compare maxi = (if maxi then u_iheap_greate else u_iheap_less)"

definition heap_inode_init :: "rb_ptr \<Rightarrow> u64 \<Rightarrow> iheap \<Rightarrow> iheap" where
  "heap_inode_init n v h = h\<lparr>iheap_root := heap_node_init n (iheap_root h), inode_value := (inode_value h)(n := v)\<rparr>"

definition iheap_insert :: "bool \<Rightarrow> rb_ptr \<Rightarrow> iheap \<Rightarrow> (bool \<times> iheap) option" where
  "iheap_insert maxi n h =
     map_option (\<lambda>(first, s). (first, h\<lparr>iheap_root := s\<rparr>)) (heap_insert (iheap_compare maxi (inode_value h)) n (iheap_root h))"

definition iheap_remove :: "rb_ptr \<Rightarrow> iheap \<Rightarrow> iheap option" where
  "iheap_remove n h = map_option (\<lambda>s. h\<lparr>iheap_root := s\<rparr>) (heap_remove n (iheap_root h))"

definition iheap_extract :: "iheap \<Rightarrow> (rb_ptr \<times> iheap) option" where
  "iheap_extract h = map_option (\<lambda>(n, s). (n, h\<lparr>iheap_root := s\<rparr>)) (heap_extract (iheap_root h))"

definition iheap_update :: "bool \<Rightarrow> rb_ptr \<Rightarrow> u64 \<Rightarrow> iheap \<Rightarrow> (bool \<times> iheap) option" where
  "iheap_update maxi n v h =
     Option.bind (iheap_remove n h) (\<lambda>h. iheap_insert maxi n (h\<lparr>inode_value := (inode_value h)(n := v)\<rparr>))"

section \<open>The tree operations on the list of nodes\<close>

lemma heap_search_at:
  assumes "rep_at s fs t"
  shows "heap_search cmp node s (link_of fs) (cpar fs) (keys_before fs = []) =
    (case ins_path (\<lambda>a. if cmp a node then 1 else - 1) True fs t of Inl a \<Rightarrow> None | Inr gs \<Rightarrow> Some (cpar gs, link_of gs, keys_before gs = []))"
  using assms
proof (induction t arbitrary: fs rule: keys.induct)
  case 1
  then show ?case using read_link_of [OF 1] by (subst heap_search.simps) simp
next
  case (2 l a c r)
  note rd = read_link_of [OF 2(3)]
  have "a \<noteq> 0" using 2(3) by (auto simp: rep_at_def)
  then show ?case
    using rd 2(1) [of "FL c a r # fs"] 2(2) [of "FR l c a # fs"] 2(3) by (subst heap_search.simps) (auto simp: Let_def rep_at_fill)
qed

text \<open>The insertion is the one of the generic tree with multiple keys.\<close>

lemma heap_insert_generic:
  assumes "rb_rep s t"
  shows "\<exists>gs. ins_path (\<lambda>a. if cmp a node then 1 else - 1) True [] t = Inr gs \<and>
    heap_insert cmp node s =
      map_option (\<lambda>(_, s). (keys_before gs = [], s)) (u_rbtree_insert_node (\<lambda>a n. if cmp a n then 1 else - 1) node True True s)"
proof -
  have r0: "rep_at s [] t" using assms rb_rep_plug [of s "[]" t] by simp
  let ?c = "\<lambda>a n. if cmp a n then 1 else (- 1 :: int)"
  have "ins_path (\<lambda>a. ?c a node) True [] t \<noteq> Inl a" for a using ins_path_found by blast
  then obtain gs where gs: "ins_path (\<lambda>a. ?c a node) True [] t = Inr gs" using obj_sumE by metis
  show ?thesis
    using heap_search_at [OF r0, of cmp node, simplified] rb_insert_search_at [OF r0, of ?c node True, simplified] gs
    by (intro exI [of _ gs])
       (simp add: heap_insert_def u_rbtree_insert_node_def rbt_insert_color_cached_def Let_def option.map_comp o_def)
qed

context rb_order
begin

lemma heap_insert_holds:
  assumes h: "rb_holds_cached s xs" "in_order after xs" and n: "node \<notin> set xs" "node \<noteq> 0" "aligned node"
  shows "\<exists>s'. heap_insert after node s = Some (first_of (place after node xs) = node, s') \<and> rb_holds_cached s' (place after node xs)"
proof -
  let ?c = "\<lambda>a n. if after a n then 1 else (- 1 :: int)"
  obtain t where t: "rb_rep s t" "keys t = xs" using h(1) by (auto simp: rb_holds_cached_def rb_holds_def)
  obtain gs where gs: "ins_path (\<lambda>a. ?c a node) True [] t = Inr gs"
      and hi: "heap_insert after node s = map_option (\<lambda>(_, s). (keys_before gs = [], s)) (u_rbtree_insert_node ?c node True True s)"
    using heap_insert_generic [OF t(1), of after node] by blast
  have c: "0 < ?c a node \<longleftrightarrow> after a node" for a by simp
  have o: "(\<forall>x\<in>set (keys_before gs). \<not> after x node) \<and> (\<forall>x\<in>set (keys_after gs). after x node)"
    using ins_path_order [OF gs c] h(2) t(2) by simp
  have x: "xs = keys_before gs @ keys_after gs" using ins_path_plug [OF gs] t(2) keys_plug [of gs Leaf] by simp
  have pl: "place after node xs = keys_before gs @ node # keys_after gs" using place_parts o unfolding x by blast
  have "keys_before gs = [] \<longleftrightarrow> first_of (place after node xs) = node" unfolding pl using n(1) x by (cases "keys_before gs") auto
  moreover obtain s' where "u_rbtree_insert_node ?c node True True s = Some (0, s')" "rb_holds_cached s' (place after node xs)"
    using insert_multi_cached [OF h n, of ?c] c by blast
  ultimately show ?thesis using hi by auto
qed

end

lemma heap_remove_holds:
  assumes "rb_holds_cached s (xs @ a # ys)"
  shows "\<exists>s'. heap_remove a s = Some s' \<and> rb_holds_cached s' (xs @ ys) \<and> RBT_EMPTY_NODE s' a"
  using remove_node_cached_holds [OF assms] by (simp add: heap_remove_def remove_node_erase)

lemma heap_peek_holds: "rb_holds_cached s xs \<Longrightarrow> heap_peek s = first_of xs"
proof -
  assume h: "rb_holds_cached s xs"
  then obtain t where t: "tr s 0 (rb_node s) t" "keys t = xs" by (auto simp: rb_holds_cached_def rb_holds_def rb_rep_def)
  have "rb_node s = 0 \<longleftrightarrow> t = Leaf" using tr_top [OF t(1)] top_0 [OF t(1)] by simp
  then show ?thesis using h t(2) by (auto simp: heap_peek_def rb_holds_cached_def)
qed

lemma heap_extract_holds:
  assumes h: "rb_holds_cached s xs"
  shows "\<exists>s'. heap_extract s = Some (first_of xs, s') \<and> rb_holds_cached s' (tl xs) \<and> (xs = [] \<longrightarrow> s' = s) \<and> (xs \<noteq> [] \<longrightarrow> RBT_EMPTY_NODE s' (first_of xs))"
proof (cases xs)
  case Nil
  then show ?thesis using h heap_peek_holds [OF h] by (simp add: heap_extract_def)
next
  case (Cons a ys)
  have "a \<noteq> 0" using h Cons rb_holds_distinct by (force simp: rb_holds_cached_def)
  then show ?thesis using heap_remove_holds [of s "[]" a ys] h Cons heap_peek_holds [OF h] by (auto simp: heap_extract_def)
qed

interpretation iless: rb_order "u_iheap_less vals" for vals
  by unfold_locales (auto simp: u_iheap_less_def)

interpretation igreate: rb_order "u_iheap_greate vals" for vals
  by unfold_locales (auto simp: u_iheap_greate_def)

interpretation icmp: rb_order "iheap_compare maxi vals" for maxi vals
  using iless.rb_order_axioms igreate.rb_order_axioms by (simp add: iheap_compare_def)

section \<open>Integer heaps as priority queues\<close>

text \<open>
  The specification: a list of nodes with their values, smallest rank first, equal ones in the order of their insertion.
\<close>

definition rank :: "bool \<Rightarrow> u64 \<Rightarrow> int" where
  "rank maxi v = (if maxi then - sint v else sint v)"

type_synonym pq = "(rb_ptr \<times> u64) list"

definition pq_insert :: "bool \<Rightarrow> rb_ptr \<Rightarrow> u64 \<Rightarrow> pq \<Rightarrow> pq" where
  "pq_insert maxi n v q = takeWhile (\<lambda>(_, w). rank maxi w \<le> rank maxi v) q @ (n, v) # dropWhile (\<lambda>(_, w). rank maxi w \<le> rank maxi v) q"

datatype iheap_op = HInsert rb_ptr u64 | HRemove rb_ptr | HUpdate rb_ptr u64 | HExtract | HPeek

datatype iheap_result = RFirst bool | RNode rb_ptr | RDone

definition head_node :: "pq \<Rightarrow> rb_ptr" where
  "head_node q = first_of (map fst q)"

fun pq_step :: "bool \<Rightarrow> iheap_op \<Rightarrow> pq \<Rightarrow> iheap_result \<times> pq" where
  "pq_step maxi (HInsert n v) q = (let q = pq_insert maxi n v q in (RFirst (head_node q = n), q))"
| "pq_step maxi (HRemove n) q = (RDone, filter (\<lambda>(m, _). m \<noteq> n) q)"
| "pq_step maxi (HUpdate n v) q = (let q = pq_insert maxi n v (filter (\<lambda>(m, _). m \<noteq> n) q) in (RFirst (head_node q = n), q))"
| "pq_step maxi HExtract q = (RNode (head_node q), tl q)"
| "pq_step maxi HPeek q = (RNode (head_node q), q)"

text \<open>What a caller has to respect: only nodes outside the heap are inserted, only nodes of the heap removed or updated.\<close>

fun pq_legal :: "iheap_op \<Rightarrow> pq \<Rightarrow> bool" where
  "pq_legal (HInsert n v) q \<longleftrightarrow> n \<notin> fst ` set q \<and> n \<noteq> 0 \<and> aligned n"
| "pq_legal (HRemove n) q \<longleftrightarrow> n \<in> fst ` set q"
| "pq_legal (HUpdate n v) q \<longleftrightarrow> n \<in> fst ` set q"
| "pq_legal _ q \<longleftrightarrow> True"

fun iheap_step :: "bool \<Rightarrow> iheap_op \<Rightarrow> iheap \<Rightarrow> (iheap_result \<times> iheap) option" where
  "iheap_step maxi (HInsert n v) h = map_option (\<lambda>(b, h). (RFirst b, h)) (iheap_insert maxi n (heap_inode_init n v h))"
| "iheap_step maxi (HRemove n) h = map_option (Pair RDone) (iheap_remove n h)"
| "iheap_step maxi (HUpdate n v) h = map_option (\<lambda>(b, h). (RFirst b, h)) (iheap_update maxi n v h)"
| "iheap_step maxi HExtract h = map_option (\<lambda>(n, h). (RNode n, h)) (iheap_extract h)"
| "iheap_step maxi HPeek h = Some (RNode (heap_peek (iheap_root h)), h)"

fun pq_run :: "bool \<Rightarrow> iheap_op list \<Rightarrow> pq \<Rightarrow> iheap_result list \<times> pq" where
  "pq_run maxi [] q = ([], q)"
| "pq_run maxi (x # xs) q = (let (r, q) = pq_step maxi x q; (rs, q) = pq_run maxi xs q in (r # rs, q))"

fun pq_legals :: "bool \<Rightarrow> iheap_op list \<Rightarrow> pq \<Rightarrow> bool" where
  "pq_legals maxi [] q = True" | "pq_legals maxi (x # xs) q = (pq_legal x q \<and> pq_legals maxi xs (snd (pq_step maxi x q)))"

fun iheap_run :: "bool \<Rightarrow> iheap_op list \<Rightarrow> iheap \<Rightarrow> (iheap_result list \<times> iheap) option" where
  "iheap_run maxi [] h = Some ([], h)"
| "iheap_run maxi (x # xs) h =
     Option.bind (iheap_step maxi x h) (\<lambda>(r, h). map_option (\<lambda>(rs, h). (r # rs, h)) (iheap_run maxi xs h))"

text \<open>The abstraction: the nodes of the tree with their values.\<close>

definition iheap_is :: "bool \<Rightarrow> iheap \<Rightarrow> pq \<Rightarrow> bool" where
  "iheap_is maxi h q \<longleftrightarrow> (\<exists>xs. rb_holds_cached (iheap_root h) xs \<and> in_order (iheap_compare maxi (inode_value h)) xs \<and>
     q = map (\<lambda>n. (n, inode_value h n)) xs \<and> (\<forall>n\<in>set xs. aligned n))"

lemma compare_rank: "iheap_compare maxi vals x y \<longleftrightarrow> rank maxi (vals y) < rank maxi (vals x)"
  by (simp add: iheap_compare_def u_iheap_less_def u_iheap_greate_def rank_def)

lemma map_place:
  "map (\<lambda>n. (n, vals n)) (place (iheap_compare maxi vals) n xs) = pq_insert maxi n (vals n) (map (\<lambda>n. (n, vals n)) xs)"
  by (simp add: place_def pq_insert_def compare_rank takeWhile_map dropWhile_map o_def not_less)

lemma in_order_other:
  "n \<notin> set xs \<Longrightarrow> in_order (iheap_compare maxi (vals(n := v))) xs = in_order (iheap_compare maxi vals) xs"
  by (induction xs) (auto simp: in_order_def compare_rank)

lemma head_node_map [simp]: "head_node (map (\<lambda>n. (n, vals n)) xs) = first_of xs"
  by (simp add: head_node_def o_def)

lemma iheap_insert_is:
  assumes h: "rb_holds_cached (iheap_root h) xs" "in_order (iheap_compare maxi (inode_value h)) xs" "\<forall>m\<in>set xs. aligned m"
    and n: "n \<notin> set xs" "n \<noteq> 0" "aligned n" and q0: "map (\<lambda>m. (m, inode_value h m)) xs = q" and v: "inode_value h n = v"
  shows "\<exists>h'. iheap_insert maxi n h = Some (head_node (pq_insert maxi n v q) = n, h') \<and> iheap_is maxi h' (pq_insert maxi n v q)"
proof -
  let ?c = "iheap_compare maxi (inode_value h)"
  obtain s' where s': "heap_insert ?c n (iheap_root h) = Some (first_of (place ?c n xs) = n, s')" "rb_holds_cached s' (place ?c n xs)"
    using icmp.heap_insert_holds [OF h(1,2) n] by blast
  have q: "pq_insert maxi n v q = map (\<lambda>m. (m, inode_value h m)) (place ?c n xs)" unfolding map_place q0 v ..
  have "iheap_is maxi (h\<lparr>iheap_root := s'\<rparr>) (pq_insert maxi n v q)"
    unfolding iheap_is_def q using s'(2) icmp.place_in_order [OF h(2)] h(3) n(3) set_place [of ?c n xs] by (intro exI [of _ "place ?c n xs"]) simp
  moreover have "iheap_insert maxi n h = Some (head_node (pq_insert maxi n v q) = n, h\<lparr>iheap_root := s'\<rparr>)" using s'(1) by (simp add: iheap_insert_def q)
  ultimately show ?thesis by blast
qed

lemma rb_holds_cached_clear: "n \<notin> set xs \<Longrightarrow> rb_holds_cached (RBT_CLEAR_NODE n s) xs = rb_holds_cached s xs"
proof -
  have "rb_leftmost (set_pc n w s) = rb_leftmost s" for w by (simp add: set_pc_def)
  then show "n \<notin> set xs \<Longrightarrow> rb_holds_cached (RBT_CLEAR_NODE n s) xs = rb_holds_cached s xs"
    by (simp add: RBT_CLEAR_NODE_def rb_holds_cached_def rb_holds_set_pc)
qed

lemma map_filter_other:
  assumes "distinct (us @ n # vs)"
  shows "filter (\<lambda>(m, _). m \<noteq> n) (map (\<lambda>m. (m, vals m)) (us @ n # vs)) = map (\<lambda>m. (m, vals m)) (us @ vs)"
proof -
  have "filter ((\<lambda>(m, _). m \<noteq> n) \<circ> (\<lambda>m. (m, vals m))) xs = xs" if "n \<notin> set xs" for xs using that by (induction xs) auto
  then show ?thesis using assms by (simp add: filter_map)
qed

lemma in_order_remove: "in_order after (us @ n # vs) \<Longrightarrow> in_order after (us @ vs)"
  by (auto simp: in_order_def sorted_wrt_append)

lemma iheap_remove_is:
  assumes h: "rb_holds_cached (iheap_root h) (us @ n # vs)"
  shows "\<exists>s'. iheap_remove n h = Some (h\<lparr>iheap_root := s'\<rparr>) \<and> rb_holds_cached s' (us @ vs) \<and> RBT_EMPTY_NODE s' n"
  using heap_remove_holds [OF h] by (auto simp: iheap_remove_def)

lemma iheap_is_cases:
  assumes "iheap_is maxi h q" and "n \<in> fst ` set q"
  obtains us vs where "rb_holds_cached (iheap_root h) (us @ n # vs)" "in_order (iheap_compare maxi (inode_value h)) (us @ n # vs)"
    "q = map (\<lambda>m. (m, inode_value h m)) (us @ n # vs)" "\<forall>m\<in>set (us @ n # vs). aligned m" "distinct (us @ n # vs)" "n \<noteq> 0"
proof -
  obtain xs where x: "rb_holds_cached (iheap_root h) xs" "in_order (iheap_compare maxi (inode_value h)) xs"
     "q = map (\<lambda>n. (n, inode_value h n)) xs" "\<forall>n\<in>set xs. aligned n" using assms(1) by (auto simp: iheap_is_def)
  then obtain us vs where "xs = us @ n # vs" using assms(2) split_list by force
  then show thesis using that x rb_holds_distinct by (fastforce simp: rb_holds_cached_def)
qed

lemma iheap_step_refines:
  assumes h: "iheap_is maxi h q" and l: "pq_legal x q"
  shows "\<exists>h'. iheap_step maxi x h = Some (fst (pq_step maxi x q), h') \<and> iheap_is maxi h' (snd (pq_step maxi x q))"
proof (cases x)
  case (HInsert n v)
  obtain xs where x: "rb_holds_cached (iheap_root h) xs" "in_order (iheap_compare maxi (inode_value h)) xs"
     "q = map (\<lambda>n. (n, inode_value h n)) xs" "\<forall>n\<in>set xs. aligned n" using h by (auto simp: iheap_is_def)
  have n: "n \<notin> set xs" "n \<noteq> 0" "aligned n" using l HInsert x(3) by (auto simp: image_image)
  let ?h = "heap_inode_init n v h"
  have "map (\<lambda>m. (m, inode_value ?h m)) xs = q" using n(1) x(3) by (auto simp: heap_inode_init_def)
  moreover have "rb_holds_cached (iheap_root ?h) xs" "in_order (iheap_compare maxi (inode_value ?h)) xs" "inode_value ?h n = v"
    using x n by (simp_all add: heap_inode_init_def heap_node_init_def rb_holds_cached_clear in_order_other)
  ultimately show ?thesis using iheap_insert_is [of ?h xs maxi n q v] x(4) n HInsert by (auto simp: Let_def)
next
  case (HRemove n)
  then have "n \<in> fst ` set q" using l by simp
  then obtain us vs where x: "rb_holds_cached (iheap_root h) (us @ n # vs)" "in_order (iheap_compare maxi (inode_value h)) (us @ n # vs)"
    "q = map (\<lambda>m. (m, inode_value h m)) (us @ n # vs)" "\<forall>m\<in>set (us @ n # vs). aligned m" "distinct (us @ n # vs)" "n \<noteq> 0"
    by (rule iheap_is_cases [OF h])
  obtain s' where s': "iheap_remove n h = Some (h\<lparr>iheap_root := s'\<rparr>)" "rb_holds_cached s' (us @ vs)" using iheap_remove_is [OF x(1)] by blast
  have f: "filter (\<lambda>(m, _). m \<noteq> n) q = map (\<lambda>m. (m, inode_value h m)) (us @ vs)" unfolding x(3) by (rule map_filter_other [OF x(5)])
  have "iheap_is maxi (h\<lparr>iheap_root := s'\<rparr>) (map (\<lambda>m. (m, inode_value h m)) (us @ vs))"
    unfolding iheap_is_def using s'(2) in_order_remove [OF x(2)] x(4) by (intro exI [of _ "us @ vs"]) simp
  then show ?thesis using HRemove s'(1) f by simp
next
  case (HUpdate n v)
  then have "n \<in> fst ` set q" using l by simp
  then obtain us vs where x: "rb_holds_cached (iheap_root h) (us @ n # vs)" "in_order (iheap_compare maxi (inode_value h)) (us @ n # vs)"
    "q = map (\<lambda>m. (m, inode_value h m)) (us @ n # vs)" "\<forall>m\<in>set (us @ n # vs). aligned m" "distinct (us @ n # vs)" "n \<noteq> 0"
    by (rule iheap_is_cases [OF h])
  obtain s' where s': "iheap_remove n h = Some (h\<lparr>iheap_root := s'\<rparr>)" "rb_holds_cached s' (us @ vs)" using iheap_remove_is [OF x(1)] by blast
  have f: "filter (\<lambda>(m, _). m \<noteq> n) q = map (\<lambda>m. (m, inode_value h m)) (us @ vs)" unfolding x(3) by (rule map_filter_other [OF x(5)])
  let ?h = "h\<lparr>iheap_root := s', inode_value := (inode_value h)(n := v)\<rparr>"
  have n: "n \<notin> set (us @ vs)" using x(5) by auto
  have "map (\<lambda>m. (m, inode_value ?h m)) (us @ vs) = filter (\<lambda>(m, _). m \<noteq> n) q" unfolding f using n by auto
  moreover have "rb_holds_cached (iheap_root ?h) (us @ vs)" "in_order (iheap_compare maxi (inode_value ?h)) (us @ vs)" "inode_value ?h n = v"
    using s'(2) in_order_remove [OF x(2)] in_order_other [OF n, of maxi "inode_value h" v] by simp_all
  moreover have "\<forall>m\<in>set (us @ vs). aligned m" "aligned n" using x(4) by auto
  ultimately show ?thesis
    using iheap_insert_is [of ?h "us @ vs" maxi n "filter (\<lambda>(m, _). m \<noteq> n) q" v] s'(1) x(6) n HUpdate by (auto simp: iheap_update_def Let_def)
next
  case HExtract
  obtain xs where x: "rb_holds_cached (iheap_root h) xs" "in_order (iheap_compare maxi (inode_value h)) xs"
     "q = map (\<lambda>n. (n, inode_value h n)) xs" "\<forall>n\<in>set xs. aligned n" using h by (auto simp: iheap_is_def)
  obtain s' where s': "heap_extract (iheap_root h) = Some (first_of xs, s')" "rb_holds_cached s' (tl xs)" using heap_extract_holds [OF x(1)] by blast
  have "in_order (iheap_compare maxi (inode_value h)) (tl xs)" "\<forall>n\<in>set (tl xs). aligned n" using x(2,4) by (cases xs; auto simp: in_order_def)+
  then have "iheap_is maxi (h\<lparr>iheap_root := s'\<rparr>) (tl q)" unfolding iheap_is_def x(3) using s'(2) by (intro exI [of _ "tl xs"]) (simp add: map_tl)
  then show ?thesis using HExtract s'(1) x(3) by (simp add: iheap_extract_def)
next
  case HPeek
  then show ?thesis using h heap_peek_holds by (auto simp: iheap_is_def)
qed

text \<open>The elements are in the order of their ranks, so that the first one has the least.\<close>

definition pq_sorted :: "bool \<Rightarrow> pq \<Rightarrow> bool" where
  "pq_sorted maxi q \<longleftrightarrow> sorted_wrt (\<lambda>(_, v) (_, w). rank maxi v \<le> rank maxi w) q"

lemma iheap_is_sorted: "iheap_is maxi h q \<Longrightarrow> pq_sorted maxi q"
  by (auto simp: iheap_is_def in_order_def pq_sorted_def sorted_wrt_map compare_rank not_less)

definition empty_heap :: iheap where
  "empty_heap = \<lparr>iheap_root = heap_init empty_store, inode_value = \<lambda>_. 0\<rparr>"

text \<open>C10: Every sequence of calls on an integer heap, inserting nodes that are outside it and removing or updating nodes that are in it, returns
  what a stable priority queue returns: the node extracted or peeked at has the least value (the greatest in a maximum heap) and is the longest in the heap among those, and insertion tells whether
  the new node is now the first.\<close>

theorem iheap_refines_queue:
  assumes "iheap_is maxi h q" and "pq_legals maxi xs q"
  shows "\<exists>h'. iheap_run maxi xs h = Some (fst (pq_run maxi xs q), h') \<and> iheap_is maxi h' (snd (pq_run maxi xs q)) \<and>
    pq_sorted maxi (snd (pq_run maxi xs q))"
  using assms
proof (induction xs arbitrary: h q)
  case (Cons x xs)
  obtain h1 where h1: "iheap_step maxi x h = Some (fst (pq_step maxi x q), h1)" "iheap_is maxi h1 (snd (pq_step maxi x q))"
    using iheap_step_refines [OF Cons.prems(1)] Cons.prems(2) by auto
  then show ?case using Cons.IH [OF h1(2)] Cons.prems(2) by (auto simp: Let_def split_beta)
qed (simp add: iheap_is_sorted)

theorem iheap_refines_queue_witness:
  "\<exists>h'. iheap_run False [HInsert 8 5, HInsert 16 3, HInsert 24 5, HUpdate 16 7, HExtract, HExtract, HExtract, HExtract] empty_heap =
    Some ([RFirst True, RFirst True, RFirst False, RFirst False, RNode 8, RNode 24, RNode 16, RNode 0], h')"
proof -
  have "heap_init empty_store = rbtree_init empty_store" by (simp add: heap_init_def rbtree_init_def)
  then have "iheap_is False empty_heap []"
    using rb_holds_init [of empty_store] by (auto simp: iheap_is_def empty_heap_def in_order_def)
  moreover have "pq_legals False [HInsert 8 5, HInsert 16 3, HInsert 24 5, HUpdate 16 7, HExtract, HExtract, HExtract, HExtract] []"
    by (simp add: pq_insert_def rank_def aligned_def head_node_def Let_def)
  ultimately show ?thesis
    using iheap_refines_queue [of False empty_heap "[]" "[HInsert 8 5, HInsert 16 3, HInsert 24 5, HUpdate 16 7, HExtract, HExtract, HExtract, HExtract]"]
    by (simp add: pq_insert_def rank_def head_node_def Let_def) blast
qed

text \<open>\<open>heap_node_empty\<close> holds exactly while the node is in the heap.\<close>

lemma heap_node_empty_inverted:
  assumes "rb_holds s (xs @ n # ys)"
  shows "heap_node_empty s n \<and> (\<forall>s'. heap_remove n s = Some s' \<longrightarrow> \<not> heap_node_empty s' n)"
proof (rule rb_holds_at [OF assms])
  fix fs l c r assume "rep_at s fs (Node l (n, c) r)"
  then have "heap_node_empty s n" using not_empty_node by (simp add: heap_node_empty_def)
  moreover have "RBT_EMPTY_NODE s' n" if "heap_remove n s = Some s'" for s'
    using that by (auto simp: heap_remove_def RBT_CLEAR_NODE_def RBT_EMPTY_NODE_def)
  ultimately show ?thesis by (auto simp: heap_node_empty_def)
qed

end
