(* ===== verification/Leak_Check.thy ===== *)
theory Leak_Check
  imports Rb_Ops
begin

text \<open>
  The leak checker of \<open>src/mm/slab.c\<close> (\<open>SLAB_LEAK_CHECK\<close>): a red-black tree with a node for every address that is allocated and not freed.
  Its mutex makes the calls follow one another; the node comes from a cache of the slab allocator, which is an argument here.
\<close>

section \<open>Operations\<close>

record leak_state =
  leak_tree :: rb_store
  leak_addr :: "rb_ptr \<Rightarrow> u64"
  leak_file :: "rb_ptr \<Rightarrow> string"
  leak_line :: "rb_ptr \<Rightarrow> int"

datatype leak_result = Returned leak_state | Bug

text \<open>
  \<open>file\<close> is a string or NULL, \<open>ready\<close> says that the slab state has reached \<open>SLAB_COMP\<close>, and \<open>leakn\<close> is the node that
  \<open>alloc_leakn\<close> returns; its fields are written without a test, so that a null one is None, as a search in the tree
  that did not return would be.
\<close>

definition leak_insert :: "u64 \<Rightarrow> string option \<Rightarrow> int \<Rightarrow> bool \<Rightarrow> rb_ptr \<Rightarrow> leak_state \<Rightarrow> leak_result option" where
  "leak_insert p file line ready leakn st =
     (if p = 0 then Some (Returned st)
      else case file of None \<Rightarrow> Some (Returned st)
      | Some f \<Rightarrow>
          if \<not> ready then Some (Returned st)
          else if leakn = 0 then None
          else
            (let st = st\<lparr>leak_addr := (leak_addr st)(leakn := p), leak_file := (leak_file st)(leakn := f), leak_line := (leak_line st)(leakn := line)\<rparr> in
             case rbtree_insert_node (leak_cmpnode (leak_addr st)) leakn (leak_tree st) of
               None \<Rightarrow> None
             | Some (node, s) \<Rightarrow> Some (if node \<noteq> 0 then Bug else Returned (st\<lparr>leak_tree := s\<rparr>))))"

text \<open>The node that is given back to its cache comes with the state.\<close>

definition leak_remove :: "u64 \<Rightarrow> leak_state \<Rightarrow> (rb_ptr option \<times> leak_result) option" where
  "leak_remove p st =
     (if p = 0 then Some (None, Returned st)
      else case rbtree_remove (leak_cmpkey (leak_addr st)) (leak_cmpnode (leak_addr st)) p (leak_tree st) of
        None \<Rightarrow> None
      | Some (node, s) \<Rightarrow> Some (if node = 0 then (None, Bug) else (Some node, Returned (st\<lparr>leak_tree := s\<rparr>))))"

section \<open>The recorded allocations\<close>

text \<open>The nodes \<open>xs\<close> of the tree, in the order of the addresses they record, which are different.\<close>

definition leak_is :: "leak_state \<Rightarrow> rb_ptr list \<Rightarrow> bool" where
  "leak_is st xs \<longleftrightarrow> rb_holds (leak_tree st) xs \<and> cmp_order (leak_cmpnode (leak_addr st)) xs \<and> distinct (map (leak_addr st) xs)"

definition recorded :: "leak_state \<Rightarrow> rb_ptr list \<Rightarrow> u64 set" where
  "recorded st xs = leak_addr st ` set xs"

lemma distinct_map_place: "distinct (map f (place after n xs)) \<longleftrightarrow> f n \<notin> f ` set xs \<and> distinct (map f xs)"
proof -
  let ?P = "\<lambda>x. \<not> after x n"
  have x: "xs = takeWhile ?P xs @ dropWhile ?P xs" by simp
  have "distinct (map f (us @ n # vs)) \<longleftrightarrow> f n \<notin> f ` set (us @ vs) \<and> distinct (map f (us @ vs))" for us vs by auto
  then show ?thesis unfolding place_def using x by metis
qed

lemma leak_order_other: "n \<notin> set xs \<Longrightarrow> cmp_order (leak_cmpnode (ad(n := p))) xs = cmp_order (leak_cmpnode ad) xs"
  by (induction xs) (auto simp: in_order_def leak_cmpnode_def)

lemma leak_insert_exact:
  assumes h: "leak_is st xs" and n: "leakn \<notin> set xs" "leakn \<noteq> 0" "aligned leakn" and p: "p \<noteq> 0"
  shows "if p \<in> recorded st xs then leak_insert p (Some f) line True leakn st = Some Bug
    else \<exists>st' xs'. leak_insert p (Some f) line True leakn st = Some (Returned st') \<and> leak_is st' xs' \<and> recorded st' xs' = insert p (recorded st xs) \<and> set xs' = insert leakn (set xs)"
proof -
  let ?ad = "(leak_addr st)(leakn := p)"
  have o: "cmp_order (leak_cmpnode ?ad) xs" using h n(1) leak_order_other by (simp add: leak_is_def)
  have hs: "rb_holds (leak_tree st) xs" and d: "distinct (map (leak_addr st) xs)" using h by (simp_all add: leak_is_def)
  have eq: "(\<exists>a\<in>set xs. leak_cmpnode ?ad a leakn = 0) \<longleftrightarrow> p \<in> recorded st xs" using n(1) by (auto simp: leak_cmpnode_def recorded_def)
  note u = leak.insert_unique [OF hs o n, of False, folded rbtree_insert_node_def]
  show ?thesis
  proof (cases "p \<in> recorded st xs")
    case True
    then obtain a where "a \<in> set xs" "rbtree_insert_node (leak_cmpnode ?ad) leakn (leak_tree st) = Some (a, leak_tree st)" using u eq by auto
    moreover have "a \<noteq> 0" using calculation(1) rb_holds_distinct [OF hs] by auto
    ultimately show ?thesis using True p n(2) by (simp add: leak_insert_def Let_def)
  next
    case False
    let ?xs = "cmp_place (leak_cmpnode ?ad) leakn xs"
    obtain s' where s': "rbtree_insert_node (leak_cmpnode ?ad) leakn (leak_tree st) = Some (0, s')" "rb_holds s' ?xs" using u eq False by auto
    let ?st = "st\<lparr>leak_addr := ?ad, leak_file := (leak_file st)(leakn := f), leak_line := (leak_line st)(leakn := line), leak_tree := s'\<rparr>"
    have m: "map ?ad xs = map (leak_addr st) xs" "?ad ` set xs = leak_addr st ` set xs" using n(1) by auto
    have dm: "distinct (map ?ad xs)" unfolding m(1) by (rule d)
    have "leak_is ?st ?xs"
      using s'(2) leak.place_order [OF o] dm m(2) False by (simp add: leak_is_def distinct_map_place recorded_def)
    moreover have "recorded ?st ?xs = insert p (recorded st xs)" using n(1) by (auto simp: recorded_def set_place)
    moreover have "leak_insert p (Some f) line True leakn st = Some (Returned ?st)" using s'(1) p n(2) by (simp add: leak_insert_def Let_def)
    ultimately show ?thesis using False set_place [of _ leakn xs] by auto
  qed
qed

lemma leak_remove_exact:
  assumes h: "leak_is st xs" and p: "p \<noteq> 0"
  shows "if p \<in> recorded st xs
    then \<exists>n st' xs'. leak_remove p st = Some (Some n, Returned st') \<and> leak_addr st n = p \<and> leak_is st' xs' \<and> recorded st' xs' = recorded st xs - {p} \<and> set xs' = set xs - {n}
    else leak_remove p st = Some (None, Bug)"
proof -
  have hs: "rb_holds (leak_tree st) xs" and o: "cmp_order (leak_cmpnode (leak_addr st)) xs" and d: "distinct (map (leak_addr st) xs)"
    using h by (simp_all add: leak_is_def)
  let ?a = "first_of (filter (\<lambda>y. leak_cmpkey (leak_addr st) y p = 0) xs)"
  have z: "0 \<notin> set xs" using rb_holds_distinct [OF hs] by simp
  note r = leak.remove [OF hs o, of p]
  show ?thesis
  proof (cases "p \<in> recorded st xs")
    case True
    then obtain n where n: "n \<in> set xs" "leak_addr st n = p" by (auto simp: recorded_def)
    have "filter (\<lambda>y. leak_cmpkey (leak_addr st) y p = 0) xs = filter (\<lambda>y. y = n) xs"
      using d n by (intro filter_cong) (auto simp: leak_cmpkey_def distinct_map dest: inj_onD)
    moreover have "filter (\<lambda>y. y = n) xs \<noteq> []" using n(1) by (auto simp: filter_empty_conv)
    ultimately have a: "?a = n" by (cases "filter (\<lambda>y. y = n) xs") (auto dest: filter_eq_ConsD)
    have "n \<noteq> 0" using n(1) z by auto
    then obtain s' where s': "rbtree_remove (leak_cmpkey (leak_addr st)) (leak_cmpnode (leak_addr st)) p (leak_tree st) = Some (n, s')" "rb_holds s' (remove1 n xs)"
      using r a by (auto simp: Let_def)
    let ?st = "st\<lparr>leak_tree := s'\<rparr>"
    have dx: "distinct xs" "inj_on (leak_addr st) (set xs)" using d by (auto simp: distinct_map)
    have "cmp_order (leak_cmpnode (leak_addr st)) (remove1 n xs)" using o by (induction xs) (auto simp: in_order_def dest: notin_set_remove1)
    moreover have "distinct (map (leak_addr st) (remove1 n xs))" using dx by (auto simp: distinct_map intro: inj_on_subset)
    ultimately have "leak_is ?st (remove1 n xs)" using s'(2) by (simp add: leak_is_def)
    moreover have "recorded ?st (remove1 n xs) = recorded st xs - {p}" using dx n by (auto simp: recorded_def dest: inj_onD)
    moreover have "leak_remove p st = Some (Some n, Returned ?st)" using s'(1) p \<open>n \<noteq> 0\<close> by (simp add: leak_remove_def)
    ultimately show ?thesis using True n(2) dx(1) by auto
  next
    case False
    then have "filter (\<lambda>y. leak_cmpkey (leak_addr st) y p = 0) xs = []" by (auto simp: filter_empty_conv recorded_def leak_cmpkey_def)
    then show ?thesis using r False p by (simp add: leak_remove_def Let_def)
  qed
qed

text \<open>C40: The leak checker records exactly the allocations that are not freed: it stops the program exactly when an address is allocated that is recorded already, or one is
  freed that is not recorded, and the record stays a red-black tree with one node per address.\<close>

theorem leak_check_exact:
  assumes "leak_is st xs" and "p \<noteq> 0"
  shows "(\<forall>leakn f line. leakn \<notin> set xs \<and> leakn \<noteq> 0 \<and> aligned leakn \<longrightarrow>
      (if p \<in> recorded st xs then leak_insert p (Some f) line True leakn st = Some Bug
       else \<exists>st' xs'. leak_insert p (Some f) line True leakn st = Some (Returned st') \<and> leak_is st' xs' \<and>
         recorded st' xs' = insert p (recorded st xs) \<and> set xs' = insert leakn (set xs))) \<and>
    (if p \<in> recorded st xs
     then \<exists>n st' xs'. leak_remove p st = Some (Some n, Returned st') \<and> leak_addr st n = p \<and> leak_is st' xs' \<and>
       recorded st' xs' = recorded st xs - {p} \<and> set xs' = set xs - {n}
     else leak_remove p st = Some (None, Bug))"
  using leak_insert_exact [OF assms(1) _ _ _ assms(2)] leak_remove_exact [OF assms] by blast

theorem leak_check_exact_witness:
  "leak_remove 4096 \<lparr>leak_tree = rbtree_init empty_store, leak_addr = \<lambda>_. 0, leak_file = \<lambda>_. [], leak_line = \<lambda>_. 0\<rparr> = Some (None, Bug) \<and>
   (\<exists>st'. leak_insert 4096 (Some ''a.c'') 7 True 8 \<lparr>leak_tree = rbtree_init empty_store, leak_addr = \<lambda>_. 0, leak_file = \<lambda>_. [], leak_line = \<lambda>_. 0\<rparr> = Some (Returned st'))"
proof -
  let ?st = "\<lparr>leak_tree = rbtree_init empty_store, leak_addr = \<lambda>_. 0, leak_file = \<lambda>_. [], leak_line = \<lambda>_. 0\<rparr>"
  have "leak_is ?st []" using rb_holds_init [of empty_store] by (simp add: leak_is_def in_order_def)
  moreover have "(4096 :: u64) \<noteq> 0" by simp
  ultimately have c: "\<forall>leakn f line. leakn \<noteq> 0 \<and> aligned leakn \<longrightarrow> (\<exists>st'. leak_insert 4096 (Some f) line True leakn ?st = Some (Returned st') \<and>
        (\<exists>xs'. leak_is st' xs' \<and> recorded st' xs' = {4096} \<and> set xs' = {leakn}))"
      "leak_remove 4096 ?st = Some (None, Bug)"
    using leak_check_exact [of ?st "[]" 4096] by (simp_all add: recorded_def)
  have "(8 :: rb_ptr) \<noteq> 0 \<and> aligned 8" by (simp add: aligned_def)
  then show ?thesis using c by blast
qed

end
