(* ===== verification/Spec2Isabelle.thy ===== *)
theory Spec2Isabelle
  imports Bitmap Ring Vec Slist List_Head List_Sort Heap_Sort Uref Pbuff Idr Dict Rwlock Mutex Rwsem Rb_Heap Leak_Check
begin

text \<open>
  Verification of the skp library, a C runtime of containers, algorithms, buffers, locks and memory management.

  \<^bold>\<open>The program.\<close> \<open>src/utils\<close> holds what everything else rests on: bit operations, bitmaps, hash functions,
  reference counts, packet buffers and the locks.  \<open>src/adt\<close> and \<open>src/algorithm\<close> hold the containers and the sorting
  routines.  \<open>src/mm\<close> allocates memory, \<open>src/process\<close> runs threads, work queues and the event loop, and
  \<open>src/server\<close> speaks to the network.  The parts call each other as follows: the packet buffers keep a reference
  count for each data block; the bitmaps use the bit searches, the id allocators use the bitmaps and, for the
  pointers, the radix tree; the hash table uses the bit searches and the hash functions; the heap and the leak checker
  of the slab allocator use the red-black tree; the reader-writer lock, the mutex and the semaphore use the spin lock
  as the lock of their waiters, and the last two sleep on a futex.

  \<^bold>\<open>Conventions.\<close> The target is LP64 and the build is the one without the debug macros.  An \<open>unsigned int\<close> is a 32-bit
  word and an \<open>unsigned long\<close> a 64-bit word (\<open>u32\<close>, \<open>u64\<close>), and arithmetic on them wraps; indices of arrays that are not
  computed modulo a width are natural numbers.  A pointer structure is a store, a record of one function per
  field, and each operation is the sequence of its assignments.  \<open>None\<close> is a \<open>BUG_ON\<close>, a failed assertion, an access of
  memory that is not there, or a loop that does not end; an error code is the left part of a sum.  Memory
  allocation is an argument that says whether it succeeds.  Names are those of the sources; a leading \<open>__\<close> is
  written \<open>u_\<close>.

  \<^bold>\<open>The theories.\<close>
  \<^item> \<open>Skp_Prelude\<close>: machine types, error codes, collections of rewrite rules, and lemmas on lists and words.
  \<^item> \<open>Bitops\<close> (\<open>bitops.h\<close>) and \<open>Bitmap\<close> (\<open>bitmap.h\<close>, \<open>bitmap.c\<close>): arrays of words, with a bitmap standing for the set of
    its bits.  The word-wise routines are shown to be the set operations, the searches to find the first bit, the
    ranges, shifts and conversions to change exactly the bits they name.  Counts and sums have the 32 bits of the
    source; the sizes for which they wrap, and the word a right shift loses when the size is a multiple of 64, are
    part of the statements.
  \<^item> \<open>Fifo_Spec\<close> and \<open>Ring\<close> (\<open>ring.h\<close>, \<open>ring.c\<close>): the contract of a bounded queue as a locale, with its
    interpretation on the ring; the head and tail counters are 32-bit words that wrap.
  \<^item> \<open>Vec\<close> (\<open>vector.h\<close>, \<open>vector.c\<close>): elements in one block of bytes, with the 32-bit size arithmetic.
  \<^item> \<open>Slist\<close> (\<open>slist.h\<close>) and \<open>List_Head\<close> (\<open>list.h\<close>): linked lists in a store, refined to lists.
  \<^item> \<open>List_Sort\<close> (\<open>list_sort.c\<close>) and \<open>Heap_Sort\<close> (\<open>heap_sort.c\<close>): the results are sorted permutations, and the first
    is stable and leaves a well-linked list.  The counters of the heap sort are C \<open>int\<close>s: it is shown to return and to
    sort on arrays of up to \<open>2\<^sup>3\<^sup>0\<close> bytes.
  \<^item> \<open>Uref\<close> (\<open>uref.h\<close>) and \<open>Pbuff\<close> (\<open>pbuff.h\<close>, \<open>pbuff.c\<close>): counters, and buffers on shared blocks.  A step relation
    over all operations gives the invariant that the count of a block is the number of its buffers.  A block records
    its length in 32 bits, and its start is found from it: the runs are those whose blocks stay below 4 GiB, and a
    larger buffer is shown not to be releasable.  Whether \<open>__BIG_ENDIAN\<close> is defined, which decides what \<open>htonll\<close> and
    \<open>ntohll\<close> do, is a parameter of the 64-bit reads and writes.
  \<^item> \<open>Index_Map\<close>, \<open>Radix_Tree\<close> (\<open>radix_tree.c\<close>) and \<open>Idr\<close> (\<open>idr.h\<close>, \<open>idr.c\<close>): the contract of a map with fallible
    insertion as a locale, the tree as its interpretation, and the id allocators, whose pointer table is a client of it.
  \<^item> \<open>Hash\<close> (\<open>hash.h\<close>, \<open>hash.c\<close>): hash functions on bytes, and the checksum, which is division of polynomials.
  \<^item> \<open>Dict\<close> (\<open>dict.h\<close>, \<open>dict.c\<close>): two tables of chains with an incremental rehash, refined to a map.
  \<^item> \<open>Threads\<close>: threads that interleave atomic steps, reachable states, the contract of an exclusive lock as a
    locale, and the abstract lock.  \<open>Spinlock\<close> (\<open>spinlock.h\<close>, \<open>spinlock.c\<close>), \<open>Rwlock\<close> (\<open>rwlock.h\<close>, \<open>rwlock.c\<close>), \<open>Mutex\<close>
    (\<open>mutex.h\<close>, \<open>mutex.c\<close>) and \<open>Rwsem\<close> (\<open>rwsem.h\<close>, \<open>rwsem.c\<close>) interpret it; the last three use the abstract lock, which the
    spin lock refines.  Each is shown exclusive and free of deadlock and of lost wake-ups.
  \<^item> \<open>Rb_Zipper\<close>, \<open>Rbtree\<close>, \<open>Rb_Erase\<close> and \<open>Rb_Ops\<close> (\<open>rbtree.h\<close>, \<open>rbtree.c\<close>): trees as values with the place a loop has
    reached, the store of nodes and insertion, removal, and the generic trees with callbacks and their walks.  The
    requirements on the callbacks are the locales \<open>rb_order\<close>, \<open>rb_cmp\<close> and \<open>rb_keys\<close>.
  \<^item> \<open>Rb_Heap\<close> (\<open>heap.h\<close>, \<open>heap.c\<close>) and \<open>Leak_Check\<close> (the leak checker of \<open>slab.c\<close>): the two clients of the tree, which
    interpret these locales; the first is refined to a stable priority queue, the second to a finite map.

  \<^bold>\<open>Bounds and fuel.\<close> Loops are structural recursion, have a measure, or are partial functions on options; for
  the last, the properties state that they return.  The walks of a tree take a number of steps at least the
  number of nodes.  The reader-writer lock is verified for fewer than \<open>2\<^sup>2\<^sup>3\<close> threads, the number its counter has room
  for; the counters of wake-ups on which threads sleep are natural numbers, which is exact as long as a thread is not
  overtaken by \<open>2\<^sup>2\<^sup>8\<close> of them.  The memory of the locks is sequentially consistent.  The insertion into the radix tree
  needs at most 22 nodes, which its property states.  The limits of the heap sort and of the packet buffers are
  above; the depth of a recursive mutex is an integer, exact below \<open>2\<^sup>3\<^sup>1\<close> nested locks.

  \<^bold>\<open>Not modelled.\<close>
  \<^item> The zones over mapped memory, their page allocator and the slab caches, whose free lists are threaded through the
    objects themselves and whose layout depends on the addresses the system returns.
  \<^item> Work queues, the event loop, threads, signals, daemons, transports and sockets: they are sequences of system
    calls, and what they compute with is in the structures above.
  \<^item> Strings, files, logging, configuration and the layer for other systems: input and output.
  \<^item> The macros that generate hash tables for a type of the user, the sequence locks, and the bit locks.
  \<^item> The gang lookups and iterators of the radix tree, the list parser of the bitmaps, and the interleaving of several
    producers and consumers of a ring.
\<close>

end
